(* ===== verification/Amane_Prelude.thy ===== *)
theory Amane_Prelude
  imports Complex_Main "HOL-Library.Word"
begin

text \<open>
  Shared ground of the development: the names of the Go machine integers, byte
  buffers with the in-place writes the data plane performs on them, the fixed-width
  integer encodings of the standard library's \<open>encoding/binary\<close>, and the lemma
  collections the component theories use.

  A Go byte slice is a list of bytes; \<open>b[lo:hi]\<close> is \<open>gslice lo (hi - lo) b\<close> and
  \<open>copy(b[off:], src)\<close> within bounds is \<open>blit off src b\<close>. A fixed-size Go array
  \<open>[N]T\<close> that the code only indexes below \<open>N\<close> is a function from the index.
  A run-time panic is the value \<open>None\<close>.
\<close>

unbundle bit_operations_syntax

named_theorems wire_simps \<open>rewriting of reads from buffers that were just written\<close>
named_theorems go_defs \<open>definitions of a component that its proofs unfold together\<close>

section \<open>Types\<close>

type_synonym byte = "8 word"
type_synonym u16 = "16 word"
type_synonym u32 = "32 word"
type_synonym u64 = "64 word"
type_synonym bytes = "byte list"

text \<open>Arrays of a fixed size, indexed below their size only.\<close>

type_synonym 'a garray = "nat \<Rightarrow> 'a"

section \<open>Byte buffers\<close>

definition gslice :: "nat \<Rightarrow> nat \<Rightarrow> 'a list \<Rightarrow> 'a list" where
  "gslice off n b = take n (drop off b)"

definition blit :: "nat \<Rightarrow> 'a list \<Rightarrow> 'a list \<Rightarrow> 'a list" where
  "blit off s b = take off b @ s @ drop (off + length s) b"

lemma length_gslice [simp]: "length (gslice off n b) = min n (length b - off)"
  by (simp add: gslice_def)

lemma length_blit [simp]:
  "off + length s \<le> length b \<Longrightarrow> length (blit off s b) = length b"
  by (simp add: blit_def)

lemma gslice_nth:
  "i < n \<Longrightarrow> off + i < length b \<Longrightarrow> gslice off n b ! i = b ! (off + i)"
  by (simp add: gslice_def)

lemma blit_nth:
  assumes "off + length s \<le> length b" and "i < length b"
  shows "blit off s b ! i =
    (if i < off then b ! i else if i < off + length s then s ! (i - off) else b ! i)"
  using assms by (auto simp: blit_def nth_append min_def)

lemma gslice_blit_same [wire_simps]:
  "off + n \<le> length b \<Longrightarrow> n = length s \<Longrightarrow> gslice off n (blit off s b) = s"
  by (simp add: gslice_def blit_def)

lemma gslice_blit_below [wire_simps]:
  assumes "lo + n \<le> off" and "off + length s \<le> length b"
  shows "gslice lo n (blit off s b) = gslice lo n b"
proof (rule nth_equalityI)
  show "length (gslice lo n (blit off s b)) = length (gslice lo n b)"
    using assms by simp
  fix i assume "i < length (gslice lo n (blit off s b))"
  then show "gslice lo n (blit off s b) ! i = gslice lo n b ! i"
    using assms by (simp add: gslice_nth blit_nth)
qed

lemma gslice_blit_above [wire_simps]:
  "off + length s \<le> lo \<Longrightarrow> off + length s \<le> length b \<Longrightarrow> gslice lo n (blit off s b) = gslice lo n b"
  by (simp add: gslice_def blit_def)

lemma blit_nth_outside [wire_simps]:
  "off + length s \<le> length b \<Longrightarrow> i < off \<or> off + length s \<le> i \<Longrightarrow> i < length b \<Longrightarrow>
    blit off s b ! i = b ! i"
  by (auto simp: blit_nth)

lemma drop_blit_above [wire_simps]:
  "off + length s \<le> n \<Longrightarrow> off + length s \<le> length b \<Longrightarrow> drop n (blit off s b) = drop n b"
  by (simp add: blit_def)

lemma gslice_update_outside [wire_simps]:
  "i < lo \<or> lo + n \<le> i \<Longrightarrow> gslice lo n (b[i := x]) = gslice lo n b"
  unfolding gslice_def
  by (metis drop_update_cancel drop_update_swap leI le_add_diff_inverse nat_add_left_cancel_le
      take_update_cancel)

lemma drop_update_below [wire_simps]:
  "i < n \<Longrightarrow> drop n (b[i := x]) = drop n b"
  by simp

section \<open>Integer encodings of \<open>encoding/binary\<close>\<close>

text \<open>
  \<open>put_le n v\<close> is the sequence of bytes \<open>byte(v)\<close>, \<open>byte(v >> 8)\<close>, \dots; with
  \<open>n = 2, 4, 8\<close> it is \<open>LittleEndian.PutUint16/32/64\<close>, and with \<open>n = 6\<close> the
  48-bit sequence numbers the wire format writes byte by byte. \<open>get_le\<close> is the
  corresponding \<open>b[0] | b[1] << 8 | \<dots>\<close>. Big endian reverses the bytes.
\<close>

primrec put_le :: "nat \<Rightarrow> 'a::len word \<Rightarrow> bytes" where
  "put_le 0 v = []"
| "put_le (Suc n) v = ucast v # put_le n (drop_bit 8 v)"

primrec get_le :: "bytes \<Rightarrow> 'a::len word" where
  "get_le [] = 0"
| "get_le (b # bs) = ucast b OR push_bit 8 (get_le bs)"

definition put_be :: "nat \<Rightarrow> 'a::len word \<Rightarrow> bytes" where
  "put_be n v = rev (put_le n v)"

definition get_be :: "bytes \<Rightarrow> 'a::len word" where
  "get_be bs = get_le (rev bs)"

lemma length_put_le [simp]: "length (put_le n v) = n"
  by (induction n arbitrary: v) auto

lemma length_put_be [simp]: "length (put_be n v) = n"
  by (simp add: put_be_def)

lemma low_byte_split:
  "ucast (ucast v :: byte) OR push_bit 8 (take_bit m (drop_bit 8 v)) = take_bit (m + 8) (v :: 'a::len word)"
  by (rule bit_word_eqI) (auto simp: bit_simps)

lemma get_le_put_le: "get_le (put_le n v) = take_bit (8 * n) (v :: 'a::len word)"
proof (induction n arbitrary: v)
  case 0
  show ?case by simp
next
  case (Suc n)
  have "get_le (put_le (Suc n) v) =
      ucast (ucast v :: byte) OR push_bit 8 (take_bit (8 * n) (drop_bit 8 v))"
    by (simp only: put_le.simps get_le.simps Suc.IH)
  then show ?case by (simp add: low_byte_split add.commute)
qed

lemma get_le_put_le_full [wire_simps]:
  "LENGTH('a::len) \<le> 8 * n \<Longrightarrow> get_le (put_le n v) = (v :: 'a word)"
  by (simp add: get_le_put_le take_bit_word_eq_self)

lemma get_be_put_be_full [wire_simps]:
  "LENGTH('a::len) \<le> 8 * n \<Longrightarrow> get_be (put_be n v) = (v :: 'a word)"
  by (simp add: put_be_def get_be_def get_le_put_le_full)

lemma bit_get_le_bound: "bit (get_le bs :: 'a::len word) i \<Longrightarrow> i < 8 * length bs"
proof (induction bs arbitrary: i)
  case Nil
  then show ?case by simp
next
  case (Cons b bs)
  then show ?case
    by (cases "8 \<le> i") (auto simp: bit_simps dest: bit_imp_le_length Cons.IH)
qed

lemma put_le_get_le [wire_simps]:
  "n = length bs \<Longrightarrow> 8 * length bs \<le> LENGTH('a::len) \<Longrightarrow> put_le n (get_le bs :: 'a word) = bs"
proof (induction bs arbitrary: n)
  case Nil
  then show ?case by simp
next
  case (Cons b bs)
  have low: "ucast (ucast b OR push_bit 8 (get_le bs) :: 'a word) = b"
    by (rule bit_word_eqI) (use Cons.prems in \<open>auto simp: bit_simps\<close>)
  have high: "drop_bit 8 (ucast b OR push_bit 8 (get_le bs) :: 'a word) = get_le bs"
  proof (rule bit_word_eqI)
    fix i assume "i < LENGTH('a)"
    then show "bit (drop_bit 8 (ucast b OR push_bit 8 (get_le bs) :: 'a word)) i =
        bit (get_le bs :: 'a word) i"
      using Cons.prems(2) bit_get_le_bound [of bs i, where ?'a = 'a]
      by (auto simp: bit_simps dest: bit_imp_le_length)
  qed
  show ?case using Cons low high by simp
qed

lemma put_be_get_be [wire_simps]:
  "n = length bs \<Longrightarrow> 8 * length bs \<le> LENGTH('a::len) \<Longrightarrow> put_be n (get_be bs :: 'a word) = bs"
  by (simp add: put_be_def get_be_def put_le_get_le)

section \<open>Words as numbers\<close>

lemma unat_and_mask: "unat ((x :: 'a::len word) AND mask n) = unat x mod 2 ^ n"
  by (metis take_bit_eq_mask take_bit_eq_mod unsigned_take_bit_eq)

lemma unat_drop_bit: "unat (drop_bit n (x :: 'a::len word)) = unat x div 2 ^ n"
  by (metis drop_bit_eq_div unat_drop_bit_eq)

lemma and_exp_eq_0: "(x :: 'a::len word) AND 2 ^ n = 0 \<longleftrightarrow> \<not> bit x n"
  by (simp add: and_exp_eq_0_iff_not_bit)

lemma bit_or_exp:
  "n < LENGTH('a) \<Longrightarrow> bit ((x :: 'a::len word) OR 2 ^ n) i \<longleftrightarrow> bit x i \<or> i = n"
  by (auto simp: bit_simps)

lemma bit_exp:
  "n < LENGTH('a) \<Longrightarrow> bit (2 ^ n :: 'a::len word) i \<longleftrightarrow> i = n"
  by (auto simp: bit_simps)

lemma unat_diff: "y \<le> x \<Longrightarrow> unat ((x :: 'a::len word) - y) = unat x - unat y"
  by (simp add: unat_sub word_le_nat_alt)

lemma unat_Suc_below:
  fixes x t :: "'a::len word"
  assumes "unat x < unat t"
  shows "unat (x + 1) = Suc (unat x)"
proof -
  have "unat t < 2 ^ LENGTH('a)" by simp
  then have "Suc (unat x) < 2 ^ LENGTH('a)" using assms by linarith
  then show ?thesis by (simp add: unat_word_ariths)
qed

text \<open>The value of an \<open>int64\<close> after an operation whose exact result is \<open>z\<close>.\<close>

definition wrap_int64 :: "int \<Rightarrow> int" where
  "wrap_int64 z = signed_take_bit 63 z"

lemma wrap_int64_id: "- (2 ^ 63) \<le> z \<Longrightarrow> z < 2 ^ 63 \<Longrightarrow> wrap_int64 z = z"
  by (simp add: wrap_int64_def signed_take_bit_int_eq_self)

section \<open>Scanning an array for its first minimal entry\<close>

text \<open>
  The loop \<open>for i := range a { if p(i) && (best == nil || key(i) < key(best)) { best = i } }\<close>,
  which the scheduler, the reorder buffer and the FEC decoder all run over their tables.
\<close>

definition scan_min :: "('i \<Rightarrow> bool) \<Rightarrow> ('i \<Rightarrow> 'k::linorder) \<Rightarrow> 'i list \<Rightarrow> 'i option" where
  "scan_min P key xs = fold (\<lambda>i best.
     if P i \<and> (case best of None \<Rightarrow> True | Some j \<Rightarrow> key i < key j) then Some i else best) xs None"

lemma scan_min_Nil [simp]: "scan_min P key [] = None"
  by (simp add: scan_min_def)

lemma scan_min_snoc:
  "scan_min P key (xs @ [x]) =
    (if P x \<and> (case scan_min P key xs of None \<Rightarrow> True | Some j \<Rightarrow> key x < key j) then Some x
     else scan_min P key xs)"
  by (simp add: scan_min_def)

lemma scan_min_None: "scan_min P key xs = None \<longleftrightarrow> (\<forall>i\<in>set xs. \<not> P i)"
  by (induction xs rule: rev_induct) (auto simp: scan_min_snoc split: option.splits)

lemma scan_min_Some:
  "scan_min P key xs = Some i \<Longrightarrow> i \<in> set xs \<and> P i \<and> (\<forall>j\<in>set xs. P j \<longrightarrow> key i \<le> key j)"
proof (induction xs arbitrary: i rule: rev_induct)
  case Nil
  then show ?case by simp
next
  case (snoc x xs)
  show ?case
  proof (cases "scan_min P key xs")
    case None
    then show ?thesis
      using snoc.prems scan_min_None [of P key xs] by (auto simp: scan_min_snoc split: if_splits)
  next
    case (Some j)
    then show ?thesis
      using snoc.prems snoc.IH [OF Some]
      by (force simp: scan_min_snoc split: if_splits)
  qed
qed

lemma scan_min_exists: "i \<in> set xs \<Longrightarrow> P i \<Longrightarrow> \<exists>j. scan_min P key xs = Some j"
  using scan_min_None [of P key xs] by (cases "scan_min P key xs") auto

section \<open>State machines\<close>

text \<open>
  The contract of a component that runs as a state machine: \<open>step\<close> is what it may do, \<open>inv\<close> what
  every step keeps. What holds of reachable states is proved here once.
\<close>

locale machine =
  fixes step :: "'s \<Rightarrow> 's \<Rightarrow> bool" and inv :: "'s \<Rightarrow> bool"
  assumes step_inv: "step s s' \<Longrightarrow> inv s \<Longrightarrow> inv s'"
begin

lemma reachable_inv: "step\<^sup>*\<^sup>* s s' \<Longrightarrow> inv s \<Longrightarrow> inv s'"
  by (induction rule: rtranclp_induct) (blast intro: step_inv)+

end

text \<open>A machine whose steps also move the state along a preorder.\<close>

locale evolving_machine = machine +
  fixes rel :: "'s \<Rightarrow> 's \<Rightarrow> bool"
  assumes rel_refl: "rel s s" and rel_trans: "rel s t \<Longrightarrow> rel t u \<Longrightarrow> rel s u"
    and step_rel: "step s s' \<Longrightarrow> inv s \<Longrightarrow> rel s s'"
begin

lemma run_rel: "step\<^sup>*\<^sup>* s s' \<Longrightarrow> inv s \<Longrightarrow> rel s s'"
proof (induction rule: rtranclp_induct)
  case (step t u)
  then show ?case using rel_trans step_rel reachable_inv by blast
qed (rule rel_refl)

end

end
