(* ===== verification/Wire.thy ===== *)
theory Wire
  imports Amane_Prelude
begin

text \<open>
  The wire format, package \<open>internal/wire\<close>: the outer packet header (\<open>packet.go\<close>),
  the inner data header, the probe payload (\<open>probe.go\<close>), the MTU probe payload and
  the size conversions (\<open>mtu.go\<close>), the FEC parity header and the recovery of a padded
  packet's length (\<open>fec.go\<close>) and the handshake payloads (\<open>handshake.go\<close>).

  Every \<open>Marshal\<close> or \<open>Put\<close> function writes into the caller's buffer and panics when
  the buffer is too short (its first statement indexes the last byte it needs): it is
  a function from the buffer to the written buffer, or \<open>None\<close>. Every \<open>Parse\<close>
  function returns \<open>Inl\<close> of its error or \<open>Inr\<close> of its result.
\<close>

section \<open>Constants and errors\<close>

definition TypeHandshakeInit :: byte where [simp]: "TypeHandshakeInit = 1"
definition TypeHandshakeResp :: byte where [simp]: "TypeHandshakeResp = 2"
definition TypeData :: byte where [simp]: "TypeData = 3"
definition TypeProbe :: byte where [simp]: "TypeProbe = 4"
definition TypePathInit :: byte where [simp]: "TypePathInit = 5"
definition TypePathAck :: byte where [simp]: "TypePathAck = 6"
definition TypeClose :: byte where [simp]: "TypeClose = 7"
definition TypeFEC :: byte where [simp]: "TypeFEC = 8"
definition TypeMTUProbe :: byte where [simp]: "TypeMTUProbe = 9"
definition TypeMTUAck :: byte where [simp]: "TypeMTUAck = 10"

definition ProtocolVersion :: byte where [simp]: "ProtocolVersion = 1"
definition HeaderSize :: nat where [simp]: "HeaderSize = 16"
definition DataHeaderSize :: nat where [simp]: "DataHeaderSize = 8"
definition TagSize :: nat where [simp]: "TagSize = 16"
definition Overhead :: nat where [simp]: "Overhead = HeaderSize + DataHeaderSize + TagSize"
definition MaxPaths :: nat where [simp]: "MaxPaths = 32"
definition MaxGlobalSeq :: u64 where [simp]: "MaxGlobalSeq = push_bit 48 1 - 1"
definition FlagDuplicate :: byte where [simp]: "FlagDuplicate = 1"
definition FlagFEC :: byte where [simp]: "FlagFEC = 2"
definition ProbeSize :: nat where [simp]: "ProbeSize = 44"
definition MTUPayloadSize :: nat where [simp]: "MTUPayloadSize = 6"
definition FECHeaderSize :: nat where [simp]: "FECHeaderSize = 8"
definition MaxFECShards :: nat where [simp]: "MaxFECShards = 15"
definition InitPayloadSize :: nat where [simp]: "InitPayloadSize = 41"
definition RespPayloadSize :: nat where [simp]: "RespPayloadSize = 36"
definition PathInitPayloadSize :: nat where [simp]: "PathInitPayloadSize = 12"

datatype wire_error = ErrShortPacket | ErrBadPathID | ErrBadFEC

section \<open>Outer header and data header (\<open>packet.go\<close>)\<close>

record Header =
  h_Type :: byte
  h_PathID :: byte
  h_SessionID :: u32
  h_Counter :: u64

definition Header_Marshal :: "Header \<Rightarrow> bytes \<Rightarrow> bytes option" where
  "Header_Marshal h b =
    (if length b < HeaderSize then None
     else Some (blit 8 (put_le 8 (h_Counter h))
            (blit 4 (put_le 4 (h_SessionID h))
              (b[0 := h_Type h, 1 := h_PathID h, 2 := 0, 3 := 0]))))"

definition ParseHeader :: "bytes \<Rightarrow> wire_error + Header" where
  "ParseHeader b =
    (if length b < HeaderSize then Inl ErrShortPacket
     else
       let h = \<lparr>h_Type = b ! 0, h_PathID = b ! 1,
                h_SessionID = get_le (gslice 4 4 b), h_Counter = get_le (gslice 8 8 b)\<rparr>
       in if MaxPaths \<le> unat (h_PathID h) then Inl ErrBadPathID else Inr h)"

definition PutDataHeader :: "bytes \<Rightarrow> u64 \<Rightarrow> byte \<Rightarrow> bytes option" where
  "PutDataHeader b globalSeq flags =
    (if length b < DataHeaderSize then None
     else Some ((blit 0 (put_le 6 globalSeq) b)[6 := flags, 7 := 0]))"

definition ParseDataHeader :: "bytes \<Rightarrow> wire_error + (u64 \<times> byte \<times> bytes)" where
  "ParseDataHeader b =
    (if length b < DataHeaderSize then Inl ErrShortPacket
     else Inr (get_le (gslice 0 6 b), b ! 6, drop 8 b))"

section \<open>Probe payload (\<open>probe.go\<close>)\<close>

record Probe =
  pr_Seq :: u32
  pr_TSendUs :: u64
  pr_EchoSeq :: u32
  pr_EchoTSend :: u64
  pr_EchoDelay :: u32
  pr_RxPackets :: u64
  pr_RxBytes :: u64

definition Probe_Marshal :: "Probe \<Rightarrow> bytes \<Rightarrow> bytes option" where
  "Probe_Marshal p b =
    (if length b < ProbeSize then None
     else Some (blit 36 (put_le 8 (pr_RxBytes p))
            (blit 28 (put_le 8 (pr_RxPackets p))
            (blit 24 (put_le 4 (pr_EchoDelay p))
            (blit 16 (put_le 8 (pr_EchoTSend p))
            (blit 12 (put_le 4 (pr_EchoSeq p))
            (blit 4 (put_le 8 (pr_TSendUs p))
            (blit 0 (put_le 4 (pr_Seq p)) b))))))))"

definition ParseProbe :: "bytes \<Rightarrow> wire_error + Probe" where
  "ParseProbe b =
    (if length b < ProbeSize then Inl ErrShortPacket
     else Inr \<lparr>pr_Seq = get_le (gslice 0 4 b), pr_TSendUs = get_le (gslice 4 8 b),
               pr_EchoSeq = get_le (gslice 12 4 b), pr_EchoTSend = get_le (gslice 16 8 b),
               pr_EchoDelay = get_le (gslice 24 4 b), pr_RxPackets = get_le (gslice 28 8 b),
               pr_RxBytes = get_le (gslice 36 8 b)\<rparr>)"

section \<open>MTU probe payload and size conversions (\<open>mtu.go\<close>)\<close>

definition probeOverheadV4 :: int where
  "probeOverheadV4 = 20 + 8 + int HeaderSize + int TagSize"

definition probeOverheadV6 :: int where
  "probeOverheadV6 = 40 + 8 + int HeaderSize + int TagSize"

definition PutMTUPayload :: "bytes \<Rightarrow> u32 \<Rightarrow> u16 \<Rightarrow> bytes option" where
  "PutMTUPayload b probe_id wsize =
    (if length b < MTUPayloadSize then None
     else Some (blit 4 (put_le 2 wsize) (blit 0 (put_le 4 probe_id) b)))"

definition ParseMTUPayload :: "bytes \<Rightarrow> wire_error + (u32 \<times> u16)" where
  "ParseMTUPayload b =
    (if length b < MTUPayloadSize then Inl ErrShortPacket
     else Inr (get_le (gslice 0 4 b), get_le (gslice 4 2 b)))"

definition ProbePlaintextLen :: "int \<Rightarrow> bool \<Rightarrow> int" where
  "ProbePlaintextLen wireMTU v4 =
    (if v4 then wireMTU - probeOverheadV4 else wireMTU - probeOverheadV6)"

definition MaxInnerForWireMTU :: "int \<Rightarrow> bool \<Rightarrow> int" where
  "MaxInnerForWireMTU wireMTU v4 =
    (if v4 then wireMTU - 28 - int Overhead else wireMTU - 48 - int Overhead)"

text \<open>The outer IP packet that carries a plaintext of a given length.\<close>

definition outer_ip_len :: "bool \<Rightarrow> nat \<Rightarrow> int" where
  "outer_ip_len v4 plaintext = (if v4 then 20 else 40) + 8 + int HeaderSize + int plaintext + int TagSize"

section \<open>FEC parity header and packet length recovery (\<open>fec.go\<close>)\<close>

record FECHeader =
  fh_BaseSeq :: u64
  fh_K :: byte
  fh_R :: byte
  fh_Index :: byte

definition FECHeader_Marshal :: "FECHeader \<Rightarrow> bytes \<Rightarrow> bytes option" where
  "FECHeader_Marshal h b =
    (if length b < FECHeaderSize then None
     else Some ((blit 0 (put_le 6 (fh_BaseSeq h)) b)
            [6 := push_bit 4 (fh_K h) OR (fh_R h AND 0x0f), 7 := push_bit 4 (fh_Index h)]))"

definition ParseFECHeader :: "bytes \<Rightarrow> wire_error + (FECHeader \<times> bytes)" where
  "ParseFECHeader b =
    (if length b < FECHeaderSize + 1 then Inl ErrShortPacket
     else
       let h = \<lparr>fh_BaseSeq = get_le (gslice 0 6 b), fh_K = drop_bit 4 (b ! 6),
                fh_R = b ! 6 AND 0x0f, fh_Index = drop_bit 4 (b ! 7)\<rparr>
       in if fh_K h = 0 \<or> fh_R h = 0 \<or> fh_R h \<le> fh_Index h then Inl ErrBadFEC
          else Inr (h, drop FECHeaderSize b))"

definition InnerIPLen :: "bytes \<Rightarrow> nat option" where
  "InnerIPLen b =
    (if length b < 1 then None
     else if drop_bit 4 (b ! 0) = 4 then
       (if length b < 20 then None
        else
          let n = unat (get_be (gslice 2 2 b) :: u16)
          in if n < 20 \<or> length b < n then None else Some n)
     else if drop_bit 4 (b ! 0) = 6 then
       (if length b < 40 then None
        else
          let n = 40 + unat (get_be (gslice 4 2 b) :: u16)
          in if length b < n then None else Some n)
     else None)"

section \<open>Handshake and path payloads (\<open>handshake.go\<close>)\<close>

record InitPayload =
  ip_Version :: byte
  ip_Seed :: bytes
  ip_TimestampNs :: u64

definition InitPayload_Marshal :: "InitPayload \<Rightarrow> bytes \<Rightarrow> bytes option" where
  "InitPayload_Marshal p b =
    (if length b < InitPayloadSize then None
     else Some (blit 33 (put_le 8 (ip_TimestampNs p)) (blit 1 (ip_Seed p) (b[0 := ip_Version p]))))"

definition ParseInitPayload :: "bytes \<Rightarrow> wire_error + InitPayload" where
  "ParseInitPayload b =
    (if length b < InitPayloadSize then Inl ErrShortPacket
     else Inr \<lparr>ip_Version = b ! 0, ip_Seed = gslice 1 32 b,
               ip_TimestampNs = get_le (gslice 33 8 b)\<rparr>)"

record RespPayload =
  rp_Seed :: bytes
  rp_SessionID :: u32

definition RespPayload_Marshal :: "RespPayload \<Rightarrow> bytes \<Rightarrow> bytes option" where
  "RespPayload_Marshal p b =
    (if length b < RespPayloadSize then None
     else Some (blit 32 (put_le 4 (rp_SessionID p)) (blit 0 (rp_Seed p) b)))"

definition ParseRespPayload :: "bytes \<Rightarrow> wire_error + RespPayload" where
  "ParseRespPayload b =
    (if length b < RespPayloadSize then Inl ErrShortPacket
     else Inr \<lparr>rp_Seed = gslice 0 32 b, rp_SessionID = get_le (gslice 32 4 b)\<rparr>)"

definition PathInitMagic :: bytes where
  "PathInitMagic = [0x61, 0x6d, 0x6e, 0x65]"

definition PutPathInitPayload :: "bytes \<Rightarrow> u64 \<Rightarrow> bytes option" where
  "PutPathInitPayload b tsUs =
    (if length b < PathInitPayloadSize then None
     else Some (blit 4 (put_le 8 tsUs) (blit 0 PathInitMagic b)))"

definition CheckPathInitPayload :: "bytes \<Rightarrow> bool" where
  "CheckPathInitPayload b \<longleftrightarrow> PathInitPayloadSize \<le> length b \<and> gslice 0 4 b = PathInitMagic"

lemmas wire_defs [go_defs] =
  Header_Marshal_def ParseHeader_def PutDataHeader_def ParseDataHeader_def
  Probe_Marshal_def ParseProbe_def PutMTUPayload_def ParseMTUPayload_def
  FECHeader_Marshal_def ParseFECHeader_def InitPayload_Marshal_def ParseInitPayload_def
  RespPayload_Marshal_def ParseRespPayload_def PutPathInitPayload_def CheckPathInitPayload_def

section \<open>Round trips\<close>

text \<open>
  A codec writes a value into the front of a buffer of sufficient size and reads it
  back. The contract of every fixed-layout message: writing succeeds exactly on buffers
  of at least \<open>size\<close> bytes, keeps the buffer's length and everything behind the
  message, and reading returns the value that was written, for every value the format
  can carry (\<open>ok\<close>).
\<close>

locale codec =
  fixes size :: nat
    and ok :: "'v \<Rightarrow> bool"
    and put :: "'v \<Rightarrow> bytes \<Rightarrow> bytes option"
    and get :: "bytes \<Rightarrow> wire_error + 'v"
  assumes put_None: "put v b = None \<longleftrightarrow> length b < size"
    and put_frame: "ok v \<Longrightarrow> put v b = Some b' \<Longrightarrow> length b' = length b \<and> drop size b' = drop size b"
    and get_put: "ok v \<Longrightarrow> put v b = Some b' \<Longrightarrow> get b' = Inr v"
    and get_short: "length b < size \<Longrightarrow> get b = Inl ErrShortPacket"
begin

lemma put_succeeds: "size \<le> length b \<Longrightarrow> \<exists>b'. put v b = Some b'"
  using put_None [of v b] by (cases "put v b") auto

lemma roundtrip:
  assumes "ok v" and "size \<le> length b"
  shows "\<exists>b'. put v b = Some b' \<and> get b' = Inr v \<and> length b' = length b \<and> drop size b' = drop size b"
  using put_succeeds [OF assms(2)] put_frame [OF assms(1)] get_put [OF assms(1)] by fastforce

text \<open>Two values with the same encoding are equal: the format is unambiguous.\<close>

lemma put_injective:
  assumes "ok v" and "ok w" and "put v b = Some x" and "put w c = Some x"
  shows "v = w"
  using get_put [OF assms(1,3)] get_put [OF assms(2,4)] by simp

text \<open>Messages written one after the other are read back independently.\<close>

lemma roundtrip_payload:
  assumes "ok v" and "put v (replicate size 0 @ payload) = Some b'"
  shows "get b' = Inr v \<and> drop size b' = payload"
  using put_frame [OF assms] get_put [OF assms] by simp

end


text \<open>The \<open>Parse\<close> functions that also return the rest of the buffer, as plain readers.\<close>

definition data_header_fields :: "bytes \<Rightarrow> wire_error + (u64 \<times> byte)" where
  "data_header_fields b = map_sum id (\<lambda>(s, f, _). (s, f)) (ParseDataHeader b)"

definition fits48 :: "u64 \<Rightarrow> bool" where
  "fits48 v \<longleftrightarrow> v \<le> MaxGlobalSeq"

lemma fits48_take_bit: "fits48 v \<longleftrightarrow> take_bit 48 v = v"
proof -
  have "take_bit 48 v = v \<longleftrightarrow> unat v < 2 ^ 48"
    by (simp add: word_unat_eq_iff unsigned_take_bit_eq take_bit_nat_eq_self_iff)
  then show ?thesis
    by (simp add: fits48_def word_le_nat_alt) linarith
qed

interpretation header: codec HeaderSize "\<lambda>h. unat (h_PathID h) < MaxPaths" Header_Marshal ParseHeader
  by unfold_locales
    (auto simp: Header_Marshal_def ParseHeader_def wire_simps
      simp del: length_greater_0_conv split: if_splits)

interpretation data_header: codec DataHeaderSize "\<lambda>(s, f). fits48 s"
    "\<lambda>(s, f) b. PutDataHeader b s f" data_header_fields
  by unfold_locales
    (auto simp: PutDataHeader_def ParseDataHeader_def data_header_fields_def fits48_take_bit
      get_le_put_le wire_simps split: if_splits)

interpretation probe: codec ProbeSize "\<lambda>_. True" Probe_Marshal ParseProbe
  by unfold_locales
    (auto simp: Probe_Marshal_def ParseProbe_def wire_simps split: if_splits)

interpretation mtu_payload: codec MTUPayloadSize "\<lambda>_. True"
    "\<lambda>(i, s) b. PutMTUPayload b i s" ParseMTUPayload
  by unfold_locales
    (auto simp: PutMTUPayload_def ParseMTUPayload_def wire_simps split: if_splits)

interpretation init_payload: codec InitPayloadSize "\<lambda>p. length (ip_Seed p) = 32"
    InitPayload_Marshal ParseInitPayload
  by unfold_locales
    (auto simp: InitPayload_Marshal_def ParseInitPayload_def wire_simps
      simp del: length_greater_0_conv split: if_splits)

interpretation resp_payload: codec RespPayloadSize "\<lambda>p. length (rp_Seed p) = 32"
    RespPayload_Marshal ParseRespPayload
  by unfold_locales
    (auto simp: RespPayload_Marshal_def ParseRespPayload_def wire_simps split: if_splits)

section \<open>Packing of the FEC nibbles\<close>

lemma nibble_take_bit: "unat (x :: byte) < 16 \<longleftrightarrow> take_bit 4 x = x"
  by (simp add: word_unat_eq_iff unsigned_take_bit_eq take_bit_nat_eq_self_iff)

lemma nibble_bit: "take_bit 4 (x :: byte) = x \<Longrightarrow> bit x i \<Longrightarrow> i < 4"
  by (metis bit_take_bit_iff)

lemma and_0x0f: "(x :: byte) AND 0x0f = take_bit 4 x"
  by (simp add: take_bit_eq_mask mask_eq_exp_minus_1)

lemma pack_hi: "drop_bit 4 (push_bit 4 k OR (r AND 0x0f) :: byte) = take_bit 4 k"
  unfolding and_0x0f by (rule bit_word_eqI) (auto simp: bit_simps)

lemma pack_lo: "(push_bit 4 k OR (r AND 0x0f)) AND 0x0f = (take_bit 4 r :: byte)"
  unfolding and_0x0f by (rule bit_word_eqI) (auto simp: bit_simps)

lemma pack_index: "drop_bit 4 (push_bit 4 k :: byte) = take_bit 4 k"
  by (rule bit_word_eqI) (auto simp: bit_simps)

lemma unat_drop_bit4: "unat (drop_bit 4 (x :: byte)) = unat x div 16"
  by (simp add: drop_bit_eq_div unat_div)

lemma hi_nibble_small: "unat (drop_bit 4 (x :: byte)) < 16"
proof -
  have "unat x < 256" using unsigned_less [of x] by simp
  then show ?thesis by (simp add: unat_drop_bit4)
qed

lemma lo_nibble_small: "unat ((x :: byte) AND 0x0f) < 16"
  unfolding and_0x0f using take_bit_nat_less_exp [of 4 "unat x"] by (simp add: unsigned_take_bit_eq)

definition fec_header_ok :: "FECHeader \<Rightarrow> bool" where
  "fec_header_ok h \<longleftrightarrow> fits48 (fh_BaseSeq h) \<and> unat (fh_K h) \<in> {1..MaxFECShards} \<and>
     unat (fh_R h) \<in> {1..MaxFECShards} \<and> unat (fh_Index h) < unat (fh_R h)"

lemma FECHeader_parses:
  assumes "fec_header_ok h" and "shard \<noteq> []"
  shows "map_option ParseFECHeader (FECHeader_Marshal h (replicate FECHeaderSize 0 @ shard)) =
    Some (Inr (h, shard))"
proof -
  have nib: "take_bit 4 (fh_K h) = fh_K h" "take_bit 4 (fh_R h) = fh_R h"
    "take_bit 4 (fh_Index h) = fh_Index h"
    using assms(1) by (simp_all add: fec_header_ok_def flip: nibble_take_bit)
  have nz: "fh_K h \<noteq> 0" "fh_R h \<noteq> 0" "\<not> fh_R h \<le> fh_Index h"
    using assms(1) by (auto simp: fec_header_ok_def word_le_nat_alt)
  show ?thesis
    using assms nib nz
    by (cases shard)
      (auto simp: FECHeader_Marshal_def ParseFECHeader_def wire_simps get_le_put_le pack_hi pack_lo
        pack_index fec_header_ok_def fits48_take_bit)
qed

section \<open>Properties of the wire format\<close>

text \<open>
  Property C24. An outer header written into the front of a datagram buffer and parsed
  again is the header that was written, for every path identifier below
  \<open>MaxPaths\<close>; the bytes behind the header are untouched.
\<close>

theorem Header_roundtrip:
  assumes "unat (h_PathID h) < MaxPaths" and "HeaderSize \<le> length b"
  shows "\<exists>b'. Header_Marshal h b = Some b' \<and> ParseHeader b' = Inr h \<and>
    length b' = length b \<and> drop HeaderSize b' = drop HeaderSize b"
  using assms by (rule header.roundtrip)

theorem Header_roundtrip_witness:
  "\<exists>b'. Header_Marshal \<lparr>h_Type = 3, h_PathID = 31, h_SessionID = 0xdeadbeef, h_Counter = 258\<rparr>
      (replicate 20 7) = Some b' \<and>
    ParseHeader b' = Inr \<lparr>h_Type = 3, h_PathID = 31, h_SessionID = 0xdeadbeef, h_Counter = 258\<rparr> \<and>
    length b' = 20 \<and> drop 16 b' = replicate 4 7"
  using Header_roundtrip
    [of "\<lparr>h_Type = 3, h_PathID = 31, h_SessionID = 0xdeadbeef, h_Counter = 258\<rparr>" "replicate 20 7"]
  by simp

text \<open>
  What the outer-header parser accepts: it rejects exactly the datagrams
  shorter than a header and those with a path identifier of 32 or more, and the header it
  returns for any other datagram re-encodes to the datagram itself with the two reserved
  bytes cleared, so no field is dropped or misplaced.
\<close>

theorem ParseHeader_exact:
  "case ParseHeader b of
     Inl e \<Rightarrow> e = (if length b < HeaderSize then ErrShortPacket else ErrBadPathID) \<and>
       \<not> (HeaderSize \<le> length b \<and> unat (b ! 1) < MaxPaths)
   | Inr h \<Rightarrow> HeaderSize \<le> length b \<and> unat (h_PathID h) < MaxPaths \<and>
       Header_Marshal h b = Some (b[2 := 0, 3 := 0])"
proof (cases "HeaderSize \<le> length b \<and> unat (b ! 1) < MaxPaths")
  case False
  then show ?thesis by (auto simp: ParseHeader_def Let_def)
next
  case True
  have "blit 8 (gslice 8 8 b) (blit 4 (gslice 4 4 b) (b[0 := b ! 0, 1 := b ! 1, 2 := 0, 3 := 0]))
      = b[2 := 0, 3 := 0]"
    by (rule nth_equalityI) (use True in \<open>auto simp: blit_nth gslice_nth nth_list_update\<close>)
  with True show ?thesis by (auto simp: ParseHeader_def Header_Marshal_def Let_def put_le_get_le)
qed

text \<open>
  The inner data header carries the flags verbatim and the low 48 bits of
  the global sequence number, and the inner packet follows it: a plaintext built by the
  send path is parsed into what was put in, for every sequence number up to
  \<open>MaxGlobalSeq\<close>; beyond it the number is truncated to 48 bits.
\<close>

theorem DataHeader_roundtrip:
  "map_option ParseDataHeader (PutDataHeader (replicate DataHeaderSize 0 @ ipPkt) globalSeq flags) =
     Some (Inr (take_bit 48 globalSeq, flags, ipPkt))"
  by (auto simp: PutDataHeader_def ParseDataHeader_def wire_simps get_le_put_le)

text \<open>
  A FEC parity header survives encoding and decoding for every group
  geometry the four-bit fields can carry, and the shard bytes come back unchanged.
\<close>

theorem FECHeader_roundtrip:
  assumes "fec_header_ok h" and "shard \<noteq> []"
  shows "map_option ParseFECHeader (FECHeader_Marshal h (replicate FECHeaderSize 0 @ shard)) =
    Some (Inr (h, shard))"
  by (rule FECHeader_parses [OF assms])

theorem FECHeader_roundtrip_witness:
  "map_option ParseFECHeader
     (FECHeader_Marshal \<lparr>fh_BaseSeq = 0xffffffffffff, fh_K = 15, fh_R = 4, fh_Index = 3\<rparr>
       (replicate FECHeaderSize 0 @ [1, 2, 3])) =
   Some (Inr (\<lparr>fh_BaseSeq = 0xffffffffffff, fh_K = 15, fh_R = 4, fh_Index = 3\<rparr>, [1, 2, 3]))"
  by (rule FECHeader_roundtrip) (simp_all add: fec_header_ok_def fits48_def)

text \<open>
  Every FEC header the parser accepts is one the decoder can use: both shard
  counts are between 1 and 15, the parity index is below the parity count (so it indexes
  the group's parity table), the base sequence number has 48 bits and the shard is not
  empty.
\<close>

theorem ParseFECHeader_valid:
  assumes "ParseFECHeader b = Inr (h, shard)"
  shows "fec_header_ok h \<and> shard = drop FECHeaderSize b \<and> shard \<noteq> []"
proof -
  have len: "9 \<le> length b" and h: "h = \<lparr>fh_BaseSeq = get_le (gslice 0 6 b), fh_K = drop_bit 4 (b ! 6),
      fh_R = b ! 6 AND 0x0f, fh_Index = drop_bit 4 (b ! 7)\<rparr>"
    and sh: "shard = drop 8 b" and nz: "fh_K h \<noteq> 0" "fh_R h \<noteq> 0" "\<not> fh_R h \<le> fh_Index h"
    using assms by (auto simp: ParseFECHeader_def Let_def split: if_splits)
  have "take_bit 48 (fh_BaseSeq h) = fh_BaseSeq h"
    using len h bit_get_le_bound [of "gslice 0 6 b", where ?'a = 64]
    by (intro bit_word_eqI) (auto simp: bit_simps)
  moreover have "unat (fh_K h) < 16" "unat (fh_R h) < 16"
    using h hi_nibble_small [of "b ! 6"] lo_nibble_small [of "b ! 6"] by simp_all
  moreover have "0 < unat (fh_K h)" "0 < unat (fh_R h)" using nz by (simp_all add: unat_gt_0)
  ultimately show ?thesis
    using nz sh len by (auto simp: fec_header_ok_def fits48_take_bit word_le_nat_alt)
qed

theorem ParseFECHeader_valid_witness:
  "fec_header_ok \<lparr>fh_BaseSeq = 5, fh_K = 10, fh_R = 2, fh_Index = 1\<rparr>"
proof -
  have "ParseFECHeader [5, 0, 0, 0, 0, 0, 0xa2, 0x10, 9] =
      Inr (\<lparr>fh_BaseSeq = 5, fh_K = 10, fh_R = 2, fh_Index = 1\<rparr>, [9])"
    by (simp add: ParseFECHeader_def gslice_def word_le_nat_alt)
  from ParseFECHeader_valid [OF this] show ?thesis by simp
qed

lemma InnerIPLen_bounds: "InnerIPLen b = Some n \<Longrightarrow> 20 \<le> n \<and> n \<le> length b"
  by (auto simp: InnerIPLen_def Let_def split: if_splits)

lemma gslice_append: "off + n \<le> length b \<Longrightarrow> gslice off n (b @ pad) = gslice off n b"
  by (simp add: gslice_def)

lemma InnerIPLen_append:
  "InnerIPLen pkt = Some (length pkt) \<Longrightarrow> InnerIPLen (pkt @ pad) = Some (length pkt)"
  by (auto simp: InnerIPLen_def Let_def gslice_append nth_append split: if_splits)

text \<open>
  The length of a reconstructed packet: appending padding of any content to
  a packet with a readable IP header does not change the length \<open>InnerIPLen\<close> reads from
  it, and cutting the padded shard at that length gives back a packet whose header claims
  no more bytes than it has. In particular a packet that fills its buffer exactly is
  recovered exactly from a zero-padded shard.
\<close>

theorem InnerIPLen_padding:
  assumes "InnerIPLen pkt = Some (length pkt)"
  shows "InnerIPLen (pkt @ pad) = Some (length pkt) \<and>
    take (the (InnerIPLen (pkt @ pad))) (pkt @ pad) = pkt"
  using InnerIPLen_append [OF assms] by simp

theorem InnerIPLen_padding_witness:
  "InnerIPLen (([0x45, 0, 0, 20] @ replicate 16 9) @ replicate 5 0) = Some 20"
proof -
  have "InnerIPLen ([0x45, 0, 0, 20] @ replicate 16 9) = Some (length ([0x45, 0, 0, 20] @ replicate 16 9))"
    by (simp add: InnerIPLen_def gslice_def get_be_def)
  from InnerIPLen_padding [OF this, of "replicate 5 0"] show ?thesis by simp
qed

text \<open>
  The size arithmetic of path MTU discovery agrees with the packet layout: a
  probe whose plaintext has \<open>ProbePlaintextLen\<close> bytes makes an outer IP packet of
  exactly the probed size, and an inner packet of \<open>MaxInnerForWireMTU\<close> bytes, wrapped in
  data header, outer header, tag, UDP and IP headers, makes one of exactly the discovered
  size; one byte more would exceed it.
\<close>

theorem mtu_arithmetic:
  assumes "80 < wireMTU"
  shows "outer_ip_len v4 (nat (ProbePlaintextLen wireMTU v4)) = wireMTU \<and>
    (88 \<le> wireMTU \<longrightarrow>
      (\<forall>n. outer_ip_len v4 (DataHeaderSize + n) \<le> wireMTU \<longleftrightarrow> int n \<le> MaxInnerForWireMTU wireMTU v4))"
  using assms
  by (auto simp: outer_ip_len_def ProbePlaintextLen_def probeOverheadV4_def probeOverheadV6_def
      MaxInnerForWireMTU_def)

theorem mtu_arithmetic_witness:
  "outer_ip_len True (nat (ProbePlaintextLen 1500 True)) = 1500 \<and> MaxInnerForWireMTU 1500 True = 1432 \<and>
   outer_ip_len True (DataHeaderSize + 1432) \<le> 1500"
  using mtu_arithmetic [of 1500 True] by (simp add: MaxInnerForWireMTU_def outer_ip_len_def)

text \<open>
  A probe's seven counters and timestamps survive encoding and decoding at
  their full width.
\<close>

theorem Probe_roundtrip:
  assumes "ProbeSize \<le> length b"
  shows "\<exists>b'. Probe_Marshal p b = Some b' \<and> ParseProbe b' = Inr p \<and>
    length b' = length b \<and> drop ProbeSize b' = drop ProbeSize b"
  using assms by (intro probe.roundtrip) simp_all

theorem Probe_roundtrip_witness:
  "\<exists>b'. Probe_Marshal \<lparr>pr_Seq = 1, pr_TSendUs = 2, pr_EchoSeq = 3, pr_EchoTSend = 2 ^ 63,
      pr_EchoDelay = 5, pr_RxPackets = 6, pr_RxBytes = 7\<rparr> (replicate 44 0) = Some b' \<and> length b' = 44"
  using Probe_roundtrip [of "replicate 44 0" "\<lparr>pr_Seq = 1, pr_TSendUs = 2, pr_EchoSeq = 3,
      pr_EchoTSend = 2 ^ 63, pr_EchoDelay = 5, pr_RxPackets = 6, pr_RxBytes = 7\<rparr>"]
  by auto

lemma PathInitPayload_accepted:
  "12 \<le> length b \<Longrightarrow> \<exists>b'. PutPathInitPayload b ts = Some b' \<and> CheckPathInitPayload b' \<and> length b' = length b"
  by (auto simp: PutPathInitPayload_def CheckPathInitPayload_def wire_simps PathInitMagic_def)

end
