(* ===== verification/Pmtud.thy ===== *)
theory Pmtud
  imports Amane_Prelude
begin

text \<open>
  Path MTU discovery, \<open>internal/pmtud/pmtud.go\<close>: the tick-driven prober with its phases and
  binary search. Go's \<open>int\<close> is an unbounded integer here: every size is at most the
  larger of the ceiling and \<open>Base\<close>, far from overflow. The probe id is a 32-bit word
  and wraps. The last two sections put the prober against a path: first under any
  interleaving of ticks, acks, send errors and restarts, then in lockstep with a path of
  a fixed MTU.
\<close>

definition Floor :: int where [simp]: "Floor = 576"
definition Base :: int where [simp]: "Base = 1200"
definition granularity :: int where [simp]: "granularity = 8"
definition ackTimeoutTicks :: int where [simp]: "ackTimeoutTicks = 5"
definition maxAttempts :: int where [simp]: "maxAttempts = 3"
definition revalidateTicks :: int where [simp]: "revalidateTicks = 3000"
definition initialDelayTicks :: int where [simp]: "initialDelayTicks = 5"

datatype phase = phaseIdle | phaseCeil | phaseBase | phaseFloor | phaseSearch | phaseDone | phaseDead

record Prober =
  pr_ceil :: int
  pr_phase :: phase
  pr_wait :: int
  pr_inflight :: bool
  pr_id :: u32
  pr_size :: int
  pr_timeout :: int
  pr_attempt :: int
  pr_lo :: int
  pr_hi :: int
  pr_discovered :: int

definition NewProber :: "int \<Rightarrow> Prober" where
  "NewProber ceil =
    \<lparr>pr_ceil = (if ceil < Floor then Floor else ceil), pr_phase = phaseIdle,
     pr_wait = initialDelayTicks, pr_inflight = False, pr_id = 0, pr_size = 0, pr_timeout = 0,
     pr_attempt = 0, pr_lo = 0, pr_hi = 0, pr_discovered = 0\<rparr>"

definition finish :: "int \<Rightarrow> Prober \<Rightarrow> Prober" where
  "finish mtu p = p\<lparr>pr_discovered := mtu, pr_phase := phaseDone, pr_wait := revalidateTicks\<rparr>"

definition prober_step :: "Prober \<Rightarrow> Prober" where
  "prober_step p =
    (if pr_phase p = phaseSearch \<and> pr_hi p - pr_lo p \<le> granularity then finish (pr_lo p) p else p)"

definition fail :: "int \<Rightarrow> Prober \<Rightarrow> Prober" where
  "fail sz p =
    (case pr_phase p of
       phaseCeil \<Rightarrow> p\<lparr>pr_phase := if pr_ceil p \<le> Base then phaseFloor else phaseBase\<rparr>
     | phaseBase \<Rightarrow> p\<lparr>pr_phase := phaseFloor\<rparr>
     | phaseFloor \<Rightarrow> p\<lparr>pr_discovered := -1, pr_phase := phaseDead, pr_wait := revalidateTicks\<rparr>
     | phaseSearch \<Rightarrow> prober_step (p\<lparr>pr_hi := sz\<rparr>)
     | _ \<Rightarrow> p)"

text \<open>Sizes are positive here, so \<open>div\<close> is Go's division.\<close>

definition nextSize :: "Prober \<Rightarrow> int option \<times> Prober" where
  "nextSize p =
    (case pr_phase p of
       phaseCeil \<Rightarrow> (Some (pr_ceil p), p)
     | phaseBase \<Rightarrow> (Some Base, p)
     | phaseFloor \<Rightarrow> (Some Floor, p)
     | phaseSearch \<Rightarrow>
         if pr_hi p - pr_lo p \<le> granularity then (None, finish (pr_lo p) p)
         else (Some ((pr_lo p + pr_hi p) div 2), p)
     | _ \<Rightarrow> (Some (pr_ceil p), p\<lparr>pr_phase := phaseCeil\<rparr>))"

text \<open>The part of \<open>Tick\<close> after the in-flight probe has been dealt with.\<close>

definition tick_idle :: "Prober \<Rightarrow> (u32 \<times> int) option \<times> Prober" where
  "tick_idle p =
    (if 0 < pr_wait p then (None, p\<lparr>pr_wait := pr_wait p - 1\<rparr>)
     else case nextSize p of
       (None, p) \<Rightarrow> (None, p)
     | (Some n, p) \<Rightarrow>
        let p = p\<lparr>pr_inflight := True, pr_size := n, pr_attempt := 0, pr_timeout := ackTimeoutTicks,
                  pr_id := pr_id p + 1\<rparr>
        in (Some (pr_id p, n), p))"

definition Tick :: "Prober \<Rightarrow> (u32 \<times> int) option \<times> Prober" where
  "Tick p =
    (if pr_inflight p then
       let p = p\<lparr>pr_timeout := pr_timeout p - 1\<rparr>
       in if 0 < pr_timeout p then (None, p)
          else let p = p\<lparr>pr_attempt := pr_attempt p + 1\<rparr>
               in if pr_attempt p < maxAttempts then
                    let p = p\<lparr>pr_id := pr_id p + 1, pr_timeout := ackTimeoutTicks\<rparr>
                    in (Some (pr_id p, pr_size p), p)
                  else tick_idle (fail (pr_size p) (p\<lparr>pr_inflight := False\<rparr>))
     else tick_idle p)"

definition OnAck :: "u32 \<Rightarrow> Prober \<Rightarrow> Prober" where
  "OnAck i p =
    (if \<not> pr_inflight p \<or> i \<noteq> pr_id p then p
     else let p = p\<lparr>pr_inflight := False\<rparr>
          in case pr_phase p of
               phaseCeil \<Rightarrow> finish (pr_ceil p) p
             | phaseBase \<Rightarrow> prober_step (p\<lparr>pr_lo := Base, pr_hi := pr_ceil p, pr_phase := phaseSearch\<rparr>)
             | phaseFloor \<Rightarrow> prober_step (p\<lparr>pr_lo := Floor, pr_hi := Base, pr_phase := phaseSearch\<rparr>)
             | phaseSearch \<Rightarrow> prober_step (p\<lparr>pr_lo := pr_size p\<rparr>)
             | _ \<Rightarrow> p)"

definition OnSendError :: "u32 \<Rightarrow> Prober \<Rightarrow> Prober" where
  "OnSendError i p =
    (if \<not> pr_inflight p \<or> i \<noteq> pr_id p then p
     else fail (pr_size p) (p\<lparr>pr_inflight := False\<rparr>))"

definition Discovered :: "Prober \<Rightarrow> int" where
  "Discovered p = pr_discovered p"

definition Restart :: "Prober \<Rightarrow> Prober" where
  "Restart p = p\<lparr>pr_phase := phaseIdle, pr_wait := initialDelayTicks, pr_inflight := False,
     pr_discovered := 0\<rparr>"

section \<open>The prober against any path\<close>

text \<open>
  \<open>prober_run mtu p p'\<close>: \<open>p'\<close> is reached from \<open>p\<close> by ticks, send errors, restarts and acks, in any
  order; the only assumption on the path is that the ack of the probe in flight arrives
  only when a packet of its size can pass.
\<close>

inductive prober_move :: "int \<Rightarrow> Prober \<Rightarrow> Prober \<Rightarrow> bool" for mtu where
  tick: "prober_move mtu p (snd (Tick p))"
| ack: "pr_inflight p \<and> i = pr_id p \<longrightarrow> pr_size p \<le> mtu \<Longrightarrow> prober_move mtu p (OnAck i p)"
| send_error: "prober_move mtu p (OnSendError i p)"
| restart: "prober_move mtu p (Restart p)"

definition in_flight_size_ok :: "Prober \<Rightarrow> bool" where
  "in_flight_size_ok p \<longleftrightarrow>
    (case pr_phase p of
       phaseCeil \<Rightarrow> pr_size p = pr_ceil p | phaseBase \<Rightarrow> pr_size p = Base
     | phaseFloor \<Rightarrow> pr_size p = Floor | phaseSearch \<Rightarrow> pr_lo p < pr_size p \<and> pr_size p < pr_hi p
     | _ \<Rightarrow> False)"

definition prober_inv :: "Prober \<Rightarrow> bool" where
  "prober_inv p \<longleftrightarrow> Floor \<le> pr_ceil p \<and> (pr_inflight p \<longrightarrow> in_flight_size_ok p) \<and>
    (pr_phase p = phaseSearch \<longrightarrow> Floor \<le> pr_lo p \<and> pr_lo p \<le> pr_hi p \<and> pr_hi p \<le> max (pr_ceil p) Base) \<and>
    (pr_phase p = phaseBase \<longrightarrow> Base < pr_ceil p) \<and>
    (pr_discovered p \<in> {0, -1} \<or> Floor \<le> pr_discovered p \<and> pr_discovered p \<le> max (pr_ceil p) Base)"

definition below_mtu :: "int \<Rightarrow> Prober \<Rightarrow> bool" where
  "below_mtu mtu p \<longleftrightarrow> (pr_phase p = phaseSearch \<longrightarrow> pr_lo p \<le> mtu) \<and>
    (0 < pr_discovered p \<longrightarrow> pr_discovered p \<le> mtu)"

lemmas prober_defs = prober_inv_def in_flight_size_ok_def below_mtu_def
lemmas prober_ops = fail_def prober_step_def finish_def

lemma fail_inv:
  "prober_inv p \<Longrightarrow> in_flight_size_ok p \<Longrightarrow> prober_inv (fail (pr_size p) (p\<lparr>pr_inflight := False\<rparr>))"
  by (cases "pr_phase p") (auto simp: prober_defs prober_ops)

lemma fail_below:
  "below_mtu m p \<Longrightarrow> below_mtu m (fail z p)"
  by (cases "pr_phase p") (auto simp: prober_defs prober_ops)

lemma fail_not_inflight [simp]: "pr_inflight (fail z p) = pr_inflight p"
  by (cases "pr_phase p") (auto simp: prober_ops)

lemma tick_idle_inv:
  assumes "prober_inv p" "\<not> pr_inflight p"
  shows "prober_inv (snd (tick_idle p))"
  using assms by (cases "pr_phase p") (auto simp: tick_idle_def nextSize_def Let_def prober_defs finish_def)

lemma tick_idle_below: "below_mtu m p \<Longrightarrow> below_mtu m (snd (tick_idle p))"
  by (cases "pr_phase p") (auto simp: tick_idle_def nextSize_def Let_def prober_defs finish_def)

text \<open>The three outcomes of a tick with a probe in flight.\<close>

lemma Tick_cases:
  obtains (idle) "\<not> pr_inflight p" "Tick p = tick_idle p"
  | (waiting) "pr_inflight p" "1 < pr_timeout p" "Tick p = (None, p\<lparr>pr_timeout := pr_timeout p - 1\<rparr>)"
  | (retry) "pr_inflight p" "pr_timeout p \<le> 1" "pr_attempt p + 1 < maxAttempts"
      "Tick p = (Some (pr_id p + 1, pr_size p), p\<lparr>pr_timeout := ackTimeoutTicks,
         pr_attempt := pr_attempt p + 1, pr_id := pr_id p + 1\<rparr>)"
  | (gave_up) "pr_inflight p" "pr_timeout p \<le> 1" "maxAttempts \<le> pr_attempt p + 1"
      "Tick p = tick_idle (fail (pr_size p)
         (p\<lparr>pr_timeout := pr_timeout p - 1, pr_attempt := pr_attempt p + 1, pr_inflight := False\<rparr>))"
proof (cases "pr_inflight p")
  case True
  show ?thesis
  proof (cases "1 < pr_timeout p")
    case True
    then show ?thesis using waiting \<open>pr_inflight p\<close> by (simp add: Tick_def Let_def)
  next
    case False
    then show ?thesis
      using retry gave_up \<open>pr_inflight p\<close>
      by (cases "pr_attempt p + 1 < maxAttempts") (simp_all add: Tick_def Let_def)
  qed
qed (use idle in \<open>simp add: Tick_def\<close>)

lemma timer_irrelevant:
  "prober_inv (p\<lparr>pr_timeout := t, pr_attempt := a, pr_id := i\<rparr>) = prober_inv p"
  "prober_inv (p\<lparr>pr_timeout := t\<rparr>) = prober_inv p"
  "prober_inv (p\<lparr>pr_timeout := t, pr_attempt := a\<rparr>) = prober_inv p"
  "in_flight_size_ok (p\<lparr>pr_timeout := t, pr_attempt := a\<rparr>) = in_flight_size_ok p"
  "below_mtu m (p\<lparr>pr_timeout := t, pr_attempt := a, pr_inflight := b\<rparr>) = below_mtu m p"
  "below_mtu m (p\<lparr>pr_timeout := t, pr_attempt := a, pr_id := i\<rparr>) = below_mtu m p"
  "below_mtu m (p\<lparr>pr_timeout := t\<rparr>) = below_mtu m p"
  by (cases "pr_phase p"; simp add: prober_defs)+

lemma Tick_inv:
  assumes "prober_inv p"
  shows "prober_inv (snd (Tick p))"
proof (cases rule: Tick_cases [of p])
  case gave_up
  let ?q = "p\<lparr>pr_timeout := pr_timeout p - 1, pr_attempt := pr_attempt p + 1\<rparr>"
  have "prober_inv (fail (pr_size ?q) (?q\<lparr>pr_inflight := False\<rparr>))"
    using assms gave_up(1) by (intro fail_inv) (simp_all add: timer_irrelevant prober_inv_def)
  then show ?thesis using gave_up(4) tick_idle_inv by simp
qed (use assms tick_idle_inv in \<open>simp_all add: timer_irrelevant\<close>)

lemma Tick_below: "below_mtu m p \<Longrightarrow> below_mtu m (snd (Tick p))"
  by (cases rule: Tick_cases [of p]) (simp_all add: tick_idle_below fail_below timer_irrelevant)

lemma OnAck_inv: "prober_inv p \<Longrightarrow> prober_inv (OnAck i p)"
  by (cases "pr_phase p") (auto simp: OnAck_def Let_def prober_defs prober_ops)

lemma OnAck_below:
  "prober_inv p \<Longrightarrow> below_mtu m p \<Longrightarrow> pr_inflight p \<and> i = pr_id p \<longrightarrow> pr_size p \<le> m \<Longrightarrow> below_mtu m (OnAck i p)"
  by (cases "pr_phase p") (auto simp: OnAck_def Let_def prober_defs prober_ops)

lemma OnSendError_inv: "prober_inv p \<Longrightarrow> prober_inv (OnSendError i p)"
  using fail_inv [of p] by (auto simp: OnSendError_def prober_inv_def)

lemma OnSendError_below: "below_mtu m p \<Longrightarrow> below_mtu m (OnSendError i p)"
  using fail_below [of m "p\<lparr>pr_inflight := False\<rparr>"] by (simp add: OnSendError_def below_mtu_def)

lemma Restart_inv: "prober_inv p \<Longrightarrow> prober_inv (Restart p) \<and> below_mtu m (Restart p)"
  by (simp add: Restart_def prober_defs)

lemma NewProber_inv: "prober_inv (NewProber c) \<and> below_mtu m (NewProber c)"
  by (simp add: NewProber_def prober_defs)

lemma prober_move_inv:
  assumes "prober_move m p p'" "prober_inv p \<and> below_mtu m p"
  shows "prober_inv p' \<and> below_mtu m p'"
  using assms by (cases rule: prober_move.cases)
    (simp_all add: Tick_inv Tick_below OnAck_inv OnAck_below OnSendError_inv OnSendError_below Restart_inv)

interpretation discovery: machine "prober_move m" "\<lambda>p. prober_inv p \<and> below_mtu m p" for m
  by unfold_locales (rule prober_move_inv)

lemma prober_run_inv: "(prober_move m)\<^sup>*\<^sup>* (NewProber c) p \<Longrightarrow> prober_inv p \<and> below_mtu m p"
  using discovery.reachable_inv NewProber_inv by blast

lemma tick_idle_sends:
  assumes "prober_inv p" "tick_idle p = (Some (i, z), p')"
  shows "Floor \<le> z \<and> z \<le> max (pr_ceil p) Base \<and> pr_inflight p' \<and> pr_id p' = i \<and> pr_size p' = z \<and>
    i = pr_id p + 1"
  using assms
  by (cases "pr_phase p") (auto simp: tick_idle_def nextSize_def Let_def prober_defs split: if_splits)

lemma fail_keeps [simp]: "pr_ceil (fail z p) = pr_ceil p" "pr_id (fail z p) = pr_id p"
  by (cases "pr_phase p"; simp add: prober_ops)+

lemma Tick_sends:
  assumes "prober_inv p" "Tick p = (Some (i, z), p')"
  shows "Floor \<le> z \<and> z \<le> max (pr_ceil p) Base \<and> pr_inflight p' \<and> pr_id p' = i \<and> pr_size p' = z \<and>
    i = pr_id p + 1"
proof (cases rule: Tick_cases [of p])
  case idle
  then have "tick_idle p = (Some (i, z), p')" using assms(2) by simp
  then show ?thesis using tick_idle_sends [OF assms(1)] by blast
next
  case retry
  then show ?thesis using assms by (cases "pr_phase p") (auto simp: prober_defs)
next
  case gave_up
  let ?q = "p\<lparr>pr_timeout := pr_timeout p - 1, pr_attempt := pr_attempt p + 1\<rparr>"
  have inv: "prober_inv (fail (pr_size ?q) (?q\<lparr>pr_inflight := False\<rparr>))"
    using assms(1) gave_up(1) by (intro fail_inv) (simp_all add: timer_irrelevant prober_inv_def)
  have "tick_idle (fail (pr_size ?q) (?q\<lparr>pr_inflight := False\<rparr>)) = (Some (i, z), p')"
    using gave_up(4) assms(2) by simp
  from tick_idle_sends [OF inv this] show ?thesis by simp
qed (use assms in simp)

section \<open>The prober in lockstep with a path\<close>

text \<open>
  One probe interval on a path that carries exactly the packets of at most \<open>mtu\<close> bytes:
  the ack of a probe that passes comes back before the next tick, that of a larger probe
  never does.
\<close>

definition respond :: "int \<Rightarrow> (u32 \<times> int) option \<times> Prober \<Rightarrow> Prober" where
  "respond mtu r = (case r of (None, p) \<Rightarrow> p | (Some (i, z), p) \<Rightarrow> if z \<le> mtu then OnAck i p else p)"

definition lockstep :: "int \<Rightarrow> Prober \<Rightarrow> Prober" where
  "lockstep mtu p = respond mtu (Tick p)"

definition settled :: "Prober \<Rightarrow> bool" where
  "settled p \<longleftrightarrow> pr_phase p = phaseDone \<or> pr_phase p = phaseDead"

definition verdict :: "int \<Rightarrow> int \<Rightarrow> int \<Rightarrow> bool" where
  "verdict mtu ceil d \<longleftrightarrow>
    (if mtu < Floor then d = -1
     else if ceil \<le> mtu then d = ceil
     else d \<le> mtu \<and> mtu < d + granularity)"

definition knows :: "int \<Rightarrow> Prober \<Rightarrow> bool" where
  "knows mtu p \<longleftrightarrow> (pr_inflight p \<longrightarrow> mtu < pr_size p) \<and>
    (case pr_phase p of
       phaseBase \<Rightarrow> mtu < pr_ceil p
     | phaseFloor \<Rightarrow> mtu < pr_ceil p \<and> mtu < Base
     | phaseSearch \<Rightarrow> pr_lo p \<le> mtu \<and> mtu < pr_hi p \<and> mtu < pr_ceil p
     | phaseDone \<Rightarrow> verdict mtu (pr_ceil p) (pr_discovered p)
     | phaseDead \<Rightarrow> verdict mtu (pr_ceil p) (pr_discovered p)
     | _ \<Rightarrow> True)"

definition timing_ok :: "Prober \<Rightarrow> bool" where
  "timing_ok p \<longleftrightarrow>
    (pr_inflight p \<longrightarrow> 0 \<le> pr_attempt p \<and> pr_attempt p < maxAttempts \<and>
       0 < pr_timeout p \<and> pr_timeout p \<le> ackTimeoutTicks)"

fun phase_rank :: "phase \<Rightarrow> nat" where
  "phase_rank phaseIdle = 5" | "phase_rank phaseCeil = 4" | "phase_rank phaseBase = 3"
| "phase_rank phaseFloor = 2" | "phase_rank phaseSearch = 1" | "phase_rank phaseDone = 0"
| "phase_rank phaseDead = 0"

definition search_width :: "Prober \<Rightarrow> nat" where
  "search_width p = (if pr_phase p = phaseSearch then nat (pr_hi p - pr_lo p) else 0)"

definition patience :: "Prober \<Rightarrow> nat" where
  "patience p = (if pr_inflight p then nat (10 * (3 - pr_attempt p) + pr_timeout p) else 100 + nat (pr_wait p))"

definition prober_order :: "(Prober \<times> Prober) set" where
  "prober_order = measures [\<lambda>p. phase_rank (pr_phase p), search_width, patience]"

lemma fail_knows:
  assumes "prober_inv p" "knows mtu p" "pr_inflight p"
  shows "knows mtu (fail (pr_size p) (p\<lparr>pr_inflight := False\<rparr>))"
  using assms
  by (cases "pr_phase p") (auto simp: knows_def prober_defs prober_ops verdict_def)

lemma respond_idle_knows:
  assumes "prober_inv p" "knows mtu p" "\<not> pr_inflight p"
  shows "knows mtu (respond mtu (tick_idle p))"
  using assms
  by (cases "pr_phase p")
    (auto simp: respond_def tick_idle_def nextSize_def OnAck_def Let_def knows_def prober_defs
      prober_ops verdict_def)

lemma respond_idle_progress:
  assumes "prober_inv p" "knows mtu p" "\<not> pr_inflight p" "\<not> settled p"
  shows "settled (respond mtu (tick_idle p)) \<or> (respond mtu (tick_idle p), p) \<in> prober_order"
  using assms
  by (cases "pr_phase p")
    (auto simp: respond_def tick_idle_def nextSize_def OnAck_def Let_def knows_def prober_defs
      prober_ops settled_def prober_order_def search_width_def patience_def)

lemma respond_None [simp]: "respond mtu (None, p) = p"
  and respond_large: "mtu < z \<Longrightarrow> respond mtu (Some (i, z), p) = p"
  by (simp_all add: respond_def)

lemma knows_timers:
  "knows mtu (p\<lparr>pr_timeout := t, pr_attempt := a, pr_id := i\<rparr>) = knows mtu p"
  "knows mtu (p\<lparr>pr_timeout := t, pr_attempt := a\<rparr>) = knows mtu p"
  "knows mtu (p\<lparr>pr_timeout := t\<rparr>) = knows mtu p"
  by (cases "pr_phase p"; simp add: knows_def)+

lemma fail_order:
  assumes "prober_inv p" "knows mtu p" "pr_inflight p" "\<not> settled p"
  defines "q \<equiv> fail (pr_size p) (p\<lparr>pr_inflight := False\<rparr>)"
  shows "settled q \<or> phase_rank (pr_phase q) < phase_rank (pr_phase p) \<or>
    phase_rank (pr_phase q) = phase_rank (pr_phase p) \<and> search_width q < search_width p"
  using assms
  by (cases "pr_phase p") (auto simp: prober_defs prober_ops settled_def search_width_def)

lemma settled_idle: "settled p \<Longrightarrow> 0 < pr_wait p \<Longrightarrow> settled (respond mtu (tick_idle p))"
  by (simp add: tick_idle_def settled_def)

lemma fail_settled_wait: "settled (fail z p) \<Longrightarrow> \<not> settled p \<Longrightarrow> 0 < pr_wait (fail z p)"
  by (cases "pr_phase p") (auto simp: settled_def prober_ops split: if_splits)

lemma inflight_unsettled: "prober_inv p \<Longrightarrow> pr_inflight p \<Longrightarrow> \<not> settled p"
  by (auto simp: prober_inv_def in_flight_size_ok_def settled_def)

lemma respond_timing: "timing_ok (respond mtu (tick_idle p))" if "\<not> pr_inflight p"
  using that
  by (cases "pr_phase p")
    (auto simp: respond_def tick_idle_def nextSize_def OnAck_def Let_def timing_ok_def prober_ops)

lemma lockstep_inv:
  assumes "prober_inv p" "knows mtu p" "timing_ok p"
  shows "prober_inv (lockstep mtu p)" "knows mtu (lockstep mtu p)" "timing_ok (lockstep mtu p)"
proof -
  have "prober_inv (respond mtu (Tick p))"
    using Tick_inv [OF assms(1)] OnAck_inv by (cases "Tick p") (auto simp: respond_def split: option.split)
  then show "prober_inv (lockstep mtu p)" by (simp add: lockstep_def)
  have "knows mtu (respond mtu (Tick p)) \<and> timing_ok (respond mtu (Tick p))"
  proof (cases rule: Tick_cases [of p])
    case idle
    then show ?thesis using assms respond_idle_knows respond_timing by simp
  next
    case waiting
    then show ?thesis using assms by (simp add: knows_timers) (simp add: timing_ok_def)
  next
    case retry
    moreover have "mtu < pr_size p" using retry(1) assms(2) by (simp add: knows_def)
    ultimately show ?thesis
      using assms by (simp add: respond_large knows_timers) (simp add: timing_ok_def)
  next
    case gave_up
    let ?q = "p\<lparr>pr_timeout := pr_timeout p - 1, pr_attempt := pr_attempt p + 1\<rparr>"
    have q: "prober_inv ?q" "knows mtu ?q" "pr_inflight ?q" "in_flight_size_ok ?q"
      using assms gave_up(1) by (simp_all add: timer_irrelevant knows_timers prober_inv_def)
    have "Tick p = tick_idle (fail (pr_size ?q) (?q\<lparr>pr_inflight := False\<rparr>))" using gave_up(4) by simp
    then show ?thesis
      using respond_idle_knows [OF fail_inv [OF q(1,4)] fail_knows [OF q(1-3)]] respond_timing by simp
  qed
  then show "knows mtu (lockstep mtu p)" "timing_ok (lockstep mtu p)" by (simp_all add: lockstep_def)
qed

lemma prober_orderI:
  "phase_rank (pr_phase q) < phase_rank (pr_phase p) \<or>
   phase_rank (pr_phase q) = phase_rank (pr_phase p) \<and>
    (search_width q < search_width p \<or> search_width q = search_width p \<and> patience q < patience p) \<Longrightarrow>
   (q, p) \<in> prober_order"
  by (auto simp: prober_order_def)

lemma respond_rank:
  assumes "prober_inv p" "knows mtu p" "\<not> pr_inflight p" "\<not> settled p"
  shows "settled (respond mtu (tick_idle p)) \<or>
    phase_rank (pr_phase (respond mtu (tick_idle p))) < phase_rank (pr_phase p) \<or>
    phase_rank (pr_phase (respond mtu (tick_idle p))) = phase_rank (pr_phase p) \<and>
      search_width (respond mtu (tick_idle p)) \<le> search_width p"
  using respond_idle_progress [OF assms] by (auto simp: prober_order_def)

lemma lockstep_progress:
  assumes "prober_inv p" "knows mtu p" "timing_ok p" "\<not> settled p"
  shows "settled (lockstep mtu p) \<or> (lockstep mtu p, p) \<in> prober_order"
proof (cases rule: Tick_cases [of p])
  case idle
  then show ?thesis using assms respond_idle_progress by (simp add: lockstep_def)
next
  case waiting
  then show ?thesis
    using assms(3) by (intro disjI2 prober_orderI) (simp add: lockstep_def search_width_def patience_def timing_ok_def)
next
  case retry
  moreover have "mtu < pr_size p" using retry(1) assms(2) by (simp add: knows_def)
  ultimately show ?thesis
    using assms(3)
    by (intro disjI2 prober_orderI) (simp add: lockstep_def respond_large search_width_def patience_def timing_ok_def)
next
  case gave_up
  let ?q = "p\<lparr>pr_timeout := pr_timeout p - 1, pr_attempt := pr_attempt p + 1\<rparr>"
  let ?f = "fail (pr_size ?q) (?q\<lparr>pr_inflight := False\<rparr>)"
  have q: "prober_inv ?q" "knows mtu ?q" "pr_inflight ?q" "in_flight_size_ok ?q" "\<not> settled ?q"
    using assms gave_up(1) by (simp_all add: timer_irrelevant knows_timers prober_inv_def settled_def)
  have f: "prober_inv ?f" "knows mtu ?f" "\<not> pr_inflight ?f"
    using fail_inv [OF q(1,4)] fail_knows [OF q(1-3)] by simp_all
  have step: "lockstep mtu p = respond mtu (tick_idle ?f)" using gave_up(4) by (simp add: lockstep_def)
  have same: "pr_phase ?q = pr_phase p" "search_width ?q = search_width p"
    by (simp_all add: search_width_def)
  show ?thesis
  proof (cases "settled ?f")
    case True
    then show ?thesis
      using settled_idle [OF True] fail_settled_wait [of "pr_size ?q" "?q\<lparr>pr_inflight := False\<rparr>"] q(5)
      by (simp add: step settled_def)
  next
    case False
    then show ?thesis
      using respond_rank [OF f False] fail_order [OF q(1-3,5)] unfolding step same
      by (auto intro!: prober_orderI)
  qed
qed

lemma OnAck_ceil [simp]: "pr_ceil (OnAck i p) = pr_ceil p"
  by (cases "pr_phase p") (auto simp: OnAck_def Let_def prober_ops)

lemma tick_idle_ceil [simp]: "pr_ceil (snd (tick_idle p)) = pr_ceil p"
  by (cases "pr_phase p") (auto simp: tick_idle_def nextSize_def Let_def finish_def)

lemma Tick_ceil [simp]: "pr_ceil (snd (Tick p)) = pr_ceil p"
  by (cases rule: Tick_cases [of p]) simp_all

lemma lockstep_ceil: "pr_ceil (lockstep mtu p) = pr_ceil p"
  using Tick_ceil [of p] by (cases "Tick p") (auto simp: lockstep_def respond_def split: option.split)

lemma lockstep_settles:
  assumes "prober_inv p" "knows mtu p" "timing_ok p"
  shows "\<exists>n. settled ((lockstep mtu ^^ n) p) \<and> knows mtu ((lockstep mtu ^^ n) p) \<and>
    pr_ceil ((lockstep mtu ^^ n) p) = pr_ceil p"
proof -
  note ceil = lockstep_ceil
  have "wf prober_order" by (simp add: prober_order_def)
  then show ?thesis using assms
  proof (induction p rule: wf_induct_rule)
    case (less p)
    show ?case
    proof (cases "settled p")
      case True
      then show ?thesis using less.prems by (intro exI [of _ 0]) simp
    next
      case False
      note next_ok = lockstep_inv [OF less.prems]
      consider "settled (lockstep mtu p)" | "(lockstep mtu p, p) \<in> prober_order"
        using lockstep_progress [OF less.prems False] by blast
      then show ?thesis
      proof cases
        case 1
        then show ?thesis using next_ok ceil by (intro exI [of _ 1]) simp
      next
        case 2
        then obtain n where "settled ((lockstep mtu ^^ n) (lockstep mtu p))"
          "knows mtu ((lockstep mtu ^^ n) (lockstep mtu p))"
          "pr_ceil ((lockstep mtu ^^ n) (lockstep mtu p)) = pr_ceil (lockstep mtu p)"
          using less.IH [OF 2 next_ok] by blast
        then show ?thesis using ceil by (intro exI [of _ "Suc n"]) (simp add: funpow_swap1)
      qed
    qed
  qed
qed

lemma prober_move_ceil: "prober_move m p p' \<Longrightarrow> pr_ceil p' = pr_ceil p"
  by (cases rule: prober_move.cases) (auto simp: OnSendError_def Restart_def)

interpretation ceiling: machine "prober_move m" "\<lambda>p. pr_ceil p = c" for m c
  by unfold_locales (simp add: prober_move_ceil)

lemma prober_run_ceil: "(prober_move m)\<^sup>*\<^sup>* p p' \<Longrightarrow> pr_ceil p' = pr_ceil p"
  using ceiling.reachable_inv by blast

section \<open>Properties of MTU discovery\<close>

text \<open>
  Property C23. Safety: whatever the interleaving of ticks, acks (late, duplicated or lost), send
  errors and restarts, the discovered MTU never exceeds what the path carries, given that
  the ack of the probe in flight arrives only if that probe's size passes.
\<close>

theorem Discovered_safe:
  assumes "(prober_move mtu)\<^sup>*\<^sup>* (NewProber c) p" and "0 < Discovered p"
  shows "Discovered p \<le> mtu"
  using prober_run_inv [OF assms(1)] assms(2) by (simp add: Discovered_def below_mtu_def)

theorem Discovered_safe_witness:
  "Discovered (OnAck 1 (snd (Tick (snd (Tick (snd (Tick (snd (Tick (snd (Tick (snd (Tick (NewProber 1500)))))))))))))) = 1500 \<and>
   Discovered (OnAck 1 (snd (Tick (snd (Tick (snd (Tick (snd (Tick (snd (Tick (snd (Tick (NewProber 1500)))))))))))))) \<le> 1500"
proof -
  let ?t = "\<lambda>p. snd (Tick p)"
  let ?p = "?t (?t (?t (?t (?t (?t (NewProber 1500))))))"
  have p: "?p = (NewProber 1500)\<lparr>pr_wait := 0, pr_phase := phaseCeil, pr_inflight := True, pr_size := 1500,
      pr_attempt := 0, pr_timeout := 5, pr_id := 1\<rparr>"
    by (simp add: NewProber_def Tick_def tick_idle_def nextSize_def Let_def)
  have ack: "Discovered (OnAck 1 ?p) = 1500"
    unfolding p by (simp add: OnAck_def NewProber_def finish_def Discovered_def)
  have "(prober_move 1500)\<^sup>*\<^sup>* (NewProber 1500) ?p"
    by (meson converse_rtranclp_into_rtranclp prober_move.tick rtranclp.rtrancl_refl)
  moreover have "prober_move 1500 ?p (OnAck 1 ?p)"
    by (rule prober_move.ack) (unfold p, simp)
  ultimately have "(prober_move 1500)\<^sup>*\<^sup>* (NewProber 1500) (OnAck 1 ?p)" by (rule rtranclp.rtrancl_into_rtrancl)
  from Discovered_safe [OF this] ack show ?thesis by simp
qed

text \<open>
  Property C22. Convergence: on a path with a fixed MTU, discovery ends. It reports the ceiling if
  the path carries it, dead (-1) if the path does not carry \<open>Floor\<close>, and otherwise a
  size that passes and is less than \<open>granularity\<close> below the MTU.
\<close>

theorem discovery_converges:
  assumes "Floor \<le> ceil"
  shows "\<exists>n. settled ((lockstep mtu ^^ n) (NewProber ceil)) \<and>
    (let d = Discovered ((lockstep mtu ^^ n) (NewProber ceil))
     in if mtu < Floor then d = -1
        else if ceil \<le> mtu then d = ceil
        else d \<le> mtu \<and> mtu < d + granularity)"
proof -
  have "prober_inv (NewProber ceil)" using NewProber_inv by blast
  moreover have "knows mtu (NewProber ceil)" "timing_ok (NewProber ceil)" "pr_ceil (NewProber ceil) = ceil"
    using assms by (simp_all add: NewProber_def knows_def timing_ok_def)
  ultimately obtain n where "settled ((lockstep mtu ^^ n) (NewProber ceil))"
    "knows mtu ((lockstep mtu ^^ n) (NewProber ceil))" "pr_ceil ((lockstep mtu ^^ n) (NewProber ceil)) = ceil"
    using lockstep_settles by metis
  then show ?thesis
    by (intro exI [of _ n]) (auto simp: settled_def knows_def verdict_def Discovered_def)
qed

theorem discovery_converges_witness:
  "\<exists>n. Discovered ((lockstep 1400 ^^ n) (NewProber 1500)) \<le> 1400 \<and>
    1400 < Discovered ((lockstep 1400 ^^ n) (NewProber 1500)) + 8"
  using discovery_converges [of 1500 1400] by (auto simp: Let_def)

text \<open>
  Every probe sent has a size between \<open>Floor\<close> and the larger of the ceiling and
  \<open>Base\<close> and carries a new id (the previous one plus one), and the reported result is
  0, -1 or a size in the same range, in every reachable state.
\<close>

theorem probe_sizes_bounded:
  assumes "(prober_move mtu)\<^sup>*\<^sup>* (NewProber c) p"
  shows "(case Tick p of (Some (i, z), _) \<Rightarrow> Floor \<le> z \<and> z \<le> max (max c Floor) Base \<and> i = pr_id p + 1
      | (None, _) \<Rightarrow> True) \<and>
    (Discovered p = 0 \<or> Discovered p = -1 \<or> Floor \<le> Discovered p \<and> Discovered p \<le> max (max c Floor) Base)"
proof -
  have inv: "prober_inv p" using prober_run_inv [OF assms] by simp
  have "pr_ceil p = max c Floor" using prober_run_ceil [OF assms] by (simp add: NewProber_def)
  then show ?thesis
    using inv Tick_sends [OF inv]
    by (auto simp: Discovered_def prober_inv_def split: option.split prod.split)
qed

theorem probe_sizes_bounded_witness:
  "Discovered (snd (Tick (NewProber 1500))) = 0 \<or> Discovered (snd (Tick (NewProber 1500))) = -1 \<or>
    576 \<le> Discovered (snd (Tick (NewProber 1500)))"
  using probe_sizes_bounded [of 0 1500 "snd (Tick (NewProber 1500))"] prober_move.tick [of 0 "NewProber 1500"]
  by auto

end
