(* ===== verification/Sched.thy ===== *)
theory Sched
  imports Wire
begin

text \<open>
  Per-packet path selection, \<open>internal/sched/sched.go\<close>: the path table, the AIMD weights
  adapted from probe metrics, the stride scheduler of bonding mode and the fan-out of
  redundant mode.

  A \<open>float64\<close> is a real number: the model has the arithmetic of the code without its
  rounding, and no NaN or infinity. A \<open>time.Duration\<close> is an integer number of
  nanoseconds. An operation that indexes the path table with an id of 32 or more panics,
  which is \<open>None\<close>. Each operation holds the mutex from start to end, so it is one step.
\<close>

section \<open>Data\<close>

datatype Mode = ModeBonding | ModeRedundant | ModeFEC

fun Mode_String :: "Mode \<Rightarrow> string" where
  "Mode_String ModeRedundant = ''redundant''"
| "Mode_String ModeFEC = ''fec''"
| "Mode_String ModeBonding = ''bonding''"

definition ParseMode :: "string \<Rightarrow> Mode \<times> bool" where
  "ParseMode s =
    (if s = ''bonding'' \<or> s = '''' then (ModeBonding, True)
     else if s = ''redundant'' then (ModeRedundant, True)
     else if s = ''fec'' then (ModeFEC, True)
     else (ModeBonding, False))"

datatype PathState = StateActive | StateDegraded | StateDown

record Metrics =
  m_SRTT :: int
  m_RTTVar :: int
  m_MinRTT :: int
  m_Loss :: real
  m_DeliveryBps :: real

record SchedConfig =
  c_LossDecrease :: real
  c_LossFloor :: real
  c_IncreaseFactor :: real
  c_DecreaseFactor :: real
  c_BloatFactor :: real
  c_BloatRTTMult :: real
  c_MaxRTTSpread :: int
  c_SpreadCap :: real
  c_DegradedFraction :: real
  c_InitialBps :: real
  c_SlowStartBps :: real
  c_MinBps :: real
  c_MaxBps :: real

definition DefaultSchedConfig :: SchedConfig where
  "DefaultSchedConfig =
    \<lparr>c_LossDecrease = 2 / 100, c_LossFloor = 2 / 100, c_IncreaseFactor = 105 / 100,
     c_DecreaseFactor = 7 / 10, c_BloatFactor = 85 / 100, c_BloatRTTMult = 3,
     c_MaxRTTSpread = 150000000, c_SpreadCap = 1 / 2, c_DegradedFraction = 1 / 100,
     c_InitialBps = 10000000 / 8, c_SlowStartBps = 1000000 / 8, c_MinBps = 100000 / 8,
     c_MaxBps = 10000000000 / 8\<rparr>"

record pathState =
  p_id :: byte
  p_present :: bool
  p_state :: PathState
  p_weight :: real
  p_pass :: real
  p_srtt :: int
  p_capped :: bool
  p_initHint :: real
  p_maxInner :: int

definition pathState_zero :: pathState where
  "pathState_zero =
    \<lparr>p_id = 0, p_present = False, p_state = StateActive, p_weight = 0, p_pass = 0, p_srtt = 0,
     p_capped = False, p_initHint = 0, p_maxInner = 0\<rparr>"

record Scheduler =
  sc_cfg :: SchedConfig
  sc_mode :: Mode
  sc_paths :: "pathState garray"

section \<open>Operations on the path table\<close>

definition NewScheduler :: "SchedConfig \<Rightarrow> Mode \<Rightarrow> Scheduler" where
  "NewScheduler cfg mode = \<lparr>sc_cfg = cfg, sc_mode = mode, sc_paths = (\<lambda>_. pathState_zero)\<rparr>"

definition SetMode :: "Mode \<Rightarrow> Scheduler \<Rightarrow> Scheduler" where
  "SetMode m s = s\<lparr>sc_mode := m\<rparr>"

definition clamp :: "real \<Rightarrow> real \<Rightarrow> real \<Rightarrow> real" where
  "clamp v lo hi = (if v < lo then lo else if hi < v then hi else v)"

text \<open>\<open>s.paths[id] = f(s.paths[id])\<close>, a panic when the index is out of range.\<close>

definition update_path :: "byte \<Rightarrow> (pathState \<Rightarrow> pathState) \<Rightarrow> Scheduler \<Rightarrow> Scheduler option" where
  "update_path i f s =
    (if unat i < MaxPaths
     then Some (s\<lparr>sc_paths := (sc_paths s)(unat i := f (sc_paths s (unat i)))\<rparr>)
     else None)"

definition max_pass :: "Scheduler \<Rightarrow> real" where
  "max_pass s = fold (\<lambda>i pass. if p_present (sc_paths s i) \<and> pass < p_pass (sc_paths s i)
     then p_pass (sc_paths s i) else pass) [0..<MaxPaths] 0"

definition AddPath :: "byte \<Rightarrow> real \<Rightarrow> bool \<Rightarrow> Scheduler \<Rightarrow> Scheduler option" where
  "AddPath i initialBps rejoin s =
    (let w = c_InitialBps (sc_cfg s);
         w = (if 0 < initialBps then initialBps else w);
         w = (if rejoin then c_SlowStartBps (sc_cfg s) else w);
         pass = max_pass s
     in update_path i (\<lambda>p. pathState_zero\<lparr>p_id := i, p_present := True, p_state := StateActive,
          p_weight := clamp w (c_MinBps (sc_cfg s)) (c_MaxBps (sc_cfg s)), p_pass := pass,
          p_initHint := initialBps, p_maxInner := p_maxInner p\<rparr>) s)"

definition SetPathMTU :: "byte \<Rightarrow> int \<Rightarrow> Scheduler \<Rightarrow> Scheduler option" where
  "SetPathMTU i maxInner s = update_path i (\<lambda>p. p\<lparr>p_maxInner := maxInner\<rparr>) s"

definition MinUsableInner :: "Scheduler \<Rightarrow> int" where
  "MinUsableInner s = fold (\<lambda>i mn. let p = sc_paths s i in
       if \<not> p_present p \<or> p_state p = StateDown then mn
       else if p_maxInner p \<le> 1 then mn
       else if mn = 0 \<or> p_maxInner p < mn then p_maxInner p else mn) [0..<MaxPaths] 0"

definition RemovePath :: "byte \<Rightarrow> Scheduler \<Rightarrow> Scheduler option" where
  "RemovePath i s = update_path i (\<lambda>_. pathState_zero) s"

definition SetState :: "byte \<Rightarrow> PathState \<Rightarrow> Scheduler \<Rightarrow> Scheduler option" where
  "SetState i st s = update_path i (\<lambda>p. if p_present p then p\<lparr>p_state := st\<rparr> else p) s"

section \<open>Weight adaptation\<close>

text \<open>The conversion \<open>time.Duration(f)\<close> truncates towards zero.\<close>

definition trunc :: "real \<Rightarrow> int" where
  "trunc f = (if 0 \<le> f then \<lfloor>f\<rfloor> else \<lceil>f\<rceil>)"

definition adapt_weight :: "SchedConfig \<Rightarrow> Metrics \<Rightarrow> real \<Rightarrow> real" where
  "adapt_weight cfg m w0 =
    (let w = (if c_LossDecrease cfg < m_Loss m then
                (if 5 / 10 * w0 \<le> m_DeliveryBps m then 95 / 100 * m_DeliveryBps m
                 else w0 * c_DecreaseFactor cfg)
              else if m_Loss m < c_LossFloor cfg \<and> 9 / 10 * w0 \<le> m_DeliveryBps m
              then w0 * c_IncreaseFactor cfg
              else w0);
         w = (if m_Loss m < c_LossFloor cfg \<and> w < m_DeliveryBps m then m_DeliveryBps m else w);
         w = (if 0 < m_MinRTT m \<and> trunc (c_BloatRTTMult cfg * of_int (m_MinRTT m)) < m_SRTT m
              then w * c_BloatFactor cfg else w)
     in clamp w (c_MinBps cfg) (c_MaxBps cfg))"

definition fastest_rtt :: "pathState garray \<Rightarrow> int" where
  "fastest_rtt ps = fold (\<lambda>i fastest. let q = ps i in
       if p_present q \<and> p_state q = StateActive \<and> 0 < p_srtt q \<and> (fastest = 0 \<or> p_srtt q < fastest)
       then p_srtt q else fastest) [0..<MaxPaths] 0"

definition recap :: "SchedConfig \<Rightarrow> pathState garray \<Rightarrow> pathState garray" where
  "recap cfg ps =
    (let fastest = fastest_rtt ps
     in (\<lambda>i. let q = ps i in
          if i < MaxPaths \<and> p_present q
          then q\<lparr>p_capped := (0 < fastest \<and> fastest + c_MaxRTTSpread cfg < p_srtt q)\<rparr> else q))"

definition OnMetrics :: "byte \<Rightarrow> Metrics \<Rightarrow> Scheduler \<Rightarrow> Scheduler option" where
  "OnMetrics i m s =
    (if unat i < MaxPaths then
       (if \<not> p_present (sc_paths s (unat i)) then Some s
        else let p = sc_paths s (unat i);
                 p = p\<lparr>p_weight := adapt_weight (sc_cfg s) m (p_weight p), p_srtt := m_SRTT m\<rparr>
             in Some (s\<lparr>sc_paths := recap (sc_cfg s) ((sc_paths s)(unat i := p))\<rparr>))
     else None)"

section \<open>Assignment\<close>

definition effectiveWeight :: "SchedConfig \<Rightarrow> pathState \<Rightarrow> real" where
  "effectiveWeight cfg p =
    (let w = p_weight p;
         w = (if p_capped p then w * c_SpreadCap cfg else w);
         w = (if p_state p = StateDegraded then w * c_DegradedFraction cfg else w)
     in if w < 1 then 1 else w)"

definition usable :: "pathState \<Rightarrow> bool" where
  "usable p \<longleftrightarrow> p_present p \<and> p_state p \<noteq> StateDown"

text \<open>\<open>p.maxInner == 0 || pktLen <= p.maxInner\<close>\<close>

definition fits_inner :: "int \<Rightarrow> pathState \<Rightarrow> bool" where
  "fits_inner pktLen p \<longleftrightarrow> p_maxInner p = 0 \<or> pktLen \<le> p_maxInner p"

definition candidate :: "int \<Rightarrow> pathState \<Rightarrow> bool" where
  "candidate pktLen p \<longleftrightarrow> usable p \<and> fits_inner pktLen p"

definition Assign :: "int \<Rightarrow> byte list \<Rightarrow> Scheduler \<Rightarrow> byte list \<times> Scheduler" where
  "Assign pktLen out s =
    (if sc_mode s = ModeRedundant then
       (fold (\<lambda>i out. let p = sc_paths s i in if candidate pktLen p then out @ [p_id p] else out)
          [0..<MaxPaths] out, s)
     else case scan_min (\<lambda>i. candidate pktLen (sc_paths s i)) (\<lambda>i. p_pass (sc_paths s i))
         [0..<MaxPaths] of
       None \<Rightarrow> (out, s)
     | Some b \<Rightarrow>
        let p = sc_paths s b;
            p' = p\<lparr>p_pass := p_pass p + of_int pktLen / effectiveWeight (sc_cfg s) p\<rparr>
        in (out @ [p_id p'], s\<lparr>sc_paths := (sc_paths s)(b := p')\<rparr>))"

definition total_weight :: "Scheduler \<Rightarrow> real" where
  "total_weight s = fold (\<lambda>i total. let q = sc_paths s i in
       if usable q then total + effectiveWeight (sc_cfg s) q else total) [0..<MaxPaths] 0"

definition PathWeight :: "byte \<Rightarrow> Scheduler \<Rightarrow> real option" where
  "PathWeight i s =
    (if unat i < MaxPaths then
       let p = sc_paths s (unat i)
       in Some (if \<not> usable p then 0
                else if total_weight s = 0 then 0
                else effectiveWeight (sc_cfg s) p / total_weight s)
     else None)"

definition WeightBps :: "byte \<Rightarrow> Scheduler \<Rightarrow> real option" where
  "WeightBps i s =
    (if unat i < MaxPaths
     then Some (if p_present (sc_paths s (unat i)) then p_weight (sc_paths s (unat i)) else 0)
     else None)"

section \<open>Histories\<close>

inductive sched_step :: "Scheduler \<Rightarrow> Scheduler \<Rightarrow> bool" where
  set_mode: "sched_step s (SetMode m s)"
| add_path: "AddPath i bps rejoin s = Some s' \<Longrightarrow> sched_step s s'"
| set_mtu: "SetPathMTU i n s = Some s' \<Longrightarrow> sched_step s s'"
| remove_path: "RemovePath i s = Some s' \<Longrightarrow> sched_step s s'"
| set_state: "SetState i st s = Some s' \<Longrightarrow> sched_step s s'"
| on_metrics: "OnMetrics i m s = Some s' \<Longrightarrow> sched_step s s'"
| assign: "0 \<le> n \<Longrightarrow> sched_step s (snd (Assign n out s))"

definition path_inv :: "SchedConfig \<Rightarrow> nat \<Rightarrow> pathState \<Rightarrow> bool" where
  "path_inv cfg i p \<longleftrightarrow> p_present p \<longrightarrow>
     unat (p_id p) = i \<and> c_MinBps cfg \<le> p_weight p \<and> p_weight p \<le> c_MaxBps cfg \<and> 0 \<le> p_pass p"

definition sched_inv :: "Scheduler \<Rightarrow> bool" where
  "sched_inv s \<longleftrightarrow> (\<forall>i < MaxPaths. path_inv (sc_cfg s) i (sc_paths s i))"

text \<open>Assigning a list of packets, and the bytes a path is given.\<close>

fun assign_run :: "Scheduler \<Rightarrow> int list \<Rightarrow> (byte \<times> int) list \<times> Scheduler" where
  "assign_run s [] = ([], s)"
| "assign_run s (n # ns) =
    (let (ids, s') = Assign n [] s; (rest, s'') = assign_run s' ns
     in (map (\<lambda>i. (i, n)) ids @ rest, s''))"

definition bytes_on :: "byte \<Rightarrow> (byte \<times> int) list \<Rightarrow> int" where
  "bytes_on i xs = sum_list (map snd (filter (\<lambda>x. fst x = i) xs))"

lemma clamp_bounds: "lo \<le> hi \<Longrightarrow> lo \<le> clamp v lo hi \<and> clamp v lo hi \<le> hi"
  by (simp add: clamp_def)

lemma update_path_inv:
  assumes "update_path i f s = Some s'" and "sched_inv s"
    and "path_inv (sc_cfg s) (unat i) (f (sc_paths s (unat i)))"
  shows "sched_inv s' \<and> sc_cfg s' = sc_cfg s"
  using assms by (auto simp: update_path_def sched_inv_def split: if_splits)

lemma max_pass_nonneg: "0 \<le> max_pass s"
proof -
  have "0 \<le> fold (\<lambda>i pass. if p_present (sc_paths s i) \<and> pass < p_pass (sc_paths s i)
     then p_pass (sc_paths s i) else pass) xs b" if "0 \<le> b" for xs b
    using that by (induction xs arbitrary: b) auto
  then show ?thesis by (simp add: max_pass_def)
qed

lemma AddPath_inv:
  assumes "AddPath i bps rejoin s = Some s'" "sched_inv s" "c_MinBps (sc_cfg s) \<le> c_MaxBps (sc_cfg s)"
  shows "sched_inv s' \<and> sc_cfg s' = sc_cfg s"
  using assms(1) unfolding AddPath_def Let_def
  by (rule update_path_inv) (use assms(2,3) max_pass_nonneg [of s] in \<open>simp_all add: path_inv_def clamp_bounds\<close>)

lemma adapt_weight_bounds:
  "c_MinBps cfg \<le> c_MaxBps cfg \<Longrightarrow>
    c_MinBps cfg \<le> adapt_weight cfg m w \<and> adapt_weight cfg m w \<le> c_MaxBps cfg"
  unfolding adapt_weight_def Let_def by (rule clamp_bounds)

lemma recap_inv: "path_inv cfg i (recap c ps i) = path_inv cfg i (ps i)"
  by (simp add: recap_def Let_def path_inv_def)

lemma OnMetrics_inv:
  assumes "OnMetrics i m s = Some s'" "sched_inv s" "c_MinBps (sc_cfg s) \<le> c_MaxBps (sc_cfg s)"
  shows "sched_inv s' \<and> sc_cfg s' = sc_cfg s"
proof (cases "p_present (sc_paths s (unat i))")
  case True
  let ?p = "(sc_paths s (unat i))\<lparr>p_weight := adapt_weight (sc_cfg s) m (p_weight (sc_paths s (unat i))),
    p_srtt := m_SRTT m\<rparr>"
  have i: "unat i < MaxPaths" using assms(1) by (simp add: OnMetrics_def split: if_splits)
  then have s': "s' = s\<lparr>sc_paths := recap (sc_cfg s) ((sc_paths s)(unat i := ?p))\<rparr>"
    using assms(1) True by (simp add: OnMetrics_def Let_def)
  have "path_inv (sc_cfg s) (unat i) ?p"
    using assms(2) i True adapt_weight_bounds [OF assms(3)] by (simp add: sched_inv_def path_inv_def)
  then show ?thesis using assms(2) by (simp add: s' sched_inv_def recap_inv)
next
  case False
  then show ?thesis using assms by (simp add: OnMetrics_def split: if_splits)
qed

lemma effectiveWeight_pos: "1 \<le> effectiveWeight cfg p"
  by (simp add: effectiveWeight_def Let_def)

lemma Assign_cases:
  obtains (fan) "sc_mode s = ModeRedundant" "snd (Assign n out s) = s"
  | (none) "sc_mode s \<noteq> ModeRedundant" "Assign n out s = (out, s)"
      "\<forall>i < MaxPaths. \<not> candidate n (sc_paths s i)"
  | (one) b where "sc_mode s \<noteq> ModeRedundant" "b < MaxPaths" "candidate n (sc_paths s b)"
      "\<forall>i < MaxPaths. candidate n (sc_paths s i) \<longrightarrow> p_pass (sc_paths s b) \<le> p_pass (sc_paths s i)"
      "Assign n out s = (out @ [p_id (sc_paths s b)],
        s\<lparr>sc_paths := (sc_paths s)(b := (sc_paths s b)\<lparr>p_pass :=
          p_pass (sc_paths s b) + of_int n / effectiveWeight (sc_cfg s) (sc_paths s b)\<rparr>)\<rparr>)"
proof (cases "sc_mode s = ModeRedundant")
  case True
  then show ?thesis using fan by (simp add: Assign_def)
next
  case False
  let ?scan = "scan_min (\<lambda>i. candidate n (sc_paths s i)) (\<lambda>i. p_pass (sc_paths s i)) [0..<MaxPaths]"
  show ?thesis
  proof (cases ?scan)
    case None
    then have "Assign n out s = (out, s)" using False by (simp add: Assign_def)
    moreover have "\<forall>i < MaxPaths. \<not> candidate n (sc_paths s i)"
      using None by (simp add: scan_min_None)
    ultimately show ?thesis using none False by blast
  next
    case (Some b)
    then show ?thesis
      using one [of b] False scan_min_Some [OF Some] by (simp add: Assign_def Let_def)
  qed
qed

lemma Assign_inv:
  assumes "0 \<le> n" "sched_inv s"
  shows "sched_inv (snd (Assign n out s)) \<and> sc_cfg (snd (Assign n out s)) = sc_cfg s"
proof (cases rule: Assign_cases [of s n out])
  case (one b)
  have "0 \<le> of_int n / effectiveWeight (sc_cfg s) (sc_paths s b)"
    using assms(1) effectiveWeight_pos [of "sc_cfg s" "sc_paths s b"] by simp
  then show ?thesis
    using one assms(2) by (auto simp: sched_inv_def path_inv_def)
qed (use assms in simp_all)

lemma sched_step_inv:
  assumes "sched_step s s'" "sched_inv s" "c_MinBps (sc_cfg s) \<le> c_MaxBps (sc_cfg s)"
  shows "sched_inv s' \<and> sc_cfg s' = sc_cfg s"
  using assms
proof (cases rule: sched_step.cases)
  case (set_mode m)
  then show ?thesis using assms by (simp add: SetMode_def sched_inv_def)
next
  case (set_mtu i n)
  then show ?thesis
    using assms update_path_inv [of i "\<lambda>p. p\<lparr>p_maxInner := n\<rparr>" s s']
    by (auto simp: SetPathMTU_def sched_inv_def path_inv_def update_path_def split: if_splits)
next
  case (remove_path i)
  then show ?thesis
    using assms update_path_inv [of i "\<lambda>_. pathState_zero" s s']
    by (simp add: RemovePath_def path_inv_def pathState_zero_def)
next
  case (set_state i st)
  then show ?thesis
    using assms update_path_inv [of i "\<lambda>p. if p_present p then p\<lparr>p_state := st\<rparr> else p" s s']
    by (auto simp: SetState_def sched_inv_def path_inv_def update_path_def split: if_splits)
qed (use AddPath_inv OnMetrics_inv Assign_inv in auto)

interpretation weights: machine sched_step "\<lambda>s. sched_inv s \<and> sc_cfg s = cfg \<and> c_MinBps cfg \<le> c_MaxBps cfg" for cfg
  by unfold_locales (auto dest: sched_step_inv)

lemma sched_reach_inv:
  assumes "sched_step\<^sup>*\<^sup>* (NewScheduler cfg m) s" "c_MinBps cfg \<le> c_MaxBps cfg"
  shows "sched_inv s \<and> sc_cfg s = cfg"
proof -
  have "sched_inv (NewScheduler cfg m) \<and> sc_cfg (NewScheduler cfg m) = cfg"
    by (simp add: NewScheduler_def sched_inv_def path_inv_def pathState_zero_def)
  then show ?thesis using weights.reachable_inv [OF assms(1), of cfg] assms(2) by blast
qed

section \<open>Stride fairness\<close>

definition ids_ok :: "Scheduler \<Rightarrow> bool" where
  "ids_ok s \<longleftrightarrow> (\<forall>i < MaxPaths. usable (sc_paths s i) \<longrightarrow> unat (p_id (sc_paths s i)) = i)"

text \<open>Assignment changes nothing but passes; \<open>repass\<close> describes that.\<close>

definition repass :: "Scheduler \<Rightarrow> Scheduler \<Rightarrow> bool" where
  "repass s s' \<longleftrightarrow> sc_mode s' = sc_mode s \<and> sc_cfg s' = sc_cfg s \<and>
    (\<forall>i. \<exists>x. sc_paths s' i = (sc_paths s i)\<lparr>p_pass := x\<rparr>)"

lemma repass_refl: "repass s s"
  unfolding repass_def by (metis pathState.surjective pathState.update_convs(5))

lemma pass_irrelevant [simp]:
  "usable (p\<lparr>p_pass := x\<rparr>) = usable p" "fits_inner n (p\<lparr>p_pass := x\<rparr>) = fits_inner n p"
  "effectiveWeight cfg (p\<lparr>p_pass := x\<rparr>) = effectiveWeight cfg p"
  by (simp_all add: usable_def fits_inner_def effectiveWeight_def)

lemma repassD:
  assumes "repass s s'"
  shows "sc_mode s' = sc_mode s" "sc_cfg s' = sc_cfg s"
    "usable (sc_paths s' i) = usable (sc_paths s i)"
    "fits_inner n (sc_paths s' i) = fits_inner n (sc_paths s i)"
    "effectiveWeight cfg (sc_paths s' i) = effectiveWeight cfg (sc_paths s i)"
    "p_id (sc_paths s' i) = p_id (sc_paths s i)" "ids_ok s' = ids_ok s"
proof -
  have ex: "\<exists>x. sc_paths s' j = (sc_paths s j)\<lparr>p_pass := x\<rparr>" for j
    using assms by (simp add: repass_def)
  show "sc_mode s' = sc_mode s" "sc_cfg s' = sc_cfg s" using assms by (simp_all add: repass_def)
  show u: "usable (sc_paths s' i) = usable (sc_paths s i)" for i using ex [of i] by auto
  show "fits_inner n (sc_paths s' i) = fits_inner n (sc_paths s i)" using ex [of i] by auto
  show "effectiveWeight cfg (sc_paths s' i) = effectiveWeight cfg (sc_paths s i)" using ex [of i] by auto
  show q: "p_id (sc_paths s' i) = p_id (sc_paths s i)" for i using ex [of i] by auto
  show "ids_ok s' = ids_ok s" by (simp add: ids_ok_def u q)
qed

lemma repass_Assign: "repass s (snd (Assign n out s))"
proof (cases rule: Assign_cases [of s n out])
  case (one b)
  then show ?thesis
    by (auto simp: repass_def) (metis pathState.surjective pathState.update_convs(5))
qed (simp_all add: repass_refl)

lemma bytes_on_simps [simp]:
  "bytes_on i [] = 0"
  "bytes_on i (x # xs) = (if fst x = i then snd x else 0) + bytes_on i xs"
  "bytes_on i (xs @ ys) = bytes_on i xs + bytes_on i ys"
  by (simp_all add: bytes_on_def)

text \<open>One assignment in bonding mode: a path is charged for what it is given, ...\<close>

lemma Assign_charges:
  assumes "sc_mode s \<noteq> ModeRedundant" "ids_ok s" "a < MaxPaths" "usable (sc_paths s a)"
  shows "p_pass (sc_paths (snd (Assign n [] s)) a) = p_pass (sc_paths s a) +
    of_int (bytes_on (p_id (sc_paths s a)) (map (\<lambda>i. (i, n)) (fst (Assign n [] s)))) /
    effectiveWeight (sc_cfg s) (sc_paths s a)"
proof (cases rule: Assign_cases [of s n "[]"])
  case (one b)
  have "unat (p_id (sc_paths s b)) = b" "unat (p_id (sc_paths s a)) = a"
    using one(2,3) assms(2,3,4) by (simp_all add: ids_ok_def candidate_def)
  then have "p_id (sc_paths s b) = p_id (sc_paths s a) \<longleftrightarrow> b = a" by metis
  then show ?thesis using one(5) by auto
qed (use assms(1) in simp_all)

text \<open>... and a path never gets more than one packet ahead of another that could have carried it.\<close>

lemma Assign_gap:
  assumes "sc_mode s \<noteq> ModeRedundant" "0 \<le> n" "n \<le> L"
    "b < MaxPaths" "usable (sc_paths s b)" "fits_inner L (sc_paths s b)"
    and gap: "p_pass (sc_paths s a) \<le> p_pass (sc_paths s b) + of_int L / effectiveWeight (sc_cfg s) (sc_paths s a)"
  shows "p_pass (sc_paths (snd (Assign n [] s)) a) \<le> p_pass (sc_paths (snd (Assign n [] s)) b) +
    of_int L / effectiveWeight (sc_cfg s) (sc_paths s a)"
proof (cases rule: Assign_cases [of s n "[]"])
  case (one c)
  have pos: "0 < effectiveWeight (sc_cfg s) p" for p using effectiveWeight_pos [of "sc_cfg s" p] by simp
  have nonneg: "0 \<le> of_int n / effectiveWeight (sc_cfg s) p" for p
    using assms(2) pos [of p] by (simp add: less_imp_le)
  have le: "of_int n / effectiveWeight (sc_cfg s) p \<le> of_int L / effectiveWeight (sc_cfg s) p" for p
    using assms(3) pos [of p] by (simp add: divide_right_mono less_imp_le)
  have "candidate n (sc_paths s b)"
    using assms(3,5,6) by (auto simp: candidate_def fits_inner_def)
  then have min: "p_pass (sc_paths s c) \<le> p_pass (sc_paths s b)" using one(4) assms(4) by blast
  show ?thesis
  proof (cases "c = a")
    case True
    then show ?thesis using one(5) min le [of "sc_paths s a"] nonneg [of "sc_paths s a"]
      by (auto intro: order_trans [OF add_mono])
  next
    case False
    then show ?thesis using one(5) gap nonneg [of "sc_paths s b"] by auto
  qed
qed (use assms in simp_all)

lemma assign_run_Cons:
  "fst (assign_run s (n # ns)) = map (\<lambda>i. (i, n)) (fst (Assign n [] s)) @ fst (assign_run (snd (Assign n [] s)) ns)"
  "snd (assign_run s (n # ns)) = snd (assign_run (snd (Assign n [] s)) ns)"
  by (simp_all add: split_beta Let_def)

lemma assign_run_charges:
  assumes "sc_mode s \<noteq> ModeRedundant" "ids_ok s" "a < MaxPaths" "usable (sc_paths s a)"
  shows "p_pass (sc_paths (snd (assign_run s ns)) a) = p_pass (sc_paths s a) +
    of_int (bytes_on (p_id (sc_paths s a)) (fst (assign_run s ns))) / effectiveWeight (sc_cfg s) (sc_paths s a)"
  using assms
proof (induction ns arbitrary: s)
  case (Cons n ns)
  note r = repassD [OF repass_Assign [of s n "[]"]]
  show ?case
    using Cons.IH [of "snd (Assign n [] s)"] Cons.prems Assign_charges [OF Cons.prems, of n]
    by (simp add: r assign_run_Cons add_divide_distrib del: assign_run.simps)
qed simp

lemma assign_run_gap:
  assumes "sc_mode s \<noteq> ModeRedundant" "\<forall>n\<in>set ns. 0 \<le> n \<and> n \<le> L"
    "b < MaxPaths" "usable (sc_paths s b)" "fits_inner L (sc_paths s b)"
    "p_pass (sc_paths s a) \<le> p_pass (sc_paths s b) + of_int L / effectiveWeight (sc_cfg s) (sc_paths s a)"
  shows "p_pass (sc_paths (snd (assign_run s ns)) a) \<le> p_pass (sc_paths (snd (assign_run s ns)) b) +
    of_int L / effectiveWeight (sc_cfg s) (sc_paths s a)"
  using assms
proof (induction ns arbitrary: s)
  case (Cons n ns)
  note r = repassD [OF repass_Assign [of s n "[]"]]
  show ?case
    using Cons.IH [of "snd (Assign n [] s)"] Cons.prems Assign_gap [of s n L b a]
    by (simp add: r assign_run_Cons del: assign_run.simps)
qed simp

lemma MinUsableInner_scan:
  "MinUsableInner s = (case scan_min (\<lambda>i. usable (sc_paths s i) \<and> 1 < p_maxInner (sc_paths s i))
     (\<lambda>i. p_maxInner (sc_paths s i)) [0..<MaxPaths] of None \<Rightarrow> 0 | Some i \<Rightarrow> p_maxInner (sc_paths s i))"
proof -
  let ?P = "\<lambda>i. usable (sc_paths s i) \<and> 1 < p_maxInner (sc_paths s i)"
  let ?k = "\<lambda>i. p_maxInner (sc_paths s i)"
  let ?f = "\<lambda>i mn. let p = sc_paths s i in
       if \<not> p_present p \<or> p_state p = StateDown then mn
       else if p_maxInner p \<le> 1 then mn
       else if mn = 0 \<or> p_maxInner p < mn then p_maxInner p else mn"
  have "fold ?f xs 0 = (case scan_min ?P ?k xs of None \<Rightarrow> 0 | Some i \<Rightarrow> ?k i)" for xs
  proof (induction xs rule: rev_induct)
    case (snoc x xs)
    show ?case
    proof (cases "scan_min ?P ?k xs")
      case None
      then show ?thesis using snoc by (auto simp: scan_min_snoc Let_def usable_def)
    next
      case (Some j)
      then have "1 < ?k j" using scan_min_Some [OF Some] by simp
      then show ?thesis using snoc Some by (auto simp: scan_min_snoc Let_def usable_def)
    qed
  qed simp
  then show ?thesis by (simp add: MinUsableInner_def)
qed

lemma total_weight_sum:
  "total_weight s = (\<Sum>i\<in>{i. i < MaxPaths \<and> usable (sc_paths s i)}. effectiveWeight (sc_cfg s) (sc_paths s i))"
proof -
  have "fold (\<lambda>i total. let q = sc_paths s i in
       if usable q then total + effectiveWeight (sc_cfg s) q else total) [0..<k] 0 =
     (\<Sum>i\<in>{i. i < k \<and> usable (sc_paths s i)}. effectiveWeight (sc_cfg s) (sc_paths s i))" for k
  proof (induction k)
    case (Suc k)
    have "{i. i < Suc k \<and> usable (sc_paths s i)} =
        (if usable (sc_paths s k) then insert k {i. i < k \<and> usable (sc_paths s i)}
         else {i. i < k \<and> usable (sc_paths s i)})"
      by (auto simp: less_Suc_eq)
    then show ?case using Suc by (auto simp: Let_def add.commute)
  qed simp
  then show ?thesis by (simp add: total_weight_def)
qed

lemma redundant_fold:
  "fold (\<lambda>i out. let p = f i in if c p then out @ [g p] else out) xs out =
    out @ map (\<lambda>i. g (f i)) (filter (\<lambda>i. c (f i)) xs)"
  by (induction xs arbitrary: out) (simp_all add: Let_def)

section \<open>Properties of the scheduler\<close>

text \<open>
  Property C21. Stride fairness: over any run of bonding-mode assignments of packets of at most
  \<open>L\<close> bytes, starting with equal passes, the bytes given to a usable path, divided by its
  effective weight, exceed those of any other usable path the packets fit by at most one
  packet's worth: the load follows the weights.
\<close>

theorem stride_fair:
  assumes "sc_mode s \<noteq> ModeRedundant"
    and "\<forall>i < MaxPaths. usable (sc_paths s i) \<longrightarrow> unat (p_id (sc_paths s i)) = i"
    and "\<forall>n\<in>set ns. 0 \<le> n \<and> n \<le> L" and "0 \<le> L"
    and "a < MaxPaths" "usable (sc_paths s a)"
    and "b < MaxPaths" "usable (sc_paths s b)" "fits_inner L (sc_paths s b)"
    and "p_pass (sc_paths s a) = p_pass (sc_paths s b)"
  shows "of_int (bytes_on (of_nat a) (fst (assign_run s ns))) / effectiveWeight (sc_cfg s) (sc_paths s a) \<le>
    of_int (bytes_on (of_nat b) (fst (assign_run s ns))) / effectiveWeight (sc_cfg s) (sc_paths s b) +
    of_int L / effectiveWeight (sc_cfg s) (sc_paths s a)"
proof -
  have ids: "ids_ok s" using assms(2) by (simp add: ids_ok_def)
  have "unat (p_id (sc_paths s a)) = a" "unat (p_id (sc_paths s b)) = b"
    using assms(2,5-8) by blast+
  then have "p_id (sc_paths s a) = of_nat a" "p_id (sc_paths s b) = of_nat b"
    by (metis of_nat_unat ucast_id)+
  moreover have "0 \<le> of_int L / effectiveWeight (sc_cfg s) (sc_paths s a)"
    using assms(4) effectiveWeight_pos [of "sc_cfg s" "sc_paths s a"] by simp
  ultimately show ?thesis
    using assign_run_gap [OF assms(1,3,7-9), of a] assms(10)
      assign_run_charges [OF assms(1) ids assms(5,6), of ns]
      assign_run_charges [OF assms(1) ids assms(7,8), of ns]
    by simp
qed

definition two_paths :: Scheduler where
  "two_paths = \<lparr>sc_cfg = DefaultSchedConfig, sc_mode = ModeBonding, sc_paths = (\<lambda>i.
     if i = 0 then pathState_zero\<lparr>p_present := True, p_weight := 20000\<rparr>
     else if i = 1 then pathState_zero\<lparr>p_id := 1, p_present := True, p_weight := 60000\<rparr>
     else pathState_zero)\<rparr>"

theorem stride_fair_witness:
  "of_int (bytes_on 0 (fst (assign_run two_paths [1500, 1500, 700, 1500]))) / 20000 \<le>
    (of_int (bytes_on 1 (fst (assign_run two_paths [1500, 1500, 700, 1500]))) / 60000 + 1500 / 20000 :: real)"
  using stride_fair [of two_paths "[1500, 1500, 700, 1500]" 1500 0 1]
  by (auto simp: two_paths_def pathState_zero_def usable_def fits_inner_def effectiveWeight_def)

text \<open>
  Selection: outside redundant mode \<open>Assign\<close> returns one path that is present,
  not down and large enough for the packet, with the least pass among those, charges only
  that path, and returns none exactly when no path qualifies.
\<close>

theorem Assign_selects:
  assumes "sc_mode s \<noteq> ModeRedundant"
  shows "case Assign n out s of (out', s') \<Rightarrow>
    (if \<exists>i < MaxPaths. candidate n (sc_paths s i)
     then \<exists>b < MaxPaths. candidate n (sc_paths s b) \<and>
       (\<forall>i < MaxPaths. candidate n (sc_paths s i) \<longrightarrow> p_pass (sc_paths s b) \<le> p_pass (sc_paths s i)) \<and>
       out' = out @ [p_id (sc_paths s b)] \<and>
       p_pass (sc_paths s' b) = p_pass (sc_paths s b) + of_int n / effectiveWeight (sc_cfg s) (sc_paths s b) \<and>
       (\<forall>i. i \<noteq> b \<longrightarrow> sc_paths s' i = sc_paths s i)
     else out' = out \<and> s' = s)"
  by (cases rule: Assign_cases [of s n out]) (use assms in auto)

theorem Assign_selects_witness:
  "\<exists>i. fst (Assign 1500 [] two_paths) = [i]"
  using Assign_selects [of two_paths 1500 "[]"]
  by (auto simp: two_paths_def split_beta candidate_def usable_def fits_inner_def pathState_zero_def
      split: if_splits)

text \<open>
  Redundant mode sends a packet on every path that is present, not down and
  large enough for it, in the order of the table, and changes no pass.
\<close>

theorem Assign_redundant:
  assumes "sc_mode s = ModeRedundant"
  shows "Assign n out s =
    (out @ map (\<lambda>i. p_id (sc_paths s i)) (filter (\<lambda>i. candidate n (sc_paths s i)) [0..<MaxPaths]), s)"
  using assms redundant_fold [of "sc_paths s" "candidate n" p_id "[0..<MaxPaths]" out]
  by (simp add: Assign_def)

theorem Assign_redundant_witness:
  "fst (Assign 1500 [] (SetMode ModeRedundant two_paths)) =
     map (\<lambda>i. p_id (sc_paths two_paths i)) (filter (\<lambda>i. candidate 1500 (sc_paths two_paths i)) [0..<MaxPaths])"
  using Assign_redundant [of "SetMode ModeRedundant two_paths" 1500 "[]"] by (simp add: SetMode_def)

text \<open>
  Weights stay in the configured range: whatever metrics, joins, removals, state
  changes and assignments happen, every present path has a weight between \<open>MinBps\<close> and
  \<open>MaxBps\<close>, carries the id of its table index, and has a non-negative pass.
\<close>

theorem weights_in_range:
  assumes "c_MinBps cfg \<le> c_MaxBps cfg" and "sched_step\<^sup>*\<^sup>* (NewScheduler cfg m) s"
    and "i < MaxPaths" and "p_present (sc_paths s i)"
  shows "c_MinBps cfg \<le> p_weight (sc_paths s i) \<and> p_weight (sc_paths s i) \<le> c_MaxBps cfg \<and>
    unat (p_id (sc_paths s i)) = i \<and> 0 \<le> p_pass (sc_paths s i)"
  using sched_reach_inv [OF assms(2,1)] assms(3,4) by (auto simp: sched_inv_def path_inv_def)

theorem weights_in_range_witness:
  "12500 \<le> p_weight (sc_paths (the (AddPath 3 5 False (NewScheduler DefaultSchedConfig ModeBonding))) 3)"
proof -
  let ?s = "NewScheduler DefaultSchedConfig ModeBonding"
  have "AddPath 3 5 False ?s = Some (the (AddPath 3 5 False ?s))"
    by (simp add: AddPath_def Let_def update_path_def)
  then have "sched_step\<^sup>*\<^sup>* ?s (the (AddPath 3 5 False ?s))"
    by (intro r_into_rtranclp sched_step.add_path)
  from weights_in_range [OF _ this, of 3] show ?thesis
    by (simp add: AddPath_def Let_def update_path_def DefaultSchedConfig_def)
qed

text \<open>
  The shares reported by \<open>PathWeight\<close> lie between 0 and 1 and add up to 1 over the
  usable paths, when there are any.
\<close>

theorem PathWeight_shares:
  assumes "\<exists>i < MaxPaths. usable (sc_paths s i)"
  shows "(\<forall>i. unat i < MaxPaths \<longrightarrow> (\<exists>x. PathWeight i s = Some x \<and> 0 \<le> x \<and> x \<le> 1)) \<and>
    (\<Sum>i\<in>{i. i < MaxPaths \<and> usable (sc_paths s i)}. the (PathWeight (of_nat i) s)) = 1"
proof -
  let ?U = "{i. i < MaxPaths \<and> usable (sc_paths s i)}"
  let ?w = "\<lambda>i. effectiveWeight (sc_cfg s) (sc_paths s i)"
  have w: "0 < ?w i" for i using effectiveWeight_pos [of "sc_cfg s" "sc_paths s i"] by simp
  have fin: "finite ?U" by simp
  have pos: "0 < total_weight s"
    unfolding total_weight_sum using assms w by (intro sum_pos) auto
  have le: "?w i \<le> total_weight s" if "i \<in> ?U" for i
    unfolding total_weight_sum using that w by (intro member_le_sum) (auto simp: less_imp_le)
  have range: "\<exists>x. PathWeight i s = Some x \<and> 0 \<le> x \<and> x \<le> 1" if "unat i < MaxPaths" for i
    using that pos w [of "unat i"] le [of "unat i"]
    by (auto simp: PathWeight_def Let_def less_imp_le)
  have "the (PathWeight (of_nat i) s) = ?w i / total_weight s" if "i \<in> ?U" for i
    using that pos by (simp add: PathWeight_def Let_def unat_of_nat)
  then have "(\<Sum>i\<in>?U. the (PathWeight (of_nat i) s)) = (\<Sum>i\<in>?U. ?w i / total_weight s)"
    by (rule sum.cong [OF refl])
  also have "\<dots> = 1" using pos by (simp add: sum_divide_distrib [symmetric] total_weight_sum)
  finally show ?thesis using range by blast
qed

theorem PathWeight_shares_witness:
  "\<exists>x. PathWeight 1 two_paths = Some x \<and> 0 \<le> x \<and> x \<le> 1"
proof -
  have "\<exists>i < MaxPaths. usable (sc_paths two_paths i)"
    by (rule exI [of _ 0]) (simp add: two_paths_def usable_def pathState_zero_def)
  from PathWeight_shares [OF this] show ?thesis by simp
qed

text \<open>
  \<open>MinUsableInner\<close> is the least inner size limit above 1 among the present paths that
  are not down, and 0 when there is none.
\<close>

theorem MinUsableInner_least:
  "(MinUsableInner s = 0 \<longleftrightarrow>
     \<not> (\<exists>i < MaxPaths. usable (sc_paths s i) \<and> 1 < p_maxInner (sc_paths s i))) \<and>
   (\<forall>i < MaxPaths. usable (sc_paths s i) \<longrightarrow> 1 < p_maxInner (sc_paths s i) \<longrightarrow>
     1 < MinUsableInner s \<and> MinUsableInner s \<le> p_maxInner (sc_paths s i)) \<and>
   (MinUsableInner s \<noteq> 0 \<longrightarrow>
     (\<exists>i < MaxPaths. usable (sc_paths s i) \<and> p_maxInner (sc_paths s i) = MinUsableInner s))"
proof (cases "scan_min (\<lambda>i. usable (sc_paths s i) \<and> 1 < p_maxInner (sc_paths s i))
    (\<lambda>i. p_maxInner (sc_paths s i)) [0..<MaxPaths]")
  case None
  then have "MinUsableInner s = 0" by (simp add: MinUsableInner_scan)
  moreover have "\<forall>i < MaxPaths. \<not> (usable (sc_paths s i) \<and> 1 < p_maxInner (sc_paths s i))"
    using None by (simp add: scan_min_None)
  ultimately show ?thesis by auto
next
  case (Some j)
  then have "MinUsableInner s = p_maxInner (sc_paths s j)" by (simp add: MinUsableInner_scan)
  then show ?thesis using scan_min_Some [OF Some] by auto
qed

theorem MinUsableInner_least_witness:
  "MinUsableInner (the (SetPathMTU 0 1400 two_paths)) \<le> 1400"
proof -
  let ?s = "the (SetPathMTU 0 1400 two_paths)"
  have "usable (sc_paths ?s 0) \<and> p_maxInner (sc_paths ?s 0) = 1400"
    by (simp add: SetPathMTU_def update_path_def two_paths_def usable_def pathState_zero_def)
  moreover have "(0 :: nat) < MaxPaths" by simp
  ultimately show ?thesis using MinUsableInner_least [of ?s] by fastforce
qed

text \<open>
  Adaptation, when the round-trip time shows no bufferbloat: under loss on a loaded
  path the weight snaps to 95 percent of the delivery rate; without loss it becomes at
  least the larger of its old value and the delivery rate, both within the range.
\<close>

theorem adapt_weight_tracks_delivery:
  fixes cfg m w
  defines "w' \<equiv> adapt_weight cfg m w"
    and "bloat \<equiv> 0 < m_MinRTT m \<and> trunc (c_BloatRTTMult cfg * of_int (m_MinRTT m)) < m_SRTT m"
  assumes "c_MinBps cfg \<le> c_MaxBps cfg" and "c_LossFloor cfg \<le> c_LossDecrease cfg"
    and "1 \<le> c_IncreaseFactor cfg" and "0 \<le> w" and "\<not> bloat"
  shows "(c_LossDecrease cfg < m_Loss m \<longrightarrow> w / 2 \<le> m_DeliveryBps m \<longrightarrow>
      w' = clamp (95 / 100 * m_DeliveryBps m) (c_MinBps cfg) (c_MaxBps cfg)) \<and>
    (m_Loss m < c_LossFloor cfg \<longrightarrow>
      clamp (max w (m_DeliveryBps m)) (c_MinBps cfg) (c_MaxBps cfg) \<le> w')"
proof (intro conjI impI)
  assume "c_LossDecrease cfg < m_Loss m" "w / 2 \<le> m_DeliveryBps m"
  then show "w' = clamp (95 / 100 * m_DeliveryBps m) (c_MinBps cfg) (c_MaxBps cfg)"
    using assms(4,7) unfolding w'_def bloat_def by (auto simp: adapt_weight_def Let_def)
next
  assume low: "m_Loss m < c_LossFloor cfg"
  have mono: "clamp x lo hi \<le> clamp y lo hi" if "x \<le> y" "lo \<le> hi" for x y lo hi
    using that by (simp add: clamp_def)
  let ?u = "if 9 / 10 * w \<le> m_DeliveryBps m then w * c_IncreaseFactor cfg else w"
  have "w \<le> ?u" using assms(5,6) mult_left_mono [of 1 "c_IncreaseFactor cfg" w] by auto
  moreover have "w' = clamp (if ?u < m_DeliveryBps m then m_DeliveryBps m else ?u)
      (c_MinBps cfg) (c_MaxBps cfg)"
    using low assms(4,7) unfolding w'_def bloat_def by (auto simp: adapt_weight_def Let_def)
  ultimately show "clamp (max w (m_DeliveryBps m)) (c_MinBps cfg) (c_MaxBps cfg) \<le> w'"
    using assms(3) by (auto intro!: mono)
qed

theorem adapt_weight_tracks_delivery_witness:
  "adapt_weight DefaultSchedConfig
     \<lparr>m_SRTT = 0, m_RTTVar = 0, m_MinRTT = 0, m_Loss = 1 / 10, m_DeliveryBps = 100000\<rparr> 150000 =
   clamp 95000 12500 1250000000"
  using adapt_weight_tracks_delivery [of DefaultSchedConfig 150000 "\<lparr>m_SRTT = 0, m_RTTVar = 0, m_MinRTT = 0,
      m_Loss = 1 / 10, m_DeliveryBps = 100000\<rparr>"]
  by (simp add: DefaultSchedConfig_def)

end
