(* ===== verification/Netip.thy ===== *)
theory Netip
  imports Amane_Prelude
begin

text \<open>
  What the program uses of the standard library's \<open>net/netip\<close>: addresses and prefixes,
  their classification, the conversion from and to bytes and the parsing of their text form.
  An address is the zero \<open>Addr\<close>, an IPv4 address, or an IPv6 address with its zone
  (\<open>[]\<close> for none).
\<close>

section \<open>Addresses\<close>

datatype Addr = AddrZero | IP4 "32 word" | IP6 "128 word" string

type_synonym AddrPort = "Addr \<times> u16"

definition AddrFrom4 :: "bytes \<Rightarrow> Addr" where
  "AddrFrom4 b = IP4 (get_be b)"

definition AddrFrom16 :: "bytes \<Rightarrow> Addr" where
  "AddrFrom16 b = IP6 (get_be b) []"

fun IsValid :: "Addr \<Rightarrow> bool" where
  "IsValid AddrZero = False"
| "IsValid _ = True"

fun Is4 :: "Addr \<Rightarrow> bool" where
  "Is4 (IP4 _) = True"
| "Is4 _ = False"

fun Is6 :: "Addr \<Rightarrow> bool" where
  "Is6 (IP6 _ _) = True"
| "Is6 _ = False"

fun Is4In6 :: "Addr \<Rightarrow> bool" where
  "Is4In6 (IP6 a _) = (drop_bit 32 a = 0xffff)"
| "Is4In6 _ = False"

fun Unmap :: "Addr \<Rightarrow> Addr" where
  "Unmap (IP6 a z) = (if drop_bit 32 a = 0xffff then IP4 (ucast a) else IP6 a z)"
| "Unmap a = a"

text \<open>\<open>As4\<close> panics on an address that is neither IPv4 nor IPv4-mapped; \<open>As16\<close> of the zero
  address is all zeros.\<close>

fun As4 :: "Addr \<Rightarrow> bytes option" where
  "As4 (IP4 a) = Some (put_be 4 a)"
| "As4 (IP6 a z) = (if drop_bit 32 a = 0xffff then Some (put_be 4 (ucast a :: 32 word)) else None)"
| "As4 AddrZero = None"

fun As16 :: "Addr \<Rightarrow> bytes" where
  "As16 (IP4 a) = put_be 16 (push_bit 32 0xffff OR ucast a :: 128 word)"
| "As16 (IP6 a _) = put_be 16 a"
| "As16 AddrZero = replicate 16 0"

fun IsMulticast :: "Addr \<Rightarrow> bool" where
  "IsMulticast (IP4 a) = (drop_bit 28 a = 0xe)"
| "IsMulticast (IP6 a _) =
    (if drop_bit 32 a = 0xffff then drop_bit 28 (ucast a :: 32 word) = 0xe else drop_bit 120 a = 0xff)"
| "IsMulticast AddrZero = False"

fun IsLinkLocalUnicast :: "Addr \<Rightarrow> bool" where
  "IsLinkLocalUnicast (IP4 a) = (drop_bit 16 a = 0xa9fe)"
| "IsLinkLocalUnicast (IP6 a _) =
    (if drop_bit 32 a = 0xffff then drop_bit 16 (ucast a :: 32 word) = 0xa9fe else drop_bit 118 a = 0x3fa)"
| "IsLinkLocalUnicast AddrZero = False"

fun IsUnspecified :: "Addr \<Rightarrow> bool" where
  "IsUnspecified (IP4 a) = (a = 0)"
| "IsUnspecified (IP6 a z) = (a = 0 \<and> z = [])"
| "IsUnspecified AddrZero = False"

fun BitLen :: "Addr \<Rightarrow> nat" where
  "BitLen AddrZero = 0"
| "BitLen (IP4 _) = 32"
| "BitLen (IP6 _ _) = 128"

definition AddrPort_IsValid :: "AddrPort \<Rightarrow> bool" where
  "AddrPort_IsValid ap = IsValid (fst ap)"

section \<open>Prefixes\<close>

record Prefix =
  px_Addr :: Addr
  px_Bits :: nat

definition Prefix_zero :: Prefix where
  "Prefix_zero = \<lparr>px_Addr = AddrZero, px_Bits = 0\<rparr>"

text \<open>
  An address with a zone is in no prefix, and an IPv4 prefix contains no IPv4-mapped address.
  The zero prefix contains nothing.
\<close>

fun addr_in :: "Addr \<Rightarrow> nat \<Rightarrow> Addr \<Rightarrow> bool" where
  "addr_in (IP4 p) n (IP4 a) = (drop_bit (32 - n) p = drop_bit (32 - n) a)"
| "addr_in (IP6 p _) n (IP6 a z) = (z = [] \<and> drop_bit (128 - n) p = drop_bit (128 - n) a)"
| "addr_in _ _ _ = False"

definition Prefix_Contains :: "Prefix \<Rightarrow> Addr \<Rightarrow> bool" where
  "Prefix_Contains p a = addr_in (px_Addr p) (px_Bits p) a"

section \<open>Text form\<close>

definition digit_value :: "char \<Rightarrow> nat option" where
  "digit_value c =
    (let v = (of_char c :: nat) in if 48 \<le> v \<and> v \<le> 57 then Some (v - 48) else None)"

definition hex_value :: "char \<Rightarrow> nat option" where
  "hex_value c =
    (let v = (of_char c :: nat) in
     if 48 \<le> v \<and> v \<le> 57 then Some (v - 48)
     else if 97 \<le> v \<and> v \<le> 102 then Some (v - 87)
     else if 65 \<le> v \<and> v \<le> 70 then Some (v - 55)
     else None)"

text \<open>Splitting at the first occurrence of a separator.\<close>

fun split_at :: "char \<Rightarrow> string \<Rightarrow> string \<times> string option" where
  "split_at c [] = ([], None)"
| "split_at c (x # xs) =
    (if x = c then ([], Some xs) else case split_at c xs of (a, r) \<Rightarrow> (x # a, r))"

text \<open>The value of a digit string in a base, with the given digits.\<close>

fun digits_value :: "(char \<Rightarrow> nat option) \<Rightarrow> nat \<Rightarrow> nat \<Rightarrow> string \<Rightarrow> nat option" where
  "digits_value dv base acc [] = Some acc"
| "digits_value dv base acc (c # cs) =
    (case dv c of None \<Rightarrow> None | Some v \<Rightarrow> digits_value dv base (acc * base + v) cs)"

text \<open>One field of an IPv4 address: decimal, at most 255, no leading zero.\<close>

definition parse_octet :: "string \<Rightarrow> byte option" where
  "parse_octet s =
    (if s = [] \<or> (1 < length s \<and> hd s = CHR ''0'') then None
     else case digits_value digit_value 10 0 s of
         None \<Rightarrow> None
       | Some v \<Rightarrow> if v \<le> 255 then Some (of_nat v) else None)"

fun parse_octets :: "nat \<Rightarrow> string \<Rightarrow> bytes option" where
  "parse_octets 0 s = None"
| "parse_octets (Suc n) s =
    (case split_at CHR ''.'' s of
       (f, rest) \<Rightarrow>
         (case parse_octet f of
            None \<Rightarrow> None
          | Some b \<Rightarrow>
              (case rest of
                 None \<Rightarrow> if n = 0 then Some [b] else None
               | Some r \<Rightarrow> map_option (\<lambda>bs. b # bs) (parse_octets n r))))"

definition parseIPv4 :: "string \<Rightarrow> Addr option" where
  "parseIPv4 s = map_option AddrFrom4 (parse_octets 4 s)"

text \<open>
  The loop over the groups of an IPv6 address. \<open>i\<close> bytes are filled so far, \<open>ell\<close> is the
  position of the ellipsis if one was read. A group has one to four hexadecimal digits; a
  group that is followed by a dot starts the IPv4 form of the last four bytes. The result is
  the bytes read and the position of the ellipsis.
\<close>

fun hex_prefix :: "nat \<Rightarrow> string \<Rightarrow> nat \<times> nat \<times> string" where
  "hex_prefix acc [] = (acc, 0, [])"
| "hex_prefix acc (c # cs) =
    (case hex_value c of
       None \<Rightarrow> (acc, 0, c # cs)
     | Some v \<Rightarrow> (case hex_prefix (acc * 16 + v) cs of (a, n, r) \<Rightarrow> (a, Suc n, r)))"

fun parse_groups :: "nat \<Rightarrow> nat option \<Rightarrow> bytes \<Rightarrow> string \<Rightarrow> (bytes \<times> nat option \<times> string) option" where
  "parse_groups 0 ell bs s = Some (bs, ell, s)"
| "parse_groups (Suc k) ell bs s =
    (case hex_prefix 0 s of
       (acc, n, r) \<Rightarrow>
         (if n = 0 \<or> 4 < n \<or> 65535 < acc then None
          else if r \<noteq> [] \<and> hd r = CHR ''.'' then
            (if (ell = None \<and> length bs \<noteq> 12) \<or> 16 < length bs + 4 then None
             else case parse_octets 4 s of
                 None \<Rightarrow> None
               | Some b4 \<Rightarrow> Some (bs @ b4, ell, []))
          else
            let bs = bs @ [of_nat (acc div 256), of_nat (acc mod 256)]
            in case r of
                 [] \<Rightarrow> Some (bs, ell, [])
               | c # r1 \<Rightarrow>
                   (if c \<noteq> CHR '':'' \<or> r1 = [] then None
                    else if hd r1 = CHR '':'' then
                      (if ell \<noteq> None then None
                       else if tl r1 = [] then Some (bs, Some (length bs), [])
                       else parse_groups k (Some (length bs)) bs (tl r1))
                    else parse_groups k ell bs r1)))"

text \<open>Expanding the ellipsis to 16 bytes.\<close>

definition expand_ellipsis :: "bytes \<Rightarrow> nat option \<Rightarrow> bytes option" where
  "expand_ellipsis bs ell =
    (if length bs < 16 then
       (case ell of None \<Rightarrow> None
        | Some e \<Rightarrow> Some (take e bs @ replicate (16 - length bs) 0 @ drop e bs))
     else if ell \<noteq> None then None else Some bs)"

definition parseIPv6 :: "string \<Rightarrow> Addr option" where
  "parseIPv6 input =
    (case split_at CHR ''%'' input of
       (s, zone) \<Rightarrow>
         (if zone = Some [] then None
          else
            let z = (case zone of None \<Rightarrow> [] | Some z \<Rightarrow> z);
                lead = (take 2 s = '':'' @ '':'')
            in if lead \<and> length s = 2 then Some (IP6 0 z)
               else case parse_groups 8 (if lead then Some 0 else None) [] (if lead then drop 2 s else s) of
                   None \<Rightarrow> None
                 | Some (bs, ell, rest) \<Rightarrow>
                     (if rest \<noteq> [] then None
                      else map_option (\<lambda>b. IP6 (get_be b) z) (expand_ellipsis bs ell))))"

text \<open>The first of the characters \<open>.\<close>, \<open>:\<close> and \<open>%\<close> decides the form.\<close>

fun addr_form :: "string \<Rightarrow> char option" where
  "addr_form [] = None"
| "addr_form (c # cs) = (if c \<in> {CHR ''.'', CHR '':'', CHR ''%''} then Some c else addr_form cs)"

definition ParseAddr :: "string \<Rightarrow> Addr option" where
  "ParseAddr s =
    (case addr_form s of
       None \<Rightarrow> None
     | Some c \<Rightarrow>
         (if c = CHR ''.'' then parseIPv4 s else if c = CHR '':'' then parseIPv6 s else None))"

definition ParsePrefix :: "string \<Rightarrow> Prefix option" where
  "ParsePrefix s =
    (if CHR ''/'' \<notin> set s then None
     else
       let bitsStr = rev (fst (split_at CHR ''/'' (rev s)));
           addr = take (length s - length bitsStr - 1) s
       in case ParseAddr addr of
            None \<Rightarrow> None
          | Some a \<Rightarrow>
              (if (case a of IP6 _ z \<Rightarrow> z \<noteq> [] | _ \<Rightarrow> False) then None
               else if bitsStr = [] \<or> (1 < length bitsStr \<and> digit_value (hd bitsStr) \<in> {None, Some 0}) then None
               else case digits_value digit_value 10 0 bitsStr of
                   None \<Rightarrow> None
                 | Some n \<Rightarrow>
                     if n \<le> BitLen a then Some \<lparr>px_Addr = a, px_Bits = n\<rparr> else None))"

section \<open>Facts\<close>

lemma length_As16 [simp]: "length (As16 a) = 16"
  by (cases a) simp_all

lemma length_As4: "As4 a = Some b \<Longrightarrow> length b = 4"
  by (cases a) (auto split: if_splits)

lemma As4_Is4: "Is4 a \<Longrightarrow> \<exists>b. As4 a = Some b \<and> length b = 4"
  by (cases a) simp_all

lemma Prefix_Contains_BitLen: "Prefix_Contains p a \<Longrightarrow> BitLen a = BitLen (px_Addr p) \<and> IsValid a"
  by (cases "(px_Addr p, px_Bits p, a)" rule: addr_in.cases) (auto simp: Prefix_Contains_def)

end
