(* ===== verification/Path.thy ===== *)
theory Path
  imports Wire Pmtud Sched Netip
begin

text \<open>
  One tunnel path, \<open>internal/path/path.go\<close>: its liveness state, data counters and the
  probe-derived metrics. The atomics and the mutex make each operation one step. Clock
  readings are integers in microseconds, durations integers in nanoseconds; the arithmetic
  on values taken from the peer's probe wraps at 64 bits as Go's \<open>int64\<close> does. A
  \<open>float64\<close> is a real number.
\<close>

datatype State = Probing | Active | Degraded | Down | Removed

fun State_String :: "State \<Rightarrow> string" where
  "State_String Probing = ''probing''"
| "State_String Active = ''active''"
| "State_String Degraded = ''degraded''"
| "State_String Down = ''down''"
| "State_String Removed = ''removed''"

definition rttAlpha :: real where [simp]: "rttAlpha = 2 / 10"
definition lossAlpha :: real where [simp]: "lossAlpha = 3 / 10"
definition minLossSample :: u64 where [simp]: "minLossSample = 20"
definition reviveProbes :: int where [simp]: "reviveProbes = 3"

text \<open>The last public-address lookup (\<open>ipinfo.Info\<close>), stored and never inspected here.\<close>

record WanInfo =
  wi_IP :: string
  wi_ASN :: int
  wi_ASOrg :: string
  wi_Country :: string
  wi_FetchedAt :: int

record Path =
  pa_ID :: byte
  pa_IfName :: string
  pa_InitialMbps :: real
  pa_state :: State
  pa_endpoint :: "AddrPort option"
  pa_rxPackets :: u64
  pa_rxBytes :: u64
  pa_txPackets :: u64
  pa_txBytes :: u64
  pa_lastAliveUs :: int
  pa_rateTxBps :: real
  pa_rateRxBps :: real
  pa_mtu :: Prober
  pa_discoveredMTU :: int
  pa_maxInner :: int
  pa_wanInfo :: "WanInfo option"
  pa_probeSeq :: u32
  pa_lastPeer :: Probe
  pa_lastPeerAtUs :: int
  pa_havePeerProbe :: bool
  pa_srtt :: int
  pa_rttvar :: int
  pa_minRTT :: int
  pa_loss :: real
  pa_deliveryBps :: real
  pa_prevPeerRxPackets :: u64
  pa_prevPeerRxBytes :: u64
  pa_prevOwnTxPackets :: u64
  pa_prevReportAtUs :: int
  pa_haveReport :: bool
  pa_probesSinceDown :: int

definition Probe_zero :: Probe where
  "Probe_zero = \<lparr>pr_Seq = 0, pr_TSendUs = 0, pr_EchoSeq = 0, pr_EchoTSend = 0, pr_EchoDelay = 0,
     pr_RxPackets = 0, pr_RxBytes = 0\<rparr>"

definition NewPath :: "byte \<Rightarrow> string \<Rightarrow> real \<Rightarrow> int \<Rightarrow> Path" where
  "NewPath i ifname initialMbps mtuCeil =
    \<lparr>pa_ID = i, pa_IfName = ifname, pa_InitialMbps = initialMbps, pa_state = Probing,
     pa_endpoint = None, pa_rxPackets = 0, pa_rxBytes = 0, pa_txPackets = 0, pa_txBytes = 0,
     pa_lastAliveUs = 0, pa_rateTxBps = 0, pa_rateRxBps = 0,
     pa_mtu = NewProber (if mtuCeil \<le> 0 then 1500 else mtuCeil),
     pa_discoveredMTU = 0, pa_maxInner = 0, pa_wanInfo = None, pa_probeSeq = 0,
     pa_lastPeer = Probe_zero, pa_lastPeerAtUs = 0, pa_havePeerProbe = False,
     pa_srtt = 0, pa_rttvar = 0, pa_minRTT = 0, pa_loss = 0, pa_deliveryBps = 0,
     pa_prevPeerRxPackets = 0, pa_prevPeerRxBytes = 0, pa_prevOwnTxPackets = 0,
     pa_prevReportAtUs = 0, pa_haveReport = False, pa_probesSinceDown = 0\<rparr>"

section \<open>MTU discovery of a path\<close>

definition MTUTick :: "Path \<Rightarrow> (u32 \<times> int) option \<times> Path" where
  "MTUTick p = (case Tick (pa_mtu p) of (r, q) \<Rightarrow> (r, p\<lparr>pa_mtu := q\<rparr>))"

definition MTUAck :: "u32 \<Rightarrow> Path \<Rightarrow> Path" where
  "MTUAck i p = p\<lparr>pa_mtu := OnAck i (pa_mtu p)\<rparr>"

definition MTUSendError :: "u32 \<Rightarrow> Path \<Rightarrow> Path" where
  "MTUSendError i p = p\<lparr>pa_mtu := OnSendError i (pa_mtu p)\<rparr>"

definition MTURestart :: "Path \<Rightarrow> Path" where
  "MTURestart p = p\<lparr>pa_mtu := Restart (pa_mtu p), pa_discoveredMTU := 0, pa_maxInner := 0,
     pa_wanInfo := None\<rparr>"

definition SetWANInfo :: "WanInfo option \<Rightarrow> Path \<Rightarrow> Path" where
  "SetWANInfo info p = p\<lparr>pa_wanInfo := info\<rparr>"

definition MTUDiscovered :: "Path \<Rightarrow> int" where
  "MTUDiscovered p = Discovered (pa_mtu p)"

definition SetMTU :: "int \<Rightarrow> int \<Rightarrow> Path \<Rightarrow> Path" where
  "SetMTU wire maxInner p = p\<lparr>pa_discoveredMTU := wire, pa_maxInner := maxInner\<rparr>"

section \<open>Counters and liveness\<close>

definition TouchAlive :: "int \<Rightarrow> Path \<Rightarrow> Path" where
  "TouchAlive nowUs p = p\<lparr>pa_lastAliveUs := nowUs\<rparr>"

definition SetPathState :: "State \<Rightarrow> Path \<Rightarrow> Path" where
  "SetPathState s p = p\<lparr>pa_state := s\<rparr>"

definition Endpoint :: "Path \<Rightarrow> AddrPort" where
  "Endpoint p = (case pa_endpoint p of Some ep \<Rightarrow> ep | None \<Rightarrow> (AddrZero, 0))"

definition SetEndpoint :: "AddrPort \<Rightarrow> Path \<Rightarrow> Path" where
  "SetEndpoint ep p = p\<lparr>pa_endpoint := Some ep\<rparr>"

definition OnDataSent :: "int \<Rightarrow> Path \<Rightarrow> Path" where
  "OnDataSent n p = p\<lparr>pa_txPackets := pa_txPackets p + 1, pa_txBytes := pa_txBytes p + of_int n\<rparr>"

definition OnDataReceived :: "int \<Rightarrow> int \<Rightarrow> Path \<Rightarrow> Path" where
  "OnDataReceived n nowUs p =
    p\<lparr>pa_rxPackets := pa_rxPackets p + 1, pa_rxBytes := pa_rxBytes p + of_int n, pa_lastAliveUs := nowUs\<rparr>"

definition OnControlReceived :: "int \<Rightarrow> Path \<Rightarrow> Path" where
  "OnControlReceived nowUs p =
    p\<lparr>pa_rxPackets := pa_rxPackets p + 1,
      pa_rxBytes := pa_rxBytes p + of_nat PathInitPayloadSize, pa_lastAliveUs := nowUs\<rparr>"

definition OnControlSent :: "int \<Rightarrow> Path \<Rightarrow> Path" where
  "OnControlSent n p = p\<lparr>pa_txPackets := pa_txPackets p + 1, pa_txBytes := pa_txBytes p + of_int n\<rparr>"

definition SilentFor :: "int \<Rightarrow> Path \<Rightarrow> int" where
  "SilentFor nowUs p = (if pa_lastAliveUs p = 0 then 0 else wrap_int64 ((nowUs - pa_lastAliveUs p) * 1000))"

definition ResetLiveness :: "int \<Rightarrow> Path \<Rightarrow> Path" where
  "ResetLiveness nowUs p = p\<lparr>pa_lastAliveUs := nowUs\<rparr>"

definition SetRates :: "real \<Rightarrow> real \<Rightarrow> Path \<Rightarrow> Path" where
  "SetRates txBps rxBps p = p\<lparr>pa_rateTxBps := txBps, pa_rateRxBps := rxBps\<rparr>"

definition Path_Metrics :: "Path \<Rightarrow> Metrics" where
  "Path_Metrics p = \<lparr>m_SRTT = pa_srtt p, m_RTTVar = pa_rttvar p, m_MinRTT = pa_minRTT p,
     m_Loss = pa_loss p, m_DeliveryBps = pa_deliveryBps p\<rparr>"

section \<open>Probes\<close>

definition NextProbe :: "int \<Rightarrow> Path \<Rightarrow> Probe \<times> Path" where
  "NextProbe nowUs p =
    (let p = p\<lparr>pa_probeSeq := pa_probeSeq p + 1\<rparr>;
         pr = Probe_zero\<lparr>pr_Seq := pa_probeSeq p, pr_TSendUs := of_int nowUs,
                pr_RxPackets := pa_rxPackets p, pr_RxBytes := pa_rxBytes p\<rparr>;
         d = nowUs - pa_lastPeerAtUs p
     in (if pa_havePeerProbe p
         then pr\<lparr>pr_EchoSeq := pr_Seq (pa_lastPeer p), pr_EchoTSend := pr_TSendUs (pa_lastPeer p),
                 pr_EchoDelay := (if 0 < d then of_int d else 0)\<rparr>
         else pr, p))"

text \<open>\<open>time.Duration(nowUs-int64(pr.EchoTSend)-int64(pr.EchoDelay)) * time.Microsecond\<close>\<close>

definition rtt_sample :: "int \<Rightarrow> Probe \<Rightarrow> int" where
  "rtt_sample nowUs pr =
    wrap_int64 (wrap_int64 (nowUs - sint (pr_EchoTSend pr) - uint (pr_EchoDelay pr)) * 1000)"

text \<open>\<open>time.Duration((1-alpha)*float64(old) + alpha*float64(sample))\<close>\<close>

definition ewma :: "real \<Rightarrow> int \<Rightarrow> int \<Rightarrow> int" where
  "ewma alpha old sample = trunc ((1 - alpha) * of_int old + alpha * of_int sample)"

definition accept_rtt :: "int \<Rightarrow> Path \<Rightarrow> Path" where
  "accept_rtt rtt p =
    (let p = (if pa_srtt p = 0 then p\<lparr>pa_srtt := rtt, pa_rttvar := rtt div 2\<rparr>
              else let d = \<bar>pa_srtt p - rtt\<bar>
                   in p\<lparr>pa_rttvar := ewma rttAlpha (pa_rttvar p) d,
                        pa_srtt := ewma rttAlpha (pa_srtt p) rtt\<rparr>)
     in if pa_minRTT p = 0 \<or> rtt < pa_minRTT p then p\<lparr>pa_minRTT := rtt\<rparr> else p)"

definition update_rtt :: "int \<Rightarrow> Probe \<Rightarrow> Path \<Rightarrow> Path" where
  "update_rtt nowUs pr p =
    (let rtt = rtt_sample nowUs pr
     in if pr_EchoTSend pr \<noteq> 0 \<and> 0 < rtt \<and> rtt < 60000000000 then accept_rtt rtt p else p)"

definition anchor_report :: "int \<Rightarrow> Probe \<Rightarrow> Path \<Rightarrow> Path" where
  "anchor_report nowUs pr p =
    p\<lparr>pa_prevPeerRxPackets := pr_RxPackets pr, pa_prevPeerRxBytes := pr_RxBytes pr,
      pa_prevOwnTxPackets := pa_txPackets p, pa_prevReportAtUs := nowUs\<rparr>"

definition loss_sample :: "u64 \<Rightarrow> u64 \<Rightarrow> real" where
  "loss_sample dRx dTx =
    (let sample = 1 - of_nat (unat dRx) / of_nat (unat dTx);
         sample = (if sample < 0 then 0 else sample)
     in if 1 < sample then 1 else sample)"

definition update_loss :: "int \<Rightarrow> Probe \<Rightarrow> Path \<Rightarrow> Path" where
  "update_loss nowUs pr p =
    (let dTx = pa_txPackets p - pa_prevOwnTxPackets p
     in if \<not> pa_haveReport p then (anchor_report nowUs pr p)\<lparr>pa_haveReport := True\<rparr>
        else if minLossSample \<le> dTx then
          let dRx = pr_RxPackets pr - pa_prevPeerRxPackets p;
              dt = nowUs - pa_prevReportAtUs p;
              p = p\<lparr>pa_loss := (1 - lossAlpha) * pa_loss p + lossAlpha * loss_sample dRx dTx\<rparr>;
              p = (if 0 < dt
                   then p\<lparr>pa_deliveryBps := of_nat (unat (pr_RxBytes pr - pa_prevPeerRxBytes p)) / (of_int dt / 1000000)\<rparr>
                   else p)
          in anchor_report nowUs pr p
        else p)"

definition update_revival :: "Path \<Rightarrow> bool \<times> Path" where
  "update_revival p =
    (if pa_state p = Down then
       let p = p\<lparr>pa_probesSinceDown := pa_probesSinceDown p + 1\<rparr>
       in if reviveProbes \<le> pa_probesSinceDown p then (True, p\<lparr>pa_probesSinceDown := 0\<rparr>) else (False, p)
     else (False, p\<lparr>pa_probesSinceDown := 0\<rparr>))"

definition OnProbeReceived :: "Probe \<Rightarrow> int \<Rightarrow> Path \<Rightarrow> bool \<times> Path" where
  "OnProbeReceived pr nowUs p =
    (let p = p\<lparr>pa_rxPackets := pa_rxPackets p + 1, pa_rxBytes := pa_rxBytes p + of_nat ProbeSize,
               pa_lastAliveUs := nowUs, pa_lastPeer := pr, pa_lastPeerAtUs := nowUs, pa_havePeerProbe := True\<rparr>
     in update_revival (update_loss nowUs pr (update_rtt nowUs pr p)))"

section \<open>Metrics stay meaningful\<close>

definition metrics_ok :: "Path \<Rightarrow> bool" where
  "metrics_ok p \<longleftrightarrow>
    (pa_srtt p = 0 \<and> pa_minRTT p = 0 \<or>
     0 < pa_minRTT p \<and> pa_minRTT p \<le> pa_srtt p \<and> pa_srtt p < 60000000000) \<and>
    0 \<le> pa_rttvar p \<and> pa_rttvar p < 60000000000 \<and>
    0 \<le> pa_loss p \<and> pa_loss p \<le> 1 \<and> 0 \<le> pa_deliveryBps p"

text \<open>A weighted mean of integers, truncated, stays between them.\<close>

lemma ewma_bounds:
  assumes "0 \<le> lo" "lo \<le> x" "x \<le> hi" "lo \<le> y" "y \<le> hi"
  shows "lo \<le> ewma rttAlpha x y \<and> ewma rttAlpha x y \<le> hi"
proof -
  let ?m = "(1 - rttAlpha) * of_int x + rttAlpha * of_int y :: real"
  have r: "(0 :: real) \<le> of_int lo" "(of_int lo :: real) \<le> of_int x" "(of_int x :: real) \<le> of_int hi"
    "(of_int lo :: real) \<le> of_int y" "(of_int y :: real) \<le> of_int hi"
    using assms by simp_all
  have m: "?m = (4 * of_int x + of_int y) / 5" by (simp add: field_simps)
  have "of_int lo \<le> ?m" "?m \<le> of_int hi" unfolding m using r by (simp_all add: le_divide_eq divide_le_eq)
  moreover from this have "\<lfloor>?m\<rfloor> \<le> hi" "lo \<le> \<lfloor>?m\<rfloor>"
    by (simp_all only: le_floor_iff floor_le_iff)
  ultimately show ?thesis using r(1) by (simp add: ewma_def trunc_def del: rttAlpha_def)
qed

lemma accept_rtt_ok:
  assumes "metrics_ok p" "0 < r" "r < 60000000000"
  shows "metrics_ok (accept_rtt r p)"
proof (cases "pa_srtt p = 0")
  case True
  then show ?thesis using assms by (auto simp: accept_rtt_def Let_def metrics_ok_def)
next
  case False
  have s: "min (pa_minRTT p) r \<le> ewma rttAlpha (pa_srtt p) r \<and> ewma rttAlpha (pa_srtt p) r \<le> 59999999999"
    using assms False by (intro ewma_bounds) (auto simp: metrics_ok_def)
  have v: "0 \<le> ewma rttAlpha (pa_rttvar p) \<bar>pa_srtt p - r\<bar> \<and>
      ewma rttAlpha (pa_rttvar p) \<bar>pa_srtt p - r\<bar> \<le> 59999999999"
    using assms False by (intro ewma_bounds) (auto simp: metrics_ok_def)
  show ?thesis
    using assms False s v
    by (auto simp: accept_rtt_def Let_def metrics_ok_def min_def simp del: rttAlpha_def split: if_splits)
qed

lemma update_rtt_ok: "metrics_ok p \<Longrightarrow> metrics_ok (update_rtt nowUs pr p)"
  by (simp add: update_rtt_def Let_def accept_rtt_ok)

lemma loss_sample_range: "0 \<le> loss_sample a b \<and> loss_sample a b \<le> 1"
  by (simp add: loss_sample_def Let_def)

lemma update_loss_ok: "metrics_ok p \<Longrightarrow> metrics_ok (update_loss nowUs pr p)"
  using loss_sample_range [of "pr_RxPackets pr - pa_prevPeerRxPackets p" "pa_txPackets p - pa_prevOwnTxPackets p"]
  by (auto simp: update_loss_def anchor_report_def metrics_ok_def Let_def simp del: of_nat_unat)

lemma update_revival_ok: "metrics_ok p \<Longrightarrow> metrics_ok (snd (update_revival p))"
  by (auto simp: update_revival_def metrics_ok_def Let_def)

lemma OnProbeReceived_ok: "metrics_ok p \<Longrightarrow> metrics_ok (snd (OnProbeReceived pr nowUs p))"
  unfolding OnProbeReceived_def Let_def
  by (intro update_revival_ok update_loss_ok update_rtt_ok) (simp add: metrics_ok_def)

text \<open>Everything else that can happen to a path leaves the metrics alone.\<close>

inductive path_step :: "Path \<Rightarrow> Path \<Rightarrow> bool" where
  probe: "path_step p (snd (OnProbeReceived pr nowUs p))"
| next_probe: "path_step p (snd (NextProbe nowUs p))"
| data_sent: "path_step p (OnDataSent n p)"
| data_received: "path_step p (OnDataReceived n nowUs p)"
| control_sent: "path_step p (OnControlSent n p)"
| control_received: "path_step p (OnControlReceived nowUs p)"
| touch: "path_step p (TouchAlive nowUs p)"
| reset_liveness: "path_step p (ResetLiveness nowUs p)"
| set_state: "path_step p (SetPathState st p)"
| set_endpoint: "path_step p (SetEndpoint ep p)"
| set_rates: "path_step p (SetRates tx rx p)"
| set_mtu: "path_step p (SetMTU w i p)"
| mtu_tick: "path_step p (snd (MTUTick p))"
| mtu_ack: "path_step p (MTUAck k p)"
| mtu_send_error: "path_step p (MTUSendError k p)"
| mtu_restart: "path_step p (MTURestart p)"
| set_wan_info: "path_step p (SetWANInfo info p)"

lemmas path_ops = NextProbe_def OnDataSent_def OnDataReceived_def OnControlSent_def OnControlReceived_def
  TouchAlive_def ResetLiveness_def SetPathState_def SetEndpoint_def SetRates_def SetMTU_def MTUTick_def
  MTUAck_def MTUSendError_def MTURestart_def SetWANInfo_def

lemma path_step_ok: "path_step p p' \<Longrightarrow> metrics_ok p \<Longrightarrow> metrics_ok p'"
  by (cases rule: path_step.cases)
    (auto simp: OnProbeReceived_ok, auto simp: metrics_ok_def path_ops Let_def split_beta)

interpretation metrics: machine path_step metrics_ok
  by unfold_locales (rule path_step_ok)

lemma path_run_ok: "path_step\<^sup>*\<^sup>* (NewPath i ifn mbps ceil) p \<Longrightarrow> metrics_ok p"
  by (erule metrics.reachable_inv) (simp add: NewPath_def metrics_ok_def)

lemma update_fields [simp]:
  "pa_state (update_rtt t pr p) = pa_state p" "pa_state (update_loss t pr p) = pa_state p"
  "pa_probesSinceDown (update_rtt t pr p) = pa_probesSinceDown p"
  "pa_probesSinceDown (update_loss t pr p) = pa_probesSinceDown p"
  by (simp_all add: update_rtt_def accept_rtt_def update_loss_def anchor_report_def Let_def)

lemma update_peer [simp]:
  "pa_havePeerProbe (update_rtt t pr p) = pa_havePeerProbe p"
  "pa_lastPeer (update_rtt t pr p) = pa_lastPeer p"
  "pa_lastPeerAtUs (update_rtt t pr p) = pa_lastPeerAtUs p"
  "pa_havePeerProbe (update_loss t pr p) = pa_havePeerProbe p"
  "pa_lastPeer (update_loss t pr p) = pa_lastPeer p"
  "pa_lastPeerAtUs (update_loss t pr p) = pa_lastPeerAtUs p"
  "pa_havePeerProbe (snd (update_revival p)) = pa_havePeerProbe p"
  "pa_lastPeer (snd (update_revival p)) = pa_lastPeer p"
  "pa_lastPeerAtUs (snd (update_revival p)) = pa_lastPeerAtUs p"
  by (simp_all add: update_rtt_def accept_rtt_def update_loss_def anchor_report_def update_revival_def Let_def)

lemma probe_on_down:
  assumes "pa_state p = Down"
  shows "fst (OnProbeReceived pr t p) \<longleftrightarrow> reviveProbes \<le> pa_probesSinceDown p + 1"
    and "pa_state (snd (OnProbeReceived pr t p)) = Down"
    and "pa_probesSinceDown (snd (OnProbeReceived pr t p)) =
      (if reviveProbes \<le> pa_probesSinceDown p + 1 then 0 else pa_probesSinceDown p + 1)"
  using assms by (simp_all add: OnProbeReceived_def Let_def update_revival_def)

section \<open>Properties of a path\<close>

text \<open>
  The metrics handed to the scheduler are always meaningful: the loss estimate lies
  between 0 and 1, the delivery rate is not negative, and once a round-trip time has been
  measured, the minimum is positive and at most the smoothed value, which is below a minute.
\<close>

theorem path_metrics_ok:
  assumes "path_step\<^sup>*\<^sup>* (NewPath i ifn mbps ceil) p"
  shows "case Path_Metrics p of m \<Rightarrow> 0 \<le> m_Loss m \<and> m_Loss m \<le> 1 \<and> 0 \<le> m_DeliveryBps m \<and>
    (m_SRTT m = 0 \<and> m_MinRTT m = 0 \<or>
     0 < m_MinRTT m \<and> m_MinRTT m \<le> m_SRTT m \<and> m_SRTT m < 60 * 10 ^ 9)"
  using path_run_ok [OF assms] by (auto simp: Path_Metrics_def metrics_ok_def)

theorem path_metrics_ok_witness:
  "m_Loss (Path_Metrics (snd (OnProbeReceived (Probe_zero\<lparr>pr_EchoTSend := 5, pr_RxPackets := 7\<rparr>) 9
     (NewPath 0 [] 0 1500)))) \<le> 1"
  using path_metrics_ok [OF r_into_rtranclp [where r = path_step, OF path_step.probe]] by blast

text \<open>
  The round-trip time needs no clock synchronisation: a probe leaves side A at
  \<open>tA\<close>, reaches side B at \<open>sB\<close> on B's clock, B's next probe leaves at \<open>sB'\<close> and
  reaches A at \<open>tA'\<close>. A's sample is then the time from \<open>tA\<close> to \<open>tA'\<close> on A's clock
  less the time B held the probe, on B's clock, in nanoseconds, whatever the offset of the
  two clocks.
\<close>

theorem rtt_without_clock_sync:
  fixes a b :: Path and tA tA' sB sB' :: int
  defines "b' \<equiv> snd (OnProbeReceived (fst (NextProbe tA a)) sB b)"
  assumes "0 < tA" "tA \<le> tA'" "tA' < 2 ^ 50" and "sB \<le> sB'" "sB' - sB < 2 ^ 32"
    and "sB' - sB \<le> tA' - tA"
  shows "rtt_sample tA' (fst (NextProbe sB' b')) = ((tA' - tA) - (sB' - sB)) * 1000"
proof -
  have b': "pa_havePeerProbe b'" "pa_lastPeer b' = fst (NextProbe tA a)" "pa_lastPeerAtUs b' = sB"
    by (simp_all add: b'_def OnProbeReceived_def Let_def)
  have tsend: "pr_TSendUs (fst (NextProbe tA a)) = of_int tA"
    by (simp add: NextProbe_def Let_def)
  have echo: "pr_EchoTSend (fst (NextProbe sB' b')) = of_int tA"
    "pr_EchoDelay (fst (NextProbe sB' b')) = (if 0 < sB' - sB then of_int (sB' - sB) else 0)"
    using b' tsend by (simp_all add: NextProbe_def Let_def)
  have "sint (of_int tA :: u64) = tA"
    using assms(2-4) by (simp add: sint_sbintrunc' signed_take_bit_int_eq_self)
  moreover have "uint (pr_EchoDelay (fst (NextProbe sB' b'))) = sB' - sB"
  proof -
    have "uint (word_of_int d :: u32) = d" if "0 \<le> d" "d < 2 ^ 32" for d
      using that by (simp add: uint_word_of_int_eq take_bit_int_eq_self)
    from this [of "sB' - sB"] show ?thesis
      unfolding echo(2) using assms(5,6) by (auto simp del: of_int_diff)
  qed
  ultimately have sample: "rtt_sample tA' (fst (NextProbe sB' b')) =
      wrap_int64 (wrap_int64 (tA' - tA - (sB' - sB)) * 1000)"
    by (simp only: rtt_sample_def echo(1))
  have "wrap_int64 (tA' - tA - (sB' - sB)) = tA' - tA - (sB' - sB)"
    using assms(2-7) by (intro wrap_int64_id) simp_all
  moreover have "wrap_int64 ((tA' - tA - (sB' - sB)) * 1000) = (tA' - tA - (sB' - sB)) * 1000"
    using assms(2-7) by (intro wrap_int64_id) simp_all
  ultimately show ?thesis unfolding sample by simp
qed

theorem rtt_without_clock_sync_witness:
  "rtt_sample 1500 (fst (NextProbe 77300 (snd (OnProbeReceived (fst (NextProbe 1000 (NewPath 0 [] 0 1500))) 77100
     (NewPath 0 [] 0 1500))))) = 300 * 1000"
  using rtt_without_clock_sync [of 1000 1500 77100 77300 "NewPath 0 [] 0 1500" "NewPath 0 [] 0 1500"] by simp

text \<open>
  Revival: on a path that is down and has counted no probe yet, the third probe, and
  not the first two, reports the path revived, and the count starts over.
\<close>

theorem revived_after_three_probes:
  fixes a b c :: Probe and t1 t2 t3 :: int
  assumes "pa_state p = Down" and "pa_probesSinceDown p = 0"
  defines "p1 \<equiv> snd (OnProbeReceived a t1 p)"
  defines "p2 \<equiv> snd (OnProbeReceived b t2 p1)"
  shows "\<not> fst (OnProbeReceived a t1 p) \<and> \<not> fst (OnProbeReceived b t2 p1) \<and> fst (OnProbeReceived c t3 p2) \<and>
    pa_probesSinceDown (snd (OnProbeReceived c t3 p2)) = 0"
proof -
  have p1: "\<not> fst (OnProbeReceived a t1 p)" "pa_state p1 = Down" "pa_probesSinceDown p1 = 1"
    using probe_on_down [OF assms(1), of a t1] assms(2) by (simp_all add: p1_def)
  then have p2: "\<not> fst (OnProbeReceived b t2 p1)" "pa_state p2 = Down" "pa_probesSinceDown p2 = 2"
    using probe_on_down [OF p1(2), of b t2] by (simp_all add: p2_def)
  then show ?thesis using probe_on_down [OF p2(2), of c t3] p1 by simp
qed

theorem revived_after_three_probes_witness:
  "fst (OnProbeReceived Probe_zero 9 (snd (OnProbeReceived Probe_zero 8 (snd (OnProbeReceived Probe_zero 7
     (SetPathState Down (NewPath 0 [] 0 1500)))))))"
  using revived_after_three_probes [of "SetPathState Down (NewPath 0 [] 0 1500)" Probe_zero 7 Probe_zero 8]
  by (simp add: SetPathState_def NewPath_def)

end
