(* ===== verification/Fec.thy ===== *)
theory Fec
  imports Wire Sched
begin

text \<open>
  The sending half of forward error correction, \<open>internal/fec/fec.go\<close>: the encoder that
  collects data packets into groups and emits Reed-Solomon parity.

  The Reed-Solomon library (\<open>github.com/klauspost/reedsolomon\<close>) is not part of the
  repository: \<open>RSLib\<close> carries its three entry points as parameters. \<open>rs_New k r\<close>
  tells whether \<open>New(k, r)\<close> succeeds, \<open>rs_Encode k r data\<close> gives the \<open>r\<close> parity
  shards of \<open>k\<close> data shards or \<open>None\<close> for an error, and \<open>rs_Reconstruct k r work\<close> is
  \<open>ReconstructData\<close> on \<open>k + r\<close> shards of which the missing ones are \<open>None\<close>. What the
  code relies on is stated by \<open>rs_encodes\<close> and \<open>rs_recovers\<close>, hypotheses of the
  properties that need them. The cache of codecs in \<open>codec\<close> is not visible to callers.
  The callback \<open>loss()\<close> is its value, 0 when it is nil.
\<close>

definition shardCap :: nat where [simp]: "shardCap = 2048"

record RSLib =
  rs_New :: "nat \<Rightarrow> nat \<Rightarrow> bool"
  rs_Encode :: "nat \<Rightarrow> nat \<Rightarrow> bytes list \<Rightarrow> bytes list option"
  rs_Reconstruct :: "nat \<Rightarrow> nat \<Rightarrow> bytes option list \<Rightarrow> bytes option list option"

record Parity =
  py_Header :: FECHeader
  py_Shard :: bytes

record Group =
  gr_Parities :: "Parity list"
  gr_PathCounts :: "u16 garray"

record EncoderStats =
  es_Groups :: u64
  es_ParitySent :: u64

record Encoder =
  e_k :: nat
  e_rFixed :: int
  e_flushAfter :: int
  e_baseSeq :: u64
  e_n :: nat
  e_maxLen :: nat
  e_lens :: "nat list"
  e_shards :: "bytes list"
  e_pathCounts :: "u16 garray"
  e_startedAt :: int
  e_stats :: EncoderStats

definition NewEncoder :: "int \<Rightarrow> int \<Rightarrow> int \<Rightarrow> Encoder" where
  "NewEncoder k rParity flushAfter =
    (let k = (if k < 2 then 2 else k);
         k = (if int MaxFECShards < k then int MaxFECShards else k);
         rParity = (if int MaxFECShards < rParity then int MaxFECShards else rParity)
     in \<lparr>e_k = nat k, e_rFixed = rParity, e_flushAfter = flushAfter, e_baseSeq = 0, e_n = 0,
         e_maxLen = 0, e_lens = replicate (nat k) 0,
         e_shards = replicate (nat k + MaxFECShards) (replicate shardCap 0),
         e_pathCounts = (\<lambda>_. 0), e_startedAt = 0, e_stats = \<lparr>es_Groups = 0, es_ParitySent = 0\<rparr>\<rparr>)"

definition parityCount :: "real \<Rightarrow> Encoder \<Rightarrow> nat \<Rightarrow> nat" where
  "parityCount l e k =
    (let r = e_rFixed e;
         r = (if r = 0 then 1 + trunc (of_nat k * 2 * l + 5 / 10) else r);
         r = (if 4 < r then 4 else r);
         r = (if int k < r then int k else r);
         r = (if r < 1 then 1 else r)
     in nat r)"

definition clear_group :: "Encoder \<Rightarrow> Encoder" where
  "clear_group e = e\<lparr>e_n := 0, e_pathCounts := (\<lambda>_. 0)\<rparr>"

text \<open>
  Zeroing the padding tail of the first \<open>k\<close> data shards (in place), and the work list
  whose \<open>i\<close>-th entry is the first \<open>size\<close> bytes of shard \<open>i\<close>.
\<close>

definition pad_shards :: "nat \<Rightarrow> nat \<Rightarrow> Encoder \<Rightarrow> Encoder" where
  "pad_shards k sz e = e\<lparr>e_shards := map (\<lambda>i.
     if i < k then blit (e_lens e ! i) (replicate (sz - e_lens e ! i) 0) (e_shards e ! i)
     else e_shards e ! i) [0..<length (e_shards e)]\<rparr>"

definition data_work :: "nat \<Rightarrow> nat \<Rightarrow> Encoder \<Rightarrow> bytes list" where
  "data_work k sz e = map (\<lambda>i. take sz (e_shards e ! i)) [0..<k]"

text \<open>\<open>enc.Encode(work)\<close> writes the parity into the encoder's own parity slots.\<close>

definition store_parity :: "bytes list \<Rightarrow> Encoder \<Rightarrow> Encoder" where
  "store_parity ps e = e\<lparr>e_shards := map (\<lambda>i.
     if e_k e \<le> i \<and> i < e_k e + length ps then blit 0 (ps ! (i - e_k e)) (e_shards e ! i)
     else e_shards e ! i) [0..<length (e_shards e)]\<rparr>"

definition flushLocked :: "RSLib \<Rightarrow> real \<Rightarrow> Encoder \<Rightarrow> Group option \<times> Encoder" where
  "flushLocked rs l e =
    (if e_n e = 0 then (None, e)
     else
       let k = e_n e; sz = e_maxLen e; r = parityCount l e k
       in if \<not> rs_New rs k r then (None, clear_group e)
          else
            let e = pad_shards k sz e
            in case rs_Encode rs k r (data_work k sz e) of
                 None \<Rightarrow> (None, clear_group e)
               | Some ps \<Rightarrow>
                  let e = store_parity ps e;
                      g = \<lparr>gr_Parities = map (\<lambda>i. \<lparr>py_Header = \<lparr>fh_BaseSeq = e_baseSeq e, fh_K = of_nat k,
                               fh_R = of_nat r, fh_Index = of_nat i\<rparr>, py_Shard = ps ! i\<rparr>) [0..<r],
                           gr_PathCounts = e_pathCounts e\<rparr>;
                      e = e\<lparr>e_stats := \<lparr>es_Groups = es_Groups (e_stats e) + 1,
                                         es_ParitySent = es_ParitySent (e_stats e) + of_nat r\<rparr>\<rparr>
                  in (Some g, clear_group e))"

definition record_shard :: "bytes \<Rightarrow> byte \<Rightarrow> Encoder \<Rightarrow> Encoder" where
  "record_shard pkt pathID e =
    e\<lparr>e_shards := (e_shards e)[e_n e := blit 0 pkt (e_shards e ! e_n e)],
      e_lens := (e_lens e)[e_n e := length pkt],
      e_maxLen := (if e_maxLen e < length pkt then length pkt else e_maxLen e),
      e_pathCounts := (e_pathCounts e)(unat pathID := e_pathCounts e (unat pathID) + 1),
      e_n := e_n e + 1\<rparr>"

definition merge_groups :: "Group option \<Rightarrow> Group option \<Rightarrow> Group option" where
  "merge_groups out g =
    (case out of
       None \<Rightarrow> g
     | Some o' \<Rightarrow> (case g of
         None \<Rightarrow> Some o'
       | Some g' \<Rightarrow> Some (o'\<lparr>gr_Parities := gr_Parities o' @ gr_Parities g', gr_PathCounts := gr_PathCounts g'\<rparr>)))"

text \<open>\<open>Add\<close>; \<open>None\<close> is the panic of indexing the path counts with an id of 32 or more.\<close>

definition Encoder_Add ::
    "RSLib \<Rightarrow> real \<Rightarrow> u64 \<Rightarrow> bytes \<Rightarrow> byte \<Rightarrow> int \<Rightarrow> Encoder \<Rightarrow> (Group option \<times> Encoder) option" where
  "Encoder_Add rs l seq ipPkt pathID now e =
    (if shardCap < length ipPkt then Some (None, e)
     else if MaxPaths \<le> unat pathID then None
     else
       let (out, e) = (if 0 < e_n e \<and> seq \<noteq> e_baseSeq e + of_nat (e_n e) then flushLocked rs l e else (None, e));
           e = (if e_n e = 0 then e\<lparr>e_baseSeq := seq, e_startedAt := now, e_maxLen := 0\<rparr> else e);
           e = record_shard ipPkt pathID e
       in if e_n e = e_k e
          then let (g, e) = flushLocked rs l e in Some (merge_groups out g, e)
          else Some (out, e))"

definition Encoder_FlushExpired :: "RSLib \<Rightarrow> real \<Rightarrow> int \<Rightarrow> Encoder \<Rightarrow> Group option \<times> Encoder" where
  "Encoder_FlushExpired rs l now e =
    (if e_n e = 0 \<or> now - e_startedAt e < e_flushAfter e then (None, e) else flushLocked rs l e)"

section \<open>What the code relies on\<close>

definition pad :: "nat \<Rightarrow> bytes \<Rightarrow> bytes" where
  "pad sz p = p @ replicate (sz - length p) 0"

text \<open>
  \<open>rs_encodes rs k r\<close>: \<open>New(k, r)\<close> succeeds, and \<open>Encode\<close> of \<open>k\<close> shards of one non-zero size
  succeeds with \<open>r\<close> parity shards of that size.
\<close>

definition same_size :: "nat \<Rightarrow> bytes list \<Rightarrow> bool" where
  "same_size n xs \<longleftrightarrow> (\<forall>x\<in>set xs. length x = n)"

definition rs_encodes :: "RSLib \<Rightarrow> nat \<Rightarrow> nat \<Rightarrow> bool" where
  "rs_encodes rs k r \<longleftrightarrow> rs_New rs k r \<and>
    (\<forall>n data. 0 < n \<longrightarrow> length data = k \<longrightarrow> same_size n data \<longrightarrow>
      (\<exists>ps. rs_Encode rs k r data = Some ps \<and> length ps = r \<and> same_size n ps))"

section \<open>The encoder's invariant\<close>

definition enc_pkts :: "Encoder \<Rightarrow> bytes list" where
  "enc_pkts e = map (\<lambda>i. take (e_lens e ! i) (e_shards e ! i)) [0..<e_n e]"

definition group_size :: "bytes list \<Rightarrow> nat" where
  "group_size pkts = fold (\<lambda>p n. max n (length p)) pkts 0"

text \<open>\<open>enc_wf\<close> holds also in the middle of \<open>Add\<close>, when a group is full; \<open>enc_inv\<close> between calls.\<close>

definition enc_wf :: "Encoder \<Rightarrow> bool" where
  "enc_wf e \<longleftrightarrow> 2 \<le> e_k e \<and> e_k e \<le> MaxFECShards \<and> e_n e \<le> e_k e \<and> length (e_lens e) = e_k e \<and>
    length (e_shards e) = e_k e + MaxFECShards \<and> same_size shardCap (e_shards e) \<and>
    (\<forall>i < e_n e. e_lens e ! i \<le> shardCap) \<and> (0 < e_n e \<longrightarrow> e_maxLen e = group_size (enc_pkts e))"

definition enc_inv :: "Encoder \<Rightarrow> bool" where
  "enc_inv e \<longleftrightarrow> enc_wf e \<and> e_n e < e_k e"

lemma group_size_bound: "p \<in> set pkts \<Longrightarrow> length p \<le> group_size pkts"
  and group_size_least: "(\<And>p. p \<in> set pkts \<Longrightarrow> length p \<le> m) \<Longrightarrow> group_size pkts \<le> m"
proof -
  have mono: "n \<le> fold (\<lambda>p n. max n (length p)) xs n" for xs :: "bytes list" and n
    by (induction xs arbitrary: n) (auto intro: order_trans [OF max.cobounded1])
  have "p \<in> set xs \<Longrightarrow> length p \<le> fold (\<lambda>p n. max n (length p)) xs n" for xs n
    using mono by (induction xs arbitrary: n) (auto intro: order_trans [OF max.cobounded2])
  then show "p \<in> set pkts \<Longrightarrow> length p \<le> group_size pkts" by (simp add: group_size_def)
  have "n \<le> m \<Longrightarrow> (\<And>p. p \<in> set xs \<Longrightarrow> length p \<le> m) \<Longrightarrow> fold (\<lambda>p n. max n (length p)) xs n \<le> m"
    for xs :: "bytes list" and n m
    by (induction xs arbitrary: n) auto
  then show "(\<And>p. p \<in> set pkts \<Longrightarrow> length p \<le> m) \<Longrightarrow> group_size pkts \<le> m"
    by (simp add: group_size_def)
qed

lemma group_size_simps [simp]:
  "group_size [] = 0" "group_size [p] = length p" "group_size (xs @ [p]) = max (group_size xs) (length p)"
  by (simp_all add: group_size_def)

lemma length_pad: "length p \<le> n \<Longrightarrow> length (pad n p) = n"
  by (simp add: pad_def)

lemma parityCount_range: "0 < k \<Longrightarrow> 1 \<le> parityCount l e k \<and> parityCount l e k \<le> 4 \<and> parityCount l e k \<le> k"
  by (auto simp: parityCount_def Let_def)

lemma NewEncoder_inv: "enc_inv (NewEncoder k r fl)"
  by (auto simp: NewEncoder_def enc_inv_def enc_wf_def Let_def same_size_def)

lemma shard_nth: "same_size n (e_shards e) \<Longrightarrow> i < length (e_shards e) \<Longrightarrow> length (e_shards e ! i) = n"
  by (simp add: same_size_def)

text \<open>The work list of a flush is the padded packets.\<close>

lemma data_work_pad:
  assumes "length (e_shards e) = e_k e + MaxFECShards" "same_size shardCap (e_shards e)" "k \<le> e_k e"
    and "sz \<le> shardCap" "\<forall>i < k. e_lens e ! i \<le> sz"
  shows "data_work k sz (pad_shards k sz e) =
    map (\<lambda>i. pad sz (take (e_lens e ! i) (e_shards e ! i))) [0..<k]"
proof (rule nth_equalityI)
  show "length (data_work k sz (pad_shards k sz e)) =
      length (map (\<lambda>i. pad sz (take (e_lens e ! i) (e_shards e ! i))) [0..<k])"
    by (simp add: data_work_def)
next
  fix i assume "i < length (data_work k sz (pad_shards k sz e))"
  then have i: "i < k" by (simp add: data_work_def)
  have len: "length (e_shards e ! i) = 2048" using shard_nth assms(1-3) i by fastforce
  have "e_lens e ! i \<le> sz" using assms(5) i by blast
  then have "take sz (blit (e_lens e ! i) (replicate (sz - e_lens e ! i) 0) (e_shards e ! i)) =
      pad sz (take (e_lens e ! i) (e_shards e ! i))"
    using len assms(4) by (simp add: blit_def pad_def)
  then show "data_work k sz (pad_shards k sz e) ! i =
      map (\<lambda>i. pad sz (take (e_lens e ! i) (e_shards e ! i))) [0..<k] ! i"
    using i assms(1,3) by (simp add: data_work_def pad_shards_def)
qed

lemma enc_pkts_nth:
  assumes "enc_wf e" "i < e_n e"
  shows "length (e_shards e ! i) = shardCap" "e_lens e ! i \<le> shardCap" "enc_pkts e ! i = take (e_lens e ! i) (e_shards e ! i)"
    "length (enc_pkts e ! i) = e_lens e ! i"
proof -
  have "i < length (e_shards e)" using assms by (simp add: enc_wf_def)
  then show len: "length (e_shards e ! i) = shardCap" using assms shard_nth [of shardCap e i] by (simp add: enc_wf_def)
  show le: "e_lens e ! i \<le> shardCap" using assms by (simp add: enc_wf_def)
  show nth: "enc_pkts e ! i = take (e_lens e ! i) (e_shards e ! i)" using assms by (simp add: enc_pkts_def)
  show "length (enc_pkts e ! i) = e_lens e ! i" using len le by (simp add: nth)
qed

lemma enc_pkts_lengths:
  assumes "enc_wf e" "p \<in> set (enc_pkts e)"
  shows "length p \<le> shardCap"
proof -
  obtain i where "i < e_n e" "p = enc_pkts e ! i"
    using assms(2) by (auto simp: in_set_conv_nth enc_pkts_def)
  then show ?thesis using enc_pkts_nth [OF assms(1)] by metis
qed

lemma lens_le_group_size:
  assumes "enc_wf e" "i < e_n e"
  shows "e_lens e ! i \<le> group_size (enc_pkts e)"
proof -
  have "enc_pkts e ! i \<in> set (enc_pkts e)" using assms(2) by (simp add: enc_pkts_def)
  then show ?thesis using group_size_bound [of "enc_pkts e ! i"] enc_pkts_nth(4) [OF assms] by simp
qed

lemma flush_work:
  assumes wf: "enc_wf e" and "0 < e_n e"
  shows "data_work (e_n e) (e_maxLen e) (pad_shards (e_n e) (e_maxLen e) e) =
    map (pad (group_size (enc_pkts e))) (enc_pkts e)"
proof -
  have sz: "e_maxLen e = group_size (enc_pkts e)" using assms by (simp add: enc_wf_def)
  have "group_size (enc_pkts e) \<le> shardCap"
    using enc_pkts_lengths [OF wf] by (rule group_size_least)
  moreover have "\<forall>i < e_n e. e_lens e ! i \<le> e_maxLen e" using lens_le_group_size [OF wf] sz by simp
  ultimately have "data_work (e_n e) (e_maxLen e) (pad_shards (e_n e) (e_maxLen e) e) =
      map (\<lambda>i. pad (e_maxLen e) (take (e_lens e ! i) (e_shards e ! i))) [0..<e_n e]"
    using wf sz by (intro data_work_pad) (simp_all add: enc_wf_def)
  then show ?thesis by (simp add: sz enc_pkts_def)
qed

definition group_of :: "u64 \<Rightarrow> nat \<Rightarrow> bytes list \<Rightarrow> u16 garray \<Rightarrow> Group" where
  "group_of base k ps counts =
    \<lparr>gr_Parities = map (\<lambda>i. \<lparr>py_Header = \<lparr>fh_BaseSeq = base, fh_K = of_nat k,
        fh_R = of_nat (length ps), fh_Index = of_nat i\<rparr>, py_Shard = ps ! i\<rparr>) [0..<length ps],
     gr_PathCounts = counts\<rparr>"

lemma cleared_wf:
  assumes "enc_wf e" "e_k e' = e_k e" "e_n e' = 0" "length (e_lens e') = length (e_lens e)"
    "length (e_shards e') = length (e_shards e)" "same_size shardCap (e_shards e')"
  shows "enc_inv e'"
  using assms by (simp add: enc_inv_def enc_wf_def)

lemma pad_shards_sizes:
  assumes "enc_wf e" "\<forall>i < k. e_lens e ! i \<le> sz" "sz \<le> shardCap"
  shows "same_size shardCap (e_shards (pad_shards k sz e))"
  using assms shard_nth [of shardCap e] by (auto simp: same_size_def pad_shards_def enc_wf_def)

lemma flush_success:
  assumes wf: "enc_wf e" and n: "0 < e_n e" and sz: "0 < group_size (enc_pkts e)"
    and rs: "rs_encodes rs (e_n e) (parityCount l e (e_n e))"
  obtains ps e' where
    "rs_Encode rs (e_n e) (parityCount l e (e_n e)) (map (pad (group_size (enc_pkts e))) (enc_pkts e)) = Some ps"
    "length ps = parityCount l e (e_n e)" "same_size (group_size (enc_pkts e)) ps"
    "flushLocked rs l e = (Some (group_of (e_baseSeq e) (e_n e) ps (e_pathCounts e)), e')"
    "enc_inv e'" "e_n e' = 0" "e_k e' = e_k e" "e_rFixed e' = e_rFixed e"
proof -
  let ?k = "e_n e" and ?r = "parityCount l e (e_n e)" and ?z = "group_size (enc_pkts e)"
  let ?data = "map (pad ?z) (enc_pkts e)" and ?p = "pad_shards (e_n e) (e_maxLen e) e"
  have max: "e_maxLen e = ?z" using wf n by (simp add: enc_wf_def)
  have z: "?z \<le> shardCap" using enc_pkts_lengths [OF wf] by (rule group_size_least)
  have "length ?data = ?k" by (simp add: enc_pkts_def)
  moreover have "same_size ?z ?data" by (auto simp: same_size_def intro: length_pad group_size_bound)
  ultimately obtain ps where ps: "rs_Encode rs ?k ?r ?data = Some ps" "length ps = ?r" "same_size ?z ps"
    using rs sz unfolding rs_encodes_def by blast
  have r: "?r \<le> 4" "?r \<le> ?k" using parityCount_range [OF n] by simp_all
  have work: "data_work ?k (e_maxLen e) ?p = ?data" by (rule flush_work [OF wf n])
  let ?e' = "clear_group ((store_parity ps ?p)\<lparr>e_stats := \<lparr>es_Groups = es_Groups (e_stats (store_parity ps ?p)) + 1,
      es_ParitySent = es_ParitySent (e_stats (store_parity ps ?p)) + of_nat ?r\<rparr>\<rparr>)"
  have new: "rs_New rs ?k ?r" using rs by (simp add: rs_encodes_def)
  have base: "e_baseSeq (store_parity ps ?p) = e_baseSeq e" "e_pathCounts (store_parity ps ?p) = e_pathCounts e"
    by (simp_all add: store_parity_def pad_shards_def)
  have flush: "flushLocked rs l e = (Some (group_of (e_baseSeq e) ?k ps (e_pathCounts e)), ?e')"
    using n new ps(1,2) unfolding flushLocked_def Let_def work group_of_def by (simp add: base)
  have lens: "\<forall>i < ?k. e_lens e ! i \<le> ?z" using lens_le_group_size [OF wf] by blast
  have padded: "same_size shardCap (e_shards ?p)"
    using pad_shards_sizes [OF wf lens z] by (simp add: max)
  have "same_size shardCap (e_shards (store_parity ps ?p))"
    using padded ps(3) z by (auto simp: same_size_def store_parity_def)
  then have "enc_inv ?e'"
    by (intro cleared_wf [OF wf]) (simp_all add: clear_group_def store_parity_def pad_shards_def)
  moreover have "e_n ?e' = 0" "e_k ?e' = e_k e" "e_rFixed ?e' = e_rFixed e"
    by (simp_all add: clear_group_def store_parity_def pad_shards_def)
  ultimately show ?thesis using that ps flush by blast
qed

text \<open>Recording one packet.\<close>

lemma record_shard_wf:
  assumes wf: "enc_wf e" and n: "e_n e < e_k e" and p: "length p \<le> shardCap"
    and max: "e_n e = 0 \<longrightarrow> e_maxLen e = 0"
  shows "enc_wf (record_shard p pid e)" and "enc_pkts (record_shard p pid e) = enc_pkts e @ [p]"
    and "e_n (record_shard p pid e) = e_n e + 1"
    and "e_k (record_shard p pid e) = e_k e" "e_baseSeq (record_shard p pid e) = e_baseSeq e"
      "e_rFixed (record_shard p pid e) = e_rFixed e"
proof -
  let ?e = "record_shard p pid e"
  have len: "e_n e < length (e_shards e)" "e_n e < length (e_lens e)" "length (e_shards e ! e_n e) = shardCap"
    using wf n shard_nth [of shardCap e "e_n e"] by (simp_all add: enc_wf_def)
  show pkts: "enc_pkts ?e = enc_pkts e @ [p]"
  proof -
    have "map (\<lambda>i. take ((e_lens e)[e_n e := length p] ! i) ((e_shards e)[e_n e := blit 0 p (e_shards e ! e_n e)] ! i))
        [0..<e_n e] = map (\<lambda>i. take (e_lens e ! i) (e_shards e ! i)) [0..<e_n e]" by simp
    moreover have "take (length p) (blit 0 p (e_shards e ! e_n e)) = p" by (simp add: blit_def)
    ultimately show ?thesis using len by (simp add: enc_pkts_def record_shard_def)
  qed
  show "e_n ?e = e_n e + 1" "e_k ?e = e_k e" "e_baseSeq ?e = e_baseSeq e" "e_rFixed ?e = e_rFixed e"
    by (simp_all add: record_shard_def)
  have "same_size shardCap (e_shards ?e)"
    using wf p len by (auto simp: same_size_def record_shard_def enc_wf_def dest!: set_update_subset_insert [THEN subsetD])
  moreover have "e_maxLen ?e = group_size (enc_pkts ?e)"
    unfolding pkts using wf max by (cases "e_n e = 0") (auto simp: record_shard_def enc_wf_def enc_pkts_def)
  moreover have "\<forall>i < e_n ?e. e_lens ?e ! i \<le> shardCap"
    using wf p len by (auto simp: record_shard_def enc_wf_def nth_list_update less_Suc_eq)
  ultimately show "enc_wf ?e" using wf n by (simp add: enc_wf_def record_shard_def)
qed

lemma group_size_pos: "p \<in> set pkts \<Longrightarrow> p \<noteq> [] \<Longrightarrow> 0 < group_size pkts"
  using group_size_bound [of p pkts] by (cases p) auto

text \<open>
  A packet that continues the current group, or starts one: it is recorded, and the group is
  closed exactly when it is full.
\<close>

lemma Add_contiguous:
  fixes now :: int
  assumes inv: "enc_inv e" and p: "length p \<le> shardCap" "unat pid < MaxPaths"
    and seq: "e_n e = 0 \<or> seq = e_baseSeq e + of_nat (e_n e)"
  defines "e0 \<equiv> if e_n e = 0 then e\<lparr>e_baseSeq := seq, e_startedAt := now, e_maxLen := 0\<rparr> else e"
  shows "Encoder_Add rs l seq p pid now e =
      (if Suc (e_n e) = e_k e then Some (flushLocked rs l (record_shard p pid e0))
       else Some (None, record_shard p pid e0))"
    and "enc_wf (record_shard p pid e0)" "enc_pkts (record_shard p pid e0) = enc_pkts e @ [p]"
    and "e_n (record_shard p pid e0) = Suc (e_n e)" "e_k (record_shard p pid e0) = e_k e"
    and "e_baseSeq (record_shard p pid e0) = (if e_n e = 0 then seq else e_baseSeq e)"
    and "e_rFixed (record_shard p pid e0) = e_rFixed e"
proof -
  have e0: "enc_wf e0" "e_n e0 = e_n e" "e_k e0 = e_k e" "enc_pkts e0 = enc_pkts e" "e_rFixed e0 = e_rFixed e"
    "e_n e0 = 0 \<longrightarrow> e_maxLen e0 = 0" "e_baseSeq e0 = (if e_n e = 0 then seq else e_baseSeq e)"
    using inv by (auto simp: e0_def enc_inv_def enc_wf_def enc_pkts_def)
  note r = record_shard_wf [OF e0(1) _ p(1) e0(6), of pid]
  have n: "e_n e0 < e_k e0" using inv e0 by (simp add: enc_inv_def)
  show "enc_wf (record_shard p pid e0)" "enc_pkts (record_shard p pid e0) = enc_pkts e @ [p]"
    "e_n (record_shard p pid e0) = Suc (e_n e)" "e_k (record_shard p pid e0) = e_k e"
    "e_baseSeq (record_shard p pid e0) = (if e_n e = 0 then seq else e_baseSeq e)"
    "e_rFixed (record_shard p pid e0) = e_rFixed e"
    using r [OF n] e0 by simp_all
  have nofl: "\<not> (0 < e_n e \<and> seq \<noteq> e_baseSeq e + of_nat (e_n e))" using seq by auto
  have kk: "e_n (record_shard p pid e0) = e_k (record_shard p pid e0) \<longleftrightarrow> Suc (e_n e) = e_k e"
    using r [OF n] e0 by simp
  show "Encoder_Add rs l seq p pid now e =
      (if Suc (e_n e) = e_k e then Some (flushLocked rs l (record_shard p pid e0))
       else Some (None, record_shard p pid e0))"
    using p nofl kk unfolding Encoder_Add_def Let_def e0_def
    by (auto simp: merge_groups_def split: prod.split)
qed

text \<open>A run of packets with consecutive sequence numbers; the groups that the calls return.\<close>

fun add_all ::
    "RSLib \<Rightarrow> real \<Rightarrow> u64 \<Rightarrow> byte \<Rightarrow> int \<Rightarrow> bytes list \<Rightarrow> Encoder \<Rightarrow> (Group option list \<times> Encoder) option" where
  "add_all rs l seq pid now [] e = Some ([], e)"
| "add_all rs l seq pid now (p # ps) e =
    (case Encoder_Add rs l seq p pid now e of
       None \<Rightarrow> None
     | Some (g, e') \<Rightarrow> map_option (\<lambda>(gs, e''). (g # gs, e'')) (add_all rs l (seq + 1) pid now ps e'))"

lemma add_all_fills:
  assumes "enc_inv e" "e_n e = 0 \<or> seq = base + of_nat (e_n e)" "0 < e_n e \<longrightarrow> e_baseSeq e = base"
    "e_n e = 0 \<longrightarrow> seq = base" "ps \<noteq> []" "e_n e + length ps = e_k e"
    "\<forall>p\<in>set ps. p \<noteq> [] \<and> length p \<le> shardCap" "unat pid < MaxPaths"
    "rs_encodes rs (e_k e) (parityCount l e (e_k e))"
  shows "\<exists>par g e'. rs_Encode rs (e_k e) (parityCount l e (e_k e))
      (map (pad (group_size (enc_pkts e @ ps))) (enc_pkts e @ ps)) = Some par \<and>
    length par = parityCount l e (e_k e) \<and> same_size (group_size (enc_pkts e @ ps)) par \<and>
    add_all rs l seq pid now ps e = Some (replicate (length ps - 1) None @ [Some g], e') \<and>
    gr_Parities g = gr_Parities (group_of base (e_k e) par (\<lambda>_. 0)) \<and> enc_inv e' \<and> e_n e' = 0"
  using assms
proof (induction ps arbitrary: e seq)
  case Nil
  then show ?case by simp
next
  case (Cons p ps)
  let ?e0 = "if e_n e = 0 then e\<lparr>e_baseSeq := seq, e_startedAt := now, e_maxLen := 0\<rparr> else e"
  let ?e1 = "record_shard p pid ?e0"
  have seq: "e_n e = 0 \<or> seq = e_baseSeq e + of_nat (e_n e)" using Cons.prems(2,3) by auto
  have p: "length p \<le> shardCap" "p \<noteq> []" using Cons.prems(7) by simp_all
  note add = Add_contiguous [OF Cons.prems(1) p(1) Cons.prems(8) seq, where now = now]
  have base1: "e_baseSeq ?e1 = base" unfolding add(6) using Cons.prems(3,4) by auto
  have pc: "parityCount l ?e1 k = parityCount l e k" for k
    unfolding parityCount_def add(7) ..
  show ?case
  proof (cases "ps = []")
    case True
    then have full: "Suc (e_n e) = e_k e" using Cons.prems(6) by simp
    have sz: "0 < group_size (enc_pkts ?e1)" unfolding add(3) by (rule group_size_pos [of p]) (use p in simp_all)
    have enc: "rs_encodes rs (e_n ?e1) (parityCount l ?e1 (e_n ?e1))"
      unfolding pc add(4) full by (rule Cons.prems(9))
    have pos: "0 < e_n ?e1" unfolding add(4) by simp
    obtain par e' where fl:
      "rs_Encode rs (e_n ?e1) (parityCount l ?e1 (e_n ?e1)) (map (pad (group_size (enc_pkts ?e1))) (enc_pkts ?e1)) = Some par"
      "length par = parityCount l ?e1 (e_n ?e1)" "same_size (group_size (enc_pkts ?e1)) par"
      "flushLocked rs l ?e1 = (Some (group_of (e_baseSeq ?e1) (e_n ?e1) par (e_pathCounts ?e1)), e')"
      "enc_inv e'" "e_n e' = 0"
      using flush_success [OF add(2) pos sz enc] by metis
    have Add: "Encoder_Add rs l seq p pid now e = Some (flushLocked rs l ?e1)"
      unfolding add(1) by (simp only: full refl if_True)
    then have "add_all rs l seq pid now (p # ps) e =
        Some ([Some (group_of base (e_k e) par (e_pathCounts ?e1))], e')"
      using True fl(4) base1 unfolding add(4) full by simp
    moreover have "rs_Encode rs (e_k e) (parityCount l e (e_k e))
        (map (pad (group_size (enc_pkts e @ p # ps))) (enc_pkts e @ p # ps)) = Some par"
      using fl(1) True unfolding pc add(3) add(4) full by simp
    ultimately show ?thesis
      using fl(2,3,5,6) True unfolding pc add(3) add(4) full
      by (intro exI [of _ par] exI [of _ "group_of base (e_k e) par (e_pathCounts ?e1)"] exI [of _ e'])
        (simp add: group_of_def)
  next
    case False
    then have notfull: "Suc (e_n e) \<noteq> e_k e" using Cons.prems(6) by (cases ps) simp_all
    have inv1: "enc_inv ?e1" unfolding enc_inv_def add(4) add(5) using add(2) Cons.prems(6) False by (cases ps) simp_all
    have Add: "Encoder_Add rs l seq p pid now e = Some (None, ?e1)"
      unfolding add(1) using notfull by (simp only: if_False)
    have "seq + 1 = base + of_nat (Suc (e_n e))" using Cons.prems(2,4) by (auto simp: add.assoc)
    then have "\<exists>par g e'. rs_Encode rs (e_k ?e1) (parityCount l ?e1 (e_k ?e1))
        (map (pad (group_size (enc_pkts ?e1 @ ps))) (enc_pkts ?e1 @ ps)) = Some par \<and>
      length par = parityCount l ?e1 (e_k ?e1) \<and> same_size (group_size (enc_pkts ?e1 @ ps)) par \<and>
      add_all rs l (seq + 1) pid now ps ?e1 = Some (replicate (length ps - 1) None @ [Some g], e') \<and>
      gr_Parities g = gr_Parities (group_of base (e_k ?e1) par (\<lambda>_. 0)) \<and> enc_inv e' \<and> e_n e' = 0"
      using Cons.prems(6-9) False base1 notfull
      by (intro Cons.IH [OF inv1]) (simp_all only: add(4,5) pc list.size, simp_all)
    then show ?thesis
      using False Add unfolding add(3) add(5) pc
      by (cases ps) auto
  qed
qed

lemma flush_resets:
  "e_n (snd (flushLocked rs l e)) = 0" "e_k (snd (flushLocked rs l e)) = e_k e"
  by (simp_all add: flushLocked_def Let_def clear_group_def pad_shards_def store_parity_def split: option.split)

lemma flush_headers:
  assumes "fst (flushLocked rs l e) = Some g" "e_n e \<le> MaxFECShards" "fits48 (e_baseSeq e)" "y \<in> set (gr_Parities g)"
  shows "fec_header_ok (py_Header y) \<and> fh_BaseSeq (py_Header y) = e_baseSeq e \<and>
    unat (fh_K (py_Header y)) = e_n e \<and> unat (fh_R (py_Header y)) \<le> min 4 (e_n e)"
proof -
  let ?k = "e_n e" and ?r = "parityCount l e (e_n e)"
  have k: "0 < ?k" using assms(1) by (cases "e_n e = 0") (simp_all add: flushLocked_def)
  have r: "1 \<le> ?r" "?r \<le> 4" "?r \<le> ?k" using parityCount_range [OF k] by simp_all
  have base: "e_baseSeq (store_parity ps (pad_shards k' z e)) = e_baseSeq e" for ps k' z
    by (simp add: store_parity_def pad_shards_def)
  obtain i where i: "i < ?r" and y: "py_Header y = \<lparr>fh_BaseSeq = e_baseSeq e, fh_K = of_nat ?k, fh_R = of_nat ?r, fh_Index = of_nat i\<rparr>"
    using assms(1,4) k by (auto simp: flushLocked_def Let_def base split: if_splits option.splits)
  have "unat (of_nat ?k :: byte) = ?k" "unat (of_nat ?r :: byte) = ?r" "unat (of_nat i :: byte) = i"
    using assms(2) r i by (simp_all add: unat_of_nat)
  then show ?thesis using y i r k assms(2,3) by (simp add: fec_header_ok_def)
qed

section \<open>Properties of the encoder\<close>

text \<open>
  A full group is encoded from exactly its packets: adding as many packets with
  consecutive sequence numbers as the group size returns nothing until the last one, which
  returns the group; its parity shards are the Reed-Solomon code of the packets zero-padded
  to the longest of them, whatever was in the reused shard buffers, and its headers carry
  the first sequence number, the group size, the parity count and the shard index.
\<close>

theorem encoder_full_group:
  fixes l :: real and k r fl now :: int and base :: u64 and pid :: byte and pkts :: "bytes list"
  defines "e \<equiv> NewEncoder k r fl"
  assumes "length pkts = e_k e" and "\<forall>p\<in>set pkts. p \<noteq> [] \<and> length p \<le> shardCap" and "unat pid < MaxPaths"
    and "rs_encodes rs (e_k e) (parityCount l e (e_k e))"
  shows "\<exists>par g e'. rs_Encode rs (e_k e) (parityCount l e (e_k e)) (map (pad (group_size pkts)) pkts) = Some par \<and>
    add_all rs l base pid now pkts e = Some (replicate (length pkts - 1) None @ [Some g], e') \<and>
    gr_Parities g = map (\<lambda>i. \<lparr>py_Header = \<lparr>fh_BaseSeq = base, fh_K = of_nat (e_k e), fh_R = of_nat (length par),
      fh_Index = of_nat i\<rparr>, py_Shard = par ! i\<rparr>) [0..<length par] \<and>
    length par = parityCount l e (e_k e) \<and> e_n e' = 0"
proof -
  have inv: "enc_inv e" and n: "e_n e = 0" and pk: "enc_pkts e = []"
    unfolding e_def using NewEncoder_inv by (simp_all add: NewEncoder_def Let_def enc_pkts_def)
  have "pkts \<noteq> []" using assms(2) inv by (auto simp: enc_inv_def)
  then show ?thesis
    using add_all_fills [OF inv, of base base pkts pid rs l now] assms(2-5) n pk
    by (fastforce simp: group_of_def)
qed

definition copy_codec :: RSLib where
  "copy_codec = \<lparr>rs_New = (\<lambda>_ _. True), rs_Encode = (\<lambda>k r data. Some (replicate r (hd data))),
     rs_Reconstruct = (\<lambda>k r work. None)\<rparr>"

theorem encoder_full_group_witness:
  "\<exists>g e'. add_all copy_codec 0 100 3 0 [[1, 2], [3]] (NewEncoder 2 1 5) = Some ([None, Some g], e') \<and>
     length (gr_Parities g) = 1"
proof -
  have e: "e_k (NewEncoder 2 1 5) = 2" by (simp add: NewEncoder_def Let_def)
  have "parityCount 0 (NewEncoder 2 1 5) 2 = 1"
    by (simp add: parityCount_def NewEncoder_def Let_def)
  moreover have "rs_encodes copy_codec 2 1"
    by (auto simp: rs_encodes_def copy_codec_def same_size_def neq_Nil_conv length_Suc_conv numeral_2_eq_2)
  ultimately show ?thesis
    using encoder_full_group [of "[[1, 2], [3]]" 2 1 5 3 copy_codec 0 100 0] by (auto simp: e)
qed

text \<open>
  Every parity shard an encoder returns carries a header that the receiver's parser
  accepts: group size between 1 and 15, at most four parity shards and no more than data
  shards, index below the parity count.
\<close>

theorem encoder_headers_valid:
  assumes "fst (flushLocked rs l e) = Some g" and "e_n e \<le> MaxFECShards" and "fits48 (e_baseSeq e)"
    and "y \<in> set (gr_Parities g)" and "py_Shard y \<noteq> []"
  shows "map_option ParseFECHeader (FECHeader_Marshal (py_Header y) (replicate FECHeaderSize 0 @ py_Shard y)) =
      Some (Inr (py_Header y, py_Shard y)) \<and>
    unat (fh_R (py_Header y)) \<le> min 4 (unat (fh_K (py_Header y)))"
  using flush_headers [OF assms(1-4)] FECHeader_parses [of "py_Header y" "py_Shard y"] assms(5) by simp

definition small_encoder :: Encoder where
  "small_encoder = \<lparr>e_k = 2, e_rFixed = 1, e_flushAfter = 5, e_baseSeq = 40, e_n = 1, e_maxLen = 1, e_lens = [1, 0],
     e_shards = [[7], [0], [0]], e_pathCounts = (\<lambda>_. 0), e_startedAt = 0,
     e_stats = \<lparr>es_Groups = 0, es_ParitySent = 0\<rparr>\<rparr>"

theorem encoder_headers_valid_witness:
  "\<exists>g y. fst (flushLocked copy_codec 0 small_encoder) = Some g \<and>
     y \<in> set (gr_Parities g) \<and> unat (fh_R (py_Header y)) \<le> min 4 (unat (fh_K (py_Header y)))"
proof -
  have pc: "parityCount 0 small_encoder 1 = 1" by (simp add: parityCount_def small_encoder_def)
  let ?y = "\<lparr>py_Header = \<lparr>fh_BaseSeq = 40, fh_K = 1, fh_R = 1, fh_Index = 0\<rparr>, py_Shard = [7]\<rparr>"
  have fl: "fst (flushLocked copy_codec 0 small_encoder) = Some \<lparr>gr_Parities = [?y], gr_PathCounts = (\<lambda>_. 0)\<rparr>"
    using pc by (simp add: flushLocked_def copy_codec_def Let_def pad_shards_def data_work_def store_parity_def
        small_encoder_def blit_def upt_rec)
  from encoder_headers_valid [OF this, of ?y] show ?thesis
    using fl by (auto simp: small_encoder_def fits48_def)
qed

text \<open>
  A break in the sequence numbers closes the current group and starts a new one with
  the packet: the call returns exactly the group closed by the break. The branch that merges
  two groups closed by one call is never taken, because a group has at least two packets.
\<close>

theorem discontinuity_closes_group:
  assumes "2 \<le> e_k e" and "0 < e_n e" and "seq \<noteq> e_baseSeq e + of_nat (e_n e)"
    and "length p \<le> shardCap" and "unat pid < MaxPaths"
  shows "\<exists>e'. Encoder_Add rs l seq p pid now e = Some (fst (flushLocked rs l e), e') \<and>
    e_n e' = 1 \<and> e_baseSeq e' = seq \<and> e_maxLen e' = length p"
proof -
  let ?f = "snd (flushLocked rs l e)"
  let ?e' = "record_shard p pid (?f\<lparr>e_baseSeq := seq, e_startedAt := now, e_maxLen := 0\<rparr>)"
  have "e_n ?e' = 1" "e_k ?e' = e_k e" "e_baseSeq ?e' = seq" "e_maxLen ?e' = length p"
    using flush_resets [of rs l e] by (simp_all add: record_shard_def)
  moreover have "Encoder_Add rs l seq p pid now e = Some (fst (flushLocked rs l e), ?e')"
    using assms calculation flush_resets [of rs l e] unfolding Encoder_Add_def Let_def
    by (simp add: split_beta)
  ultimately show ?thesis by blast
qed

theorem discontinuity_closes_group_witness:
  "\<exists>e'. Encoder_Add copy_codec 0 77 [1] 0 9 small_encoder =
     Some (fst (flushLocked copy_codec 0 small_encoder), e') \<and> e_baseSeq e' = 77"
  using discontinuity_closes_group [of small_encoder 77 "[1]" 0 copy_codec 0 9]
  by (auto simp: small_encoder_def)

end
