(* ===== verification/Sliding_Window.thy ===== *)
theory Sliding_Window
  imports Amane_Prelude
begin

text \<open>
  The contract of a sliding bitmap window over 64-bit counters, as both the anti-replay
  window of \<open>internal/replay\<close> and the duplicate filter of \<open>internal/reorder\<close> keep
  one: \<open>nb\<close> blocks of 64 bits used as a ring. The laws describe one presentation of a
  counter; the lemmas describe whole histories. They are proved once here and reached
  from the two components by interpretation.
\<close>

definition blk :: "u64 \<Rightarrow> nat" where
  "blk c = unat c div 64"

definition win_pos :: "nat \<Rightarrow> u64 \<Rightarrow> nat" where
  "win_pos nb c = unat c mod (64 * nb)"

text \<open>Presenting a list of counters to a window, one after the other.\<close>

definition win_run :: "('w \<Rightarrow> u64 \<Rightarrow> bool \<times> 'w) \<Rightarrow> 'w \<Rightarrow> u64 list \<Rightarrow> 'w" where
  "win_run chk w cs = foldl (\<lambda>v c. snd (chk v c)) w cs"

text \<open>
  A presentation is orderly when the counter is ahead of the head, or less than \<open>nb\<close>
  blocks behind it, or behind it by the whole window (too old). A history is orderly when
  every presentation is, at its time.
\<close>

definition orderly_arrival :: "nat \<Rightarrow> u64 \<Rightarrow> u64 \<Rightarrow> bool" where
  "orderly_arrival nb h c \<longleftrightarrow> h < c \<or> blk h < blk c + nb \<or> 64 * nb \<le> unat h - unat c"

primrec orderly_run ::
    "nat \<Rightarrow> ('w \<Rightarrow> u64) \<Rightarrow> ('w \<Rightarrow> u64 \<Rightarrow> bool \<times> 'w) \<Rightarrow> 'w \<Rightarrow> u64 list \<Rightarrow> bool" where
  "orderly_run nb hd_of chk w [] = True"
| "orderly_run nb hd_of chk w (c # cs) =
    (orderly_arrival nb (hd_of w) c \<and> orderly_run nb hd_of chk (snd (chk w c)) cs)"

lemma win_run_simps [simp]:
  "win_run chk w [] = w"
  "win_run chk w (c # cs) = win_run chk (snd (chk w c)) cs"
  "win_run chk w (xs @ ys) = win_run chk (win_run chk w xs) ys"
  by (simp_all add: win_run_def)

lemma blk_mono: "c \<le> d \<Longrightarrow> blk c \<le> blk d"
  by (simp add: blk_def word_le_nat_alt div_le_mono)

lemma win_pos_div: "win_pos nb c div 64 = blk c mod nb"
  by (simp add: win_pos_def blk_def mod_mult2_eq)

lemma win_pos_mod: "win_pos nb c mod 64 = unat c mod 64"
  by (simp add: win_pos_def mod_mod_cancel)

lemma mod_eq_same_range:
  fixes a b n :: nat
  assumes "a mod n = b mod n" and "b \<le> a" and "a < b + n"
  shows "a = b"
proof -
  have "n dvd a - b" using assms(1,2) by (simp add: mod_eq_dvd_iff_nat)
  then show ?thesis using assms(2,3) by (auto dest: dvd_imp_le)
qed

lemma win_pos_less: "0 < nb \<Longrightarrow> win_pos nb c < 64 * nb"
  by (simp add: win_pos_def)

text \<open>Two counters at the same position whose blocks are less than a ring apart are equal.\<close>

lemma win_pos_inj:
  assumes "win_pos nb c = win_pos nb d" and "blk c < blk d + nb" and "blk d < blk c + nb"
  shows "c = d"
proof -
  have "blk c mod nb = blk d mod nb" using assms(1) by (metis win_pos_div)
  with assms(2,3) have "blk c = blk d"
    using mod_eq_same_range [of "blk c" nb "blk d"] mod_eq_same_range [of "blk d" nb "blk c"]
    by (metis nat_le_linear)
  moreover have "unat c mod 64 = unat d mod 64"
    using assms(1) by (metis win_pos_mod)
  ultimately show ?thesis by (metis blk_def div_mult_mod_eq word_unat_eq_iff)
qed

section \<open>Rings of 64-bit blocks\<close>

text \<open>
  \<open>bitmap_at bs r\<close> reads bit \<open>r\<close> of a ring of blocks; \<open>clear_ring\<close> zeroes the
  \<open>n\<close> blocks after block \<open>h\<close>.
\<close>

definition bitmap_at :: "u64 garray \<Rightarrow> nat \<Rightarrow> bool" where
  "bitmap_at bs r = bit (bs (r div 64)) (r mod 64)"

primrec clear_ring :: "nat \<Rightarrow> nat \<Rightarrow> nat \<Rightarrow> u64 garray \<Rightarrow> u64 garray" where
  "clear_ring nb h 0 bs = bs"
| "clear_ring nb h (Suc i) bs = (clear_ring nb h i bs)((h + Suc i) mod nb := 0)"

lemma unat_block: "unat (drop_bit 6 c) = blk c"
  by (simp add: unat_drop_bit blk_def)

lemma blk_bound: "blk c < 2 ^ 58"
proof -
  have "unat c < 2 ^ 64" using unsigned_less [where ?'a = nat and w = c] by simp
  then show ?thesis by (simp add: blk_def)
qed

lemma unat_block_plus: "n \<le> 1000 \<Longrightarrow> unat (drop_bit 6 c + of_nat n) = blk c + n"
  using blk_bound [of c] by (simp add: unat_word_ariths unat_block unat_of_nat)

lemma unat_and_63: "unat ((c :: u64) AND 63) = unat c mod 64"
  using unat_and_mask [of c 6] by (simp add: mask_eq_exp_minus_1)

lemma ring_position:
  "r div 64 = blk c mod nb \<and> r mod 64 = unat c mod 64 \<longleftrightarrow> r = win_pos nb c"
  by (metis div_mult_mod_eq win_pos_div win_pos_mod)

lemma clear_ring_apply:
  "clear_ring nb h n bs j = (if \<exists>b. h < b \<and> b \<le> h + n \<and> b mod nb = j then 0 else bs j)"
proof (induction n)
  case 0
  show ?case by auto
next
  case (Suc n)
  have "(\<exists>b. h < b \<and> b \<le> h + Suc n \<and> b mod nb = j) \<longleftrightarrow>
      j = (h + Suc n) mod nb \<or> (\<exists>b. h < b \<and> b \<le> h + n \<and> b mod nb = j)"
    by (auto simp: le_Suc_eq intro: exI [of _ "Suc (h + n)"])
  then show ?case using Suc by auto
qed

text \<open>Clearing \<open>nb\<close> blocks clears the whole ring, so clamping the distance loses nothing.\<close>

lemma clamp_covers:
  assumes "h \<le> c" and "0 < nb"
  shows "(\<exists>b. h < b \<and> b \<le> h + min (c - h) nb \<and> b mod nb = j) \<longleftrightarrow>
    (\<exists>b. h < b \<and> b \<le> c \<and> b mod nb = (j :: nat))"
proof
  assume "\<exists>b. h < b \<and> b \<le> h + min (c - h) nb \<and> b mod nb = j"
  then show "\<exists>b. h < b \<and> b \<le> c \<and> b mod nb = j" using assms(1) by fastforce
next
  assume "\<exists>b. h < b \<and> b \<le> c \<and> b mod nb = j"
  then obtain b where b: "h < b" "b \<le> c" "b mod nb = j" by blast
  let ?b = "h + 1 + (b - (h + 1)) mod nb"
  have "?b mod nb = (h + 1 + (b - (h + 1))) mod nb" by (rule mod_add_right_eq)
  then have "?b mod nb = j" using b by simp
  moreover have "?b \<le> b" using b(1) mod_less_eq_dividend [of "b - (h + 1)" nb] by linarith
  moreover have "(b - (h + 1)) mod nb < nb" using assms(2) by simp
  ultimately show "\<exists>b. h < b \<and> b \<le> h + min (c - h) nb \<and> b mod nb = j"
    using b(2) by (intro exI [of _ ?b]) linarith
qed

lemma bitmap_at_clear:
  assumes "h \<le> c" and "0 < nb"
  shows "bitmap_at (clear_ring nb h (min (c - h) nb) bs) r \<longleftrightarrow>
    bitmap_at bs r \<and> \<not> (\<exists>b. h < b \<and> b \<le> c \<and> b mod nb = r div 64)"
  using clear_ring_apply [of nb h "min (c - h) nb" bs "r div 64"] clamp_covers [OF assms, of "r div 64"]
  by (auto simp: bitmap_at_def)

lemma bitmap_at_pos: "bitmap_at bs (win_pos nb c) = bit (bs (blk c mod nb)) (unat c mod 64)"
  by (simp add: bitmap_at_def win_pos_div win_pos_mod)

lemma bitmap_at_set:
  "bitmap_at (bs(blk c mod nb := bs (blk c mod nb) OR 2 ^ (unat c mod 64))) r \<longleftrightarrow>
    bitmap_at bs r \<or> r = win_pos nb c"
  using ring_position [of r c nb] by (auto simp: bitmap_at_def bit_or_exp)

lemma bitmap_at_only:
  "bitmap_at ((\<lambda>_. 0)(blk c mod nb := 2 ^ (unat c mod 64))) r \<longleftrightarrow> r = win_pos nb c"
  using ring_position [of r c nb] by (auto simp: bitmap_at_def bit_exp)

text \<open>The distance in blocks that both windows compute, clamped to the ring.\<close>

lemma unat_clamped_distance:
  assumes "h \<le> c" and "unat m = nb"
  shows "unat (if m < drop_bit 6 c - drop_bit 6 h then m else drop_bit 6 c - drop_bit 6 h) =
    min (blk c - blk h) nb"
proof -
  have "unat (drop_bit 6 c - drop_bit 6 h) = blk c - blk h"
    using blk_mono [OF assms(1)] by (simp add: unat_diff word_le_nat_alt unat_block)
  then show ?thesis using assms(2) by (simp add: word_less_nat_alt min_def)
qed

locale sliding_window =
  fixes nb :: nat
    and chk :: "'w \<Rightarrow> u64 \<Rightarrow> bool \<times> 'w"
    and started :: "'w \<Rightarrow> bool"
    and highest :: "'w \<Rightarrow> u64"
    and seen_at :: "'w \<Rightarrow> nat \<Rightarrow> bool"
    and pristine :: "'w \<Rightarrow> bool"
  assumes nb_pos: "0 < nb"
    and pristine_not_started: "pristine w \<Longrightarrow> \<not> started w"
    and chk_first: "pristine w \<Longrightarrow>
      fst (chk w c) \<and> started (snd (chk w c)) \<and> highest (snd (chk w c)) = c \<and>
      (\<forall>r < 64 * nb. seen_at (snd (chk w c)) r \<longleftrightarrow> r = win_pos nb c)"
    and chk_too_old: "started w \<Longrightarrow> c \<le> highest w \<Longrightarrow> 64 * nb \<le> unat (highest w) - unat c \<Longrightarrow>
      chk w c = (False, w)"
    and chk_within: "started w \<Longrightarrow> c \<le> highest w \<Longrightarrow> unat (highest w) - unat c < 64 * nb \<Longrightarrow>
      fst (chk w c) = (\<not> seen_at w (win_pos nb c)) \<and>
      started (snd (chk w c)) \<and> highest (snd (chk w c)) = highest w \<and>
      (\<forall>r < 64 * nb. seen_at (snd (chk w c)) r \<longleftrightarrow> seen_at w r \<or> r = win_pos nb c)"
    and chk_advance: "started w \<Longrightarrow> highest w < c \<Longrightarrow>
      fst (chk w c) = (\<not> seen_at w (win_pos nb c) \<or> blk (highest w) < blk c) \<and>
      started (snd (chk w c)) \<and> highest (snd (chk w c)) = c \<and>
      (\<forall>r < 64 * nb. seen_at (snd (chk w c)) r \<longleftrightarrow>
        seen_at w r \<and> \<not> (\<exists>b. blk (highest w) < b \<and> b \<le> blk c \<and> b mod nb = r div 64) \<or>
        r = win_pos nb c)"
begin

lemma chk_started: "started w \<Longrightarrow> started (snd (chk w c)) \<and> highest w \<le> highest (snd (chk w c))"
  using chk_too_old [of w c] chk_within [of w c] chk_advance [of w c]
  by (cases "c \<le> highest w"; cases "64 * nb \<le> unat (highest w) - unat c") auto

lemma run_started:
  "started w \<Longrightarrow> started (win_run chk w cs) \<and> highest w \<le> highest (win_run chk w cs)"
proof (induction cs arbitrary: w)
  case Nil
  then show ?case by simp
next
  case (Cons x cs)
  then show ?case
    using chk_started [of w x] Cons.IH [of "snd (chk w x)"] by (auto intro: order_trans)
qed

lemma run_pristine: "pristine w \<Longrightarrow> pristine (win_run chk w cs) \<or> started (win_run chk w cs)"
  using chk_first run_started by (cases cs) auto

text \<open>A counter whose position is set stays set while the head is less than a ring ahead of it.\<close>

definition holds :: "u64 \<Rightarrow> 'w \<Rightarrow> bool" where
  "holds c w \<longleftrightarrow> started w \<and> seen_at w (win_pos nb c) \<and> blk c \<le> blk (highest w)"

lemma chk_accepted_holds:
  assumes "pristine w \<or> started w" and "fst (chk w c)"
  shows "holds c (snd (chk w c))"
proof (cases "started w")
  case False
  then show ?thesis
    using assms chk_first [of w c] win_pos_less [OF nb_pos] by (auto simp: holds_def)
next
  case True
  consider "highest w < c" | "c \<le> highest w" "64 * nb \<le> unat (highest w) - unat c"
    | "c \<le> highest w" "unat (highest w) - unat c < 64 * nb" by force
  then show ?thesis
  proof cases
    case 1
    then show ?thesis using chk_advance [OF True 1] win_pos_less [OF nb_pos] by (auto simp: holds_def)
  next
    case 2
    then show ?thesis using chk_too_old [OF True 2] assms(2) by simp
  next
    case 3
    then show ?thesis
      using chk_within [OF True 3] win_pos_less [OF nb_pos] by (auto simp: holds_def blk_mono)
  qed
qed

lemma chk_keeps_holds:
  assumes "holds c w" and "blk (highest (snd (chk w x))) < blk c + nb"
  shows "holds c (snd (chk w x))"
proof -
  from assms(1) have st: "started w" and seen: "seen_at w (win_pos nb c)"
    and le: "blk c \<le> blk (highest w)" by (auto simp: holds_def)
  consider "highest w < x" | "x \<le> highest w" "64 * nb \<le> unat (highest w) - unat x"
    | "x \<le> highest w" "unat (highest w) - unat x < 64 * nb" by force
  then show ?thesis
  proof cases
    case 1
    note adv = chk_advance [OF st 1]
    have "\<not> (blk (highest w) < b \<and> b \<le> blk x \<and> b mod nb = win_pos nb c div 64)" for b
    proof
      assume b: "blk (highest w) < b \<and> b \<le> blk x \<and> b mod nb = win_pos nb c div 64"
      then have "b mod nb = blk c mod nb" and "blk c < b" and "b < blk c + nb"
        using le adv assms(2) by (auto simp: win_pos_div)
      then show False using mod_eq_same_range [of b nb "blk c"] by auto
    qed
    then show ?thesis
      using adv seen win_pos_less [OF nb_pos, of c] order_trans [OF le blk_mono [of "highest w" x]] 1
      by (auto simp: holds_def)
  next
    case 2
    then show ?thesis using chk_too_old [OF st 2] assms(1) by simp
  next
    case 3
    then show ?thesis
      using chk_within [OF st 3] seen le win_pos_less [OF nb_pos, of c] by (auto simp: holds_def)
  qed
qed

lemma run_keeps_holds:
  "holds c w \<Longrightarrow> blk (highest (win_run chk w cs)) < blk c + nb \<Longrightarrow> holds c (win_run chk w cs)"
proof (induction cs arbitrary: w)
  case Nil
  then show ?case by simp
next
  case (Cons x cs)
  have "highest (snd (chk w x)) \<le> highest (win_run chk (snd (chk w x)) cs)"
    using Cons.prems(1) by (intro run_started [THEN conjunct2]) (simp add: holds_def chk_started)
  then have "blk (highest (snd (chk w x))) < blk c + nb"
    using Cons.prems(2) blk_mono by fastforce
  then show ?case using Cons.IH [OF chk_keeps_holds [OF Cons.prems(1)]] Cons.prems(2) by simp
qed

text \<open>
  No counter is accepted twice, as long as the head has not moved a whole ring of blocks
  beyond it.
\<close>

lemma no_second_acceptance:
  assumes "pristine w \<or> started w" and "fst (chk w c)"
    and "blk (highest (win_run chk w (c # cs))) < blk c + nb"
  shows "\<not> fst (chk (win_run chk w (c # cs)) c)"
proof -
  let ?v = "win_run chk w (c # cs)"
  have h: "holds c ?v"
    using run_keeps_holds [OF chk_accepted_holds [OF assms(1,2)]] assms(3) by simp
  then have st: "started ?v" and seen: "seen_at ?v (win_pos nb c)" by (simp_all add: holds_def)
  show ?thesis
  proof (cases "highest ?v < c")
    case True
    then have "\<not> blk (highest ?v) < blk c" using h by (simp add: holds_def)
    then show ?thesis using chk_advance [OF st True] seen by blast
  next
    case False
    then show ?thesis
      using chk_too_old [OF st] chk_within [OF st] seen
      by (cases "64 * nb \<le> unat (highest ?v) - unat c") (auto simp: not_less)
  qed
qed

text \<open>
  The ideal window remembers every counter it was shown. On orderly presentations the
  bitmap gives exactly the verdicts of the ideal window.
\<close>

definition represents :: "'w \<Rightarrow> u64 set \<Rightarrow> bool" where
  "represents w S \<longleftrightarrow> started w \<and> highest w \<in> S \<and> (\<forall>x\<in>S. x \<le> highest w) \<and>
     (\<forall>r < 64 * nb. seen_at w r \<longleftrightarrow> (\<exists>x\<in>S. win_pos nb x = r \<and> blk (highest w) < blk x + nb))"

lemma represents_first: "pristine w \<Longrightarrow> represents (snd (chk w c)) {c}"
  using chk_first [of w c] nb_pos by (auto simp: represents_def)

lemma too_old_far:
  "c \<le> h \<Longrightarrow> 64 * nb \<le> unat h - unat c \<Longrightarrow> blk c + nb \<le> blk h"
proof -
  assume "c \<le> h" and "64 * nb \<le> unat h - unat c"
  then have "unat c + 64 * nb \<le> unat h" by (simp add: word_le_nat_alt)
  then have "(unat c + 64 * nb) div 64 \<le> unat h div 64" by (rule div_le_mono)
  then show ?thesis by (simp add: blk_def)
qed

lemma represents_advance:
  assumes rep: "represents w S" and adv: "highest w < c"
  shows "represents (snd (chk w c)) (insert c S)"
proof -
  let ?cl = "\<lambda>r. \<exists>b. blk (highest w) < b \<and> b \<le> blk c \<and> b mod nb = r div 64"
  from rep have st: "started w" and top: "\<forall>x\<in>S. x \<le> highest w" by (auto simp: represents_def)
  note a = chk_advance [OF st adv]
  have key: "blk (highest w) < blk x + nb \<and> \<not> ?cl (win_pos nb x) \<longleftrightarrow> blk c < blk x + nb"
    if "x \<in> S" for x
  proof -
    have x: "blk x \<le> blk (highest w)" and hc: "blk (highest w) \<le> blk c"
      using that top adv by (auto intro: blk_mono)
    have "?cl (win_pos nb x)" if "blk (highest w) < blk x + nb" "blk x + nb \<le> blk c"
      using that by (intro exI [of _ "blk x + nb"]) (simp add: win_pos_div)
    moreover have "\<not> ?cl (win_pos nb x)" if "blk c < blk x + nb"
    proof
      assume "?cl (win_pos nb x)"
      then obtain b where "blk (highest w) < b" "b \<le> blk c" "b mod nb = blk x mod nb"
        by (auto simp: win_pos_div)
      with x that show False using mod_eq_same_range [of b nb "blk x"] by auto
    qed
    ultimately show ?thesis using hc by (meson le_less_trans not_less)
  qed
  have "seen_at (snd (chk w c)) r \<longleftrightarrow>
      (\<exists>x\<in>insert c S. win_pos nb x = r \<and> blk c < blk x + nb)" if "r < 64 * nb" for r
  proof -
    have "seen_at (snd (chk w c)) r \<longleftrightarrow>
        (\<exists>x\<in>S. win_pos nb x = r \<and> blk (highest w) < blk x + nb) \<and> \<not> ?cl r \<or> r = win_pos nb c"
      using a rep that by (auto simp: represents_def)
    also have "\<dots> \<longleftrightarrow> (\<exists>x\<in>S. win_pos nb x = r \<and> blk c < blk x + nb) \<or> r = win_pos nb c"
      using key by blast
    finally show ?thesis using nb_pos by auto
  qed
  then show ?thesis using a top adv by (auto simp: represents_def)
qed

lemma represents_step:
  assumes rep: "represents w S" and ord: "orderly_arrival nb (highest w) c"
  shows "represents (snd (chk w c)) (insert c S)"
    and "fst (chk w c) \<longleftrightarrow> c \<notin> S \<and> unat (highest w) < unat c + 64 * nb"
proof -
  from rep have st: "started w" and top: "\<forall>x\<in>S. x \<le> highest w"
    and seen: "\<And>r. r < 64 * nb \<Longrightarrow>
      seen_at w r \<longleftrightarrow> (\<exists>x\<in>S. win_pos nb x = r \<and> blk (highest w) < blk x + nb)"
    by (auto simp: represents_def)
  have same: "(\<exists>x\<in>S. win_pos nb x = win_pos nb c \<and> blk (highest w) < blk x + nb) \<longleftrightarrow> c \<in> S"
    if "blk (highest w) < blk c + nb" "blk c \<le> blk (highest w)"
    using that top win_pos_inj [of nb _ c] blk_mono by (metis le_less_trans)
  have "represents (snd (chk w c)) (insert c S) \<and>
      (fst (chk w c) \<longleftrightarrow> c \<notin> S \<and> unat (highest w) < unat c + 64 * nb)"
  proof (cases "highest w < c")
    case True
    then have "c \<notin> S" and lt: "unat (highest w) < unat c"
      using top by (force, simp add: word_less_nat_alt)
    moreover have "fst (chk w c)"
    proof (cases "blk (highest w) < blk c")
      case True
      then show ?thesis using chk_advance [OF st \<open>highest w < c\<close>] by simp
    next
      case False
      then have "blk (highest w) = blk c" using True blk_mono [of "highest w" c] by auto
      then show ?thesis
        using chk_advance [OF st True] seen [OF win_pos_less [OF nb_pos]] same \<open>c \<notin> S\<close> nb_pos by auto
    qed
    ultimately show ?thesis using represents_advance [OF rep True] by simp
  next
    case False
    then have le: "c \<le> highest w" by simp
    show ?thesis
    proof (cases "64 * nb \<le> unat (highest w) - unat c")
      case True
      then show ?thesis
        using chk_too_old [OF st le True] rep le too_old_far [OF le True]
        by (auto simp: represents_def word_le_nat_alt)
    next
      case False
      then have near: "blk (highest w) < blk c + nb" using ord le by (auto simp: orderly_arrival_def)
      show ?thesis
        using chk_within [OF st le] False near rep le seen [OF win_pos_less [OF nb_pos]]
          same [OF near blk_mono [OF le]]
        by (auto simp: represents_def)
    qed
  qed
  then show "represents (snd (chk w c)) (insert c S)"
    and "fst (chk w c) \<longleftrightarrow> c \<notin> S \<and> unat (highest w) < unat c + 64 * nb" by blast+
qed

lemma orderly_run_represents:
  "represents w S \<Longrightarrow> orderly_run nb highest chk w cs \<Longrightarrow> represents (win_run chk w cs) (S \<union> set cs)"
proof (induction cs arbitrary: w S)
  case Nil
  then show ?case by simp
next
  case (Cons c cs)
  then show ?case using Cons.IH [OF represents_step(1)] by simp
qed

lemma orderly_run_append:
  "orderly_run nb highest chk w (xs @ ys) \<longleftrightarrow>
    orderly_run nb highest chk w xs \<and> orderly_run nb highest chk (win_run chk w xs) ys"
  by (induction xs arbitrary: w) auto

text \<open>
  From the empty window, the verdict on the last counter of an orderly history: accepted
  exactly when it is new and no earlier counter is a whole window ahead of it.
\<close>

lemma ideal_verdict:
  assumes "pristine w" and "orderly_run nb highest chk w (cs @ [c])"
  shows "fst (chk (win_run chk w cs) c) \<longleftrightarrow>
    c \<notin> set cs \<and> (\<forall>x\<in>set cs. unat x < unat c + 64 * nb)"
proof (cases cs)
  case Nil
  then show ?thesis using chk_first [OF assms(1)] by simp
next
  case (Cons x xs)
  have "represents (win_run chk w cs) (set cs)"
    using orderly_run_represents [OF represents_first [OF assms(1), of x], of xs] assms(2) Cons
    by (simp add: orderly_run_append)
  then have "fst (chk (win_run chk w cs) c) \<longleftrightarrow>
      c \<notin> set cs \<and> unat (highest (win_run chk w cs)) < unat c + 64 * nb"
    and "highest (win_run chk w cs) \<in> set cs" and "\<forall>x\<in>set cs. x \<le> highest (win_run chk w cs)"
    using represents_step(2) assms(2) by (auto simp: orderly_run_append represents_def)
  then show ?thesis by (auto simp: word_le_nat_alt intro: le_less_trans)
qed

lemma near_blocks: "unat h \<le> unat c + 64 * (nb - 1) \<Longrightarrow> blk h < blk c + nb"
proof -
  assume "unat h \<le> unat c + 64 * (nb - 1)"
  then have "unat h div 64 \<le> (unat c + 64 * (nb - 1)) div 64" by (rule div_le_mono)
  then show ?thesis using nb_pos by (simp add: blk_def)
qed

text \<open>Counters that stay within all but one block of each other are orderly, so each new one is accepted.\<close>

lemma chk_highest: "started w \<Longrightarrow> highest (snd (chk w c)) = c \<or> highest (snd (chk w c)) = highest w"
  using chk_too_old [of w c] chk_within [of w c] chk_advance [of w c]
  by (cases "c \<le> highest w"; cases "64 * nb \<le> unat (highest w) - unat c") auto

lemma near_orderly:
  assumes "started w" "\<forall>x\<in>set (cs @ [highest w]). lo \<le> unat x \<and> unat x \<le> lo + 64 * (nb - 1)"
  shows "orderly_run nb highest chk w cs"
  using assms
proof (induction cs arbitrary: w)
  case (Cons c cs)
  have "blk (highest w) < blk c + nb" using Cons.prems(2) by (intro near_blocks) auto
  moreover have "orderly_run nb highest chk (snd (chk w c)) cs"
    using Cons.IH chk_started [OF Cons.prems(1)] chk_highest [OF Cons.prems(1), of c] Cons.prems(2) by auto
  ultimately show ?case by (simp add: orderly_arrival_def)
qed simp

lemma accepts_near:
  assumes "pristine w" "c \<notin> set cs" "\<forall>x\<in>set (c # cs). lo \<le> unat x \<and> unat x \<le> lo + 64 * (nb - 1)"
  shows "fst (chk (win_run chk w cs) c)"
proof (cases cs)
  case Nil
  then show ?thesis using chk_first [OF assms(1)] by simp
next
  case (Cons x xs)
  let ?w = "snd (chk w x)"
  have st: "started ?w" "highest ?w = x" using chk_first [OF assms(1)] by simp_all
  have ord: "orderly_run nb highest chk ?w (xs @ [c])" using near_orderly [OF st(1), of "xs @ [c]" lo] assms(3) st(2) Cons by auto
  have rep: "represents (win_run chk w cs) (set cs)"
    using orderly_run_represents [OF represents_first [OF assms(1), of x], of xs] ord Cons by (simp add: orderly_run_append)
  have "highest (win_run chk w cs) \<in> set cs" using rep by (simp add: represents_def)
  then have "unat (highest (win_run chk w cs)) \<le> lo + 64 * (nb - 1)" "lo \<le> unat c" using assms(3) by auto
  then have "unat (highest (win_run chk w cs)) < unat c + 64 * nb" using nb_pos by (cases nb) auto
  then show ?thesis using represents_step(2) [OF rep] ord assms(2) Cons by (simp add: orderly_run_append)
qed

end

end
