(* ===== verification/Fec_Decoder.thy ===== *)
theory Fec_Decoder
  imports Fec Sliding_Window "HOL-Library.AList"
begin

text \<open>
  The receiving half of forward error correction, \<open>internal/fec/decoder.go\<close>: the ring of
  recent data packets, the table of parity groups and the reconstruction.

  The Go map of groups is an association list with distinct keys; the order in which Go
  iterates over it is a parameter \<open>ord\<close> of \<open>AddData\<close>, any enumeration of the keys. A
  group is updated through its pointer in the map, which is an update of the list. The
  scratch buffers hold padded copies of data shards during one call and are not state. An
  index out of the parity table is a panic, \<open>None\<close>; the parser of FEC headers excludes it.
\<close>

definition fecRingSize :: nat where [simp]: "fecRingSize = 256"
definition maxGroups :: nat where [simp]: "maxGroups = 64"

record Recovered =
  rv_Seq :: u64
  rv_Pkt :: bytes

record DecoderStats =
  ds_Recovered :: u64
  ds_Failed :: u64

record ringSlot =
  rg_used :: bool
  rg_seq :: u64
  rg_n :: nat
  rg_buf :: bytes

definition ringSlot_zero :: ringSlot where
  "ringSlot_zero = \<lparr>rg_used = False, rg_seq = 0, rg_n = 0, rg_buf = []\<rparr>"

record rxGroup =
  g_base :: u64
  g_k :: nat
  g_r :: nat
  g_shardSize :: nat
  g_parity :: "bytes option list"
  g_got :: nat
  g_done :: bool

record Decoder =
  d_ring :: "ringSlot garray"
  d_highest :: u64
  d_started :: bool
  d_groups :: "(u64 \<times> rxGroup) list"
  d_stats :: DecoderStats

definition NewDecoder :: Decoder where
  "NewDecoder = \<lparr>d_ring = (\<lambda>_. ringSlot_zero), d_highest = 0, d_started = False, d_groups = [],
     d_stats = \<lparr>ds_Recovered = 0, ds_Failed = 0\<rparr>\<rparr>"

definition ring_pos :: "u64 \<Rightarrow> nat" where
  "ring_pos seq = unat (seq mod 256)"

text \<open>\<open>s.used && s.seq == seq\<close> for the slot of \<open>seq\<close>.\<close>

definition has_data :: "Decoder \<Rightarrow> u64 \<Rightarrow> bool" where
  "has_data d seq = (let s = d_ring d (ring_pos seq) in rg_used s \<and> rg_seq s = seq)"

definition delete_group :: "u64 \<Rightarrow> Decoder \<Rightarrow> Decoder" where
  "delete_group base d = d\<lparr>d_groups := AList.delete base (d_groups d)\<rparr>"

definition count_failed :: "Decoder \<Rightarrow> Decoder" where
  "count_failed d = d\<lparr>d_stats := (d_stats d)\<lparr>ds_Failed := ds_Failed (d_stats d) + 1\<rparr>\<rparr>"

section \<open>Reconstruction\<close>

definition group_seqs :: "rxGroup \<Rightarrow> u64 list" where
  "group_seqs g = map (\<lambda>i. g_base g + of_nat i) [0..<g_k g]"

definition work_shard :: "Decoder \<Rightarrow> rxGroup \<Rightarrow> u64 \<Rightarrow> bytes option" where
  "work_shard d g seq =
    (if has_data d seq
     then let s = d_ring d (ring_pos seq) in Some (pad (g_shardSize g) (take (rg_n s) (rg_buf s)))
     else None)"

definition oversized :: "Decoder \<Rightarrow> rxGroup \<Rightarrow> bool" where
  "oversized d g \<longleftrightarrow> (\<exists>seq\<in>set (group_seqs g). has_data d seq \<and> g_shardSize g < rg_n (d_ring d (ring_pos seq)))"

text \<open>The final loop: every missing shard whose IP header can be read becomes a packet.\<close>

definition collect :: "Decoder \<Rightarrow> rxGroup \<Rightarrow> bytes option list \<Rightarrow> Recovered list" where
  "collect d g work = concat (map (\<lambda>i.
     let seq = g_base g + of_nat i
     in if has_data d seq then []
        else case work ! i of
               None \<Rightarrow> []
             | Some w \<Rightarrow> (case InnerIPLen w of
                 None \<Rightarrow> []
               | Some n \<Rightarrow> [\<lparr>rv_Seq = seq, rv_Pkt = take n w\<rparr>])) [0..<g_k g])"

definition tryReconstructLocked :: "RSLib \<Rightarrow> rxGroup \<Rightarrow> Decoder \<Rightarrow> Recovered list \<times> Decoder" where
  "tryReconstructLocked rs g d =
    (let present = length (filter (has_data d) (group_seqs g));
         missing = g_k g - present
     in if missing = 0 then ([], delete_group (g_base g) d)
        else if g_got g < missing then ([], d)
        else if \<not> rs_New rs (g_k g) (g_r g) then ([], d)
        else if oversized d g then ([], d)
        else case rs_Reconstruct rs (g_k g) (g_r g) (map (work_shard d g) (group_seqs g) @ g_parity g) of
               None \<Rightarrow> ([], d)
             | Some work \<Rightarrow>
                 let out = collect d g work;
                     d = d\<lparr>d_stats := (d_stats d)\<lparr>ds_Recovered := ds_Recovered (d_stats d) + of_nat (length out)\<rparr>\<rparr>
                 in (out, delete_group (g_base g) d))"

section \<open>Table maintenance\<close>

definition pruneLocked :: "Decoder \<Rightarrow> Decoder" where
  "pruneLocked d =
    (if d_highest d < 256 then d
     else let floor = d_highest d - 256 + of_nat MaxFECShards;
              stale = filter (\<lambda>(base, g). base < floor) (d_groups d)
          in d\<lparr>d_groups := filter (\<lambda>(base, g). \<not> base < floor) (d_groups d),
               d_stats := (d_stats d)\<lparr>ds_Failed := ds_Failed (d_stats d) +
                  of_nat (length (filter (\<lambda>(base, g). \<not> g_done g) stale))\<rparr>\<rparr>)"

definition evictOldestLocked :: "Decoder \<Rightarrow> Decoder" where
  "evictOldestLocked d =
    (case scan_min (\<lambda>_. True) fst (d_groups d) of
       None \<Rightarrow> d
     | Some (oldest, g) \<Rightarrow> delete_group oldest (if g_done g then d else count_failed d))"

section \<open>Operations\<close>

definition store_data :: "u64 \<Rightarrow> bytes \<Rightarrow> Decoder \<Rightarrow> Decoder" where
  "store_data seq pkt d =
    (let s = d_ring d (ring_pos seq);
         buf = (if rg_buf s = [] then replicate shardCap 0 else rg_buf s)
     in d\<lparr>d_ring := (d_ring d)(ring_pos seq :=
            \<lparr>rg_used = True, rg_seq = seq, rg_n = length pkt, rg_buf = blit 0 pkt buf\<rparr>)\<rparr>)"

definition covers :: "Decoder \<Rightarrow> u64 \<Rightarrow> u64 \<Rightarrow> bool" where
  "covers d seq base =
    (case map_of (d_groups d) base of
       None \<Rightarrow> False
     | Some g \<Rightarrow> \<not> (g_done g \<or> seq < base \<or> base + of_nat (g_k g) \<le> seq))"

definition AddData :: "RSLib \<Rightarrow> u64 list \<Rightarrow> u64 \<Rightarrow> bytes \<Rightarrow> Decoder \<Rightarrow> Recovered list \<times> Decoder" where
  "AddData rs ord seq ipPkt d =
    (if shardCap < length ipPkt then ([], d)
     else
       let d = store_data seq ipPkt d;
           d = (if \<not> d_started d \<or> d_highest d < seq then d\<lparr>d_highest := seq, d_started := True\<rparr> else d);
           d = pruneLocked d
       in case find (covers d seq) ord of
            None \<Rightarrow> ([], d)
          | Some base \<Rightarrow> tryReconstructLocked rs (the (map_of (d_groups d) base)) d)"

text \<open>The group of a header, created when the table does not have it.\<close>

definition lookup_group :: "FECHeader \<Rightarrow> bytes \<Rightarrow> Decoder \<Rightarrow> rxGroup \<times> Decoder" where
  "lookup_group h shard d =
    (case map_of (d_groups d) (fh_BaseSeq h) of
       Some g \<Rightarrow> (g, d)
     | None \<Rightarrow>
         let d = (if maxGroups \<le> length (d_groups d) then evictOldestLocked d else d);
             g = \<lparr>g_base = fh_BaseSeq h, g_k = unat (fh_K h), g_r = unat (fh_R h), g_shardSize = length shard,
                  g_parity = replicate (unat (fh_R h)) None, g_got = 0, g_done = False\<rparr>
         in (g, d\<lparr>d_groups := AList.update (fh_BaseSeq h) g (d_groups d)\<rparr>))"

definition ingest_parity ::
    "RSLib \<Rightarrow> FECHeader \<Rightarrow> bytes \<Rightarrow> rxGroup \<Rightarrow> Decoder \<Rightarrow> (Recovered list \<times> Decoder) option" where
  "ingest_parity rs h shard g d =
    (if g_done g \<or> unat (fh_K h) \<noteq> g_k g \<or> unat (fh_R h) \<noteq> g_r g \<or> length shard \<noteq> g_shardSize g
     then Some ([], d)
     else
       let ix = unat (fh_Index h)
       in if length (g_parity g) \<le> ix then None
          else
            let g = (if g_parity g ! ix = None
                     then g\<lparr>g_parity := (g_parity g)[ix := Some shard], g_got := g_got g + 1\<rparr> else g);
                d = d\<lparr>d_groups := AList.update (fh_BaseSeq h) g (d_groups d)\<rparr>
            in Some (tryReconstructLocked rs g d))"

definition AddParity :: "RSLib \<Rightarrow> FECHeader \<Rightarrow> bytes \<Rightarrow> Decoder \<Rightarrow> (Recovered list \<times> Decoder) option" where
  "AddParity rs h shard d =
    (if shardCap < length shard then Some ([], d)
     else case lookup_group h shard d of (g, d) \<Rightarrow> ingest_parity rs h shard g d)"

section \<open>What the code relies on\<close>

text \<open>
  \<open>rs_recovers rs k r\<close>: the code is maximum distance separable. From the shards of an encoded
  group of which at most \<open>r\<close> are missing, \<open>ReconstructData\<close> succeeds and gives every data
  shard.
\<close>

definition rs_recovers :: "RSLib \<Rightarrow> nat \<Rightarrow> nat \<Rightarrow> bool" where
  "rs_recovers rs k r \<longleftrightarrow> rs_New rs k r \<and>
    (\<forall>n data ps work. 0 < n \<longrightarrow> length data = k \<longrightarrow> same_size n data \<longrightarrow> rs_Encode rs k r data = Some ps \<longrightarrow>
      length work = k + r \<longrightarrow> (\<forall>i < k + r. work ! i = None \<or> work ! i = Some ((data @ ps) ! i)) \<longrightarrow>
      length (filter (\<lambda>w. w = None) work) \<le> r \<longrightarrow>
      (\<exists>out. rs_Reconstruct rs k r work = Some out \<and> (\<forall>i < k. out ! i = Some (data ! i))))"

section \<open>Reconstruction of a group\<close>

text \<open>
  \<open>group_state\<close>: the ring and a group of the table hold part of an encoded group: the data
  packets \<open>pkts\<close> from \<open>base\<close> on and their parity \<open>ps\<close>.
\<close>

definition ring_holds :: "Decoder \<Rightarrow> u64 \<Rightarrow> bytes list \<Rightarrow> bool" where
  "ring_holds d base pkts \<longleftrightarrow> (\<forall>i < length pkts. has_data d (base + of_nat i) \<longrightarrow>
     (let s = d_ring d (ring_pos (base + of_nat i))
      in rg_n s = length (pkts ! i) \<and> take (length (pkts ! i)) (rg_buf s) = pkts ! i))"

definition group_holds :: "rxGroup \<Rightarrow> u64 \<Rightarrow> nat \<Rightarrow> nat \<Rightarrow> bytes list \<Rightarrow> bool" where
  "group_holds g base k sz ps \<longleftrightarrow> g_base g = base \<and> g_k g = k \<and> g_r g = length ps \<and> g_shardSize g = sz \<and>
    length (g_parity g) = length ps \<and> (\<forall>i < length ps. g_parity g ! i = None \<or> g_parity g ! i = Some (ps ! i)) \<and>
    g_got g = length (filter (\<lambda>w. w \<noteq> None) (g_parity g)) \<and> \<not> g_done g"

definition missing_ixs :: "Decoder \<Rightarrow> u64 \<Rightarrow> nat \<Rightarrow> nat list" where
  "missing_ixs d base k = filter (\<lambda>i. \<not> has_data d (base + of_nat i)) [0..<k]"

lemma filter_partition_length: "length (filter P xs) + length (filter (\<lambda>x. \<not> P x) xs) = length xs"
  by (induction xs) auto

lemma missing_count:
  "g_k g - length (filter (has_data d) (group_seqs g)) = length (missing_ixs d (g_base g) (g_k g))"
proof -
  have "length (filter (has_data d) (group_seqs g)) =
      length (filter (\<lambda>i. has_data d (g_base g + of_nat i)) [0..<g_k g])"
    by (simp add: group_seqs_def filter_map comp_def)
  then show ?thesis
    using filter_partition_length [of "\<lambda>i. has_data d (g_base g + of_nat i)" "[0..<g_k g]"]
    by (simp add: missing_ixs_def)
qed

lemma concat_if_singleton:
  "concat (map (\<lambda>i. if P i then [] else [f i]) xs) = map f (filter (\<lambda>i. \<not> P i) xs)"
  by (induction xs) auto

lemma tryReconstruct_recovers:
  assumes rs: "rs_recovers rs (length pkts) (length ps)"
    and enc: "rs_Encode rs (length pkts) (length ps) (map (pad sz) pkts) = Some ps"
    and sz: "0 < sz" "\<forall>p\<in>set pkts. length p \<le> sz \<and> InnerIPLen p = Some (length p)"
    and ring: "ring_holds d base pkts" and g: "group_holds g base (length pkts) sz ps"
    and miss: "missing_ixs d base (length pkts) \<noteq> []"
      "length (missing_ixs d base (length pkts)) \<le> g_got g"
  shows "fst (tryReconstructLocked rs g d) =
    map (\<lambda>i. \<lparr>rv_Seq = base + of_nat i, rv_Pkt = pkts ! i\<rparr>) (missing_ixs d base (length pkts))"
proof -
  let ?k = "length pkts" and ?r = "length ps" and ?data = "map (pad sz) pkts"
  let ?work = "map (work_shard d g) (group_seqs g) @ g_parity g"
  have gf: "g_base g = base" "g_k g = ?k" "g_r g = ?r" "g_shardSize g = sz" "length (g_parity g) = ?r"
    using g by (simp_all add: group_holds_def)
  have shard: "work_shard d g (base + of_nat i) =
      (if has_data d (base + of_nat i) then Some (?data ! i) else None)" if "i < ?k" for i
    using ring that gf by (simp add: ring_holds_def work_shard_def Let_def)
  have seqs: "map (work_shard d g) (group_seqs g) = map (\<lambda>i. work_shard d g (base + of_nat i)) [0..<?k]"
    by (simp add: group_seqs_def gf)
  have len: "length ?work = ?k + ?r" by (simp add: seqs gf)
  have ok: "\<forall>i < ?k + ?r. ?work ! i = None \<or> ?work ! i = Some ((?data @ ps) ! i)"
    using g shard by (auto simp: seqs nth_append group_holds_def)
  have "length (filter (\<lambda>w. w = None) (map (work_shard d g) (group_seqs g))) = length (missing_ixs d base ?k)"
  proof -
    have "filter (\<lambda>i. work_shard d g (base + of_nat i) = None) [0..<?k] = missing_ixs d base ?k"
      unfolding missing_ixs_def by (rule filter_cong) (simp_all add: shard)
    then show ?thesis by (simp add: seqs filter_map comp_def)
  qed
  moreover have "length (filter (\<lambda>w. w = None) (g_parity g)) + g_got g = ?r"
    using filter_partition_length [of "\<lambda>w. w = None" "g_parity g"] g by (simp add: group_holds_def)
  ultimately have few: "length (filter (\<lambda>w. w = None) ?work) \<le> ?r" using miss(2) by simp
  have data: "length ?data = ?k" "same_size sz ?data"
    using sz(2) by (auto simp: same_size_def length_pad)
  obtain out where out: "rs_Reconstruct rs ?k ?r ?work = Some out" "\<forall>i < ?k. out ! i = Some (?data ! i)"
    using rs sz(1) data enc len ok few unfolding rs_recovers_def by blast
  have small: "\<not> oversized d g"
  proof
    assume "oversized d g"
    then obtain i where "i < ?k" "has_data d (base + of_nat i)"
      "sz < rg_n (d_ring d (ring_pos (base + of_nat i)))"
      by (auto simp: oversized_def group_seqs_def gf)
    then have "i < ?k" "sz < length (pkts ! i)" using ring by (simp_all add: ring_holds_def Let_def)
    then show False using sz(2) by (metis nth_mem not_le)
  qed
  have "collect d g out = concat (map (\<lambda>i. if has_data d (base + of_nat i) then []
      else [\<lparr>rv_Seq = base + of_nat i, rv_Pkt = pkts ! i\<rparr>]) [0..<?k])"
    unfolding collect_def gf
  proof (intro arg_cong [where f = concat] map_cong refl)
    fix i assume "i \<in> set [0..<?k]"
    then have i: "i < ?k" by simp
    have "InnerIPLen (pad sz (pkts ! i)) = Some (length (pkts ! i))"
      using sz(2) i InnerIPLen_append [of "pkts ! i"] by (simp add: pad_def)
    then show "(let seq = base + of_nat i in if has_data d seq then []
        else case out ! i of None \<Rightarrow> [] | Some w \<Rightarrow> (case InnerIPLen w of None \<Rightarrow> []
          | Some n \<Rightarrow> [\<lparr>rv_Seq = seq, rv_Pkt = take n w\<rparr>])) =
        (if has_data d (base + of_nat i) then [] else [\<lparr>rv_Seq = base + of_nat i, rv_Pkt = pkts ! i\<rparr>])"
      using out(2) i by (simp add: pad_def)
  qed
  then have col: "collect d g out =
      map (\<lambda>i. \<lparr>rv_Seq = base + of_nat i, rv_Pkt = pkts ! i\<rparr>) (missing_ixs d base ?k)"
    by (simp add: concat_if_singleton missing_ixs_def)
  have "rs_New rs ?k ?r" using rs by (simp add: rs_recovers_def)
  moreover have "?k - length (filter (has_data d) (group_seqs g)) = length (missing_ixs d base ?k)"
    using missing_count [of g d] by (simp add: gf)
  moreover have "length (missing_ixs d base ?k) \<noteq> 0" using miss(1) by simp
  ultimately show ?thesis
    using miss(2) small out(1) col unfolding tryReconstructLocked_def Let_def gf by simp
qed

section \<open>Receiving a group\<close>

text \<open>Data packets of a group arrive while no parity is known: only the ring changes.\<close>

lemma ring_pos_mod: "ring_pos seq = unat seq mod 256"
  by (simp add: ring_pos_def unat_mod)

lemma ring_pos_group:
  assumes "i < 256" "j < 256" "ring_pos (base + of_nat i) = ring_pos (base + of_nat j)"
  shows "i = j"
proof -
  have "unat (base + of_nat n :: u64) mod 256 = (unat base + n) mod 256" if "n < 256" for n
    using that by (simp add: unat_word_ariths unat_of_nat mod_mod_cancel)
  then have "(unat base + i) mod 256 = (unat base + j) mod 256"
    using assms by (simp add: ring_pos_mod)
  then show ?thesis
    using assms(1,2) mod_eq_same_range [of "unat base + i" 256 "unat base + j"]
      mod_eq_same_range [of "unat base + j" 256 "unat base + i"]
    by (cases "i \<le> j") auto
qed

definition ring_sized :: "Decoder \<Rightarrow> bool" where
  "ring_sized d \<longleftrightarrow> (\<forall>i. rg_buf (d_ring d i) = [] \<or> length (rg_buf (d_ring d i)) = shardCap)"

lemma store_data_slot:
  assumes "ring_sized d" "length p \<le> shardCap"
  shows "ring_sized (store_data seq p d)"
    and "rg_n (d_ring (store_data seq p d) (ring_pos seq)) = length p"
    and "take (length p) (rg_buf (d_ring (store_data seq p d) (ring_pos seq))) = p"
    and "has_data (store_data seq p d) s \<longleftrightarrow> s = seq \<or> has_data d s \<and> ring_pos s \<noteq> ring_pos seq"
    and "i \<noteq> ring_pos seq \<Longrightarrow> d_ring (store_data seq p d) i = d_ring d i"
  using assms by (auto simp: store_data_def Let_def has_data_def blit_def ring_sized_def)

lemma AddData_no_groups:
  assumes "d_groups d = []" "length p \<le> shardCap"
  shows "fst (AddData rs ord seq p d) = [] \<and> d_groups (snd (AddData rs ord seq p d)) = [] \<and>
    d_ring (snd (AddData rs ord seq p d)) = d_ring (store_data seq p d)"
proof -
  have cov: "covers d' seq = (\<lambda>_. False)" if "d_groups d' = []" for d'
    using that by (auto simp: covers_def)
  have find: "find (\<lambda>_. False) ord = None" by (simp add: find_None_iff)
  show ?thesis
    using assms by (simp add: AddData_def Let_def store_data_def pruneLocked_def cov find)
qed

definition recv_data :: "RSLib \<Rightarrow> u64 \<Rightarrow> bytes list \<Rightarrow> nat list \<Rightarrow> Decoder \<Rightarrow> Decoder" where
  "recv_data rs base pkts js d =
    fold (\<lambda>i d. snd (AddData rs (map fst (d_groups d)) (base + of_nat i) (pkts ! i) d)) js d"

lemma has_data_cong: "d_ring d' = d_ring d \<Longrightarrow> has_data d' s = has_data d s"
  by (simp add: has_data_def)

lemma recv_data_step:
  fixes rs :: RSLib and ord :: "u64 list"
  assumes "d_groups d = []" "ring_sized d" "ring_holds d base pkts" "i < length pkts" "length pkts \<le> 256"
    "length (pkts ! i) \<le> shardCap"
  defines "d' \<equiv> snd (AddData rs ord (base + of_nat i) (pkts ! i) d)"
  shows "d_groups d' = []" "ring_sized d'" "ring_holds d' base pkts"
    and "\<forall>j < length pkts. has_data d' (base + of_nat j) \<longleftrightarrow> j = i \<or> has_data d (base + of_nat j)"
proof -
  let ?s = "store_data (base + of_nat i) (pkts ! i) d"
  note st = store_data_slot [OF assms(2,6), where seq = "base + of_nat i"]
  have ring: "d_ring d' = d_ring ?s" and "d_groups d' = []"
    using AddData_no_groups [OF assms(1,6)] by (simp_all add: d'_def)
  then show "d_groups d' = []" by simp
  show "ring_sized d'" using st(1) by (simp add: ring_sized_def ring)
  have has: "has_data d' (base + of_nat j) \<longleftrightarrow> j = i \<or> has_data d (base + of_nat j)" if "j < length pkts" for j
    using st(4) [of "base + of_nat j"] ring_pos_group [of j i base] that assms(4,5)
    by (auto simp: has_data_cong [OF ring])
  then show "\<forall>j < length pkts. has_data d' (base + of_nat j) \<longleftrightarrow> j = i \<or> has_data d (base + of_nat j)" by blast
  show "ring_holds d' base pkts"
    unfolding ring_holds_def Let_def ring
  proof (intro allI impI)
    fix j assume j: "j < length pkts" "has_data d' (base + of_nat j)"
    show "rg_n (d_ring ?s (ring_pos (base + of_nat j))) = length (pkts ! j) \<and>
        take (length (pkts ! j)) (rg_buf (d_ring ?s (ring_pos (base + of_nat j)))) = pkts ! j"
    proof (cases "j = i")
      case True
      then show ?thesis using st(2,3) by simp
    next
      case False
      then have "ring_pos (base + of_nat j) \<noteq> ring_pos (base + of_nat i)"
        using ring_pos_group [of j i base] j(1) assms(4,5) by auto
      moreover have "has_data d (base + of_nat j)" using has [OF j(1)] j(2) False by blast
      ultimately show ?thesis using st(5) assms(3) j(1) by (simp add: ring_holds_def Let_def)
    qed
  qed
qed

lemma recv_data_ok:
  assumes "d_groups d = []" "ring_sized d" "ring_holds d base pkts" "length pkts \<le> 256"
    "set js \<subseteq> {..<length pkts}" "\<forall>p\<in>set pkts. length p \<le> shardCap"
  shows "d_groups (recv_data rs base pkts js d) = [] \<and> ring_sized (recv_data rs base pkts js d) \<and>
    ring_holds (recv_data rs base pkts js d) base pkts \<and>
    (\<forall>j < length pkts. has_data (recv_data rs base pkts js d) (base + of_nat j) \<longleftrightarrow>
      j \<in> set js \<or> has_data d (base + of_nat j))"
  using assms
proof (induction js arbitrary: d)
  case Nil
  then show ?case by (simp add: recv_data_def)
next
  case (Cons i js)
  have i: "i < length pkts" "length (pkts ! i) \<le> shardCap" using Cons.prems(5,6) by simp_all
  note st = recv_data_step [OF Cons.prems(1-3) i(1) Cons.prems(4) i(2), where rs = rs and ord = "map fst (d_groups d)"]
  let ?d' = "snd (AddData rs (map fst (d_groups d)) (base + of_nat i) (pkts ! i) d)"
  have "recv_data rs base pkts (i # js) d = recv_data rs base pkts js ?d'" by (simp add: recv_data_def)
  then show ?case using Cons.IH [OF st(1-3) Cons.prems(4)] st(4) Cons.prems(5,6) by auto
qed

lemma NewDecoder_ok:
  "d_groups NewDecoder = []" "ring_sized NewDecoder" "ring_holds NewDecoder base pkts" "\<not> has_data NewDecoder s"
  by (simp_all add: NewDecoder_def ring_sized_def ring_holds_def has_data_def ringSlot_zero_def)

text \<open>Parity shards of a group arrive one by one.\<close>

definition parity_header :: "u64 \<Rightarrow> nat \<Rightarrow> nat \<Rightarrow> nat \<Rightarrow> FECHeader" where
  "parity_header base k r i = \<lparr>fh_BaseSeq = base, fh_K = of_nat k, fh_R = of_nat r, fh_Index = of_nat i\<rparr>"

definition table_holds :: "Decoder \<Rightarrow> u64 \<Rightarrow> nat \<Rightarrow> nat \<Rightarrow> bytes list \<Rightarrow> nat set \<Rightarrow> bool" where
  "table_holds d base k sz ps Q \<longleftrightarrow> d_groups d = [] \<and> Q = {} \<or>
    (\<exists>g. d_groups d = [(base, g)] \<and> group_holds g base k sz ps \<and>
      (\<forall>i < length ps. g_parity g ! i \<noteq> None \<longleftrightarrow> i \<in> Q))"

definition fresh_group :: "u64 \<Rightarrow> nat \<Rightarrow> nat \<Rightarrow> nat \<Rightarrow> rxGroup" where
  "fresh_group base k r sz = \<lparr>g_base = base, g_k = k, g_r = r, g_shardSize = sz,
     g_parity = replicate r None, g_got = 0, g_done = False\<rparr>"

definition put_parity :: "nat \<Rightarrow> bytes \<Rightarrow> rxGroup \<Rightarrow> rxGroup" where
  "put_parity i p g = g\<lparr>g_parity := (g_parity g)[i := Some p], g_got := g_got g + 1\<rparr>"

lemma got_card:
  assumes "group_holds g base k sz ps" "\<forall>i < length ps. g_parity g ! i \<noteq> None \<longleftrightarrow> i \<in> Q" "Q \<subseteq> {..<length ps}"
  shows "g_got g = card Q"
proof -
  have "{i. i < length (g_parity g) \<and> g_parity g ! i \<noteq> None} = Q"
    using assms by (auto simp: group_holds_def)
  then show ?thesis using assms(1) by (simp add: group_holds_def length_filter_conv_card)
qed

lemma put_parity_holds:
  assumes g: "group_holds g base k sz ps" "\<forall>i < length ps. g_parity g ! i \<noteq> None \<longleftrightarrow> i \<in> Q"
    and q: "q < length ps" "q \<notin> Q" "Q \<subseteq> {..<length ps}"
  shows "group_holds (put_parity q (ps ! q) g) base k sz ps"
    and "\<forall>i < length ps. g_parity (put_parity q (ps ! q) g) ! i \<noteq> None \<longleftrightarrow> i \<in> insert q Q"
proof -
  let ?g = "put_parity q (ps ! q) g"
  have len: "length (g_parity g) = length ps" using g(1) by (simp add: group_holds_def)
  show ix: "\<forall>i < length ps. g_parity ?g ! i \<noteq> None \<longleftrightarrow> i \<in> insert q Q"
    using g(2) len q(1) by (auto simp: put_parity_def nth_list_update)
  have "{i. i < length ps \<and> g_parity ?g ! i \<noteq> None} = insert q Q" using ix q by auto
  moreover have "card (insert q Q) = Suc (card Q)" using q finite_subset [of Q "{..<length ps}"] by simp
  ultimately have "length (filter (\<lambda>w. w \<noteq> None) (g_parity ?g)) = Suc (card Q)"
    using len by (simp add: length_filter_conv_card put_parity_def)
  then show "group_holds ?g base k sz ps"
    using g(1) got_card [OF g q(3)] len q(1)
    by (auto simp: group_holds_def put_parity_def nth_list_update)
qed

lemma AddParity_reconstructs:
  assumes tab: "table_holds d base k sz ps Q" and q: "q < length ps" "q \<notin> Q" "Q \<subseteq> {..<length ps}"
    and len: "length (ps ! q) = sz" "sz \<le> shardCap" and kr: "k \<le> 15" "length ps \<le> 15"
  obtains g where "AddParity rs (parity_header base k (length ps) q) (ps ! q) d =
      Some (tryReconstructLocked rs g (d\<lparr>d_groups := [(base, g)]\<rparr>))"
    "group_holds g base k sz ps" "\<forall>i < length ps. g_parity g ! i \<noteq> None \<longleftrightarrow> i \<in> insert q Q"
proof -
  have un: "unat (of_nat k :: byte) = k" "unat (of_nat (length ps) :: byte) = length ps"
    "unat (of_nat q :: byte) = q"
    using kr q(1) by (simp_all add: unat_of_nat)
  consider (new) "d_groups d = []" "Q = {}"
    | (old) g where "d_groups d = [(base, g)]" "group_holds g base k sz ps"
      "\<forall>i < length ps. g_parity g ! i \<noteq> None \<longleftrightarrow> i \<in> Q"
    using tab by (auto simp: table_holds_def)
  then show ?thesis
  proof cases
    case new
    let ?g = "fresh_group base k (length ps) sz"
    have g: "group_holds ?g base k sz ps" "\<forall>i < length ps. g_parity ?g ! i \<noteq> None \<longleftrightarrow> i \<in> Q"
      using new(2) by (simp_all add: fresh_group_def group_holds_def)
    have "AddParity rs (parity_header base k (length ps) q) (ps ! q) d =
        Some (tryReconstructLocked rs (put_parity q (ps ! q) ?g) (d\<lparr>d_groups := [(base, put_parity q (ps ! q) ?g)]\<rparr>))"
      using new(1) q(1) len by (simp add: AddParity_def lookup_group_def ingest_parity_def parity_header_def un Let_def
          fresh_group_def put_parity_def)
    then show ?thesis using that put_parity_holds [OF g q] by blast
  next
    case (old g)
    have "g_parity g ! q = None" using old(3) q by blast
    then have "AddParity rs (parity_header base k (length ps) q) (ps ! q) d =
        Some (tryReconstructLocked rs (put_parity q (ps ! q) g) (d\<lparr>d_groups := [(base, put_parity q (ps ! q) g)]\<rparr>))"
      using old(1,2) q(1) len
      by (simp add: AddParity_def lookup_group_def ingest_parity_def parity_header_def un Let_def put_parity_def
          group_holds_def)
    then show ?thesis using that put_parity_holds [OF old(2,3) q] by blast
  qed
qed

primrec recv_parity :: "RSLib \<Rightarrow> Parity list \<Rightarrow> nat list \<Rightarrow> Decoder \<Rightarrow> (Recovered list \<times> Decoder) option" where
  "recv_parity rs pars [] d = Some ([], d)"
| "recv_parity rs pars (q # qs) d =
    (case AddParity rs (py_Header (pars ! q)) (py_Shard (pars ! q)) d of
       None \<Rightarrow> None
     | Some (out, d') \<Rightarrow> map_option (\<lambda>(out', d''). (out @ out', d'')) (recv_parity rs pars qs d'))"

lemma missing_ixs_cong: "d_ring d' = d_ring d \<Longrightarrow> missing_ixs d' base k = missing_ixs d base k"
  by (simp add: missing_ixs_def has_data_def)

lemma ring_holds_cong: "d_ring d' = d_ring d \<Longrightarrow> ring_holds d' base pkts = ring_holds d base pkts"
  by (simp add: ring_holds_def has_data_def)

lemma tryReconstruct_waits:
  assumes "g_base g = base" "g_k g = k" "g_got g < length (missing_ixs d base k)"
  shows "tryReconstructLocked rs g d = ([], d)"
  using assms missing_count [of g d] by (simp add: tryReconstructLocked_def Let_def)

lemma recv_parity_recovers:
  fixes rs :: RSLib and ps pkts :: "bytes list"
  defines "k \<equiv> length pkts" and "r \<equiv> length ps"
  assumes rs: "rs_recovers rs k r" "rs_Encode rs k r (map (pad sz) pkts) = Some ps" "same_size sz ps"
    and sz: "0 < sz" "sz \<le> shardCap" "\<forall>p\<in>set pkts. length p \<le> sz \<and> InnerIPLen p = Some (length p)"
    and kr: "k \<le> 15" "r \<le> 15"
    and pars: "\<forall>i < r. py_Header (pars ! i) = parity_header base k r i \<and> py_Shard (pars ! i) = ps ! i"
    and d: "ring_holds d base pkts" "table_holds d base k sz ps Q" "Q \<subseteq> {..<r}"
    and qs: "distinct qs" "set qs \<subseteq> {..<r} - Q" "qs \<noteq> []"
      "card Q + length qs = length (missing_ixs d base k)"
  shows "\<exists>d'. recv_parity rs pars qs d =
    Some (map (\<lambda>i. \<lparr>rv_Seq = base + of_nat i, rv_Pkt = pkts ! i\<rparr>) (missing_ixs d base k), d')"
  using d qs
proof (induction qs arbitrary: d Q)
  case Nil
  then show ?case by simp
next
  case (Cons q qs)
  have q: "q < length ps" "q \<notin> Q" using Cons.prems(5) by (auto simp: r_def)
  have Q: "Q \<subseteq> {..<length ps}" using Cons.prems(3) by (simp add: r_def)
  have sh: "length (ps ! q) = sz" using rs(3) q(1) by (simp add: same_size_def)
  obtain g where add: "AddParity rs (parity_header base k (length ps) q) (ps ! q) d =
      Some (tryReconstructLocked rs g (d\<lparr>d_groups := [(base, g)]\<rparr>))"
    and g: "group_holds g base k sz ps" "\<forall>i < length ps. g_parity g ! i \<noteq> None \<longleftrightarrow> i \<in> insert q Q"
    using AddParity_reconstructs [OF Cons.prems(2) q Q sh sz(2)] kr by (metis r_def)
  let ?d = "d\<lparr>d_groups := [(base, g)]\<rparr>"
  have miss: "missing_ixs ?d base k = missing_ixs d base k" by (rule missing_ixs_cong) simp
  have ring: "ring_holds ?d base pkts" using Cons.prems(1) ring_holds_cong [of ?d d] by simp
  have "card (insert q Q) = Suc (card Q)" using q(2) Q finite_subset [of Q] by simp
  then have got: "g_got g = Suc (card Q)" using got_card [OF g] q(1) Q by simp
  have head: "py_Header (pars ! q) = parity_header base k (length ps) q" "py_Shard (pars ! q) = ps ! q"
    using pars q(1) by (simp_all add: r_def)
  show ?case
  proof (cases "qs = []")
    case True
    have "fst (tryReconstructLocked rs g ?d) =
        map (\<lambda>i. \<lparr>rv_Seq = base + of_nat i, rv_Pkt = pkts ! i\<rparr>) (missing_ixs ?d base (length pkts))"
    proof (rule tryReconstruct_recovers)
      show "missing_ixs ?d base (length pkts) \<noteq> []"
        using Cons.prems(7) miss by (auto simp: k_def)
      show "length (missing_ixs ?d base (length pkts)) \<le> g_got g"
        using Cons.prems(7) miss got True by (simp add: k_def)
    qed (use rs sz ring g in \<open>simp_all add: k_def r_def\<close>)
    then show ?thesis
      using True add head miss
      by (cases "tryReconstructLocked rs g ?d") (auto simp: k_def)
  next
    case False
    have "g_got g < length (missing_ixs ?d base k)"
      using Cons.prems(7) miss got False by (cases qs) simp_all
    then have wait: "tryReconstructLocked rs g ?d = ([], ?d)"
      using g(1) by (intro tryReconstruct_waits [of _ base k]) (simp_all add: group_holds_def)
    have "table_holds ?d base k sz ps (insert q Q)" using g by (auto simp: table_holds_def)
    moreover have "card (insert q Q) + length qs = length (missing_ixs ?d base k)"
      using Cons.prems(7) miss \<open>card (insert q Q) = Suc (card Q)\<close> by simp
    ultimately have "\<exists>d'. recv_parity rs pars qs ?d =
        Some (map (\<lambda>i. \<lparr>rv_Seq = base + of_nat i, rv_Pkt = pkts ! i\<rparr>) (missing_ixs ?d base k), d')"
      using Cons.IH [OF ring, of "insert q Q"] Cons.prems(3-5) False q by (auto simp: r_def)
    then show ?thesis using add head wait miss by auto
  qed
qed

lemma reconstruct_forgets:
  assumes "d_groups d = [(g_base g, g)]" "fst (tryReconstructLocked rs g d) \<noteq> []"
  shows "d_groups (snd (tryReconstructLocked rs g d)) = []" "d_ring (snd (tryReconstructLocked rs g d)) = d_ring d"
  using assms
  by (auto simp: tryReconstructLocked_def Let_def delete_group_def split: if_splits option.splits)

section \<open>The size of the table\<close>

definition table_ok :: "Decoder \<Rightarrow> bool" where
  "table_ok d \<longleftrightarrow> distinct (map fst (d_groups d)) \<and> length (d_groups d) \<le> maxGroups"

lemma delete_group_ok: "table_ok d \<Longrightarrow> table_ok (delete_group b d)"
  by (auto simp: table_ok_def delete_group_def AList.delete_eq distinct_map_filter
      intro: order_trans [OF length_filter_le])

lemma tryReconstruct_ok: "table_ok d \<Longrightarrow> table_ok (snd (tryReconstructLocked rs g d))"
  using delete_group_ok [of d] delete_group_ok [of "d\<lparr>d_stats := st\<rparr>" for st]
  by (auto simp: tryReconstructLocked_def Let_def table_ok_def split: option.split)

lemma pruneLocked_ok: "table_ok d \<Longrightarrow> table_ok (pruneLocked d)"
  by (auto simp: table_ok_def pruneLocked_def Let_def distinct_map_filter
      intro: order_trans [OF length_filter_le])

lemma AddData_ok: "table_ok d \<Longrightarrow> table_ok (snd (AddData rs ord seq p d))"
proof -
  assume "table_ok d"
  then have "table_ok (pruneLocked (if \<not> d_started (store_data seq p d) \<or> d_highest (store_data seq p d) < seq
      then (store_data seq p d)\<lparr>d_highest := seq, d_started := True\<rparr> else store_data seq p d))"
    by (intro pruneLocked_ok) (simp add: table_ok_def store_data_def Let_def)
  then show ?thesis using \<open>table_ok d\<close> tryReconstruct_ok
    by (auto simp: AddData_def Let_def split: option.split)
qed

lemma evict_makes_room:
  assumes "table_ok d" "d_groups d \<noteq> []"
  shows "table_ok (evictOldestLocked d) \<and> length (d_groups (evictOldestLocked d)) < length (d_groups d)"
proof -
  obtain x where "x \<in> set (d_groups d)" using assms(2) by (cases "d_groups d") auto
  then obtain b g where scan: "scan_min (\<lambda>_. True) fst (d_groups d) = Some (b, g)"
    using scan_min_exists [of x "d_groups d" "\<lambda>_. True" fst] by auto
  then have mem: "(b, g) \<in> set (d_groups d)" using scan_min_Some [OF scan] by blast
  have "length (AList.delete b (d_groups d)) < length (d_groups d)"
    unfolding AList.delete_eq using mem by (intro length_filter_less [where x = "(b, g)"]) simp_all
  moreover have "table_ok (if g_done g then d else count_failed d)"
    using assms(1) by (simp add: table_ok_def count_failed_def)
  ultimately show ?thesis
    using scan delete_group_ok by (simp add: evictOldestLocked_def delete_group_def count_failed_def)
qed

lemma update_ok:
  assumes "table_ok d" "map_of (d_groups d) b \<noteq> None \<or> length (d_groups d) < maxGroups"
  shows "table_ok (d\<lparr>d_groups := AList.update b g (d_groups d)\<rparr>)"
proof -
  have "length (AList.update b g xs) = (if b \<in> fst ` set xs then length xs else Suc (length xs))" for xs
    by (induction xs) auto
  moreover have "map_of (d_groups d) b \<noteq> None \<longleftrightarrow> b \<in> fst ` set (d_groups d)"
    by (simp add: map_of_eq_None_iff)
  ultimately show ?thesis
    using assms by (auto simp: table_ok_def distinct_update split: if_splits)
qed

lemma map_of_update: "map_of (AList.update b g xs) b = Some g"
  by (simp add: update_conv')

lemma lookup_group_ok:
  assumes "table_ok d"
  shows "table_ok (snd (lookup_group h shard d)) \<and> map_of (d_groups (snd (lookup_group h shard d))) (fh_BaseSeq h) \<noteq> None"
proof (cases "map_of (d_groups d) (fh_BaseSeq h)")
  case None
  let ?e = "if maxGroups \<le> length (d_groups d) then evictOldestLocked d else d"
  have "table_ok ?e \<and> length (d_groups ?e) < maxGroups"
    using assms evict_makes_room [OF assms] by (cases "d_groups d = []") (auto simp: table_ok_def)
  then show ?thesis
    using None update_ok [of ?e "fh_BaseSeq h"] by (simp add: lookup_group_def Let_def map_of_update)
qed (use assms in \<open>simp add: lookup_group_def\<close>)

lemma ingest_parity_ok:
  assumes "table_ok d" "map_of (d_groups d) (fh_BaseSeq h) \<noteq> None" "ingest_parity rs h shard g d = Some (out, d')"
  shows "table_ok d'"
proof -
  have "table_ok (snd (tryReconstructLocked rs g2 (d\<lparr>d_groups := AList.update (fh_BaseSeq h) g2 (d_groups d)\<rparr>)))" for g2
    using assms(1,2) by (intro tryReconstruct_ok update_ok) simp_all
  then have "table_ok d2"
    if "tryReconstructLocked rs g2 (d\<lparr>d_groups := AList.update (fh_BaseSeq h) g2 (d_groups d)\<rparr>) = (o2, d2)"
    for g2 o2 d2
    using that by (metis snd_conv)
  then show ?thesis
    using assms(1,3) by (auto simp: ingest_parity_def Let_def split: if_splits)
qed

lemma AddParity_ok:
  assumes "table_ok d" "AddParity rs h shard d = Some (out, d')"
  shows "table_ok d'"
proof (cases "shardCap < length shard")
  case True
  then show ?thesis using assms by (simp add: AddParity_def)
next
  case False
  then show ?thesis
    using assms lookup_group_ok [OF assms(1), of h shard]
      ingest_parity_ok [of "snd (lookup_group h shard d)" h rs shard "fst (lookup_group h shard d)"]
    by (simp add: AddParity_def split_beta)
qed

section \<open>Properties of the decoder\<close>

text \<open>
  Property C20. Losses are repaired end to end: an encoder closes a group of packets; of these the
  decoder receives those with the indices \<open>js\<close>, then as many distinct parity shards as
  packets are missing, whatever their order. With the last of these it returns exactly the
  missing packets, with their sequence numbers and their original bytes, given that the
  Reed-Solomon library encodes and recovers.
\<close>

theorem fec_repairs_losses:
  fixes k r fl now :: int and base :: u64 and l :: real and pid :: byte and pkts :: "bytes list"
  defines "e \<equiv> NewEncoder k r fl"
  defines "R \<equiv> parityCount l e (e_k e)"
  assumes "rs_encodes rs (e_k e) R" and "rs_recovers rs (e_k e) R"
    and "length pkts = e_k e" and "\<forall>p\<in>set pkts. InnerIPLen p = Some (length p) \<and> length p \<le> shardCap"
    and "unat pid < MaxPaths"
    and "set js \<subseteq> {..<length pkts}" and "distinct qs" "set qs \<subseteq> {..<R}" "qs \<noteq> []"
    and "length qs = card ({..<length pkts} - set js)"
  shows "\<exists>g e' d'. add_all rs l base pid now pkts e = Some (replicate (length pkts - 1) None @ [Some g], e') \<and>
    recv_parity rs (gr_Parities g) qs (recv_data rs base pkts js NewDecoder) =
      Some (map (\<lambda>i. \<lparr>rv_Seq = base + of_nat i, rv_Pkt = pkts ! i\<rparr>) (filter (\<lambda>i. i \<notin> set js) [0..<length pkts]), d')"
proof -
  let ?d = "recv_data rs base pkts js NewDecoder" and ?z = "group_size pkts"
  have inv: "enc_inv e" "e_n e = 0" "enc_pkts e = []"
    unfolding e_def using NewEncoder_inv by (simp_all add: NewEncoder_def Let_def enc_pkts_def)
  have k: "2 \<le> length pkts" "length pkts \<le> 15" using inv(1) assms(5) by (simp_all add: enc_inv_def enc_wf_def)
  have R: "R \<le> 15" using parityCount_range [of "e_k e" l e] k assms(5) by (simp add: R_def)
  have p: "\<forall>p\<in>set pkts. p \<noteq> [] \<and> length p \<le> shardCap" using assms(6) by (auto simp: InnerIPLen_def)
  have "pkts \<noteq> []" using k(1) by auto
  then obtain par g e' where enc: "rs_Encode rs (e_k e) R (map (pad ?z) pkts) = Some par" "length par = R" "same_size ?z par"
    and add: "add_all rs l base pid now pkts e = Some (replicate (length pkts - 1) None @ [Some g], e')"
    and gr: "gr_Parities g = gr_Parities (group_of base (e_k e) par (\<lambda>_. 0))"
    using add_all_fills [OF inv(1), of base base pkts pid rs l now] assms(3,5,7) p inv(2,3) by (auto simp: R_def)
  have data: "d_groups ?d = []" "ring_holds ?d base pkts"
    "\<forall>j < length pkts. has_data ?d (base + of_nat j) \<longleftrightarrow> j \<in> set js"
    using recv_data_ok [OF NewDecoder_ok(1-3), where base = base and pkts = pkts and js = js and rs = rs] k assms(6,8) NewDecoder_ok(4) by simp_all
  have miss: "missing_ixs ?d base (length pkts) = filter (\<lambda>i. i \<notin> set js) [0..<length pkts]"
    unfolding missing_ixs_def using data(3) by (intro filter_cong) simp_all
  have "set (filter (\<lambda>i. i \<notin> set js) [0..<length pkts]) = {..<length pkts} - set js" by auto
  then have cnt: "length qs = length (missing_ixs ?d base (length pkts))"
    using assms(12) distinct_card [of "filter (\<lambda>i. i \<notin> set js) [0..<length pkts]"] miss by simp
  have "\<exists>d'. recv_parity rs (gr_Parities g) qs ?d = Some (map (\<lambda>i. \<lparr>rv_Seq = base + of_nat i, rv_Pkt = pkts ! i\<rparr>)
      (missing_ixs ?d base (length pkts)), d')"
  proof (rule recv_parity_recovers [where Q = "{}"])
    show "0 < ?z" using group_size_pos [of "hd pkts" pkts] p \<open>pkts \<noteq> []\<close> by simp
    show "?z \<le> shardCap" using p by (intro group_size_least) blast
    show "\<forall>p\<in>set pkts. length p \<le> ?z \<and> InnerIPLen p = Some (length p)"
      using assms(6) group_size_bound by blast
    show "\<forall>i < length par. py_Header (gr_Parities g ! i) = parity_header base (length pkts) (length par) i \<and>
        py_Shard (gr_Parities g ! i) = par ! i"
      using assms(5) by (simp add: gr group_of_def parity_header_def)
    show "table_holds ?d base (length pkts) ?z par {}" using data(1) by (simp add: table_holds_def)
  qed (use assms(4,5,9-11) enc k R data cnt in simp_all)
  then show ?thesis using add miss by auto
qed

text \<open>A concrete code for groups of two packets with one parity shard: their bytewise sum.\<close>

definition xor_bytes :: "bytes \<Rightarrow> bytes \<Rightarrow> bytes" where
  "xor_bytes a b = map2 (\<lambda>x y. x XOR y) a b"

definition xor_codec :: RSLib where
  "xor_codec = \<lparr>rs_New = (\<lambda>_ _. True), rs_Encode = (\<lambda>k r data. Some [xor_bytes (data ! 0) (data ! 1)]),
     rs_Reconstruct = (\<lambda>k r work.
       Some [if work ! 0 = None then Some (xor_bytes (the (work ! 1)) (the (work ! 2))) else work ! 0,
             if work ! 1 = None then Some (xor_bytes (the (work ! 0)) (the (work ! 2))) else work ! 1, work ! 2])\<rparr>"

lemma xor_bytes_cancel:
  "length a = length b \<Longrightarrow> xor_bytes b (xor_bytes a b) = a \<and> xor_bytes a (xor_bytes a b) = b"
proof -
  have cancel: "y XOR (x XOR y) = x" "x XOR (x XOR y) = y" for x y :: byte
    by (metis xor.assoc xor.commute xor.right_neutral xor_self_eq)+
  show "length a = length b \<Longrightarrow> xor_bytes b (xor_bytes a b) = a \<and> xor_bytes a (xor_bytes a b) = b"
    by (induction a b rule: list_induct2) (simp_all add: xor_bytes_def cancel)
qed

lemma length_two: "length xs = 2 \<longleftrightarrow> (\<exists>a b. xs = [a, b])"
  by (auto simp: numeral_2_eq_2 length_Suc_conv)

lemma xor_codec_encodes: "rs_encodes xor_codec 2 1"
  by (auto simp: rs_encodes_def xor_codec_def same_size_def length_two xor_bytes_def)

lemma xor_codec_recovers: "rs_recovers xor_codec 2 1"
proof -
  have "\<exists>out. rs_Reconstruct xor_codec 2 1 work = Some out \<and> (\<forall>i < 2. out ! i = Some (data ! i))"
    if h: "length data = 2" "same_size n data" "rs_Encode xor_codec 2 1 data = Some ps" "length work = 2 + 1"
      "\<forall>i < 2 + 1. work ! i = None \<or> work ! i = Some ((data @ ps) ! i)" "length (filter (\<lambda>w. w = None) work) \<le> 1"
    for n data ps work
  proof -
    obtain a b where data: "data = [a, b]" using h(1) by (auto simp: length_two)
    have ps: "ps = [xor_bytes a b]" using h(3) by (simp add: xor_codec_def data)
    have len: "length a = length b" using h(2) by (simp add: same_size_def data)
    obtain u v w where work: "work = [u, v, w]"
      using h(4) by (auto simp: numeral_2_eq_2 length_Suc_conv)
    have "u = None \<or> u = Some a" "v = None \<or> v = Some b" "w = None \<or> w = Some (xor_bytes a b)"
      using h(5) by (auto simp: data ps work less_Suc_eq numeral_2_eq_2 all_conj_distrib)
    then show ?thesis
      using h(6) xor_bytes_cancel [OF len]
      by (auto simp: xor_codec_def data work less_Suc_eq numeral_2_eq_2 split: if_splits)
  qed
  moreover have "rs_New xor_codec 2 1" by (simp add: xor_codec_def)
  ultimately show ?thesis unfolding rs_recovers_def by blast
qed

definition sample_pkt :: "byte \<Rightarrow> bytes" where
  "sample_pkt x = [0x45, 0, 0, 20] @ replicate 16 x"

lemma sample_pkt_len: "InnerIPLen (sample_pkt x) = Some (length (sample_pkt x))" "length (sample_pkt x) = 20"
  by (simp_all add: sample_pkt_def InnerIPLen_def gslice_def get_be_def)

theorem fec_repairs_losses_witness:
  "\<exists>g e' d'. add_all xor_codec 0 500 3 0 [sample_pkt 1, sample_pkt 2] (NewEncoder 2 1 5) = Some ([None, Some g], e') \<and>
    recv_parity xor_codec (gr_Parities g) [0] (recv_data xor_codec 500 [sample_pkt 1, sample_pkt 2] [1] NewDecoder) =
      Some ([\<lparr>rv_Seq = 500, rv_Pkt = sample_pkt 1\<rparr>], d')"
proof -
  have e: "e_k (NewEncoder 2 1 5) = 2" by (simp add: NewEncoder_def Let_def)
  have pc: "parityCount 0 (NewEncoder 2 1 5) 2 = 1" by (simp add: parityCount_def NewEncoder_def Let_def)
  have ix: "{..<2} - {1} = {0 :: nat}" "filter (\<lambda>i. i \<noteq> 1) [0..<2] = [0 :: nat]"
    by (auto simp: numeral_2_eq_2)
  show ?thesis
    using fec_repairs_losses [of xor_codec 2 1 5 0 "[sample_pkt 1, sample_pkt 2]" 3 "[1]" "[0]" 500 0]
      xor_codec_encodes xor_codec_recovers
    by (simp add: e pc sample_pkt_len ix)
qed

text \<open>
  A group is forgotten as soon as it has been repaired, and the repaired packet is
  not put into the ring: another parity shard of the same group, arriving later, makes the
  decoder return the same packet a second time (and count it a second time).
\<close>

theorem parity_recovers_again:
  assumes "rs_recovers rs (length pkts) (length ps)"
    and "rs_Encode rs (length pkts) (length ps) (map (pad sz) pkts) = Some ps" "same_size sz ps"
    and "0 < sz" "sz \<le> shardCap" "\<forall>p\<in>set pkts. length p \<le> sz \<and> InnerIPLen p = Some (length p)"
    and "length pkts \<le> 15" "length ps \<le> 15"
    and "d_groups d = []" and "ring_holds d base pkts" and "missing_ixs d base (length pkts) = [m]"
    and "q1 < length ps" "q2 < length ps"
  shows "\<exists>d1 d2. AddParity rs (parity_header base (length pkts) (length ps) q1) (ps ! q1) d =
      Some ([\<lparr>rv_Seq = base + of_nat m, rv_Pkt = pkts ! m\<rparr>], d1) \<and>
    AddParity rs (parity_header base (length pkts) (length ps) q2) (ps ! q2) d1 =
      Some ([\<lparr>rv_Seq = base + of_nat m, rv_Pkt = pkts ! m\<rparr>], d2)"
proof -
  have once: "\<exists>d'. AddParity rs (parity_header base (length pkts) (length ps) q) (ps ! q) d =
      Some ([\<lparr>rv_Seq = base + of_nat m, rv_Pkt = pkts ! m\<rparr>], d') \<and> d_groups d' = [] \<and> d_ring d' = d_ring d"
    if d: "d_groups d = []" "ring_holds d base pkts" "missing_ixs d base (length pkts) = [m]" and q: "q < length ps" for d q
  proof -
    have tab: "table_holds d base (length pkts) sz ps {}" using d(1) by (simp add: table_holds_def)
    have sh: "length (ps ! q) = sz" using assms(3) q by (simp add: same_size_def)
    obtain g where add: "AddParity rs (parity_header base (length pkts) (length ps) q) (ps ! q) d =
        Some (tryReconstructLocked rs g (d\<lparr>d_groups := [(base, g)]\<rparr>))"
      and g: "group_holds g base (length pkts) sz ps" "\<forall>i < length ps. g_parity g ! i \<noteq> None \<longleftrightarrow> i \<in> insert q {}"
      using AddParity_reconstructs [OF tab q _ _ sh assms(5,7,8)] by auto
    let ?d = "d\<lparr>d_groups := [(base, g)]\<rparr>"
    have got: "g_got g = 1" using got_card [OF g] q by simp
    have miss: "missing_ixs ?d base (length pkts) = [m]" using d(3) missing_ixs_cong [of ?d d] by simp
    have ring: "ring_holds ?d base pkts" using d(2) ring_holds_cong [of ?d d] by simp
    have "fst (tryReconstructLocked rs g ?d) = [\<lparr>rv_Seq = base + of_nat m, rv_Pkt = pkts ! m\<rparr>]"
      using tryReconstruct_recovers [OF assms(1,2,4,6) ring g(1)] miss got by simp
    moreover have "g_base g = base" using g(1) by (simp add: group_holds_def)
    ultimately show ?thesis
      using add reconstruct_forgets [of ?d g rs] by (cases "tryReconstructLocked rs g ?d") auto
  qed
  obtain d1 where d1: "AddParity rs (parity_header base (length pkts) (length ps) q1) (ps ! q1) d =
      Some ([\<lparr>rv_Seq = base + of_nat m, rv_Pkt = pkts ! m\<rparr>], d1)" "d_groups d1 = []" "d_ring d1 = d_ring d"
    using once [OF assms(9-12)] by blast
  have "ring_holds d1 base pkts" "missing_ixs d1 base (length pkts) = [m]"
    using assms(10,11) d1(3) ring_holds_cong [of d1 d] missing_ixs_cong [of d1 d] by simp_all
  then show ?thesis using once [OF d1(2) _ _ assms(13)] d1(1) by blast
qed

definition copies_codec :: RSLib where
  "copies_codec = \<lparr>rs_New = (\<lambda>_ _. True), rs_Encode = (\<lambda>k r data. Some (replicate r (hd data))),
     rs_Reconstruct = (\<lambda>k r work. case filter (\<lambda>w. w \<noteq> None) work of [] \<Rightarrow> None | w # _ \<Rightarrow> Some (replicate (k + r) w))\<rparr>"

lemma copies_codec_recovers: "rs_recovers copies_codec 1 2"
proof -
  have "\<exists>out. rs_Reconstruct copies_codec 1 2 work = Some out \<and> (\<forall>i < 1. out ! i = Some (data ! i))"
    if h: "length data = 1" "rs_Encode copies_codec 1 2 data = Some ps" "length work = 1 + 2"
      "\<forall>i < 1 + 2. work ! i = None \<or> work ! i = Some ((data @ ps) ! i)" "length (filter (\<lambda>w. w = None) work) \<le> 2"
    for data ps work
  proof -
    obtain a where data: "data = [a]" using h(1) by (auto simp: length_Suc_conv)
    have ps: "ps = [a, a]" using h(2) by (simp add: copies_codec_def data numeral_2_eq_2)
    obtain u v w where work: "work = [u, v, w]" using h(3) by (auto simp: numeral_2_eq_2 length_Suc_conv)
    have "u = None \<or> u = Some a" "v = None \<or> v = Some a" "w = None \<or> w = Some a"
      using h(4) by (auto simp: data ps work less_Suc_eq numeral_3_eq_3 all_conj_distrib)
    then show ?thesis using h(5) by (auto simp: copies_codec_def data work)
  qed
  moreover have "rs_New copies_codec 1 2" by (simp add: copies_codec_def)
  ultimately show ?thesis unfolding rs_recovers_def by blast
qed

theorem parity_recovers_again_witness:
  "\<exists>d1 d2. AddParity copies_codec (parity_header 9 1 2 0) (sample_pkt 5) NewDecoder =
      Some ([\<lparr>rv_Seq = 9, rv_Pkt = sample_pkt 5\<rparr>], d1) \<and>
    AddParity copies_codec (parity_header 9 1 2 1) (sample_pkt 5) d1 = Some ([\<lparr>rv_Seq = 9, rv_Pkt = sample_pkt 5\<rparr>], d2)"
proof -
  have "missing_ixs NewDecoder 9 1 = [0]" by (simp add: missing_ixs_def NewDecoder_ok)
  moreover have "rs_Encode copies_codec 1 2 (map (pad 20) [sample_pkt 5]) = Some [sample_pkt 5, sample_pkt 5]"
    by (simp add: copies_codec_def pad_def sample_pkt_len numeral_2_eq_2)
  ultimately show ?thesis
    using parity_recovers_again [of copies_codec "[sample_pkt 5]" "[sample_pkt 5, sample_pkt 5]" 20 NewDecoder 9 0 0 1]
      copies_codec_recovers NewDecoder_ok
    by (simp add: same_size_def sample_pkt_len numeral_2_eq_2)
qed

inductive decoder_step :: "RSLib \<Rightarrow> Decoder \<Rightarrow> Decoder \<Rightarrow> bool" for rs where
  data: "decoder_step rs d (snd (AddData rs ord seq p d))"
| parity: "AddParity rs h shard d = Some (out, d') \<Longrightarrow> decoder_step rs d d'"

interpretation group_table: machine "decoder_step rs" table_ok for rs
proof
  fix d d'
  assume "decoder_step rs d d'" "table_ok d"
  then show "table_ok d'" by (cases rule: decoder_step.cases) (auto intro: AddData_ok AddParity_ok)
qed

text \<open>
  The table of groups never holds more than \<open>maxGroups\<close> entries, one per base
  sequence number, whatever data and parity arrive.
\<close>

theorem decoder_table_bounded:
  assumes "(decoder_step rs)\<^sup>*\<^sup>* NewDecoder d"
  shows "length (d_groups d) \<le> maxGroups \<and> distinct (map fst (d_groups d))"
  using group_table.reachable_inv [OF assms] by (simp add: NewDecoder_def table_ok_def)

theorem decoder_table_bounded_witness:
  "length (d_groups (snd (AddData xor_codec [] 4 (sample_pkt 1) NewDecoder))) \<le> maxGroups"
  using decoder_table_bounded [OF r_into_rtranclp [where r = "decoder_step xor_codec", OF decoder_step.data]] by blast

end
