(* ===== verification/Reorder.thy ===== *)
theory Reorder
  imports Wire Sliding_Window "HOL-Library.Multiset"
begin

text \<open>
  The receive-side resequencing buffer, \<open>internal/reorder/buffer.go\<close>: a ring of 8192
  slots indexed by sequence number, the next sequence number to emit, a gap deadline, and
  a duplicate bitmap.

  A packet is the pair \<open>(pkt, buf)\<close> that the callbacks \<open>emit\<close> and \<open>release\<close>
  receive; the calls the buffer makes are recorded in order in \<open>b_emitted\<close> and
  \<open>b_released\<close>. Each record also carries the sequence number under which the packet
  was pushed and, for an emission, whether it was a late pass: ghost information, used by
  the properties only. \<open>now\<close> and \<open>tmo\<close> are the values the callbacks \<open>now()\<close> and
  \<open>timeout()\<close> return during the operation, in nanoseconds; a zero \<open>time.Time\<close> is
  \<open>None\<close>.
\<close>

definition ringSize :: nat where [simp]: "ringSize = 8192"
definition seenSpan :: u64 where [simp]: "seenSpan = 8192"
definition seenBlocks :: u64 where [simp]: "seenBlocks = 128"

type_synonym packet = "bytes \<times> nat"

record Stats =
  st_Emitted :: u64
  st_Reordered :: u64
  st_TimeoutFlush :: u64
  st_LatePass :: u64
  st_DupDrop :: u64
  st_OverflowSkip :: u64
  st_Held :: int
  st_HeldOldestMs :: int

record slot =
  s_used :: bool
  s_seq :: u64
  s_pkt :: packet

definition slot_zero :: slot where
  "slot_zero = \<lparr>s_used = False, s_seq = 0, s_pkt = ([], 0)\<rparr>"

record emission =
  em_late :: bool
  em_seq :: u64
  em_pkt :: packet

record Buffer =
  b_started :: bool
  b_nextSeq :: u64
  b_ring :: "slot garray"
  b_held :: int
  b_maxHold :: int
  b_deadline :: "int option"
  b_gapSince :: "int option"
  b_seen :: "u64 garray"
  b_seenHigh :: u64
  b_seenInit :: bool
  b_stats :: Stats
  b_emitted :: "emission list"
  b_released :: "(u64 \<times> packet) list"

definition Stats_zero :: Stats where
  "Stats_zero = \<lparr>st_Emitted = 0, st_Reordered = 0, st_TimeoutFlush = 0, st_LatePass = 0,
     st_DupDrop = 0, st_OverflowSkip = 0, st_Held = 0, st_HeldOldestMs = 0\<rparr>"

text \<open>
  \<open>New\<close> applies its options to a buffer with the default \<open>maxHold\<close>; \<open>WithMaxHold\<close>
  is the option that has an effect on the modelled state (\<open>WithClock\<close> replaces the
  callback \<open>now\<close>).
\<close>

definition WithMaxHold :: "int \<Rightarrow> Buffer \<Rightarrow> Buffer" where
  "WithMaxHold n b = b\<lparr>b_maxHold := n\<rparr>"

definition New :: "(Buffer \<Rightarrow> Buffer) list \<Rightarrow> Buffer" where
  "New opts = fold (\<lambda>f b. f b) opts
     \<lparr>b_started = False, b_nextSeq = 0, b_ring = (\<lambda>_. slot_zero), b_held = 0, b_maxHold = 4096,
      b_deadline = None, b_gapSince = None, b_seen = (\<lambda>_. 0), b_seenHigh = 0, b_seenInit = False,
      b_stats = Stats_zero, b_emitted = [], b_released = []\<rparr>"

section \<open>Duplicate tracking\<close>

primrec clear_seen :: "u64 \<Rightarrow> nat \<Rightarrow> u64 garray \<Rightarrow> u64 garray" where
  "clear_seen cur 0 bs = bs"
| "clear_seen cur (Suc i) bs =
    (clear_seen cur i bs)(unat ((cur + of_nat (Suc i)) mod seenBlocks) := 0)"

definition seen_mark :: "Buffer \<Rightarrow> u64 \<Rightarrow> bool \<times> Buffer" where
  "seen_mark b seq =
    (let i = unat (drop_bit 6 seq mod seenBlocks);
         bt = push_bit (unat (seq AND 63)) 1
     in if b_seen b i AND bt \<noteq> 0 then (True, b)
        else (False, b\<lparr>b_seen := (b_seen b)(i := b_seen b i OR bt)\<rparr>))"

definition seen_advance :: "Buffer \<Rightarrow> u64 \<Rightarrow> Buffer" where
  "seen_advance b seq =
    (let cur = drop_bit 6 (b_seenHigh b);
         nxt = drop_bit 6 seq;
         diff = nxt - cur;
         diff' = (if seenBlocks < diff then seenBlocks else diff)
     in b\<lparr>b_seen := clear_seen cur (unat diff') (b_seen b), b_seenHigh := seq\<rparr>)"

definition markSeen :: "Buffer \<Rightarrow> u64 \<Rightarrow> bool \<times> Buffer" where
  "markSeen b seq =
    (if \<not> b_seenInit b then
       (False, b\<lparr>b_seenInit := True, b_seenHigh := seq,
          b_seen := (\<lambda>_. 0)(unat (drop_bit 6 seq mod seenBlocks) := push_bit (unat (seq AND 63)) 1)\<rparr>)
     else if b_seenHigh b < seq then seen_mark (seen_advance b seq) seq
     else if seenSpan \<le> b_seenHigh b - seq then (True, b)
     else seen_mark b seq)"

section \<open>Emission\<close>

definition emitLocked :: "bool \<Rightarrow> u64 \<Rightarrow> packet \<Rightarrow> Buffer \<Rightarrow> Buffer" where
  "emitLocked late seq p b =
    b\<lparr>b_stats := (b_stats b)\<lparr>st_Emitted := st_Emitted (b_stats b) + 1\<rparr>,
      b_emitted := b_emitted b @ [\<lparr>em_late = late, em_seq = seq, em_pkt = p\<rparr>]\<rparr>"

definition release :: "u64 \<Rightarrow> packet \<Rightarrow> Buffer \<Rightarrow> Buffer" where
  "release seq p b = b\<lparr>b_released := b_released b @ [(seq, p)]\<rparr>"

definition ring_index :: "u64 \<Rightarrow> nat" where
  "ring_index seq = unat (seq AND 8191)"

text \<open>\<open>b.emitLocked(s.pkt, s.buf); *s = slot{}; b.held--\<close> for the slot at index \<open>i\<close>.\<close>

definition emit_slot :: "nat \<Rightarrow> Buffer \<Rightarrow> Buffer" where
  "emit_slot i b =
    (let s = b_ring b i; b' = emitLocked False (s_seq s) (s_pkt s) b
     in b'\<lparr>b_ring := (b_ring b)(i := slot_zero), b_held := b_held b - 1\<rparr>)"

text \<open>The loop of \<open>drainLocked\<close>; every iteration lowers \<open>held\<close>.\<close>

function drain_loop :: "Buffer \<Rightarrow> Buffer" where
  "drain_loop b =
    (if 0 < b_held b then
       let i = ring_index (b_nextSeq b); s = b_ring b i
       in if \<not> s_used s \<or> s_seq s \<noteq> b_nextSeq b then b
          else drain_loop ((emit_slot i b)\<lparr>b_nextSeq := b_nextSeq b + 1\<rparr>)
     else b)"
  by pat_completeness auto
termination
  by (relation "measure (\<lambda>b. nat (b_held b))") (auto simp: emit_slot_def emitLocked_def Let_def)

declare drain_loop.simps [simp del]

definition arm_deadline :: "int \<Rightarrow> int \<Rightarrow> Buffer \<Rightarrow> Buffer" where
  "arm_deadline now tmo b = b\<lparr>b_deadline := Some (now + tmo), b_gapSince := Some now\<rparr>"

definition drainLocked :: "int \<Rightarrow> int \<Rightarrow> Buffer \<Rightarrow> Buffer" where
  "drainLocked now tmo b =
    (let b = drain_loop b
     in if b_held b = 0 then b\<lparr>b_deadline := None\<rparr>
        else if b_deadline b = None then arm_deadline now tmo b
        else b)"

definition skipGapLocked :: "int \<Rightarrow> int \<Rightarrow> Buffer \<Rightarrow> Buffer" where
  "skipGapLocked now tmo b =
    (if b_held b = 0 then b\<lparr>b_deadline := None\<rparr>
     else case scan_min (\<lambda>i. s_used (b_ring b i)) (\<lambda>i. s_seq (b_ring b i)) [0..<ringSize] of
       None \<Rightarrow> b\<lparr>b_held := 0, b_deadline := None\<rparr>
     | Some i \<Rightarrow> drainLocked now tmo (b\<lparr>b_nextSeq := s_seq (b_ring b i), b_deadline := None\<rparr>))"

section \<open>Overflow\<close>

definition used_slots :: "Buffer \<Rightarrow> nat set" where
  "used_slots b = {i. i < ringSize \<and> s_used (b_ring b i)}"

text \<open>The selection loop of \<open>advanceTo\<close>: emit the oldest packet below the target until none is left.\<close>

function select_loop :: "u64 \<Rightarrow> Buffer \<Rightarrow> Buffer" where
  "select_loop target b =
    (case scan_min (\<lambda>i. s_used (b_ring b i) \<and> s_seq (b_ring b i) < target)
       (\<lambda>i. s_seq (b_ring b i)) [0..<ringSize] of
       None \<Rightarrow> b
     | Some i \<Rightarrow> select_loop target (emit_slot i b))"
  by pat_completeness auto
termination
proof (relation "measure (\<lambda>(_, b). card (used_slots b))")
  fix target :: u64 and b :: Buffer and i
  assume "scan_min (\<lambda>i. s_used (b_ring b i) \<and> s_seq (b_ring b i) < target)
      (\<lambda>i. s_seq (b_ring b i)) [0..<ringSize] = Some i"
  then have "i \<in> used_slots b" using scan_min_Some by (fastforce simp: used_slots_def)
  moreover have "used_slots (emit_slot i b) = used_slots b - {i}"
    by (auto simp: used_slots_def emit_slot_def emitLocked_def slot_zero_def Let_def)
  moreover have "finite (used_slots b)" by (simp add: used_slots_def)
  ultimately show "((target, emit_slot i b), target, b) \<in> measure (\<lambda>(_, b). card (used_slots b))"
    using card_Diff1_less [of "used_slots b" i] by simp
qed simp

declare select_loop.simps [simp del]

text \<open>The walking loop of \<open>advanceTo\<close>.\<close>

function walk_loop :: "u64 \<Rightarrow> Buffer \<Rightarrow> Buffer" where
  "walk_loop target b =
    (if b_nextSeq b < target then
       let i = ring_index (b_nextSeq b); s = b_ring b i;
           b' = (if s_used s \<and> s_seq s = b_nextSeq b then emit_slot i b else b)
       in walk_loop target (b'\<lparr>b_nextSeq := b_nextSeq b + 1\<rparr>)
     else b)"
  by pat_completeness auto
termination
  by (relation "measure (\<lambda>(t, b). unat t - unat (b_nextSeq b))")
    (auto simp: word_less_nat_alt unat_Suc_below)

declare walk_loop.simps [simp del]

definition advanceTo :: "u64 \<Rightarrow> Buffer \<Rightarrow> Buffer" where
  "advanceTo target b =
    (let b = (if 8192 < target - b_nextSeq b then (select_loop target b)\<lparr>b_nextSeq := target\<rparr>
              else walk_loop target b)
     in if b_held b = 0 then b\<lparr>b_deadline := None\<rparr> else b)"

section \<open>The operations\<close>

definition count_stat :: "(Stats \<Rightarrow> Stats) \<Rightarrow> Buffer \<Rightarrow> Buffer" where
  "count_stat f b = b\<lparr>b_stats := f (b_stats b)\<rparr>"

definition inc_Reordered :: "Stats \<Rightarrow> Stats" where
  "inc_Reordered st = st\<lparr>st_Reordered := st_Reordered st + 1\<rparr>"
definition inc_TimeoutFlush :: "Stats \<Rightarrow> Stats" where
  "inc_TimeoutFlush st = st\<lparr>st_TimeoutFlush := st_TimeoutFlush st + 1\<rparr>"
definition inc_LatePass :: "Stats \<Rightarrow> Stats" where
  "inc_LatePass st = st\<lparr>st_LatePass := st_LatePass st + 1\<rparr>"
definition inc_DupDrop :: "Stats \<Rightarrow> Stats" where
  "inc_DupDrop st = st\<lparr>st_DupDrop := st_DupDrop st + 1\<rparr>"
definition inc_OverflowSkip :: "Stats \<Rightarrow> Stats" where
  "inc_OverflowSkip st = st\<lparr>st_OverflowSkip := st_OverflowSkip st + 1\<rparr>"

text \<open>The three cases of the \<open>switch\<close> that ends \<open>Push\<close>.\<close>

definition push_next :: "int \<Rightarrow> int \<Rightarrow> u64 \<Rightarrow> packet \<Rightarrow> Buffer \<Rightarrow> Buffer" where
  "push_next now tmo seq p b =
    (let b = emitLocked False seq p b
     in drainLocked now tmo (b\<lparr>b_nextSeq := b_nextSeq b + 1\<rparr>))"

definition push_late :: "u64 \<Rightarrow> packet \<Rightarrow> Buffer \<Rightarrow> Buffer" where
  "push_late seq p b = emitLocked True seq p (count_stat inc_LatePass b)"

definition evict_slot :: "nat \<Rightarrow> Buffer \<Rightarrow> Buffer" where
  "evict_slot i b =
    (let s = b_ring b i
     in if s_used s then (release (s_seq s) (s_pkt s) b)\<lparr>b_held := b_held b - 1\<rparr> else b)"

definition fill_slot :: "nat \<Rightarrow> u64 \<Rightarrow> packet \<Rightarrow> Buffer \<Rightarrow> Buffer" where
  "fill_slot i seq p b =
    b\<lparr>b_ring := (b_ring b)(i := \<lparr>s_used = True, s_seq = seq, s_pkt = p\<rparr>), b_held := b_held b + 1\<rparr>"

definition push_gap :: "int \<Rightarrow> int \<Rightarrow> u64 \<Rightarrow> packet \<Rightarrow> Buffer \<Rightarrow> Buffer" where
  "push_gap now tmo seq p b =
    (let i = ring_index seq;
         b = count_stat inc_Reordered (fill_slot i seq p (evict_slot i b));
         b = (if b_deadline b = None then arm_deadline now tmo b else b)
     in if b_maxHold b < b_held b then skipGapLocked now tmo (count_stat inc_TimeoutFlush b) else b)"

definition push_fresh :: "int \<Rightarrow> int \<Rightarrow> u64 \<Rightarrow> packet \<Rightarrow> Buffer \<Rightarrow> Buffer" where
  "push_fresh now tmo seq p b =
    (let b = (if \<not> b_started b then b\<lparr>b_started := True, b_nextSeq := seq\<rparr> else b);
         b = (if b_nextSeq b < seq \<and> 8192 \<le> seq - b_nextSeq b
              then advanceTo seq (count_stat inc_OverflowSkip b) else b)
     in if seq = b_nextSeq b then push_next now tmo seq p b
        else if seq < b_nextSeq b then push_late seq p b
        else push_gap now tmo seq p b)"

definition Push :: "int \<Rightarrow> int \<Rightarrow> u64 \<Rightarrow> packet \<Rightarrow> Buffer \<Rightarrow> Buffer" where
  "Push now tmo seq p b =
    (let (dup, b) = markSeen b seq
     in if dup then release seq p (count_stat inc_DupDrop b)
        else push_fresh now tmo seq p b)"

definition FlushExpired :: "int \<Rightarrow> int \<Rightarrow> Buffer \<Rightarrow> int option \<times> Buffer" where
  "FlushExpired now tmo b =
    (case b_deadline b of
       None \<Rightarrow> (None, b)
     | Some d \<Rightarrow>
        if now < d then (Some d, b)
        else let b = skipGapLocked now tmo (count_stat inc_TimeoutFlush b) in (b_deadline b, b))"

text \<open>\<open>Duration.Milliseconds\<close> divides nanoseconds by a million, rounding towards zero.\<close>

definition milliseconds :: "int \<Rightarrow> int" where
  "milliseconds d = (if 0 \<le> d then d div 1000000 else - (- d div 1000000))"

definition Snapshot :: "int \<Rightarrow> Buffer \<Rightarrow> Stats" where
  "Snapshot now b =
    (let st = (b_stats b)\<lparr>st_Held := b_held b\<rparr>
     in case b_gapSince b of
          None \<Rightarrow> st
        | Some g \<Rightarrow> if 0 < b_held b then st\<lparr>st_HeldOldestMs := milliseconds (now - g)\<rparr> else st)"

end
