(* ===== verification/Keys.thy ===== *)
theory Keys
  imports Wire
begin

text \<open>
  Curve25519 keys, \<open>internal/keys/keys.go\<close>: generation with clamping, the base64 text
  form in both directions, and the zero test. A Go string is a list of 8-bit characters.
  What the code uses of the standard library is modelled here: \<open>strings.TrimSpace\<close> (with
  the Unicode spaces in their UTF-8 form) and \<open>base64.StdEncoding\<close>. The X25519 function
  of \<open>golang.org/x/crypto\<close> is a parameter, random bytes and file contents are arguments.
\<close>

section \<open>The base64 standard encoding\<close>

definition str_bytes :: "string \<Rightarrow> bytes" where
  "str_bytes s = map of_char s"

definition b64_alphabet :: string where
  "b64_alphabet = ''ABCDEFGHIJKLMNOPQRSTUVWXYZabcdefghijklmnopqrstuvwxyz0123456789+/''"

definition b64_digit :: "nat \<Rightarrow> char" where
  "b64_digit n = b64_alphabet ! n"

primrec index_of :: "'a \<Rightarrow> 'a list \<Rightarrow> nat option" where
  "index_of x [] = None"
| "index_of x (y # ys) = (if x = y then Some 0 else map_option Suc (index_of x ys))"

definition b64_value :: "char \<Rightarrow> nat option" where
  "b64_value c = index_of c b64_alphabet"

text \<open>
  Three bytes make four digits; a group of one or two bytes is padded with \<open>=\<close>.
\<close>

fun EncodeToString :: "bytes \<Rightarrow> string" where
  "EncodeToString [] = []"
| "EncodeToString [a] =
    (let v = unat a * 16 in [b64_digit (v div 64), b64_digit (v mod 64), CHR ''='', CHR ''=''])"
| "EncodeToString [a, b] =
    (let v = (unat a * 256 + unat b) * 4
     in [b64_digit (v div 4096), b64_digit (v div 64 mod 64), b64_digit (v mod 64), CHR ''=''])"
| "EncodeToString (a # b # c # rest) =
    (let v = (unat a * 256 + unat b) * 256 + unat c
     in [b64_digit (v div 262144), b64_digit (v div 4096 mod 64), b64_digit (v div 64 mod 64),
         b64_digit (v mod 64)] @ EncodeToString rest)"

text \<open>
  The decoder skips newlines anywhere, accepts padding only in the last group, and refuses a
  last group that is incomplete. As the encoding is not \<open>Strict\<close>, the unused low bits of a
  padded group are ignored.
\<close>

fun decode_groups :: "string \<Rightarrow> bytes option" where
  "decode_groups [] = Some []"
| "decode_groups (a # b # c # d # rest) =
    (case (b64_value a, b64_value b) of
       (Some x, Some y) \<Rightarrow>
         (if c = CHR ''='' then
            (if d = CHR ''='' \<and> rest = [] then Some [of_nat ((x * 64 + y) div 16)] else None)
          else case b64_value c of None \<Rightarrow> None
             | Some z \<Rightarrow>
                 (if d = CHR ''='' then
                    (if rest = [] then
                       let v = ((x * 64 + y) * 64 + z) div 4
                       in Some [of_nat (v div 256), of_nat (v mod 256)]
                     else None)
                  else case b64_value d of None \<Rightarrow> None
                     | Some w \<Rightarrow>
                         let v = ((x * 64 + y) * 64 + z) * 64 + w
                         in map_option
                              (\<lambda>bs. of_nat (v div 65536) # of_nat (v div 256 mod 256) #
                                    of_nat (v mod 256) # bs)
                              (decode_groups rest)))
     | _ \<Rightarrow> None)"
| "decode_groups _ = None"

definition DecodeString :: "string \<Rightarrow> bytes option" where
  "DecodeString s = decode_groups (filter (\<lambda>c. c \<noteq> CHR 0x0A \<and> c \<noteq> CHR 0x0D) s)"

section \<open>Trimming white space\<close>

text \<open>
  The white space of \<open>unicode.IsSpace\<close>, as UTF-8: the six ASCII characters, U+0085, U+00A0,
  U+1680, U+2000 to U+200A, U+2028, U+2029, U+202F, U+205F and U+3000.
\<close>

definition space_runes :: "string list" where
  "space_runes =
    [[CHR 0x09], [CHR 0x0A], [CHR 0x0B], [CHR 0x0C], [CHR 0x0D], [CHR 0x20],
     [CHR 0xC2, CHR 0x85], [CHR 0xC2, CHR 0xA0], [CHR 0xE1, CHR 0x9A, CHR 0x80],
     [CHR 0xE2, CHR 0x80, CHR 0x80], [CHR 0xE2, CHR 0x80, CHR 0x81], [CHR 0xE2, CHR 0x80, CHR 0x82],
     [CHR 0xE2, CHR 0x80, CHR 0x83], [CHR 0xE2, CHR 0x80, CHR 0x84], [CHR 0xE2, CHR 0x80, CHR 0x85],
     [CHR 0xE2, CHR 0x80, CHR 0x86], [CHR 0xE2, CHR 0x80, CHR 0x87], [CHR 0xE2, CHR 0x80, CHR 0x88],
     [CHR 0xE2, CHR 0x80, CHR 0x89], [CHR 0xE2, CHR 0x80, CHR 0x8A], [CHR 0xE2, CHR 0x80, CHR 0xA8],
     [CHR 0xE2, CHR 0x80, CHR 0xA9], [CHR 0xE2, CHR 0x80, CHR 0xAF], [CHR 0xE2, CHR 0x81, CHR 0x9F],
     [CHR 0xE3, CHR 0x80, CHR 0x80]]"

definition starts_with :: "'a list \<Rightarrow> 'a list \<Rightarrow> bool" where
  "starts_with p s \<longleftrightarrow> take (length p) s = p"

text \<open>Removing the given sequences from the front of a string as long as one of them is there.\<close>

function trim_front :: "string list \<Rightarrow> string \<Rightarrow> string" where
  "trim_front rs s =
    (case find (\<lambda>r. r \<noteq> [] \<and> starts_with r s) rs of
       None \<Rightarrow> s
     | Some r \<Rightarrow> trim_front rs (drop (length r) s))"
  by pat_completeness auto
termination
proof (relation "measure (\<lambda>(rs, s). length s)")
  fix rs s r
  assume "find (\<lambda>r. r \<noteq> [] \<and> starts_with r s) rs = Some r"
  then have "r \<noteq> []" "take (length r) s = r"
    by (auto simp: find_Some_iff starts_with_def)
  then show "((rs, drop (length r) s), (rs, s)) \<in> measure (\<lambda>(rs, s). length s)"
    by (cases s) auto
qed simp

declare trim_front.simps [simp del]

definition TrimSpace :: "string \<Rightarrow> string" where
  "TrimSpace s = rev (trim_front (map rev space_runes) (rev (trim_front space_runes s)))"

section \<open>Keys\<close>

definition KeySize :: nat where [simp]: "KeySize = 32"

type_synonym Key = bytes

definition Key_zero :: Key where
  "Key_zero = replicate KeySize 0"

datatype key_error = ErrRandom | ErrEncoding | ErrKeyLength nat | ErrReadFile

text \<open>\<open>rnd\<close> is what \<open>rand.Read\<close> left in the key, \<open>None\<close> its error.\<close>

definition GeneratePrivateKey :: "bytes option \<Rightarrow> key_error + Key" where
  "GeneratePrivateKey rnd =
    (case rnd of None \<Rightarrow> Inl ErrRandom
     | Some k \<Rightarrow>
         let k = k[0 := k ! 0 AND 248];
             k = k[31 := k ! 31 AND 127];
             k = k[31 := k ! 31 OR 64]
         in Inr k)"

text \<open>
  \<open>x25519 scalar\<close> is the scalar multiplication with the base point, \<open>None\<close> its error, which
  the code ignores: \<open>copy\<close> of the nil result leaves the zero key.
\<close>

definition PublicKey :: "(bytes \<Rightarrow> bytes option) \<Rightarrow> Key \<Rightarrow> Key" where
  "PublicKey x25519 priv =
    (case x25519 priv of None \<Rightarrow> Key_zero | Some p \<Rightarrow> blit 0 (take KeySize p) Key_zero)"

definition Key_Parse :: "string \<Rightarrow> key_error + Key" where
  "Key_Parse s =
    (case DecodeString (TrimSpace s) of
       None \<Rightarrow> Inl ErrEncoding
     | Some b \<Rightarrow>
         (if length b \<noteq> KeySize then Inl (ErrKeyLength (length b)) else Inr (blit 0 b Key_zero)))"

definition LoadFile :: "(string \<Rightarrow> string option) \<Rightarrow> string \<Rightarrow> key_error + Key" where
  "LoadFile readFile path =
    (case readFile path of
       None \<Rightarrow> Inl ErrReadFile
     | Some b \<Rightarrow> (case Key_Parse b of Inl e \<Rightarrow> Inl e | Inr k \<Rightarrow> Inr k))"

definition Key_String :: "Key \<Rightarrow> string" where
  "Key_String k = EncodeToString k"

definition Key_IsZero :: "Key \<Rightarrow> bool" where
  "Key_IsZero k \<longleftrightarrow> k = Key_zero"

text \<open>The ellipsis is three bytes of UTF-8.\<close>

definition Key_ShortString :: "Key \<Rightarrow> string" where
  "Key_ShortString k = take 8 (Key_String k) @ [CHR 0xE2, CHR 0x80, CHR 0xA6]"

section \<open>Base64 decoding inverts encoding\<close>

lemma index_of_nth:
  "distinct xs \<Longrightarrow> i < length xs \<Longrightarrow> index_of (xs ! i) xs = Some i"
proof (induction xs arbitrary: i)
  case (Cons y ys)
  then show ?case by (cases i) (auto simp: nth_mem)
qed simp

lemma index_of_less: "index_of x xs = Some i \<Longrightarrow> i < length xs"
  by (induction xs arbitrary: i) (auto split: if_splits)

lemma index_of_mem: "index_of x xs = Some i \<Longrightarrow> x \<in> set xs"
  by (induction xs arbitrary: i) (auto split: if_splits)

lemma b64_alphabet_facts [simp]:
  "length b64_alphabet = 64" "distinct b64_alphabet" "CHR ''='' \<notin> set b64_alphabet"
  "CHR 0x0A \<notin> set b64_alphabet" "CHR 0x0D \<notin> set b64_alphabet"
  by (simp_all add: b64_alphabet_def)

lemma b64_value_digit [simp]: "n < 64 \<Longrightarrow> b64_value (b64_digit n) = Some n"
  by (simp add: b64_value_def b64_digit_def index_of_nth)

lemma b64_digit_in: "n < 64 \<Longrightarrow> b64_digit n \<in> set b64_alphabet"
  by (simp add: b64_digit_def)

lemma b64_digit_not_pad [simp]: "n < 64 \<Longrightarrow> b64_digit n \<noteq> CHR ''=''"
  using b64_digit_in [of n] b64_alphabet_facts(3) by metis

lemma unat_byte_less: "unat (b :: byte) < 256"
  using unsigned_less [of b] by (simp add: word_less_nat_alt)

lemma of_nat_unat_byte: "n = unat (b :: byte) \<Longrightarrow> of_nat n = b"
  by simp

lemma div_div: "v div a div b = v div (a * b)" for v a b :: nat
  by (simp add: div_mult2_eq)

lemma digit_join: "v div 64 * 64 + v mod 64 = v" for v :: nat
  by simp

lemma decode_group_two:
  assumes "x < 64" "y < 64" "z < 64"
  shows "decode_groups [b64_digit x, b64_digit y, b64_digit z, CHR ''=''] =
    Some [of_nat (((x * 64 + y) * 64 + z) div 4 div 256), of_nat (((x * 64 + y) * 64 + z) div 4 mod 256)]"
  using assms by (simp add: Let_def)

lemma decode_group_three:
  assumes "x < 64" "y < 64" "z < 64" "w < 64"
  shows "decode_groups ([b64_digit x, b64_digit y, b64_digit z, b64_digit w] @ rest) =
    map_option (\<lambda>bs. [of_nat ((((x * 64 + y) * 64 + z) * 64 + w) div 65536),
        of_nat ((((x * 64 + y) * 64 + z) * 64 + w) div 256 mod 256),
        of_nat ((((x * 64 + y) * 64 + z) * 64 + w) mod 256)] @ bs) (decode_groups rest)"
  using assms by (simp add: Let_def)

lemma decode_encode_groups: "decode_groups (EncodeToString bs) = Some bs"
proof (induction bs rule: EncodeToString.induct)
  case 1
  show ?case by simp
next
  case (2 a)
  have a: "unat a < 256" by (rule unat_byte_less)
  have "unat a * 16 div 64 < 64" "unat a * 16 mod 64 < 64" using a by simp_all
  moreover have "(unat a * 16 div 64 * 64 + unat a * 16 mod 64) div 16 = unat a"
    by (simp only: div_mult_mod_eq)
  ultimately show ?case by (simp add: Let_def del: div_mult_mult2 div_mult_mult1)
next
  case (3 a b)
  define v where "v = (unat a * 256 + unat b) * 4"
  have ab: "unat a < 256" "unat b < 256" by (rule unat_byte_less)+
  have d: "v div 4096 < 64" "v div 64 mod 64 < 64" "v mod 64 < 64"
    using ab by (simp_all add: v_def)
  have r: "((v div 4096 * 64 + v div 64 mod 64) * 64 + v mod 64) = v"
    using digit_join [of v] digit_join [of "v div 64"] by (simp add: div_div)
  have v4: "v div 4 = unat a * 256 + unat b" by (simp add: v_def)
  have "v div 4 div 256 = unat a" "v div 4 mod 256 = unat b" using ab by (simp_all add: v4)
  moreover have "EncodeToString [a, b] =
      [b64_digit (v div 4096), b64_digit (v div 64 mod 64), b64_digit (v mod 64), CHR ''='']"
    by (simp only: EncodeToString.simps Let_def v_def)
  ultimately show ?case using d r by (simp only: decode_group_two) simp
next
  case (4 a b c rest)
  define v where "v = (unat a * 256 + unat b) * 256 + unat c"
  have abc: "unat a < 256" "unat b < 256" "unat c < 256" by (rule unat_byte_less)+
  have d: "v div 262144 < 64" "v div 4096 mod 64 < 64" "v div 64 mod 64 < 64" "v mod 64 < 64"
    using abc by (simp_all add: v_def)
  have r: "((v div 262144 * 64 + v div 4096 mod 64) * 64 + v div 64 mod 64) * 64 + v mod 64 = v"
    using digit_join [of v] digit_join [of "v div 64"] digit_join [of "v div 4096"]
    by (simp add: div_div)
  have "v div 256 = unat a * 256 + unat b" using abc by (simp add: v_def)
  moreover have "v div 65536 = v div 256 div 256" by (simp add: div_div)
  ultimately have p: "v div 65536 = unat a" "v div 256 mod 256 = unat b"
    using abc by simp_all
  have pc: "v mod 256 = unat c" using abc by (simp add: v_def del: distrib_right_numeral)
  have "EncodeToString (a # b # c # rest) =
      [b64_digit (v div 262144), b64_digit (v div 4096 mod 64), b64_digit (v div 64 mod 64),
       b64_digit (v mod 64)] @ EncodeToString rest"
    by (simp only: EncodeToString.simps Let_def v_def)
  then show ?case using d r p pc "4.IH" by (simp only: decode_group_three) simp
qed

lemma set_EncodeToString: "set (EncodeToString bs) \<subseteq> insert (CHR ''='') (set b64_alphabet)"
proof (induction bs rule: EncodeToString.induct)
  case (2 a)
  have a: "unat a < 256" by (rule unat_byte_less)
  show ?case using a by (auto simp: Let_def intro!: b64_digit_in)
next
  case (3 a b)
  have ab: "unat a < 256" "unat b < 256" by (rule unat_byte_less)+
  show ?case using ab by (auto simp: Let_def intro!: b64_digit_in)
next
  case (4 a b c rest)
  have abc: "unat a < 256" "unat b < 256" "unat c < 256" by (rule unat_byte_less)+
  show ?case using abc "4.IH" by (auto simp: Let_def intro!: b64_digit_in)
qed simp

lemma DecodeString_EncodeToString [simp]: "DecodeString (EncodeToString bs) = Some bs"
proof -
  have "filter (\<lambda>c. c \<noteq> CHR 0x0A \<and> c \<noteq> CHR 0x0D) (EncodeToString bs) = EncodeToString bs"
    using set_EncodeToString [of bs] b64_alphabet_facts(4,5) by (intro filter_True) fastforce
  then show ?thesis by (simp add: DecodeString_def decode_encode_groups)
qed

section \<open>Trimming\<close>

definition no_space_start :: "char \<Rightarrow> bool" where
  "no_space_start c \<longleftrightarrow> (\<forall>r\<in>set (space_runes @ map rev space_runes). hd r \<noteq> c)"

lemma b64_no_space: "c \<in> insert (CHR ''='') (set b64_alphabet) \<Longrightarrow> no_space_start c"
  by (auto simp: no_space_start_def space_runes_def b64_alphabet_def)

lemma trim_front_stop:
  assumes "s = [] \<or> no_space_start (hd s)" and "set rs \<subseteq> set (space_runes @ map rev space_runes)"
  shows "trim_front rs s = s"
proof -
  have "\<not> (r \<noteq> [] \<and> starts_with r s)" if "r \<in> set rs" for r
  proof
    assume r: "r \<noteq> [] \<and> starts_with r s"
    then have "s \<noteq> []" "hd s = hd r"
      by (auto simp: starts_with_def) (metis hd_take length_greater_0_conv)
    moreover have "hd r \<noteq> hd s"
      using assms that \<open>s \<noteq> []\<close> by (auto simp: no_space_start_def)
    ultimately show False by simp
  qed
  then have "find (\<lambda>r. r \<noteq> [] \<and> starts_with r s) rs = None"
    by (auto simp: find_None_iff)
  then show ?thesis by (simp add: trim_front.simps)
qed

lemma trim_front_blank:
  "c \<in> {CHR 0x09, CHR 0x0A, CHR 0x0B, CHR 0x0C, CHR 0x0D, CHR 0x20} \<Longrightarrow>
    rs = space_runes \<or> rs = map rev space_runes \<Longrightarrow> trim_front rs (c # s) = trim_front rs s"
  by (subst trim_front.simps) (auto simp: space_runes_def starts_with_def)

lemma trim_front_blanks:
  "set ws \<subseteq> {CHR 0x09, CHR 0x0A, CHR 0x0B, CHR 0x0C, CHR 0x0D, CHR 0x20} \<Longrightarrow>
    rs = space_runes \<or> rs = map rev space_runes \<Longrightarrow> trim_front rs (ws @ s) = trim_front rs s"
  by (induction ws) (auto simp: trim_front_blank)

lemma TrimSpace_padded:
  assumes "set ws \<subseteq> {CHR 0x09, CHR 0x0A, CHR 0x0B, CHR 0x0C, CHR 0x0D, CHR 0x20}"
    and "set ws' \<subseteq> {CHR 0x09, CHR 0x0A, CHR 0x0B, CHR 0x0C, CHR 0x0D, CHR 0x20}"
    and "s \<noteq> []" and "no_space_start (hd s)" and "no_space_start (last s)"
  shows "TrimSpace (ws @ s @ ws') = s"
proof -
  have "trim_front space_runes (ws @ s @ ws') = s @ ws'"
    using assms by (simp add: trim_front_blanks trim_front_stop)
  moreover have "trim_front (map rev space_runes) (rev ws' @ rev s) = rev s"
    using assms by (subst trim_front_blanks) (auto simp: trim_front_stop hd_rev)
  ultimately show ?thesis by (simp add: TrimSpace_def)
qed

lemma Key_Parse_padded:
  assumes "length k = KeySize"
    and "set ws \<union> set ws' \<subseteq> {CHR 0x09, CHR 0x0A, CHR 0x0B, CHR 0x0C, CHR 0x0D, CHR 0x20}"
  shows "Key_Parse (ws @ Key_String k @ ws') = Inr k"
proof -
  let ?s = "EncodeToString k"
  have ne: "?s \<noteq> []" using assms(1) by (cases k rule: EncodeToString.cases) (auto simp: Let_def)
  have "set ?s \<subseteq> insert (CHR ''='') (set b64_alphabet)" by (rule set_EncodeToString)
  then have "no_space_start (hd ?s)" "no_space_start (last ?s)"
    using ne by (meson b64_no_space hd_in_set last_in_set subsetD)+
  then have "TrimSpace (ws @ ?s @ ws') = ?s" using assms(2) ne by (intro TrimSpace_padded) auto
  moreover have "blit 0 k Key_zero = k" using assms(1) by (simp add: blit_def Key_zero_def)
  ultimately show ?thesis using assms(1) by (simp add: Key_Parse_def Key_String_def)
qed

lemma Key_Parse_of_String: "length k = KeySize \<Longrightarrow> Key_Parse (Key_String k) = Inr k"
  using Key_Parse_padded [of k "[]" "[]"] by simp

section \<open>Properties\<close>

text \<open>
  The text form of a key reads back as the key, whatever blanks or newlines
  surround it in the key file.
\<close>

theorem Key_Parse_String:
  assumes "length k = KeySize"
    and "set ws \<union> set ws' \<subseteq> {CHR 0x09, CHR 0x0A, CHR 0x0B, CHR 0x0C, CHR 0x0D, CHR 0x20}"
  shows "LoadFile (\<lambda>_. Some (ws @ Key_String k @ ws')) path = Inr k"
  using Key_Parse_padded [OF assms] by (simp add: LoadFile_def)

theorem Key_Parse_String_witness:
  "LoadFile (\<lambda>_. Some ([] @ Key_String (replicate 32 7) @ [CHR 0x0A])) ''key'' = Inr (replicate 32 7)"
  by (rule Key_Parse_String) simp_all

text \<open>
  What \<open>Parse\<close> accepts is always a key of 32 bytes.
\<close>

lemma Key_Parse_length: "Key_Parse s = Inr k \<Longrightarrow> length k = KeySize"
  by (auto simp: Key_Parse_def Key_zero_def split: option.splits if_splits)

text \<open>
  A generated private key is a clamped X25519 scalar: as a number it is a multiple of 8 with
  bit 254 set and bit 255 clear, and the other bits are the random ones.
\<close>

theorem GeneratePrivateKey_clamped:
  assumes "length r = 32"
  shows "\<exists>k. GeneratePrivateKey (Some r) = Inr k \<and> length k = KeySize \<and>
    \<not> bit (k ! 31) 7 \<and> bit (k ! 31) 6 \<and> (\<forall>i<3. \<not> bit (k ! 0) i) \<and>
    (\<forall>i j. i < 32 \<and> j < 8 \<and> (i, j) \<notin> {(0, 0), (0, 1), (0, 2), (31, 6), (31, 7)} \<longrightarrow>
       bit (k ! i) j = bit (r ! i) j)"
proof -
  define k where "k = r[0 := r ! 0 AND 248, 31 := (r ! 31 AND 127) OR 64]"
  have k: "GeneratePrivateKey (Some r) = Inr k" "length k = 32"
    using assms by (simp_all add: GeneratePrivateKey_def k_def Let_def)
  have k0: "k ! 0 = r ! 0 AND 248" and k31: "k ! 31 = (r ! 31 AND 127) OR 64"
    and other: "\<And>i. i \<noteq> 0 \<Longrightarrow> i \<noteq> 31 \<Longrightarrow> k ! i = r ! i"
    using assms by (simp_all add: k_def)
  have m0: "bit (248 :: byte) j \<longleftrightarrow> 3 \<le> j \<and> j < 8" for j
    by (cases "j < 8") (auto simp: less_Suc_eq numeral_eq_Suc)
  have m31: "bit (127 :: byte) j \<longleftrightarrow> j < 7" "bit (64 :: byte) j \<longleftrightarrow> j = 6" for j
    by (cases "j < 8"; auto simp: less_Suc_eq numeral_eq_Suc)+
  have "bit (k ! i) j = bit (r ! i) j"
    if "i < 32" "j < 8" "(i, j) \<notin> {(0, 0), (0, 1), (0, 2), (31, 6), (31, 7)}" for i j
    using that other [of i] m0 [of j] m31 [of j]
    by (cases "i = 0"; cases "i = 31") (auto simp: k0 k31 bit_and_iff bit_or_iff)
  moreover have "\<not> bit (k ! 31) 7" "bit (k ! 31) 6"
    using m31 [of 6] m31 [of 7] by (simp_all add: k31 bit_and_iff bit_or_iff)
  moreover have "\<not> bit (k ! 0) i" if "i < 3" for i
    using m0 [of i] that by (auto simp: k0 bit_and_iff)
  ultimately show ?thesis using k unfolding KeySize_def by blast
qed

end
