(* ===== verification/Replay.thy ===== *)
theory Replay
  imports Wire Sliding_Window
begin

text \<open>
  The anti-replay window of \<open>internal/replay/replay.go\<close>: a ring of 32 blocks of 64
  bits, the highest counter seen, and \<open>Check\<close>, which reports whether a counter is
  acceptable and marks it. The window is interpreted as a \<open>sliding_window\<close>; the
  properties follow from the histories of that contract.
\<close>

definition blockBits :: nat where [simp]: "blockBits = 64"
definition WindowSize :: u64 where [simp]: "WindowSize = 2048"
definition numBlocks :: u64 where [simp]: "numBlocks = 32"

record Window =
  w_blocks :: "u64 garray"
  w_highest :: u64
  w_started :: bool

text \<open>The zero value of the struct.\<close>

definition Window_zero :: Window where
  "Window_zero = \<lparr>w_blocks = (\<lambda>_. 0), w_highest = 0, w_started = False\<rparr>"

text \<open>\<open>(counter >> blockShift) & blockMask\<close> and \<open>counter & bitMask\<close>.\<close>

definition block_index :: "u64 \<Rightarrow> nat" where
  "block_index block = unat (block AND 31)"

definition bit_index :: "u64 \<Rightarrow> nat" where
  "bit_index counter = unat (counter AND 63)"

text \<open>The loop \<open>for i := uint64(1); i <= diff; i++ { w.blocks[(curBlock+i)&blockMask] = 0 }\<close>.\<close>

primrec clear_blocks :: "u64 \<Rightarrow> nat \<Rightarrow> u64 garray \<Rightarrow> u64 garray" where
  "clear_blocks curBlock 0 bs = bs"
| "clear_blocks curBlock (Suc i) bs =
    (clear_blocks curBlock i bs)(block_index (curBlock + of_nat (Suc i)) := 0)"

text \<open>The common tail of \<open>Check\<close>: test the counter's bit, then set it.\<close>

definition Window_mark :: "Window \<Rightarrow> u64 \<Rightarrow> bool \<times> Window" where
  "Window_mark w counter =
    (let i = block_index (drop_bit 6 counter);
         bt = push_bit (bit_index counter) 1
     in if w_blocks w i AND bt \<noteq> 0 then (False, w)
        else (True, w\<lparr>w_blocks := (w_blocks w)(i := w_blocks w i OR bt)\<rparr>))"

definition Window_advance :: "Window \<Rightarrow> u64 \<Rightarrow> Window" where
  "Window_advance w counter =
    (let curBlock = drop_bit 6 (w_highest w);
         newBlock = drop_bit 6 counter;
         diff = newBlock - curBlock;
         diff' = (if numBlocks < diff then numBlocks else diff)
     in w\<lparr>w_blocks := clear_blocks curBlock (unat diff') (w_blocks w), w_highest := counter\<rparr>)"

definition Window_Check :: "Window \<Rightarrow> u64 \<Rightarrow> bool \<times> Window" where
  "Window_Check w counter =
    (if \<not> w_started w then
       (True, w\<lparr>w_started := True, w_highest := counter,
          w_blocks := (w_blocks w)
            (block_index (drop_bit 6 counter) := push_bit (bit_index counter) 1)\<rparr>)
     else if w_highest w < counter then Window_mark (Window_advance w counter) counter
     else if WindowSize \<le> w_highest w - counter then (False, w)
     else Window_mark w counter)"

section \<open>The window as a bitmap\<close>

definition Window_bit :: "Window \<Rightarrow> nat \<Rightarrow> bool" where
  "Window_bit w r = bitmap_at (w_blocks w) r"

lemma block_index_mod: "block_index b = unat b mod 32"
  using unat_and_mask [of b 5] by (simp add: block_index_def mask_eq_exp_minus_1)

lemma block_index_blk: "block_index (drop_bit 6 c) = blk c mod 32"
  by (simp add: block_index_mod unat_drop_bit blk_def)

lemma clear_blocks_ring:
  "n \<le> 32 \<Longrightarrow> clear_blocks (drop_bit 6 c) n bs = clear_ring 32 (blk c) n bs"
proof (induction n)
  case (Suc n)
  have "block_index (drop_bit 6 c + of_nat (Suc n)) = (blk c + Suc n) mod 32"
    using unat_block_plus [of "Suc n" c] Suc.prems by (simp only: block_index_mod)
  then show ?case using Suc by (simp del: of_nat_Suc)
qed simp

lemma Window_advance_bit:
  assumes "w_highest w < c"
  shows "Window_bit (Window_advance w c) r \<longleftrightarrow>
    Window_bit w r \<and> \<not> (\<exists>b. blk (w_highest w) < b \<and> b \<le> blk c \<and> b mod 32 = r div 64)"
proof -
  have le: "w_highest w \<le> c" using assms by simp
  show ?thesis
    using unat_clamped_distance [OF le, of numBlocks 32] bitmap_at_clear [OF blk_mono [OF le]]
    by (simp add: Window_bit_def Window_advance_def Let_def clear_blocks_ring)
qed

lemma Window_advance_fields [simp]:
  "w_highest (Window_advance w c) = c" "w_started (Window_advance w c) = w_started w"
  by (simp_all add: Window_advance_def Let_def)

lemma Window_mark_fields [simp]:
  "w_highest (snd (Window_mark w c)) = w_highest w" "w_started (snd (Window_mark w c)) = w_started w"
  by (simp_all add: Window_mark_def Let_def)

lemma Window_mark_fresh: "fst (Window_mark w c) \<longleftrightarrow> \<not> Window_bit w (win_pos 32 c)"
  by (simp add: Window_mark_def Let_def Window_bit_def bitmap_at_pos block_index_blk bit_index_def
      unat_and_63 and_exp_eq_0)

lemma Window_mark_bit:
  "Window_bit (snd (Window_mark w c)) r \<longleftrightarrow> Window_bit w r \<or> r = win_pos 32 c"
  using bitmap_at_set [of "w_blocks w" c 32 r] bitmap_at_pos [of "w_blocks w" 32 c]
  by (auto simp: Window_mark_def Let_def Window_bit_def block_index_blk bit_index_def
      unat_and_63 and_exp_eq_0)

interpretation replay: sliding_window 32 Window_Check w_started w_highest Window_bit
    "\<lambda>w. w = Window_zero"
proof unfold_locales
  fix w :: Window and c :: u64
  show "(0 :: nat) < 32" by simp
  show "w = Window_zero \<Longrightarrow> \<not> w_started w" by (simp add: Window_zero_def)
  show "fst (Window_Check w c) \<and> w_started (snd (Window_Check w c)) \<and>
      w_highest (snd (Window_Check w c)) = c \<and>
      (\<forall>r<64 * 32. Window_bit (snd (Window_Check w c)) r = (r = win_pos 32 c))"
    if "w = Window_zero"
    using that bitmap_at_only [of c 32]
    by (simp add: Window_Check_def Window_zero_def Window_bit_def block_index_blk bit_index_def
        unat_and_63)
  show "Window_Check w c = (False, w)"
    if "w_started w" "c \<le> w_highest w" "64 * 32 \<le> unat (w_highest w) - unat c"
    using that by (simp add: Window_Check_def word_le_nat_alt word_less_nat_alt unat_diff)
  show "fst (Window_Check w c) = (\<not> Window_bit w (win_pos 32 c)) \<and>
      w_started (snd (Window_Check w c)) \<and> w_highest (snd (Window_Check w c)) = w_highest w \<and>
      (\<forall>r<64 * 32. Window_bit (snd (Window_Check w c)) r = (Window_bit w r \<or> r = win_pos 32 c))"
    if "w_started w" "c \<le> w_highest w" "unat (w_highest w) - unat c < 64 * 32"
  proof -
    have "Window_Check w c = Window_mark w c"
      using that by (simp add: Window_Check_def word_le_nat_alt word_less_nat_alt unat_diff)
    then show ?thesis using that(1) by (simp add: Window_mark_fresh Window_mark_bit)
  qed
  show "fst (Window_Check w c) =
        (\<not> Window_bit w (win_pos 32 c) \<or> blk (w_highest w) < blk c) \<and>
      w_started (snd (Window_Check w c)) \<and> w_highest (snd (Window_Check w c)) = c \<and>
      (\<forall>r<64 * 32. Window_bit (snd (Window_Check w c)) r =
        (Window_bit w r \<and> \<not> (\<exists>b>blk (w_highest w). b \<le> blk c \<and> b mod 32 = r div 64) \<or>
         r = win_pos 32 c))"
    if "w_started w" "w_highest w < c"
  proof -
    have "Window_Check w c = Window_mark (Window_advance w c) c"
      using that by (simp add: Window_Check_def)
    moreover have "(\<exists>b>blk (w_highest w). b \<le> blk c \<and> b mod 32 = blk c mod 32) \<longleftrightarrow>
        blk (w_highest w) < blk c"
      by auto
    moreover have "win_pos 32 c < 2048" by (simp add: win_pos_def)
    ultimately show ?thesis
      using that by (simp add: Window_mark_fresh Window_mark_bit Window_advance_bit win_pos_div)
  qed
qed

section \<open>Properties of the anti-replay window\<close>

text \<open>
  No replay: once a counter has been accepted, a later presentation of the
  same counter is rejected, whatever was received in between, as long as the highest
  counter received so far is at most 1984 (31 blocks of 64) ahead of it.
\<close>

theorem replay_rejected:
  assumes "fst (Window_Check (win_run Window_Check Window_zero pre) c)"
    and "unat (w_highest (win_run Window_Check Window_zero (pre @ c # post))) \<le> unat c + 1984"
  shows "\<not> fst (Window_Check (win_run Window_Check Window_zero (pre @ c # post)) c)"
proof -
  let ?w = "win_run Window_Check Window_zero pre"
  have "?w = Window_zero \<or> w_started ?w" by (rule replay.run_pristine) simp
  then have "\<not> fst (Window_Check (win_run Window_Check ?w (c # post)) c)"
    using assms by (intro replay.no_second_acceptance replay.near_blocks) simp_all
  then show ?thesis by simp
qed

theorem replay_rejected_witness:
  "fst (Window_Check Window_zero 5) \<and>
   \<not> fst (Window_Check (win_run Window_Check Window_zero [5, 1700, 6]) 5)"
proof -
  have "fst (Window_Check (win_run Window_Check Window_zero []) 5)"
    by (simp add: Window_Check_def Window_zero_def)
  moreover have "unat (w_highest (win_run Window_Check Window_zero ([] @ 5 # [1700, 6]))) \<le> unat (5 :: u64) + 1984"
    by (simp add: Window_Check_def Window_zero_def Window_mark_def Window_advance_def Let_def
        word_less_nat_alt word_le_nat_alt)
  ultimately show ?thesis using replay_rejected [of "[]" 5 "[1700, 6]"] by simp
qed

text \<open>
  Property C13. Refinement of the ideal window: on a history in which every counter arrives
  ahead of the highest one, or at most 31 blocks behind it, or too late by the whole
  window, \<open>Check\<close> accepts a counter exactly when it has not been presented before and no
  earlier counter is 2048 or more ahead of it. New packets are never dropped, old and
  repeated ones always are.
\<close>

theorem replay_refines_ideal:
  assumes "orderly_run 32 w_highest Window_Check Window_zero (cs @ [c])"
  shows "fst (Window_Check (win_run Window_Check Window_zero cs) c) \<longleftrightarrow>
    c \<notin> set cs \<and> (\<forall>x\<in>set cs. unat x < unat c + 2048)"
  using replay.ideal_verdict [OF _ assms] by simp

theorem replay_refines_ideal_witness:
  "fst (Window_Check (win_run Window_Check Window_zero [10, 12]) 11)"
proof -
  have "orderly_run 32 w_highest Window_Check Window_zero ([10, 12] @ [11])"
    by (simp add: orderly_arrival_def blk_def Window_Check_def Window_zero_def Window_mark_def
        Window_advance_def Let_def)
  from replay_refines_ideal [OF this] show ?thesis by simp
qed

text \<open>
  The window is one block too wide for its ring: a counter more than 1984 and
  less than \<open>WindowSize\<close> behind the highest one can share its bitmap block with the
  block of the highest counter, which was cleared when the head entered it. Counter 1 is
  accepted, then counter 2048, then counter 1 again; and after that the new counter 2049 is
  rejected as a duplicate.
\<close>

theorem replay_accepted_at_window_edge:
  "fst (Window_Check Window_zero 1) \<and>
   (2048 :: u64) - 1 < WindowSize \<and>
   fst (Window_Check (win_run Window_Check Window_zero [1, 2048]) 1) \<and>
   \<not> fst (Window_Check (win_run Window_Check Window_zero [1, 2048, 1]) 2049)"
proof -
  let ?w1 = "snd (Window_Check Window_zero 1)"
  let ?w2 = "snd (Window_Check ?w1 2048)"
  let ?w3 = "snd (Window_Check ?w2 1)"
  have nums: "blk 1 = 0" "blk 2048 = 32" "blk 2049 = 32" "win_pos 32 1 = 1" "win_pos 32 2048 = 0"
    "win_pos 32 2049 = 1" "(1 :: u64) < 2048" "(1 :: u64) \<le> 2048" "(2048 :: u64) < 2049"
    by (simp_all add: blk_def win_pos_def word_less_nat_alt word_le_nat_alt)
  have w1: "fst (Window_Check Window_zero 1)" "w_started ?w1" "w_highest ?w1 = 1"
    using replay.chk_first [of Window_zero 1] by simp_all
  have w2: "w_started ?w2" "w_highest ?w2 = 2048" "\<not> Window_bit ?w2 1"
    using replay.chk_advance [of ?w1 2048] w1 nums by (auto intro: exI [of _ 32])
  have w3: "fst (Window_Check ?w2 1)" "w_started ?w3" "w_highest ?w3 = 2048" "Window_bit ?w3 1"
    using replay.chk_within [of ?w2 1] w2 nums by simp_all
  have "\<not> fst (Window_Check ?w3 2049)"
    using replay.chk_advance [of ?w3 2049] w3 nums by simp
  with w1 w3 show ?thesis by (simp add: word_less_nat_alt)
qed

end
