(* ===== verification/Noiseio.thy ===== *)
theory Noiseio
  imports Keys Replay
begin

text \<open>
  The cryptographic state of an epoch and the handshake wrappers, \<open>internal/noiseio/noiseio.go\<close>.

  The libraries it calls are not part of the repository and are parameters. \<open>Crypto\<close> holds
  HKDF over BLAKE2s (\<open>hkdf_Extract ikm salt\<close>; \<open>hkdf_Expand prk info n\<close>, the first \<open>n\<close>
  bytes read, \<open>None\<close> for an error) and \<open>chacha20poly1305.New\<close>, which gives an \<open>AEAD\<close>: the
  \<open>cipher.AEAD\<close> interface as a record of its two operations. \<open>Noise\<close> holds the handshake
  state machine of \<open>github.com/flynn/noise\<close>, over a type of states the code never looks into;
  a write takes the random bytes the library draws. The \<open>dst\<close> argument of \<open>Seal\<close> and \<open>Open\<close>
  is the slice their result is appended to. The arrays have \<open>MaxPaths\<close> entries; indexing
  with a larger path id panics, which is \<open>None\<close>. The current time and the random seeds are
  arguments.
\<close>

section \<open>The libraries\<close>

record AEAD =
  a_Seal :: "bytes \<Rightarrow> bytes \<Rightarrow> bytes \<Rightarrow> bytes"
  a_Open :: "bytes \<Rightarrow> bytes \<Rightarrow> bytes \<Rightarrow> bytes option"

record Crypto =
  hkdf_Extract :: "bytes \<Rightarrow> bytes \<Rightarrow> bytes"
  hkdf_Expand :: "bytes \<Rightarrow> bytes \<Rightarrow> nat \<Rightarrow> bytes option"
  chacha_New :: "bytes \<Rightarrow> AEAD option"

record NoiseConfig =
  nc_Initiator :: bool
  nc_Prologue :: bytes
  nc_StaticPrivate :: bytes
  nc_StaticPublic :: bytes
  nc_PresharedKey :: bytes
  nc_PresharedKeyPlacement :: nat
  nc_PeerStatic :: bytes

record 'hs Noise =
  ns_NewHandshakeState :: "NoiseConfig \<Rightarrow> 'hs option"
  ns_WriteMessage :: "bytes \<Rightarrow> 'hs \<Rightarrow> bytes \<Rightarrow> (bytes \<times> 'hs) option"
  ns_ReadMessage :: "'hs \<Rightarrow> bytes \<Rightarrow> bytes option \<times> 'hs"
  ns_SetPresharedKey :: "'hs \<Rightarrow> bytes \<Rightarrow> 'hs option"
  ns_PeerStatic :: "'hs \<Rightarrow> bytes"
  ns_ChannelBinding :: "'hs \<Rightarrow> bytes"
  ns_X25519 :: "bytes \<Rightarrow> bytes option"

datatype noise_error = ErrAuth | ErrWire wire_error | ErrVersion byte | ErrLibrary

definition prologue :: bytes where
  "prologue = str_bytes ''amane v1''"

definition newConfig :: "'hs Noise \<Rightarrow> Key \<Rightarrow> Key \<Rightarrow> bool \<Rightarrow> NoiseConfig" where
  "newConfig ns priv psk initiator =
    (let pub = PublicKey (ns_X25519 ns) priv
     in \<lparr>nc_Initiator = initiator, nc_Prologue = prologue, nc_StaticPrivate = priv,
         nc_StaticPublic = pub, nc_PresharedKey = psk, nc_PresharedKeyPlacement = 2,
         nc_PeerStatic = []\<rparr>)"

section \<open>Epochs\<close>

record Epoch =
  ep_txID :: u32
  ep_rxID :: u32
  ep_createdAt :: int
  ep_send :: "AEAD option garray"
  ep_recv :: "AEAD option garray"
  ep_ctr :: "u64 garray"
  ep_win :: "Window garray"

definition AEADKeySize :: nat where [simp]: "AEADKeySize = 32"
definition NonceSize :: nat where [simp]: "NonceSize = 12"

definition key_info :: "string \<Rightarrow> byte \<Rightarrow> bytes" where
  "key_info dir pathID = str_bytes (''amane-v1 '' @ dir @ '' path '') @ [pathID]"

definition deriveAEAD :: "Crypto \<Rightarrow> bytes \<Rightarrow> string \<Rightarrow> byte \<Rightarrow> AEAD option" where
  "deriveAEAD c prk dir pathID =
    (case hkdf_Expand c prk (key_info dir pathID) AEADKeySize of
       None \<Rightarrow> None
     | Some key \<Rightarrow> chacha_New c key)"

text \<open>The loop over the paths in \<open>newEpoch\<close>: the first error ends it.\<close>

fun derive_paths :: "Crypto \<Rightarrow> bytes \<Rightarrow> string \<Rightarrow> string \<Rightarrow> nat list \<Rightarrow> Epoch \<Rightarrow> Epoch option" where
  "derive_paths c prk sendDir recvDir [] e = Some e"
| "derive_paths c prk sendDir recvDir (p # ps) e =
    (case deriveAEAD c prk sendDir (of_nat p) of
       None \<Rightarrow> None
     | Some s \<Rightarrow>
         (case deriveAEAD c prk recvDir (of_nat p) of
            None \<Rightarrow> None
          | Some r \<Rightarrow>
              derive_paths c prk sendDir recvDir ps
                (e\<lparr>ep_send := (ep_send e)(p := Some s), ep_recv := (ep_recv e)(p := Some r)\<rparr>)))"

definition newEpoch ::
  "Crypto \<Rightarrow> int \<Rightarrow> bytes \<Rightarrow> bytes \<Rightarrow> bytes \<Rightarrow> u32 \<Rightarrow> u32 \<Rightarrow> bool \<Rightarrow> Epoch option" where
  "newEpoch c now clientSeed serverSeed channelBinding txID rxID isClient =
    (let prk = hkdf_Extract c (clientSeed @ serverSeed) channelBinding;
         e = \<lparr>ep_txID = txID, ep_rxID = rxID, ep_createdAt = now, ep_send = (\<lambda>_. None),
              ep_recv = (\<lambda>_. None), ep_ctr = (\<lambda>_. 0), ep_win = (\<lambda>_. Window_zero)\<rparr>;
         (sendDir, recvDir) = (if isClient then (''c2s'', ''s2c'') else (''s2c'', ''c2s''))
     in derive_paths c prk sendDir recvDir [0..<MaxPaths] e)"

definition NextCounter :: "Epoch \<Rightarrow> byte \<Rightarrow> (u64 \<times> Epoch) option" where
  "NextCounter e pathID =
    (let p = unat pathID in
     if MaxPaths \<le> p then None
     else let v = ep_ctr e p + 1 in Some (v, e\<lparr>ep_ctr := (ep_ctr e)(p := v)\<rparr>))"

definition SendCounter :: "Epoch \<Rightarrow> byte \<Rightarrow> u64 option" where
  "SendCounter e pathID =
    (if MaxPaths \<le> unat pathID then None else Some (ep_ctr e (unat pathID)))"

definition nonceFor :: "u64 \<Rightarrow> bytes" where
  "nonceFor counter =
    (replicate NonceSize 0)[4 := ucast counter, 5 := ucast (drop_bit 8 counter),
       6 := ucast (drop_bit 16 counter), 7 := ucast (drop_bit 24 counter),
       8 := ucast (drop_bit 32 counter), 9 := ucast (drop_bit 40 counter),
       10 := ucast (drop_bit 48 counter), 11 := ucast (drop_bit 56 counter)]"

definition Epoch_Seal :: "Epoch \<Rightarrow> byte \<Rightarrow> u64 \<Rightarrow> bytes \<Rightarrow> bytes \<Rightarrow> bytes \<Rightarrow> bytes option" where
  "Epoch_Seal e pathID counter dst plaintext ad =
    (if MaxPaths \<le> unat pathID then None
     else case ep_send e (unat pathID) of
         None \<Rightarrow> None
       | Some a \<Rightarrow> Some (dst @ a_Seal a (nonceFor counter) plaintext ad))"

definition Epoch_Open ::
  "Epoch \<Rightarrow> byte \<Rightarrow> u64 \<Rightarrow> bytes \<Rightarrow> bytes \<Rightarrow> bytes \<Rightarrow> (noise_error + bytes) option" where
  "Epoch_Open e pathID counter dst ciphertext ad =
    (if MaxPaths \<le> unat pathID then None
     else case ep_recv e (unat pathID) of
         None \<Rightarrow> None
       | Some a \<Rightarrow>
           (case a_Open a (nonceFor counter) ciphertext ad of
              None \<Rightarrow> Some (Inl ErrAuth)
            | Some pt \<Rightarrow> Some (Inr (dst @ pt))))"

definition CheckReplay :: "Epoch \<Rightarrow> byte \<Rightarrow> u64 \<Rightarrow> (bool \<times> Epoch) option" where
  "CheckReplay e pathID counter =
    (let p = unat pathID in
     if MaxPaths \<le> p then None
     else let (ok, w) = Window_Check (ep_win e p) counter
          in Some (ok, e\<lparr>ep_win := (ep_win e)(p := w)\<rparr>))"

section \<open>Handshakes\<close>

record 'hs ClientHandshake =
  ch_hs :: 'hs
  ch_seed :: bytes
  ch_rxID :: u32

definition NewClientHandshake ::
  "'hs Noise \<Rightarrow> bytes option \<Rightarrow> Key \<Rightarrow> Key \<Rightarrow> Key \<Rightarrow> u32 \<Rightarrow> 'hs ClientHandshake option" where
  "NewClientHandshake ns rnd priv serverPub psk rxID =
    (case ns_NewHandshakeState ns ((newConfig ns priv psk True)\<lparr>nc_PeerStatic := serverPub\<rparr>) of
       None \<Rightarrow> None
     | Some hs \<Rightarrow>
         (case rnd of None \<Rightarrow> None
          | Some seed \<Rightarrow> Some \<lparr>ch_hs = hs, ch_seed = seed, ch_rxID = rxID\<rparr>))"

definition InitMessage ::
  "'hs Noise \<Rightarrow> bytes \<Rightarrow> 'hs ClientHandshake \<Rightarrow> u64 \<Rightarrow> (bytes \<times> 'hs ClientHandshake) option" where
  "InitMessage ns rnd h timestampNs =
    (case InitPayload_Marshal
        \<lparr>ip_Version = ProtocolVersion, ip_Seed = ch_seed h, ip_TimestampNs = timestampNs\<rparr>
        (replicate InitPayloadSize 0) of
       None \<Rightarrow> None
     | Some buf \<Rightarrow>
         (case ns_WriteMessage ns rnd (ch_hs h) buf of
            None \<Rightarrow> None
          | Some (msg, hs) \<Rightarrow> Some (msg, h\<lparr>ch_hs := hs\<rparr>)))"

definition Finish ::
  "Crypto \<Rightarrow> 'hs Noise \<Rightarrow> int \<Rightarrow> 'hs ClientHandshake \<Rightarrow> bytes \<Rightarrow>
    (noise_error + Epoch) \<times> 'hs ClientHandshake" where
  "Finish c ns now h respMsg =
    (case ns_ReadMessage ns (ch_hs h) respMsg of
       (None, hs) \<Rightarrow> (Inl ErrAuth, h\<lparr>ch_hs := hs\<rparr>)
     | (Some payload, hs) \<Rightarrow>
         (case ParseRespPayload payload of
            Inl e \<Rightarrow> (Inl (ErrWire e), h\<lparr>ch_hs := hs\<rparr>)
          | Inr rp \<Rightarrow>
              (case newEpoch c now (ch_seed h) (rp_Seed rp) (ns_ChannelBinding ns hs)
                  (rp_SessionID rp) (ch_rxID h) True of
                 None \<Rightarrow> (Inl ErrLibrary, h\<lparr>ch_hs := hs\<rparr>)
               | Some ep \<Rightarrow> (Inr ep, h\<lparr>ch_hs := hs\<rparr>))))"

record 'hs ServerHandshake =
  sh_hs :: 'hs
  sh_payload :: InitPayload
  sh_peer :: Key

definition ConsumeInit ::
  "'hs Noise \<Rightarrow> Key \<Rightarrow> bytes \<Rightarrow> noise_error + 'hs ServerHandshake" where
  "ConsumeInit ns serverPriv msg =
    (case ns_NewHandshakeState ns (newConfig ns serverPriv Key_zero False) of
       None \<Rightarrow> Inl ErrLibrary
     | Some hs \<Rightarrow>
         (case ns_ReadMessage ns hs msg of
            (None, _) \<Rightarrow> Inl ErrAuth
          | (Some payload, hs) \<Rightarrow>
              (case ParseInitPayload payload of
                 Inl e \<Rightarrow> Inl (ErrWire e)
               | Inr p \<Rightarrow>
                   (if ip_Version p \<noteq> ProtocolVersion then Inl (ErrVersion (ip_Version p))
                    else Inr \<lparr>sh_hs = hs, sh_payload = p,
                              sh_peer = blit 0 (take KeySize (ns_PeerStatic ns hs)) Key_zero\<rparr>))))"

definition Respond ::
  "Crypto \<Rightarrow> 'hs Noise \<Rightarrow> int \<Rightarrow> bytes option \<Rightarrow> bytes \<Rightarrow> 'hs ServerHandshake \<Rightarrow> Key \<Rightarrow> u32 \<Rightarrow> u32 \<Rightarrow>
    (bytes \<times> Epoch) option" where
  "Respond c ns now seed rnd h psk rxID txID =
    (case (if Key_IsZero psk then Some (sh_hs h) else ns_SetPresharedKey ns (sh_hs h) psk) of
       None \<Rightarrow> None
     | Some hs \<Rightarrow>
         (case seed of None \<Rightarrow> None
          | Some seed \<Rightarrow>
              (case RespPayload_Marshal \<lparr>rp_Seed = seed, rp_SessionID = rxID\<rparr>
                  (replicate RespPayloadSize 0) of
                 None \<Rightarrow> None
               | Some buf \<Rightarrow>
                   (case ns_WriteMessage ns rnd hs buf of
                      None \<Rightarrow> None
                    | Some (msg, hs) \<Rightarrow>
                        (case newEpoch c now (ip_Seed (sh_payload h)) seed
                            (ns_ChannelBinding ns hs) txID rxID False of
                           None \<Rightarrow> None
                         | Some ep \<Rightarrow> Some (msg, ep))))))"

section \<open>Nonces and keys\<close>

lemma nonceFor_put: "nonceFor counter = replicate 4 0 @ put_le 8 counter"
  by (simp add: nonceFor_def numeral_eq_Suc)

lemma nonceFor_length [simp]: "length (nonceFor counter) = NonceSize"
  by (simp add: nonceFor_put)

lemma nonceFor_inj [simp]: "nonceFor a = nonceFor b \<longleftrightarrow> a = b"
proof
  assume "nonceFor a = nonceFor b"
  then have "get_le (put_le 8 a) = (get_le (put_le 8 b) :: u64)" by (simp add: nonceFor_put)
  then show "a = b" by (simp add: get_le_put_le_full)
qed simp

lemma key_info_inj:
  "key_info d p = key_info d' p' \<longleftrightarrow> d = d' \<and> p = p'"
  if "d \<in> {''c2s'', ''s2c''}" "d' \<in> {''c2s'', ''s2c''}"
  using that by (auto simp: key_info_def str_bytes_def)

lemma derive_paths_fields:
  "derive_paths c prk sd rd ps e = Some e' \<Longrightarrow>
    ep_txID e' = ep_txID e \<and> ep_rxID e' = ep_rxID e \<and> ep_createdAt e' = ep_createdAt e \<and>
    ep_ctr e' = ep_ctr e \<and> ep_win e' = ep_win e"
  by (induction ps arbitrary: e) (fastforce split: option.splits)+

lemma derive_paths_keys:
  "derive_paths c prk sd rd ps e = Some e' \<Longrightarrow> distinct ps \<Longrightarrow>
    ep_send e' = (\<lambda>p. if p \<in> set ps then deriveAEAD c prk sd (of_nat p) else ep_send e p) \<and>
    ep_recv e' = (\<lambda>p. if p \<in> set ps then deriveAEAD c prk rd (of_nat p) else ep_recv e p)"
proof (induction ps arbitrary: e)
  case (Cons p ps)
  from Cons.prems show ?case
    by (auto split: option.splits dest!: Cons.IH intro!: ext)
qed auto

lemma derive_paths_some:
  "(\<exists>e'. derive_paths c prk sd rd ps e = Some e') \<longleftrightarrow>
    (\<forall>p\<in>set ps. deriveAEAD c prk sd (of_nat p) \<noteq> None \<and> deriveAEAD c prk rd (of_nat p) \<noteq> None)"
  by (induction ps arbitrary: e) (auto split: option.splits)

text \<open>The directions of the two sides, client first.\<close>

definition send_dir :: "bool \<Rightarrow> string" where
  "send_dir isClient = (if isClient then ''c2s'' else ''s2c'')"

lemma newEpoch_fields:
  assumes "newEpoch c now cs ss cb tx rx cl = Some e"
  shows "ep_txID e = tx" "ep_rxID e = rx" "ep_createdAt e = now" "ep_ctr e = (\<lambda>_. 0)"
    "ep_win e = (\<lambda>_. Window_zero)"
  using assms by (auto simp: newEpoch_def Let_def dest!: derive_paths_fields split: if_splits)

lemma newEpoch_keys:
  assumes "newEpoch c now cs ss cb tx rx cl = Some e" and "p < 32"
  shows "ep_send e p = deriveAEAD c (hkdf_Extract c (cs @ ss) cb) (send_dir cl) (of_nat p)"
    and "ep_recv e p = deriveAEAD c (hkdf_Extract c (cs @ ss) cb) (send_dir (\<not> cl)) (of_nat p)"
    and "ep_send e p \<noteq> None" and "ep_recv e p \<noteq> None"
proof -
  obtain e0 where e0: "derive_paths c (hkdf_Extract c (cs @ ss) cb) (send_dir cl) (send_dir (\<not> cl))
      [0..<MaxPaths] e0 = Some e"
    using assms(1) by (auto simp: newEpoch_def Let_def send_dir_def split: if_splits)
  from derive_paths_keys [OF e0] assms(2)
  show keys: "ep_send e p = deriveAEAD c (hkdf_Extract c (cs @ ss) cb) (send_dir cl) (of_nat p)"
    "ep_recv e p = deriveAEAD c (hkdf_Extract c (cs @ ss) cb) (send_dir (\<not> cl)) (of_nat p)"
    by simp_all
  have "p \<in> set [0..<MaxPaths]" using assms(2) by simp
  with e0 derive_paths_some show "ep_send e p \<noteq> None" "ep_recv e p \<noteq> None"
    unfolding keys by metis+
qed

lemma newEpoch_both:
  "newEpoch c now cs ss cb tx rx cl = Some e \<Longrightarrow> \<exists>e'. newEpoch c now' cs ss cb tx' rx' (\<not> cl) = Some e'"
proof -
  assume "newEpoch c now cs ss cb tx rx cl = Some e"
  then have "\<exists>e'. derive_paths c (hkdf_Extract c (cs @ ss) cb) (send_dir cl) (send_dir (\<not> cl))
      [0..<MaxPaths] e0 = Some e'" for e0
    by (subst derive_paths_some)
      (auto simp: newEpoch_def Let_def send_dir_def dest!: derive_paths_some [THEN iffD1, OF exI])
  then show ?thesis
    unfolding derive_paths_some
    by (auto simp: newEpoch_def Let_def send_dir_def derive_paths_some)
qed

text \<open>A sequence of \<open>NextCounter\<close> calls, each on the path given, with the counters handed out.\<close>

fun draws :: "Epoch \<Rightarrow> byte list \<Rightarrow> (byte \<times> u64) list option" where
  "draws e [] = Some []"
| "draws e (p # ps) =
    (case NextCounter e p of None \<Rightarrow> None
     | Some (v, e') \<Rightarrow> map_option (\<lambda>ds. (p, v) # ds) (draws e' ps))"

lemma draws_increase:
  assumes "draws e ps = Some ds" and "\<forall>p. unat (ep_ctr e p) + length ps < 2 ^ 64"
  shows "distinct ds \<and> (\<forall>(p, v)\<in>set ds. unat (ep_ctr e (unat p)) < unat v)"
  using assms
proof (induction ps arbitrary: e ds)
  case (Cons p ps)
  from Cons.prems(1) obtain ds' where lt: "\<not> 32 \<le> unat p" and ds: "ds = (p, ep_ctr e (unat p) + 1) # ds'"
    and rest: "draws (e\<lparr>ep_ctr := (ep_ctr e)(unat p := ep_ctr e (unat p) + 1)\<rparr>) ps = Some ds'"
    by (auto simp: NextCounter_def Let_def split: if_splits)
  have u: "unat (ep_ctr e (unat p) + 1) = unat (ep_ctr e (unat p)) + 1"
    using Cons.prems(2) [rule_format, of "unat p"] by (simp add: unat_word_ariths)
  have ih: "distinct ds' \<and> (\<forall>(q, v)\<in>set ds'.
      unat (((ep_ctr e)(unat p := ep_ctr e (unat p) + 1)) (unat q)) < unat v)"
  proof -
    have "unat (((ep_ctr e)(unat p := ep_ctr e (unat p) + 1)) q) + length ps < 2 ^ 64" for q
      using Cons.prems(2) [rule_format, of q] u by auto
    then show ?thesis using Cons.IH [OF rest] by simp
  qed
  then have "unat (ep_ctr e (unat q)) < unat v" if "(q, v) \<in> set ds'" for q v
    using that u by (fastforce split: if_splits)
  moreover have "(p, ep_ctr e (unat p) + 1) \<notin> set ds'" using ih by fastforce
  ultimately show ?case using ih u by (auto simp: ds)
qed simp


text \<open>
  A concrete instance of the libraries, to evaluate on: the cipher leaves the plaintext and
  appends a tag of 16 copies of the first key byte, the key derivation answers with the last
  byte of its label, and the handshake sends the payload behind the sender's key.
\<close>

definition plain_aead :: "byte \<Rightarrow> AEAD" where
  "plain_aead k = \<lparr>a_Seal = (\<lambda>n pt ad. pt @ replicate 16 k),
     a_Open = (\<lambda>n ct ad. if 16 \<le> length ct \<and> drop (length ct - 16) ct = replicate 16 k
       then Some (take (length ct - 16) ct) else None)\<rparr>"

definition plain_crypto :: Crypto where
  "plain_crypto = \<lparr>hkdf_Extract = (\<lambda>ikm salt. ikm @ salt),
     hkdf_Expand = (\<lambda>prk info n. Some (replicate n (last info))),
     chacha_New = (\<lambda>key. if length key = 32 then Some (plain_aead (hd key)) else None)\<rparr>"

definition plain_noise :: "(bytes \<times> bytes \<times> bytes) Noise" where
  "plain_noise = \<lparr>
     ns_NewHandshakeState = (\<lambda>cfg. Some (nc_StaticPublic cfg, nc_PeerStatic cfg, nc_PresharedKey cfg)),
     ns_WriteMessage = (\<lambda>r (own, peer, psk) pl. Some (own @ pl, (own, peer, psk))),
     ns_ReadMessage = (\<lambda>(own, peer, psk) m. (Some (drop 32 m), (own, take 32 m, psk))),
     ns_SetPresharedKey = (\<lambda>(own, peer, psk) k. Some (own, peer, k)),
     ns_PeerStatic = (\<lambda>(own, peer, psk). peer), ns_ChannelBinding = (\<lambda>(own, peer, psk). psk),
     ns_X25519 = (\<lambda>k. Some k)\<rparr>"

lemma plain_newEpoch: "\<exists>e. newEpoch plain_crypto now cs ss cb tx rx cl = Some e"
proof -
  have "deriveAEAD plain_crypto prk d p = Some (plain_aead p)" for prk d p
    by (simp add: deriveAEAD_def plain_crypto_def key_info_def)
  then have "\<exists>e'. derive_paths plain_crypto prk sd rd [0..<MaxPaths] e = Some e'" for prk sd rd e
    by (simp add: derive_paths_some)
  then show ?thesis by (simp add: newEpoch_def Let_def split: if_splits)
qed


text \<open>
  What the code relies on. \<open>aead_correct\<close>: opening undoes sealing under the same key, nonce
  and additional data, and sealing adds the tag. \<open>noise_correct\<close>: an IK handshake between
  an initiator that knows the responder's public key and a responder with the same prologue
  completes when both end up with the same preshared key: each side reads the payload the
  other wrote, the responder learns the initiator's static key, and the channel bindings agree.
\<close>

definition aead_correct :: "Crypto \<Rightarrow> bool" where
  "aead_correct c \<longleftrightarrow> (\<forall>key a nonce pt ad. chacha_New c key = Some a \<and> length nonce = NonceSize \<longrightarrow>
     a_Open a nonce (a_Seal a nonce pt ad) ad = Some pt \<and>
     length (a_Seal a nonce pt ad) = length pt + TagSize)"

definition compatible :: "NoiseConfig \<Rightarrow> NoiseConfig \<Rightarrow> bool" where
  "compatible ci cr \<longleftrightarrow> nc_Initiator ci \<and> \<not> nc_Initiator cr \<and> nc_Prologue ci = nc_Prologue cr \<and>
     nc_PresharedKeyPlacement ci = nc_PresharedKeyPlacement cr \<and>
     length (nc_StaticPrivate ci) = 32 \<and> length (nc_StaticPrivate cr) = 32 \<and>
     length (nc_PresharedKey ci) = 32 \<and> length (nc_PresharedKey cr) = 32 \<and>
     length (nc_StaticPublic ci) = 32 \<and> length (nc_StaticPublic cr) = 32 \<and>
     nc_PeerStatic ci = nc_StaticPublic cr"

definition second_message_works :: "'hs Noise \<Rightarrow> bytes \<Rightarrow> bytes \<Rightarrow> 'hs \<Rightarrow> 'hs \<Rightarrow> bool" where
  "second_message_works ns psk psk0 hr hi \<longleftrightarrow> (\<forall>hr2 r2 pl2 m2 hr3.
     (hr2 = hr \<and> psk0 = psk \<or> ns_SetPresharedKey ns hr psk = Some hr2) \<and>
     ns_WriteMessage ns r2 hr2 pl2 = Some (m2, hr3) \<longrightarrow>
     (\<exists>hi2. ns_ReadMessage ns hi m2 = (Some pl2, hi2) \<and>
        ns_ChannelBinding ns hi2 = ns_ChannelBinding ns hr3))"

definition noise_correct :: "'hs Noise \<Rightarrow> bool" where
  "noise_correct ns \<longleftrightarrow> (\<forall>ci cr hi r1 pl1 m1 hi1.
     compatible ci cr \<and> ns_NewHandshakeState ns ci = Some hi \<and>
     ns_WriteMessage ns r1 hi pl1 = Some (m1, hi1) \<longrightarrow>
     (\<exists>hr hr1. ns_NewHandshakeState ns cr = Some hr \<and> ns_ReadMessage ns hr m1 = (Some pl1, hr1) \<and>
        ns_PeerStatic ns hr1 = nc_StaticPublic ci \<and>
        second_message_works ns (nc_PresharedKey ci) (nc_PresharedKey cr) hr1 hi1))"

lemma length_PublicKey [simp]: "length (PublicKey x k) = 32"
  by (auto simp: PublicKey_def Key_zero_def split: option.splits)

lemma copy_key: "length k = 32 \<Longrightarrow> blit 0 k Key_zero = k"
  by (simp add: blit_def Key_zero_def)

text \<open>The two ends of one epoch hold the same keys, crosswise.\<close>

definition paired :: "Epoch \<Rightarrow> Epoch \<Rightarrow> bool" where
  "paired a b \<longleftrightarrow> ep_txID a = ep_rxID b \<and> ep_rxID a = ep_txID b \<and>
    (\<forall>p<32. ep_send a p = ep_recv b p \<and> ep_recv a p = ep_send b p \<and> ep_send a p \<noteq> None \<and> ep_recv a p \<noteq> None)"

lemma newEpoch_paired:
  assumes "newEpoch c now cs ss cb tx rx cl = Some a" "newEpoch c now' cs ss cb rx tx (\<not> cl) = Some b"
  shows "paired a b"
  using newEpoch_fields [OF assms(1)] newEpoch_fields [OF assms(2)]
    newEpoch_keys [OF assms(1)] newEpoch_keys [OF assms(2)]
  by (simp add: paired_def)

lemma newEpoch_from_chacha:
  assumes "newEpoch c now cs ss cb tx rx cl = Some e" "p < 32"
  shows "\<exists>key. chacha_New c key = ep_send e p" and "\<exists>key. chacha_New c key = ep_recv e p"
  using newEpoch_keys [OF assms]
  by (auto simp: deriveAEAD_def split: option.splits)

lemma seal_open:
  assumes "aead_correct c" "newEpoch c now cs ss cb tx rx cl = Some a" "paired a b" "unat p < 32"
  shows "\<exists>ct. Epoch_Seal a p n dst pt ad = Some (dst @ ct) \<and> length ct = length pt + TagSize \<and>
    Epoch_Open b p n dst' ct ad = Some (Inr (dst' @ pt))"
proof -
  obtain s where s: "ep_send a (unat p) = Some s" "ep_recv b (unat p) = Some s"
    using assms(3,4) unfolding paired_def by (metis not_None_eq)
  moreover obtain key where "chacha_New c key = Some s"
    using newEpoch_from_chacha(1) [OF assms(2,4)] s(1) by auto
  ultimately show ?thesis using assms(1,4)
    by (simp add: Epoch_Seal_def Epoch_Open_def aead_correct_def)
qed

lemma ConsumeInit_completes:
  assumes "noise_correct ns" and "length cpriv = 32" "length spriv = 32" "length psk = 32" "length cseed = 32"
    and "NewClientHandshake ns (Some cseed) cpriv (PublicKey (ns_X25519 ns) spriv) psk crx = Some h0"
    and "InitMessage ns r1 h0 ts = Some (m1, h1)"
  shows "ch_seed h1 = cseed \<and> ch_rxID h1 = crx \<and> (\<exists>sh. ConsumeInit ns spriv m1 = Inr sh \<and>
    sh_peer sh = PublicKey (ns_X25519 ns) cpriv \<and>
    ip_TimestampNs (sh_payload sh) = ts \<and> ip_Seed (sh_payload sh) = cseed \<and>
    (\<forall>hr2 r2 pl2 m2 hr3.
       (if Key_IsZero psk then Some (sh_hs sh) else ns_SetPresharedKey ns (sh_hs sh) psk) = Some hr2 \<and>
       ns_WriteMessage ns r2 hr2 pl2 = Some (m2, hr3) \<longrightarrow>
       (\<exists>hi2. ns_ReadMessage ns (ch_hs h1) m2 = (Some pl2, hi2) \<and>
          ns_ChannelBinding ns hi2 = ns_ChannelBinding ns hr3)))"
proof -
  define ci where "ci = (newConfig ns cpriv psk True)\<lparr>nc_PeerStatic := PublicKey (ns_X25519 ns) spriv\<rparr>"
  define cr where "cr = newConfig ns spriv Key_zero False"
  define p where "p = \<lparr>ip_Version = ProtocolVersion, ip_Seed = cseed, ip_TimestampNs = ts\<rparr>"
  obtain hi where hi: "ns_NewHandshakeState ns ci = Some hi"
    and h0: "h0 = \<lparr>ch_hs = hi, ch_seed = cseed, ch_rxID = crx\<rparr>"
    using assms(6) by (auto simp: NewClientHandshake_def ci_def split: option.splits)
  obtain buf where buf: "InitPayload_Marshal p (replicate InitPayloadSize 0) = Some buf"
    using init_payload.put_succeeds [of "replicate InitPayloadSize 0" p] by auto
  obtain hi1 where w: "ns_WriteMessage ns r1 hi buf = Some (m1, hi1)" and h1: "h1 = h0\<lparr>ch_hs := hi1\<rparr>"
    using assms(7) buf by (auto simp: InitMessage_def h0 p_def split: option.splits)
  have cfg: "compatible ci cr" "nc_PresharedKey ci = psk" "nc_PresharedKey cr = Key_zero"
    "nc_StaticPublic ci = PublicKey (ns_X25519 ns) cpriv"
    using assms(2-4) by (simp_all add: compatible_def ci_def cr_def newConfig_def Let_def Key_zero_def)
  obtain hr hr1 where hr: "ns_NewHandshakeState ns cr = Some hr"
    "ns_ReadMessage ns hr m1 = (Some buf, hr1)" "ns_PeerStatic ns hr1 = PublicKey (ns_X25519 ns) cpriv"
    and resp: "second_message_works ns psk Key_zero hr1 hi1"
    using assms(1) hi w cfg unfolding noise_correct_def by metis
  have "ParseInitPayload buf = Inr p"
    using buf assms(5) by (intro init_payload.get_put) (simp_all add: p_def)
  then have "ConsumeInit ns spriv m1 =
      Inr \<lparr>sh_hs = hr1, sh_payload = p, sh_peer = PublicKey (ns_X25519 ns) cpriv\<rparr>"
    using hr by (simp add: ConsumeInit_def cr_def [symmetric] copy_key p_def)
  moreover have "\<exists>hi2. ns_ReadMessage ns hi1 m2 = (Some pl2, hi2) \<and>
      ns_ChannelBinding ns hi2 = ns_ChannelBinding ns hr3"
    if "(if Key_IsZero psk then Some hr1 else ns_SetPresharedKey ns hr1 psk) = Some hr2"
      "ns_WriteMessage ns r2 hr2 pl2 = Some (m2, hr3)" for hr2 r2 pl2 m2 hr3
  proof -
    have "hr2 = hr1 \<and> Key_zero = psk \<or> ns_SetPresharedKey ns hr1 psk = Some hr2"
      using that(1) by (auto simp: Key_IsZero_def split: if_splits)
    then show ?thesis using resp that(2) unfolding second_message_works_def by blast
  qed
  ultimately show ?thesis by (auto simp: h1 h0 p_def)
qed


lemma plain_aead_correct: "aead_correct plain_crypto"
  by (auto simp: aead_correct_def plain_crypto_def plain_aead_def split: if_splits)

lemma plain_noise_correct: "noise_correct plain_noise"
  by (auto simp: noise_correct_def compatible_def second_message_works_def plain_noise_def)

lemma plain_Respond: "\<exists>m2 es. Respond plain_crypto plain_noise now (Some seed) r sh psk a b = Some (m2, es)"
proof -
  define hs where "hs = (if Key_IsZero psk then Some (sh_hs sh)
    else ns_SetPresharedKey plain_noise (sh_hs sh) psk)"
  have "\<exists>x. hs = Some x" by (cases "sh_hs sh") (simp add: hs_def plain_noise_def)
  then obtain x where x: "hs = Some x" ..
  obtain m y where w: "ns_WriteMessage plain_noise r x buf = Some (m buf, y)" for buf
    by (cases x) (simp add: plain_noise_def)
  obtain e where e: "newEpoch plain_crypto now (ip_Seed (sh_payload sh)) seed
      (ns_ChannelBinding plain_noise y) b a False = Some e"
    using plain_newEpoch by blast
  show ?thesis unfolding Respond_def hs_def [symmetric] x by (simp add: RespPayload_Marshal_def w e)
qed


end
