(* ===== verification/Pmtunotify.thy ===== *)
theory Pmtunotify
  imports Netip
begin

text \<open>
  ICMP "packet too big" replies for inner packets no path can carry,
  \<open>internal/pmtunotify/pmtunotify.go\<close>: \<open>BuildPTB\<close> for both address families, the Internet
  checksum, and the per-source token bucket \<open>Limiter\<close>.

  \<open>BuildPTB\<close> returns the length of the reply and the written destination buffer, or
  \<open>None\<close> for \<open>(0, false)\<close>; every refusal comes before the first write. Lengths and MTUs are
  Go \<open>int\<close> values, hence integers. In the limiter a \<open>float64\<close> is a real number and a
  \<open>time.Time\<close> an integer number of nanoseconds; the map of buckets is an association list.
\<close>

definition minMTUv4 :: int where [simp]: "minMTUv4 = 576"
definition minMTUv6 :: int where [simp]: "minMTUv6 = 1280"

section \<open>The Internet checksum\<close>

text \<open>The summation loop of \<open>checksum1071\<close>, with the odd last byte in the high half.\<close>

fun sum_words :: "u32 \<Rightarrow> bytes \<Rightarrow> u32" where
  "sum_words s [] = s"
| "sum_words s [a] = s + push_bit 8 (ucast a)"
| "sum_words s (a # b # rest) = sum_words (s + (push_bit 8 (ucast a) OR ucast b)) rest"

text \<open>\<open>for sum>>16 != 0 { sum = (sum & 0xffff) + (sum >> 16) }\<close>\<close>

lemma unat_fold_step:
  "unat ((s AND 0xffff) + drop_bit 16 s :: u32) = unat s mod 65536 + unat s div 65536"
proof -
  have lt: "unat s < 2 ^ 32" using unsigned_less [of s] by simp
  have "unat (s AND 0xffff) = unat s mod 65536"
    using unat_and_mask [of s 16] by (simp add: mask_eq_exp_minus_1)
  moreover have "unat (drop_bit 16 s) = unat s div 65536" by (simp add: unat_drop_bit)
  ultimately show ?thesis using lt by (simp add: unat_word_ariths)
qed

function fold_sum :: "u32 \<Rightarrow> u32" where
  "fold_sum s = (if drop_bit 16 s \<noteq> 0 then fold_sum ((s AND 0xffff) + drop_bit 16 s) else s)"
  by pat_completeness auto
termination
proof (relation "measure unat")
  fix s :: u32
  assume "drop_bit 16 s \<noteq> 0"
  then have "unat (drop_bit 16 s) \<noteq> 0" by (metis unat_eq_zero)
  then have "unat s div 65536 \<noteq> 0" by (simp add: unat_drop_bit)
  then show "((s AND 0xffff) + drop_bit 16 s, s) \<in> measure unat"
    unfolding in_measure unat_fold_step using div_mult_mod_eq [of "unat s" 65536] by linarith
qed simp

declare fold_sum.simps [simp del]

definition checksum1071 :: "bytes \<Rightarrow> u16" where
  "checksum1071 b = NOT (ucast (fold_sum (sum_words 0 b)))"

text \<open>The pseudo-header loop of \<open>checksumV6\<close> alternates between the two addresses.\<close>

fun sum_pairs :: "u32 \<Rightarrow> bytes \<Rightarrow> bytes \<Rightarrow> u32" where
  "sum_pairs s (a # b # r) (c # d # r') =
    sum_pairs (s + (push_bit 8 (ucast a) OR ucast b) + (push_bit 8 (ucast c) OR ucast d)) r r'"
| "sum_pairs s _ _ = s"

definition checksumV6 :: "Addr \<Rightarrow> Addr \<Rightarrow> bytes \<Rightarrow> u16" where
  "checksumV6 src dst body =
    (let sum = sum_pairs 0 (As16 src) (As16 dst);
         ulLen = of_nat (length body) :: u32;
         sum = sum + drop_bit 16 ulLen;
         sum = sum + (ulLen AND 0xffff);
         sum = sum + 58;
         sum = sum_words sum body
     in NOT (ucast (fold_sum sum)))"

section \<open>Building the reply\<close>

definition unroutable :: "Addr \<Rightarrow> bool" where
  "unroutable src \<longleftrightarrow> \<not> IsValid src \<or> IsMulticast src \<or> IsLinkLocalUnicast src \<or> IsUnspecified src"

text \<open>The writes of \<open>buildV4\<close>, in the order of the code.\<close>

definition writeV4 :: "bytes \<Rightarrow> bytes \<Rightarrow> bytes \<Rightarrow> bytes \<Rightarrow> nat \<Rightarrow> int \<Rightarrow> nat \<Rightarrow> bytes" where
  "writeV4 dst inner localB srcB tot mtu payloadLen =
    (let d = dst[0 := 0x45, 1 := 0];
         d = blit 2 (put_be 2 (of_nat tot :: u16)) d;
         d = blit 4 (put_be 2 (0 :: u16)) d;
         d = blit 6 (put_be 2 (0 :: u16)) d;
         d = d[8 := 64, 9 := 1, 10 := 0, 11 := 0];
         d = blit 12 localB d;
         d = blit 16 srcB d;
         ipCk = checksum1071 (gslice 0 20 d);
         d = blit 10 (put_be 2 ipCk) d;
         d = d[20 := 3, 21 := 4, 22 := 0, 23 := 0, 24 := 0, 25 := 0];
         d = blit 26 (put_be 2 (of_int mtu :: u16)) d;
         d = blit 28 (take payloadLen inner) d;
         icmpCk = checksum1071 (gslice 20 (8 + payloadLen) d)
     in blit 22 (put_be 2 icmpCk) d)"

definition buildV4 :: "bytes \<Rightarrow> bytes \<Rightarrow> Addr \<Rightarrow> int \<Rightarrow> int \<Rightarrow> (nat \<times> bytes) option" where
  "buildV4 dst inner local mtu maxOuter =
    (if length inner < 20 \<or> \<not> Is4 local then None
     else
       let ihl = unat (inner ! 0 AND 0x0f) * 4
       in if ihl < 20 \<or> length inner < ihl then None
          else
            let fragWord = get_be (gslice 6 2 inner) :: u16
            in if fragWord AND 0x1fff \<noteq> 0 then None
               else if fragWord AND 0x4000 = 0 then None
               else if inner ! 9 = 1 \<and> ihl + 1 \<le> length inner \<and> inner ! ihl \<in> {3, 4, 5, 11, 12} then None
               else
                 let src = AddrFrom4 (gslice 12 4 inner)
                 in if unroutable src then None
                    else
                      let mtu = (if mtu < minMTUv4 then minMTUv4 else mtu);
                          mtu = (if 0xffff < mtu then 0xffff else mtu);
                          payloadMax = maxOuter - 28;
                          minData = int ihl + 8
                      in if payloadMax < minData then None
                         else
                           let payloadLen = (if payloadMax < int (length inner) then nat payloadMax
                                             else length inner);
                               tot = 28 + payloadLen
                           in if length dst < tot then None
                              else
                                (case (As4 local, As4 src) of
                                   (Some localB, Some srcB) \<Rightarrow>
                                     Some (tot, writeV4 dst inner localB srcB tot mtu payloadLen)
                                 | _ \<Rightarrow> None))"

text \<open>The writes of \<open>buildV6\<close>.\<close>

definition writeV6 :: "bytes \<Rightarrow> bytes \<Rightarrow> Addr \<Rightarrow> Addr \<Rightarrow> nat \<Rightarrow> int \<Rightarrow> nat \<Rightarrow> bytes" where
  "writeV6 dst inner local src icmpLen mtu payloadLen =
    (let d = dst[0 := 0x60, 1 := 0, 2 := 0, 3 := 0];
         d = blit 4 (put_be 2 (of_nat icmpLen :: u16)) d;
         d = d[6 := 58, 7 := 64];
         d = blit 8 (As16 local) d;
         d = blit 24 (As16 src) d;
         d = d[40 := 2, 41 := 0, 42 := 0, 43 := 0];
         d = blit 44 (put_be 4 (of_int mtu :: u32)) d;
         d = blit 48 (take payloadLen inner) d;
         ck = checksumV6 local src (gslice 40 icmpLen d)
     in blit 42 (put_be 2 ck) d)"

definition buildV6 :: "bytes \<Rightarrow> bytes \<Rightarrow> Addr \<Rightarrow> int \<Rightarrow> int \<Rightarrow> (nat \<times> bytes) option" where
  "buildV6 dst inner local mtu maxOuter =
    (if length inner < 40 \<or> \<not> (Is6 local \<and> \<not> Is4In6 local) then None
     else if inner ! 6 = 58 \<and> 41 \<le> length inner \<and> inner ! 40 \<in> {1, 2, 3, 4} then None
     else
       let src = AddrFrom16 (gslice 8 16 inner);
           src = (if Is4In6 src then Unmap src else src)
       in if unroutable src then None
          else
            let mtu = (if mtu < minMTUv6 then minMTUv6 else mtu);
                outer = (if 1280 < maxOuter then 1280 else maxOuter);
                payloadMax = outer - 48
            in if payloadMax < 40 then None
               else
                 let payloadLen = (if payloadMax < int (length inner) then nat payloadMax
                                   else length inner);
                     icmpLen = 8 + payloadLen;
                     tot = 40 + icmpLen
                 in if length dst < tot then None
                    else Some (tot, writeV6 dst inner local src icmpLen mtu payloadLen))"

definition BuildPTB :: "bytes \<Rightarrow> bytes \<Rightarrow> Addr \<Rightarrow> int \<Rightarrow> int \<Rightarrow> (nat \<times> bytes) option" where
  "BuildPTB dst inner local mtu maxOuter =
    (if length inner < 1 then None
     else let v = drop_bit 4 (inner ! 0)
          in if v = 4 then buildV4 dst inner local mtu maxOuter
             else if v = 6 then buildV6 dst inner local mtu maxOuter
             else None)"

section \<open>The rate limiter\<close>

record bucket =
  bk_tokens :: real
  bk_last :: int

record Limiter =
  l_rate :: real
  l_burst :: real
  l_buckets :: "(Addr \<times> bucket) list"
  l_tick :: int

definition limiterSoftCap :: nat where [simp]: "limiterSoftCap = 1024"
definition sweepStride :: int where [simp]: "sweepStride = 128"

definition NewLimiter :: "real \<Rightarrow> real \<Rightarrow> Limiter" where
  "NewLimiter ratePerSec burst =
    (let ratePerSec = (if ratePerSec \<le> 0 then 1 else ratePerSec);
         burst = (if burst < 1 then 1 else burst)
     in \<lparr>l_rate = ratePerSec, l_burst = burst, l_buckets = [], l_tick = 0\<rparr>)"

definition seconds :: "int \<Rightarrow> real" where
  "seconds d = of_int d / 1000000000"

definition sweepLocked :: "int \<Rightarrow> int \<Rightarrow> Limiter \<Rightarrow> Limiter" where
  "sweepLocked now idle l =
    l\<lparr>l_buckets := filter (\<lambda>(a, b). \<not> (idle < now - bk_last b \<and> l_burst l - 1 / 1000 \<le> bk_tokens b))
       (l_buckets l)\<rparr>"

text \<open>Setting the bucket of a source.\<close>

fun put_bucket :: "Addr \<Rightarrow> bucket \<Rightarrow> (Addr \<times> bucket) list \<Rightarrow> (Addr \<times> bucket) list" where
  "put_bucket a b [] = [(a, b)]"
| "put_bucket a b ((a', b') # r) = (if a = a' then (a, b) # r else (a', b') # put_bucket a b r)"

text \<open>The bucket of the source, refilled up to now or created full.\<close>

definition refill :: "Limiter \<Rightarrow> int \<Rightarrow> bucket \<Rightarrow> bucket" where
  "refill l now b =
    (let t = bk_tokens b + seconds (now - bk_last b) * l_rate l;
         t = (if l_burst l < t then l_burst l else t)
     in \<lparr>bk_tokens = t, bk_last = now\<rparr>)"

definition acquire :: "Addr \<Rightarrow> int \<Rightarrow> Limiter \<Rightarrow> bucket \<times> Limiter" where
  "acquire src now l =
    (case map_of (l_buckets l) src of
       None \<Rightarrow>
         let l = (if limiterSoftCap \<le> length (l_buckets l) then sweepLocked now 1000000000 l else l);
             b = \<lparr>bk_tokens = l_burst l, bk_last = now\<rparr>
         in (b, l\<lparr>l_buckets := put_bucket src b (l_buckets l)\<rparr>)
     | Some b \<Rightarrow>
         let b = refill l now b
         in (b, l\<lparr>l_buckets := put_bucket src b (l_buckets l)\<rparr>))"

text \<open>
  The code keeps the pointer to the bucket over the sweep: when the sweep has deleted it from
  the map, the token is taken from the orphaned bucket.
\<close>

definition Allow :: "Addr \<Rightarrow> int \<Rightarrow> Limiter \<Rightarrow> bool \<times> Limiter" where
  "Allow src now l =
    (case acquire src now l of
       (b, l) \<Rightarrow>
         let l = l\<lparr>l_tick := l_tick l + 1\<rparr>;
             l = (if sweepStride \<le> l_tick l then sweepLocked now 10000000000 (l\<lparr>l_tick := 0\<rparr>) else l)
         in if bk_tokens b < 1 then (False, l)
            else
              let b = b\<lparr>bk_tokens := bk_tokens b - 1\<rparr>
              in (True, if map_of (l_buckets l) src = None then l
                        else l\<lparr>l_buckets := put_bucket src b (l_buckets l)\<rparr>))"

section \<open>The checksum verifies\<close>

text \<open>The sum of the 16-bit words of a byte string, as a number.\<close>

fun words_value :: "bytes \<Rightarrow> nat" where
  "words_value [] = 0"
| "words_value [a] = unat a * 256"
| "words_value (a # b # rest) = unat a * 256 + unat b + words_value rest"

lemma words_value_append: "even (length xs) \<Longrightarrow> words_value (xs @ ys) = words_value xs + words_value ys"
  by (induction xs rule: words_value.induct) auto

lemma unat_byte: "unat (b :: byte) < 256"
  using unsigned_less [of b] by (simp add: word_less_nat_alt)

lemma unat_u16: "unat (c :: u16) < 65536"
  using unsigned_less [of c] by (simp add: word_less_nat_alt)

lemma unat_u32: "unat (c :: u32) < 4294967296"
  using unsigned_less [of c] by (simp add: word_less_nat_alt)

lemma words_value_bound: "words_value b \<le> 65535 * ((length b + 1) div 2)"
proof (induction b rule: words_value.induct)
  case (2 a)
  show ?case using unat_byte [of a] by simp
next
  case (3 a b rest)
  then show ?case using unat_byte [of a] unat_byte [of b] by simp
qed simp

lemma words_value_small: "length b \<le> 65536 \<Longrightarrow> words_value b \<le> 65535 * 32768"
proof -
  assume "length b \<le> 65536"
  then have "(length b + 1) div 2 \<le> 32768" by simp
  then show ?thesis using words_value_bound [of b] by linarith
qed

lemma unat_pair: "unat (push_bit 8 (ucast a) OR ucast b :: u32) = unat (a :: byte) * 256 + unat (b :: byte)"
proof -
  have "push_bit 8 (ucast a) OR ucast b = (push_bit 8 (ucast a) + ucast b :: u32)"
    by (rule disjunctive_add [symmetric]) (auto simp: bit_simps dest: bit_imp_le_length)
  moreover have "unat (ucast x :: u32) = unat x" for x :: byte
    using unat_byte [of x] by (simp add: unsigned_ucast_eq take_bit_nat_eq_self)
  ultimately show ?thesis
    using unat_byte [of a] unat_byte [of b]
    by (simp add: unat_word_ariths push_bit_eq_mult)
qed

lemma unat_high: "unat (push_bit 8 (ucast a) :: u32) = unat (a :: byte) * 256"
  using unat_pair [of a 0] by simp

lemma unat_sum_words: "unat s + words_value b < 2 ^ 32 \<Longrightarrow> unat (sum_words s b) = unat s + words_value b"
proof (induction s b rule: sum_words.induct)
  case (2 s a)
  then show ?case by (simp add: unat_word_ariths unat_high)
next
  case (3 s a b rest)
  then have "unat (s + (push_bit 8 (ucast a) OR ucast b)) = unat s + (unat a * 256 + unat b)"
    by (simp add: unat_word_ariths unat_pair)
  then show ?case using 3 by simp
qed simp

lemma fold_sum_facts:
  "unat (fold_sum s) < 65536 \<and> unat (fold_sum s) mod 65535 = unat s mod 65535 \<and>
    (fold_sum s = 0 \<longleftrightarrow> s = 0)"
proof (induction s rule: fold_sum.induct)
  case (1 s)
  show ?case
  proof (cases "drop_bit 16 s = 0")
    case True
    then have "unat (drop_bit 16 s) = 0" by (simp only: unsigned_0)
    then have "unat s < 65536" by (simp add: unat_drop_bit)
    then show ?thesis using True by (simp add: fold_sum.simps [of s])
  next
    case False
    let ?t = "(s AND 0xffff) + drop_bit 16 s"
    have split: "unat s = unat ?t + 65535 * (unat s div 65536)"
      unfolding unat_fold_step using div_mult_mod_eq [of "unat s" 65536] by linarith
    then have "unat ?t mod 65535 = unat s mod 65535" by (metis mod_mult_self2)
    moreover have "unat ?t = 0 \<longleftrightarrow> unat s = 0"
      unfolding unat_fold_step using div_mult_mod_eq [of "unat s" 65536] by auto
    then have "?t = 0 \<longleftrightarrow> s = 0" by (simp only: unat_eq_zero)
    ultimately show ?thesis using "1.IH" False by (simp only: fold_sum.simps [of s] if_True not_False_eq_True)
  qed
qed

lemma unat_not_u16: "unat (NOT x :: u16) = 65535 - unat x"
proof -
  have "NOT x = (- 1) - x" by (simp add: not_eq_complement)
  moreover have "unat ((- 1 :: u16) - x) = unat (- 1 :: u16) - unat x"
    by (rule unat_sub) simp
  ultimately show ?thesis by (simp add: unsigned_minus_1_eq_mask mask_eq_exp_minus_1)
qed

text \<open>
  Adding the complement of a folded sum makes the sum fold to all ones: this is why a receiver
  that sums the packet with its checksum in place finds zero.
\<close>

lemma complement_verifies:
  assumes "unat s' = unat s + unat (NOT (ucast (fold_sum s)) :: u16)"
  shows "NOT (ucast (fold_sum s')) = (0 :: u16)"
proof -
  let ?r = "unat (fold_sum s)"
  have r: "?r < 65536" "?r mod 65535 = unat s mod 65535" "?r = 0 \<longleftrightarrow> unat s = 0"
    using fold_sum_facts [of s] by (simp_all add: unat_eq_zero)
  have u: "unat (ucast x :: u16) = unat x" if "unat x < 65536" for x :: u32
    using that by (simp add: unsigned_ucast_eq take_bit_nat_eq_self)
  have "unat (NOT (ucast (fold_sum s)) :: u16) = 65535 - ?r"
    using u [OF r(1)] by (simp add: unat_not_u16)
  then have s': "unat s' = unat s + (65535 - ?r)" using assms by simp
  have "(unat s + (65535 - ?r)) mod 65535 = (?r + (65535 - ?r)) mod 65535"
    using r(2) by (metis mod_add_left_eq)
  then have z: "unat s' mod 65535 = 0" using s' r(1) by simp
  have "unat s' \<noteq> 0"
  proof
    assume "unat s' = 0"
    then have "unat s = 0" "?r = 65535" using s' r(1) by linarith+
    then show False using r(3) by simp
  qed
  then have nz: "unat (fold_sum s') \<noteq> 0" using fold_sum_facts [of s'] by (simp add: unat_eq_zero)
  have "unat (fold_sum s') mod 65535 = 0" "unat (fold_sum s') < 65536"
    using fold_sum_facts [of s'] z by simp_all
  moreover from this nz have "\<not> unat (fold_sum s') < 65535" by (metis mod_less)
  ultimately have "unat (fold_sum s') = 65535" by linarith
  then have "unat (ucast (fold_sum s') :: u16) = 65535" using u [of "fold_sum s'"] by simp
  then have "ucast (fold_sum s') = (0xffff :: u16)" by (simp add: word_unat_eq_iff)
  then show ?thesis by simp
qed

lemma words_value_put:
  assumes "even off" "off + 2 \<le> length b" "gslice off 2 b = [0, 0]"
  shows "words_value (blit off (put_be 2 (c :: u16)) b) = words_value b + unat c"
proof -
  have b: "b = take off b @ [0, 0] @ drop (off + 2) b"
    using assms(2,3) by (metis append_take_drop_id drop_drop gslice_def add.commute)
  obtain x y where xy: "put_be 2 c = [x, y]" "unat x * 256 + unat y = unat c"
  proof
    show "put_be 2 c = [ucast (drop_bit 8 c), ucast c]"
      by (simp add: put_be_def numeral_2_eq_2)
    show "unat (ucast (drop_bit 8 c) :: byte) * 256 + unat (ucast c :: byte) = unat c"
      using unat_u16 [of c] by (simp add: unsigned_ucast_eq unat_drop_bit take_bit_eq_mod)
  qed
  have e: "even (length (take off b))" using assms(1,2) by simp
  have "words_value (blit off (put_be 2 c) b) = words_value (take off b) + words_value ([x, y] @ drop (off + 2) b)"
    using e by (simp only: blit_def xy length_Cons list.size words_value_append) simp
  moreover have "words_value b = words_value (take off b) + words_value ([0, 0] @ drop (off + 2) b)"
    using e by (subst b) (simp only: words_value_append)
  ultimately show ?thesis using xy(2) by simp
qed

lemma checksum1071_verifies:
  assumes "even off" "off + 2 \<le> length b" "gslice off 2 b = [0, 0]" "length b \<le> 65536"
  shows "checksum1071 (blit off (put_be 2 (checksum1071 b)) b) = 0"
proof -
  have w: "words_value b \<le> 65535 * 32768" using assms(4) by (rule words_value_small)
  have "unat (sum_words 0 b) = words_value b" using w by (subst unat_sum_words) simp_all
  moreover have "unat (sum_words 0 (blit off (put_be 2 (checksum1071 b)) b)) =
      words_value b + unat (checksum1071 b)"
    using w unat_u16 [of "checksum1071 b"] words_value_put [OF assms(1-3)]
    by (subst unat_sum_words) simp_all
  ultimately show ?thesis
    unfolding checksum1071_def by (intro complement_verifies [where s = "sum_words 0 b"]) simp
qed

lemma unat_plus_le: "unat (x + y :: 'a::len word) \<le> unat x + unat y"
  by (simp add: unat_word_ariths)

lemma sum_pairs_bound:
  "unat (sum_pairs s a b) \<le> unat s + 65535 * length a"
proof (induction s a b rule: sum_pairs.induct)
  case (1 s a b r c d r')
  let ?p = "push_bit 8 (ucast a) OR ucast b :: u32" and ?q = "push_bit 8 (ucast c) OR ucast d :: u32"
  have "unat (s + ?p + ?q) \<le> unat s + unat ?p + unat ?q"
    using unat_plus_le [of "s + ?p" ?q] unat_plus_le [of s ?p] by linarith
  then show ?case
    using 1 unat_byte [of a] unat_byte [of b] unat_byte [of c] unat_byte [of d]
    by (simp add: unat_pair)
qed auto

lemma checksumV6_verifies:
  assumes "even off" "off + 2 \<le> length b" "gslice off 2 b = [0, 0]" "length b \<le> 65536"
  shows "checksumV6 src dst (blit off (put_be 2 (checksumV6 src dst b)) b) = 0"
proof -
  define base where "base = sum_pairs 0 (As16 src) (As16 dst) + drop_bit 16 (of_nat (length b)) +
    (of_nat (length b) AND 0xffff) + (58 :: u32)"
  have ck: "checksumV6 src dst b' = NOT (ucast (fold_sum (sum_words base b')))"
    if "length b' = length b" for b'
    unfolding checksumV6_def base_def Let_def that ..
  have w: "words_value b \<le> 65535 * 32768" using assms(4) by (rule words_value_small)
  have "unat (of_nat (length b) AND 0xffff :: u32) < 65536"
    using unat_and_mask [of "of_nat (length b) :: u32" 16] by (simp add: mask_eq_exp_minus_1)
  moreover have "unat (drop_bit 16 (of_nat (length b)) :: u32) \<le> 65536"
    using unat_u32 [of "of_nat (length b)"] by (simp add: unat_drop_bit)
  moreover have "unat (sum_pairs 0 (As16 src) (As16 dst)) \<le> 65535 * 16"
    using sum_pairs_bound [of 0 "As16 src" "As16 dst"] by simp
  ultimately have base: "unat base \<le> 2000000"
    unfolding base_def
    using unat_plus_le [of "sum_pairs 0 (As16 src) (As16 dst) + drop_bit 16 (of_nat (length b)) +
        (of_nat (length b) AND 0xffff)" 58]
      unat_plus_le [of "sum_pairs 0 (As16 src) (As16 dst) + drop_bit 16 (of_nat (length b))"
        "of_nat (length b) AND 0xffff"]
      unat_plus_le [of "sum_pairs 0 (As16 src) (As16 dst)" "drop_bit 16 (of_nat (length b))"]
    by simp
  have "unat (sum_words base b) = unat base + words_value b"
    using w base by (subst unat_sum_words) simp_all
  moreover have "unat (sum_words base (blit off (put_be 2 (checksumV6 src dst b)) b)) =
      unat base + words_value b + unat (checksumV6 src dst b)"
    using w base unat_u16 [of "checksumV6 src dst b"] words_value_put [OF assms(1-3)]
    by (subst unat_sum_words) simp_all
  ultimately show ?thesis
    using assms(2) ck [of b]
    by (simp only: ck length_blit length_put_be) (intro complement_verifies [where s = "sum_words base b"], simp)
qed

section \<open>Well-formed replies\<close>

lemma gslice_blit_inside:
  assumes "lo \<le> off" "off + length s \<le> lo + n" "lo + n \<le> length b"
  shows "gslice lo n (blit off s b) = blit (off - lo) s (gslice lo n b)"
proof (rule nth_equalityI)
  have len: "length (blit (off - lo) s (gslice lo n b)) = n" using assms by simp
  then show "length (gslice lo n (blit off s b)) = length (blit (off - lo) s (gslice lo n b))"
    using assms by simp
  fix i assume "i < length (gslice lo n (blit off s b))"
  then have i: "i < n" using assms by simp
  then show "gslice lo n (blit off s b) ! i = blit (off - lo) s (gslice lo n b) ! i"
    using assms by (auto simp: gslice_nth blit_nth add.commute)
qed

lemma gslice_two: "off + 2 \<le> length b \<Longrightarrow> gslice off 2 b = [b ! off, b ! (off + 1)]"
  by (rule nth_equalityI) (auto simp: gslice_nth less_2_cases_iff)

lemma gslice_gslice: "off + m \<le> n \<Longrightarrow> gslice off m (gslice lo n b) = gslice (lo + off) m b"
  by (simp add: gslice_def drop_take min_def add.commute)

text \<open>Reading from a buffer written by the steps of \<open>writeV4\<close> or \<open>writeV6\<close>.\<close>

lemmas read_back = gslice_blit_below gslice_blit_above gslice_blit_same gslice_update_outside
  blit_nth_outside drop_blit_above drop_update_below

definition ptb_shape4 :: "bytes \<Rightarrow> bytes \<Rightarrow> bytes \<Rightarrow> bytes \<Rightarrow> bytes \<Rightarrow> int \<Rightarrow> nat \<Rightarrow> bool" where
  "ptb_shape4 dst inner localB srcB d mtu n \<longleftrightarrow>
    length d = length dst \<and> drop n d = drop n dst \<and>
    checksum1071 (gslice 0 20 d) = 0 \<and> checksum1071 (gslice 20 (n - 20) d) = 0 \<and>
    d ! 0 = 0x45 \<and> gslice 2 2 d = put_be 2 (of_nat n :: u16) \<and> d ! 9 = 1 \<and>
    gslice 12 4 d = localB \<and> gslice 16 4 d = srcB \<and> d ! 20 = 3 \<and> d ! 21 = 4 \<and>
    gslice 26 2 d = put_be 2 (of_int mtu :: u16) \<and> gslice 28 (n - 28) d = take (n - 28) inner"

lemma writeV4_shape:
  assumes "length localB = 4" "length srcB = 4" "28 + pl \<le> length dst" "pl \<le> length inner" "pl \<le> 65500"
  shows "ptb_shape4 dst inner localB srcB (writeV4 dst inner localB srcB (28 + pl) mtu pl) mtu (28 + pl)"
proof -
  define a where "a = blit 6 (put_be 2 (0 :: u16)) (blit 4 (put_be 2 (0 :: u16))
    (blit 2 (put_be 2 (of_nat (28 + pl) :: u16)) (dst[0 := 0x45, 1 := 0])))"
  define b where "b = blit 16 srcB (blit 12 localB (a[8 := 64, 9 := 1, 10 := 0, 11 := 0]))"
  define c where "c = blit 10 (put_be 2 (checksum1071 (gslice 0 20 b))) b"
  define e where "e = blit 28 (take pl inner) (blit 26 (put_be 2 (of_int mtu :: u16))
    (c[20 := 3, 21 := 4, 22 := 0, 23 := 0, 24 := 0, 25 := 0]))"
  define d where "d = blit 22 (put_be 2 (checksum1071 (gslice 20 (8 + pl) e))) e"
  have d: "writeV4 dst inner localB srcB (28 + pl) mtu pl = d"
    by (simp add: writeV4_def Let_def a_def b_def c_def d_def e_def)
  have la: "length a = length dst" using assms by (simp add: a_def)
  have lb: "length b = length dst" using assms la by (simp add: b_def)
  have lc: "length c = length dst" using assms lb by (simp add: c_def)
  have le: "length e = length dst" using assms lc by (simp add: e_def)
  have ld: "length d = length dst" using assms le by (simp add: d_def)
  have "drop (28 + pl) d = drop (28 + pl) e" "drop (28 + pl) e = drop (28 + pl) c"
    "drop (28 + pl) c = drop (28 + pl) b" "drop (28 + pl) b = drop (28 + pl) a"
    "drop (28 + pl) a = drop (28 + pl) dst"
    using assms la lb lc le by (simp_all add: d_def e_def c_def b_def a_def read_back)
  then have tl: "drop (28 + pl) d = drop (28 + pl) dst" by simp
  have head: "gslice 0 20 d = gslice 0 20 c"
    using assms lc le by (simp add: d_def e_def read_back)
  have bz: "b ! 10 = 0" "b ! 11 = 0"
    using assms la by (simp_all add: b_def blit_nth)
  have "gslice 10 2 (gslice 0 20 b) = [0, 0]"
    using assms lb bz by (simp add: gslice_gslice gslice_two)
  then have ip: "checksum1071 (gslice 0 20 d) = 0"
    unfolding head c_def using assms lb
    by (simp add: gslice_blit_inside checksum1071_verifies)
  have ez: "e ! 22 = 0" "e ! 23 = 0"
    using assms lc by (simp_all add: e_def blit_nth)
  have "gslice 2 2 (gslice 20 (8 + pl) e) = [0, 0]"
    using assms le ez by (simp add: gslice_gslice gslice_two)
  then have icmp: "checksum1071 (gslice 20 (8 + pl) d) = 0"
    unfolding d_def using assms le by (simp add: gslice_blit_inside checksum1071_verifies)
  have ne: "dst \<noteq> []" "a \<noteq> []" "b \<noteq> []" "c \<noteq> []" "e \<noteq> []"
    using assms(3) la lb lc le by auto
  have ha: "a ! 0 = 0x45" "gslice 2 2 a = put_be 2 (of_nat (28 + pl) :: u16)"
    using assms ne by (simp_all add: a_def blit_nth read_back del: of_nat_add)
  have hb: "b ! 0 = a ! 0" "b ! 9 = 1" "gslice 2 2 b = gslice 2 2 a" "gslice 12 4 b = localB"
    "gslice 16 4 b = srcB"
    using assms la ne by (simp_all add: b_def blit_nth read_back)
  have hc: "c ! 0 = b ! 0" "c ! 9 = b ! 9" "gslice 2 2 c = gslice 2 2 b" "gslice 12 4 c = gslice 12 4 b"
    "gslice 16 4 c = gslice 16 4 b"
    using assms lb ne by (simp_all add: c_def blit_nth read_back)
  have he: "e ! 0 = c ! 0" "e ! 9 = c ! 9" "e ! 20 = 3" "e ! 21 = 4" "gslice 2 2 e = gslice 2 2 c"
    "gslice 12 4 e = gslice 12 4 c" "gslice 16 4 e = gslice 16 4 c"
    "gslice 26 2 e = put_be 2 (of_int mtu :: u16)" "gslice 28 pl e = take pl inner"
    using assms lc ne by (simp_all add: e_def blit_nth read_back)
  have hd: "d ! 0 = e ! 0" "d ! 9 = e ! 9" "d ! 20 = e ! 20" "d ! 21 = e ! 21" "gslice 2 2 d = gslice 2 2 e"
    "gslice 12 4 d = gslice 12 4 e" "gslice 16 4 d = gslice 16 4 e" "gslice 26 2 d = gslice 26 2 e"
    "gslice 28 pl d = gslice 28 pl e"
    using assms le ne by (simp_all add: d_def blit_nth read_back)
  show ?thesis
    unfolding ptb_shape4_def d using ld tl ip icmp ha hb hc he hd by (simp del: of_nat_add)
qed

definition ptb_shape6 :: "bytes \<Rightarrow> bytes \<Rightarrow> Addr \<Rightarrow> Addr \<Rightarrow> bytes \<Rightarrow> int \<Rightarrow> nat \<Rightarrow> bool" where
  "ptb_shape6 dst inner local src d mtu n \<longleftrightarrow>
    length d = length dst \<and> drop n d = drop n dst \<and>
    checksumV6 local src (gslice 40 (n - 40) d) = 0 \<and>
    d ! 0 = 0x60 \<and> gslice 4 2 d = put_be 2 (of_nat (n - 40) :: u16) \<and> d ! 6 = 58 \<and>
    gslice 8 16 d = As16 local \<and> gslice 24 16 d = As16 src \<and> d ! 40 = 2 \<and> d ! 41 = 0 \<and>
    gslice 44 4 d = put_be 4 (of_int mtu :: u32) \<and> gslice 48 (n - 48) d = take (n - 48) inner"

lemma writeV6_shape:
  assumes "48 + pl \<le> length dst" "pl \<le> length inner" "pl \<le> 65500"
  shows "ptb_shape6 dst inner local src (writeV6 dst inner local src (8 + pl) mtu pl) mtu (48 + pl)"
proof -
  define a where "a = blit 24 (As16 src) (blit 8 (As16 local)
    ((blit 4 (put_be 2 (of_nat (8 + pl) :: u16)) (dst[0 := 0x60, 1 := 0, 2 := 0, 3 := 0]))[6 := 58, 7 := 64]))"
  define e where "e = blit 48 (take pl inner) (blit 44 (put_be 4 (of_int mtu :: u32))
    (a[40 := 2, 41 := 0, 42 := 0, 43 := 0]))"
  define d where "d = blit 42 (put_be 2 (checksumV6 local src (gslice 40 (8 + pl) e))) e"
  have d: "writeV6 dst inner local src (8 + pl) mtu pl = d"
    by (simp add: writeV6_def Let_def a_def d_def e_def)
  have la: "length a = length dst" using assms by (simp add: a_def)
  have le: "length e = length dst" using assms la by (simp add: e_def)
  have ld: "length d = length dst" using assms le by (simp add: d_def)
  have ne: "dst \<noteq> []" "a \<noteq> []" "e \<noteq> []" using assms(1) la le by auto
  have "drop (48 + pl) d = drop (48 + pl) e" "drop (48 + pl) e = drop (48 + pl) a"
    "drop (48 + pl) a = drop (48 + pl) dst"
    using assms la le by (simp_all add: d_def e_def a_def read_back)
  then have tl: "drop (48 + pl) d = drop (48 + pl) dst" by simp
  have ez: "e ! 42 = 0" "e ! 43 = 0" using assms la by (simp_all add: e_def blit_nth)
  have "gslice 2 2 (gslice 40 (8 + pl) e) = [0, 0]"
    using assms le ez by (simp add: gslice_gslice gslice_two)
  then have icmp: "checksumV6 local src (gslice 40 (8 + pl) d) = 0"
    unfolding d_def using assms le by (simp add: gslice_blit_inside checksumV6_verifies)
  have ha: "a ! 0 = 0x60" "gslice 4 2 a = put_be 2 (of_nat (8 + pl) :: u16)" "a ! 6 = 58"
    "gslice 8 16 a = As16 local" "gslice 24 16 a = As16 src"
    using assms ne by (simp_all add: a_def blit_nth read_back del: of_nat_add)
  have he: "e ! 0 = a ! 0" "gslice 4 2 e = gslice 4 2 a" "e ! 6 = a ! 6" "gslice 8 16 e = gslice 8 16 a"
    "gslice 24 16 e = gslice 24 16 a" "e ! 40 = 2" "e ! 41 = 0"
    "gslice 44 4 e = put_be 4 (of_int mtu :: u32)" "gslice 48 pl e = take pl inner"
    using assms la ne by (simp_all add: e_def blit_nth read_back)
  have hd: "d ! 0 = e ! 0" "gslice 4 2 d = gslice 4 2 e" "d ! 6 = e ! 6" "gslice 8 16 d = gslice 8 16 e"
    "gslice 24 16 d = gslice 24 16 e" "d ! 40 = e ! 40" "d ! 41 = e ! 41"
    "gslice 44 4 d = gslice 44 4 e" "gslice 48 pl d = gslice 48 pl e"
    using assms le ne by (simp_all add: d_def blit_nth read_back)
  show ?thesis
    unfolding ptb_shape6_def d using ld tl icmp ha he hd by (simp del: of_nat_add)
qed

text \<open>
  Property C25. An ICMP "fragmentation needed" reply is a well-formed packet: it stays within \<open>maxOuter\<close> and
  the destination buffer, touches nothing behind itself, both checksums verify, the IP length
  field is the length returned, the addresses are the local one and the sender of the inner
  packet, the advertised MTU is the given one clamped to [576, 65535], and the quoted data is
  the longest prefix of the inner packet that fits.
\<close>

theorem ptb_v4_wellformed:
  assumes "BuildPTB dst inner local mtu maxOuter = Some (n, d)"
    and "drop_bit 4 (inner ! 0) = 4" and "maxOuter \<le> 65500"
  shows "int n \<le> maxOuter \<and> n \<le> length dst \<and> int n = 28 + min (int (length inner)) (maxOuter - 28) \<and>
    (\<exists>localB. As4 local = Some localB \<and>
      ptb_shape4 dst inner localB (gslice 12 4 inner) d (max 576 (min mtu 65535)) n)"
proof -
  define pl where "pl = (if maxOuter - 28 < int (length inner) then nat (maxOuter - 28) else length inner)"
  define m where "m = max 576 (min mtu 65535)"
  have b: "buildV4 dst inner local mtu maxOuter = Some (n, d)"
    using assms(1,2) by (simp add: BuildPTB_def Let_def split: if_splits)
  have len: "20 \<le> length inner" "Is4 local"
    using b by (simp_all add: buildV4_def split: if_splits)
  have m': "(let x = (if mtu < minMTUv4 then minMTUv4 else mtu) in if 0xffff < x then 0xffff else x) = m"
    by (auto simp: m_def Let_def)
  have src: "As4 (AddrFrom4 (gslice 12 4 inner)) = Some (gslice 12 4 inner)"
    using len by (simp add: AddrFrom4_def put_be_get_be)
  have "\<not> maxOuter - 28 < int (unat (inner ! 0 AND 15) * 4) + 8"
    using b unfolding buildV4_def Let_def by (metis option.distinct(1))
  then have mo: "28 \<le> maxOuter" by linarith
  have "28 + pl \<le> length dst \<and> n = 28 + pl \<and>
      (\<exists>localB. As4 local = Some localB \<and> d = writeV4 dst inner localB (gslice 12 4 inner) (28 + pl) m pl)"
    using b src m' unfolding buildV4_def Let_def pl_def
    by (auto split: if_splits option.splits)
  then obtain localB where l: "As4 local = Some localB"
    and d: "28 + pl \<le> length dst" "n = 28 + pl"
      "d = writeV4 dst inner localB (gslice 12 4 inner) (28 + pl) m pl"
    by blast
  have "pl \<le> length inner" "pl \<le> 65500" "int pl = min (int (length inner)) (maxOuter - 28)"
    using mo assms(3) by (auto simp: pl_def)
  moreover from this have "ptb_shape4 dst inner localB (gslice 12 4 inner) d m n"
    unfolding d(2,3) using len length_As4 [OF l] d(1) by (intro writeV4_shape) simp_all
  ultimately show ?thesis using d l by (auto simp: m_def)
qed

definition sample_v4 :: bytes where
  "sample_v4 = [0x45, 0, 0, 40, 0, 1, 0x40, 0, 64, 6, 0, 0, 10, 77, 0, 5, 1, 2, 3, 4] @ replicate 20 9"

lemma sample_v4_reply:
  "\<exists>d. BuildPTB (replicate 100 0) sample_v4 (IP4 0x01020304) 200 1400 = Some (68, d)"
  by (simp add: BuildPTB_def buildV4_def sample_v4_def Let_def gslice_def get_be_def unroutable_def
      AddrFrom4_def)

theorem ptb_v4_wellformed_witness:
  "\<exists>d. BuildPTB (replicate 100 0) sample_v4 (IP4 0x01020304) 200 1400 = Some (68, d) \<and>
    checksum1071 (gslice 0 20 d) = 0 \<and> gslice 26 2 d = put_be 2 (576 :: u16)"
proof -
  obtain d where d: "BuildPTB (replicate 100 0) sample_v4 (IP4 0x01020304) 200 1400 = Some (68, d)"
    using sample_v4_reply by blast
  moreover have "drop_bit 4 (sample_v4 ! 0) = 4" by (simp add: sample_v4_def)
  ultimately show ?thesis using ptb_v4_wellformed [OF d] by (auto simp: ptb_shape4_def)
qed

text \<open>
  Property C26. The same for an ICMPv6 "packet too big" reply, which in addition never exceeds 1280 bytes;
  its checksum covers the pseudo-header.
\<close>

theorem ptb_v6_wellformed:
  assumes "BuildPTB dst inner local mtu maxOuter = Some (n, d)"
    and "drop_bit 4 (inner ! 0) = 6"
  shows "int n \<le> min maxOuter 1280 \<and> n \<le> length dst \<and>
    int n = 48 + min (int (length inner)) (min maxOuter 1280 - 48) \<and>
    ptb_shape6 dst inner local (Unmap (AddrFrom16 (gslice 8 16 inner))) d (max 1280 mtu) n"
proof -
  define mo where "mo = min maxOuter 1280"
  define pl where "pl = (if mo - 48 < int (length inner) then nat (mo - 48) else length inner)"
  have b: "buildV6 dst inner local mtu maxOuter = Some (n, d)"
    using assms by (simp add: BuildPTB_def Let_def split: if_splits)
  have mo': "(if 1280 < maxOuter then 1280 else maxOuter) = mo"
    and mx: "(if mtu < minMTUv6 then minMTUv6 else mtu) = max 1280 mtu"
    by (auto simp: mo_def)
  have un: "(if Is4In6 a then Unmap a else a) = Unmap a" for a by (cases a) auto
  have d: "88 \<le> mo" "48 + pl \<le> length dst" "n = 48 + pl"
    "d = writeV6 dst inner local (Unmap (AddrFrom16 (gslice 8 16 inner))) (8 + pl) (max 1280 mtu) pl"
    using b unfolding buildV6_def Let_def mo' mx un pl_def by (simp_all split: if_splits)
  have "pl \<le> length inner" "pl \<le> 65500" "int pl = min (int (length inner)) (mo - 48)"
    using d(1) by (auto simp: pl_def mo_def)
  moreover from this have "ptb_shape6 dst inner local (Unmap (AddrFrom16 (gslice 8 16 inner))) d (max 1280 mtu) n"
    unfolding d(3,4) using d(2) by (intro writeV6_shape) simp_all
  ultimately show ?thesis using d by (auto simp: mo_def)
qed

definition sample_v6 :: bytes where
  "sample_v6 = [0x60, 0, 0, 0, 0, 20, 6, 64] @
    [0xfd, 0, 0, 0, 0, 0, 0, 0, 0, 0, 0, 0, 0, 0, 0, 0] @ replicate 36 9"

theorem ptb_v6_wellformed_witness:
  "\<exists>d. BuildPTB (replicate 200 0) sample_v6 (IP6 5 []) 1400 1400 = Some (108, d) \<and>
    gslice 8 16 d = As16 (IP6 5 []) \<and> gslice 44 4 d = put_be 4 (1400 :: u32)"
proof -
  have src: "AddrFrom16 (gslice 8 16 sample_v6) = IP6 0xfd000000000000000000000000000000 []"
    by (simp add: sample_v6_def gslice_def AddrFrom16_def get_be_def)
  have "\<not> Is4In6 (IP6 0xfd000000000000000000000000000000 [])"
    "\<not> unroutable (IP6 0xfd000000000000000000000000000000 [])"
    by (simp_all add: unroutable_def)
  moreover have "length sample_v6 = 60" "sample_v6 ! 0 = 0x60" "sample_v6 ! 6 = 6"
    by (simp_all add: sample_v6_def)
  ultimately have "\<exists>d. BuildPTB (replicate 200 0) sample_v6 (IP6 5 []) 1400 1400 = Some (108, d)"
    using src by (simp add: BuildPTB_def buildV6_def Let_def)
  then obtain d where d: "BuildPTB (replicate 200 0) sample_v6 (IP6 5 []) 1400 1400 = Some (108, d)" by blast
  moreover have "drop_bit 4 (sample_v6 ! 0) = 6" by (simp add: sample_v6_def)
  ultimately show ?thesis using ptb_v6_wellformed [OF d] by (auto simp: ptb_shape6_def)
qed

text \<open>
  No reply is ever produced for a packet that must not be answered: an ICMP error message, a
  fragment other than the first, an IPv4 packet that may be fragmented, or a packet whose
  source is multicast, link-local or unspecified.
\<close>

theorem ptb_refuses:
  assumes "BuildPTB dst inner local mtu maxOuter = Some r"
  shows "drop_bit 4 (inner ! 0) \<in> {4, 6} \<and>
    (drop_bit 4 (inner ! 0) = 4 \<longrightarrow>
      (let frag = get_be (gslice 6 2 inner) :: u16; ihl = unat (inner ! 0 AND 15) * 4 in
        20 \<le> ihl \<and> ihl \<le> length inner \<and> Is4 local \<and> take_bit 13 frag = 0 \<and> bit frag 14 \<and>
        \<not> (inner ! 9 = 1 \<and> ihl < length inner \<and> inner ! ihl \<in> {3, 4, 5, 11, 12}) \<and>
        \<not> unroutable (AddrFrom4 (gslice 12 4 inner)))) \<and>
    (drop_bit 4 (inner ! 0) = 6 \<longrightarrow>
      40 \<le> length inner \<and> Is6 local \<and>
      \<not> (inner ! 6 = 58 \<and> 40 < length inner \<and> inner ! 40 \<in> {1, 2, 3, 4}) \<and>
      \<not> unroutable (Unmap (AddrFrom16 (gslice 8 16 inner))))"
proof -
  have frag: "f AND 0x1fff = 0 \<longleftrightarrow> take_bit 13 f = 0" "f AND 0x4000 = 0 \<longleftrightarrow> \<not> bit f 14" for f :: u16
    using and_exp_eq_0 [of f 14] by (simp_all add: take_bit_eq_mask mask_eq_exp_minus_1)
  have un: "(if Is4In6 a then Unmap a else a) = Unmap a" for a by (cases a) auto
  show ?thesis
  proof (cases "drop_bit 4 (inner ! 0) = 4")
    case True
    then have b: "buildV4 dst inner local mtu maxOuter = Some r"
      using assms by (simp add: BuildPTB_def Let_def split: if_splits)
    show ?thesis
      using True b unfolding buildV4_def Let_def frag
      by (auto split: if_splits simp: Suc_le_eq)
  next
    case False
    then have v: "drop_bit 4 (inner ! 0) = 6" and b: "buildV6 dst inner local mtu maxOuter = Some r"
      using assms by (simp_all add: BuildPTB_def Let_def split: if_splits)
    show ?thesis
      using v b unfolding buildV6_def Let_def un by (auto split: if_splits)
  qed
qed

theorem ptb_refuses_witness:
  "\<exists>r. BuildPTB (replicate 100 0) sample_v4 (IP4 0x01020304) 200 1400 = Some r \<and>
    bit (get_be (gslice 6 2 sample_v4) :: u16) 14"
proof -
  obtain r where r: "BuildPTB (replicate 100 0) sample_v4 (IP4 0x01020304) 200 1400 = Some r"
    using sample_v4_reply by blast
  moreover have "drop_bit 4 (sample_v4 ! 0) = 4" by (simp add: sample_v4_def)
  ultimately show ?thesis using ptb_refuses [OF r] by (simp add: Let_def)
qed

section \<open>Properties of the limiter\<close>

fun limiter_run :: "Limiter \<Rightarrow> (Addr \<times> int) list \<Rightarrow> Limiter" where
  "limiter_run l [] = l"
| "limiter_run l ((src, now) # cs) = limiter_run (snd (Allow src now l)) cs"

text \<open>How many calls of a source are granted in a run.\<close>

fun granted :: "Addr \<Rightarrow> Limiter \<Rightarrow> (Addr \<times> int) list \<Rightarrow> nat" where
  "granted a l [] = 0"
| "granted a l ((src, now) # cs) =
    (if src = a \<and> fst (Allow src now l) then 1 else 0) + granted a (snd (Allow src now l)) cs"

lemma map_of_put_bucket: "map_of (put_bucket a b bs) = (map_of bs)(a \<mapsto> b)"
  by (induction a b bs rule: put_bucket.induct) (auto intro!: ext)

lemma set_put_bucket: "set (put_bucket a b bs) \<subseteq> insert (a, b) (set bs)"
  by (induction a b bs rule: put_bucket.induct) auto

lemma fst_put_bucket: "fst ` set (put_bucket a b bs) = insert a (fst ` set bs)"
  by (induction a b bs rule: put_bucket.induct) auto

lemma distinct_put_bucket: "distinct (map fst bs) \<Longrightarrow> distinct (map fst (put_bucket a b bs))"
  by (induction a b bs rule: put_bucket.induct) (use fst_put_bucket in \<open>auto simp: image_iff\<close>)

text \<open>Between two calls no bucket is close to full.\<close>

definition drained :: "Limiter \<Rightarrow> bool" where
  "drained l \<longleftrightarrow> 1001 / 1000 \<le> l_burst l \<and> 0 < l_rate l \<and> distinct (map fst (l_buckets l)) \<and>
    (\<forall>(a, b)\<in>set (l_buckets l). bk_tokens b < l_burst l - 1 / 1000)"

lemma sweep_keeps_fresh:
  assumes "\<forall>(a, b)\<in>set (l_buckets l). bk_tokens b < l_burst l - 1 / 1000 \<or> now - bk_last b \<le> idle"
  shows "sweepLocked now idle l = l"
proof -
  have "filter (\<lambda>(a, b). \<not> (idle < now - bk_last b \<and> l_burst l - 1 / 1000 \<le> bk_tokens b)) (l_buckets l) = l_buckets l"
    using assms by (intro filter_True) fastforce
  then show ?thesis by (simp add: sweepLocked_def)
qed

definition source_bucket :: "Addr \<Rightarrow> int \<Rightarrow> Limiter \<Rightarrow> bucket" where
  "source_bucket src now l =
    (case map_of (l_buckets l) src of
       None \<Rightarrow> \<lparr>bk_tokens = l_burst l, bk_last = now\<rparr> | Some b \<Rightarrow> refill l now b)"

lemma source_bucket_bound: "bk_tokens (source_bucket src now l) \<le> l_burst l"
  by (auto simp: source_bucket_def refill_def Let_def split: option.splits)

text \<open>A call on a drained limiter: no sweep has an effect.\<close>

lemma Allow_drained:
  fixes src :: Addr and now :: int
  assumes "drained l"
  defines "b \<equiv> source_bucket src now l"
  defines "b' \<equiv> (if bk_tokens b < 1 then b else b\<lparr>bk_tokens := bk_tokens b - 1\<rparr>)"
  shows "fst (Allow src now l) \<longleftrightarrow> 1 \<le> bk_tokens b"
    and "l_buckets (snd (Allow src now l)) = put_bucket src b' (l_buckets l)"
    and "l_rate (snd (Allow src now l)) = l_rate l" and "l_burst (snd (Allow src now l)) = l_burst l"
proof -
  have sw: "sweepLocked now i l = l" for now i
    using assms(1) by (intro sweep_keeps_fresh) (auto simp: drained_def)
  have acq: "acquire src now l = (b, l\<lparr>l_buckets := put_bucket src b (l_buckets l)\<rparr>)"
    by (simp add: acquire_def b_def source_bucket_def sw Let_def split: option.splits)
  have last: "bk_last b = now"
    by (auto simp: b_def source_bucket_def refill_def Let_def split: option.splits)
  have sw2: "sweepLocked now 10000000000 (l\<lparr>l_buckets := put_bucket src b (l_buckets l), l_tick := t\<rparr>) =
      l\<lparr>l_buckets := put_bucket src b (l_buckets l), l_tick := t\<rparr>" for t
    using assms(1) last set_put_bucket [of src b "l_buckets l"]
    by (intro sweep_keeps_fresh) (fastforce simp: drained_def)
  have mo: "map_of (put_bucket src b (l_buckets l)) src \<noteq> None" by (simp add: map_of_put_bucket)
  have pp: "put_bucket src b'' (put_bucket src b bs) = put_bucket src b'' bs" for b'' bs
    by (induction src b bs rule: put_bucket.induct) auto
  show "fst (Allow src now l) \<longleftrightarrow> 1 \<le> bk_tokens b"
    "l_buckets (snd (Allow src now l)) = put_bucket src b' (l_buckets l)"
    "l_rate (snd (Allow src now l)) = l_rate l" "l_burst (snd (Allow src now l)) = l_burst l"
    using mo unfolding Allow_def acq b'_def by (auto simp: Let_def sw2 pp split: if_splits)
qed

lemma drained_Allow:
  assumes "drained l"
  shows "drained (snd (Allow src now l))"
  using assms set_put_bucket source_bucket_bound [of src now l]
  by (fastforce simp: drained_def Allow_drained [OF assms] distinct_put_bucket split: if_splits)

lemma drained_run:
  "drained l \<Longrightarrow> drained (limiter_run l cs) \<and>
    fst ` set (l_buckets (limiter_run l cs)) = fst ` set (l_buckets l) \<union> fst ` set cs"
proof (induction l cs rule: limiter_run.induct)
  case (2 l src now cs)
  have "drained (snd (Allow src now l))" using 2(2) by (rule drained_Allow)
  then show ?case using 2 by (simp add: Allow_drained [OF 2(2)] fst_put_bucket)
qed simp

text \<open>
  Idle sources are never reaped. The sweep compares the tokens a bucket had after its last
  call, without the refill since then, with the full burst; every call leaves a bucket at
  least a thousandth below it. So with a burst of 1.001 or more (the engine uses 8) the map
  keeps an entry for every source ever seen, and no sweep, however late, deletes one.
\<close>

theorem limiter_never_reaps:
  assumes "1001 / 1000 \<le> burst"
  shows "fst ` set (l_buckets (limiter_run (NewLimiter rate burst) cs)) = fst ` set cs \<and>
    length (l_buckets (limiter_run (NewLimiter rate burst) cs)) = card (fst ` set cs) \<and>
    sweepLocked now idle (limiter_run (NewLimiter rate burst) cs) = limiter_run (NewLimiter rate burst) cs"
proof -
  let ?l = "limiter_run (NewLimiter rate burst) cs"
  have "drained (NewLimiter rate burst)" using assms by (auto simp: drained_def NewLimiter_def)
  from drained_run [OF this] have r: "drained ?l" "fst ` set (l_buckets ?l) = fst ` set cs"
    by (auto simp: NewLimiter_def Let_def)
  moreover have "length (l_buckets ?l) = card (fst ` set (l_buckets ?l))"
    using r(1) distinct_card [of "map fst (l_buckets ?l)"] by (simp add: drained_def)
  moreover have "sweepLocked now idle ?l = ?l"
    using r(1) by (intro sweep_keeps_fresh) (auto simp: drained_def)
  ultimately show ?thesis by simp
qed

theorem limiter_never_reaps_witness:
  "length (l_buckets (limiter_run (NewLimiter 4 8) [(IP4 1, 0), (IP4 2, 0), (IP4 1, 3600000000000)])) = 2"
proof -
  have "fst ` set [(IP4 1, 0), (IP4 2, 0), (IP4 1, 3600000000000)] = {IP4 1, IP4 2}" by auto
  then show ?thesis
    using limiter_never_reaps [of 8 4 "[(IP4 1, 0), (IP4 2, 0), (IP4 1, 3600000000000)]" 0 0] by simp
qed

lemma seconds_add: "seconds (a - b) + seconds (b - c) = seconds (a - c)"
  by (simp add: seconds_def field_simps)

lemma seconds_mono: "a \<le> b \<Longrightarrow> seconds a \<le> seconds b"
  by (simp add: seconds_def divide_right_mono)

lemma refill_bound: "bk_tokens (refill l now b) \<le> bk_tokens b + l_rate l * seconds (now - bk_last b)"
  by (auto simp: refill_def Let_def mult.commute)

lemma granted_bound:
  assumes "drained l" "sorted (t0 # map snd cs)" "\<forall>c\<in>set cs. snd c \<le> T" "t0 \<le> T"
    and "\<forall>b. map_of (l_buckets l) a = Some b \<longrightarrow> 0 \<le> bk_tokens b \<and> bk_last b \<le> t0"
  shows "real (granted a l cs) \<le>
    (case map_of (l_buckets l) a of
       None \<Rightarrow> l_burst l + l_rate l * seconds (T - t0)
     | Some b \<Rightarrow> bk_tokens b + l_rate l * seconds (T - bk_last b))"
  using assms
proof (induction a l cs arbitrary: t0 rule: granted.induct)
  case (1 a l)
  have "0 \<le> seconds (T - t0)" "\<And>b. map_of (l_buckets l) a = Some b \<Longrightarrow> 0 \<le> seconds (T - bk_last b)"
    using 1 by (auto simp: seconds_def)
  then show ?case using 1 by (auto simp: drained_def split: option.splits)
next
  case (2 a l src now cs)
  let ?l = "snd (Allow src now l)" and ?b = "source_bucket src now l"
  note A = Allow_drained [OF 2(2), of src now]
  have times: "t0 \<le> now" "now \<le> T" "sorted (now # map snd cs)" "\<forall>c\<in>set cs. snd c \<le> T"
    using 2(3,4) by auto
  have rate: "0 < l_rate l" "1 \<le> l_burst l" using 2(2) by (auto simp: drained_def)
  have s0: "0 \<le> l_rate l * seconds (now - t0)" using rate times by (simp add: seconds_def)
  have split: "l_rate l * seconds (T - x) = l_rate l * seconds (T - now) + l_rate l * seconds (now - x)" for x
    by (simp flip: distrib_left seconds_add [of T now x])
  show ?case
  proof (cases "src = a")
    case False
    then have m: "map_of (l_buckets ?l) a = map_of (l_buckets l) a" by (simp add: A map_of_put_bucket)
    have "\<forall>b. map_of (l_buckets ?l) a = Some b \<longrightarrow> 0 \<le> bk_tokens b \<and> bk_last b \<le> now"
      using 2(6) times(1) unfolding m by fastforce
    from "2.IH" [OF drained_Allow [OF 2(2)] times(3,4,2) this] show ?thesis
      using False s0 split [of t0] unfolding m A(3,4) by (auto split: option.splits)
  next
    case True
    define g where "g = (if 1 \<le> bk_tokens ?b then 1 else 0 :: nat)"
    define b' where "b' = (if bk_tokens ?b < 1 then ?b else ?b\<lparr>bk_tokens := bk_tokens ?b - 1\<rparr>)"
    have last: "bk_last ?b = now" by (auto simp: source_bucket_def refill_def Let_def split: option.splits)
    have "0 \<le> bk_tokens ?b"
    proof (cases "map_of (l_buckets l) a")
      case (Some b)
      then have "0 \<le> l_rate l * seconds (now - bk_last b)" "0 \<le> bk_tokens b"
        using 2(6) times(1) rate by (auto simp: seconds_def)
      then show ?thesis
        using Some True rate by (simp add: source_bucket_def refill_def Let_def mult.commute)
    qed (use True rate in \<open>simp add: source_bucket_def\<close>)
    then have b': "0 \<le> bk_tokens b'" "bk_last b' = now" "bk_tokens b' + real g = bk_tokens ?b"
      using last by (auto simp: b'_def g_def)
    have m: "map_of (l_buckets ?l) a = Some b'"
      unfolding A(2) map_of_put_bucket b'_def [symmetric] using True by simp
    have "real (granted a ?l cs) \<le> bk_tokens b' + l_rate l * seconds (T - now)"
      using "2.IH" [OF drained_Allow [OF 2(2)] times(3,4,2)] b' unfolding m A(3,4) by simp
    then have le: "real (granted a l ((src, now) # cs)) \<le> bk_tokens ?b + l_rate l * seconds (T - now)"
      using b'(3) True A(1) by (simp add: g_def)
    show ?thesis
    proof (cases "map_of (l_buckets l) a")
      case None
      then show ?thesis using le s0 split [of t0] True by (simp add: source_bucket_def)
    next
      case (Some b)
      then have "bk_tokens ?b \<le> bk_tokens b + l_rate l * seconds (now - bk_last b)"
        using refill_bound [of l now b] True by (simp add: source_bucket_def)
      then show ?thesis using Some le split [of "bk_last b"] by simp
    qed
  qed
qed

text \<open>
  Property C27. Rate limiting: whatever the other sources do, between the first and the last of a source's
  calls at most the burst plus the rate times the elapsed time are granted, as long as the
  clock does not run backwards.
\<close>

theorem limiter_rate_bound:
  assumes "1001 / 1000 \<le> burst" "0 < rate" "sorted (map snd cs)" "\<forall>c\<in>set cs. t0 \<le> snd c \<and> snd c \<le> T"
    and "t0 \<le> T"
  shows "real (granted a (NewLimiter rate burst) cs) \<le> burst + rate * seconds (T - t0)"
proof -
  have d: "drained (NewLimiter rate burst)" using assms by (auto simp: drained_def NewLimiter_def)
  have "sorted (t0 # map snd cs)" using assms by auto
  from granted_bound [OF d this, of T a] assms show ?thesis
    by (auto simp: NewLimiter_def Let_def)
qed

theorem limiter_rate_bound_witness:
  "real (granted (IP4 1) (NewLimiter 4 8) [(IP4 1, 0), (IP4 2, 0), (IP4 1, 1000000000)]) \<le> 12"
  using limiter_rate_bound [of 8 4 "[(IP4 1, 0), (IP4 2, 0), (IP4 1, 1000000000)]" 0 1000000000 "IP4 1"]
  by (simp add: seconds_def)

section \<open>The checksum against its reference\<close>

lemma mod_65535_unique:
  assumes "x < 65536" "y < 65536" "x mod 65535 = y mod 65535" "x = 0 \<longleftrightarrow> y = (0 :: nat)"
  shows "x = y"
proof -
  have "z mod 65535 = (if z = 65535 then 0 else z)" if "z < 65536" for z :: nat using that by auto
  then show ?thesis using assms by (auto split: if_splits)
qed

text \<open>The reference of RFC 1071: the 16-bit words added with end-around carry.\<close>

definition ones_add :: "nat \<Rightarrow> nat \<Rightarrow> nat" where
  "ones_add x y = (if x + y < 65536 then x + y else x + y - 65535)"

fun ones_sum :: "bytes \<Rightarrow> nat" where
  "ones_sum [] = 0"
| "ones_sum [a] = unat a * 256"
| "ones_sum (a # b # rest) = ones_add (unat a * 256 + unat b) (ones_sum rest)"

lemma ones_sum_facts:
  "ones_sum b < 65536 \<and> ones_sum b mod 65535 = words_value b mod 65535 \<and> (ones_sum b = 0 \<longleftrightarrow> words_value b = 0)"
proof (induction b rule: ones_sum.induct)
  case (2 a)
  show ?case using unat_byte [of a] by simp
next
  case (3 a b rest)
  let ?w = "unat a * 256 + unat b"
  have w: "?w < 65536" using unat_byte [of a] unat_byte [of b] by simp
  have "ones_add ?w (ones_sum rest) mod 65535 = (?w + ones_sum rest) mod 65535"
    unfolding ones_add_def by (auto simp: not_less mod_if)
  also have "\<dots> = (?w + words_value rest) mod 65535" using 3 by (metis mod_add_right_eq)
  finally show ?case using 3 w by (auto simp: ones_add_def)
qed simp

text \<open>
  Property C38. The checksum routine is the one of RFC 1071. Summing in 32 bits and folding the
  carries at the end gives the complement of the one's complement sum of the 16-bit words,
  with an odd last byte padded by zero, for all inputs up to 64 KiB.
\<close>

theorem checksum_is_ones_complement:
  assumes "length b \<le> 65536"
  shows "unat (checksum1071 b) = 65535 - ones_sum b"
proof -
  let ?s = "fold_sum (sum_words 0 b)"
  have v: "unat (sum_words 0 b) = words_value b" using unat_sum_words [of 0 b] words_value_small [OF assms] by simp
  note f = fold_sum_facts [of "sum_words 0 b"]
  have z: "?s = 0 \<longleftrightarrow> words_value b = 0" using f v by (metis unat_eq_zero)
  have "unat ?s = ones_sum b"
    by (rule mod_65535_unique) (use f v z ones_sum_facts [of b] in \<open>simp_all add: unat_eq_zero\<close>)
  moreover have "unat (ucast ?s :: u16) = unat ?s" using f by (simp add: unsigned_ucast_eq take_bit_nat_eq_self)
  ultimately show ?thesis unfolding checksum1071_def unat_not_u16 by simp
qed

theorem checksum_is_ones_complement_witness:
  "unat (checksum1071 [0x45, 0, 0, 0x54, 0xff, 0xff, 0x12]) = 65535 - ones_sum [0x45, 0, 0, 0x54, 0xff, 0xff, 0x12]"
  by (rule checksum_is_ones_complement) simp

end
