(* ===== verification/Config.thy ===== *)
theory Config
  imports Keys Netip Sched
begin

text \<open>
  Loading and validating the configuration files, \<open>internal/config/config.go\<close> and
  \<open>internal/config/dscp.go\<close>.

  The TOML library is a parameter: decoding a file gives the raw record with the keys that
  were not used, or an error. Key files are read through \<open>readFile\<close>. The structs keep the
  source's fields; the fields the file does not set hold the zero values. Go's \<open>int\<close> is an
  integer, a \<open>float64\<close> a real number and a duration an integer number of nanoseconds that
  wraps at 64 bits. The warning about file permissions prints and does nothing else.
\<close>

section \<open>Tuning and FEC\<close>

record Tuning =
  tu_ProbeIntervalMs :: int
  tu_MaxReorderDelayMs :: int
  tu_DeadIntervalProbes :: int
  tu_DegradeLossPct :: real
  tu_DegradeRTTMs :: int
  tu_RekeySeconds :: int
  tu_NotifyTooBig :: "bool option"

definition Tuning_applyDefaults :: "Tuning \<Rightarrow> Tuning" where
  "Tuning_applyDefaults t =
    (let t = (if tu_ProbeIntervalMs t = 0 then t\<lparr>tu_ProbeIntervalMs := 200\<rparr> else t);
         t = (if tu_MaxReorderDelayMs t = 0 then t\<lparr>tu_MaxReorderDelayMs := 100\<rparr> else t);
         t = (if tu_DeadIntervalProbes t = 0 then t\<lparr>tu_DeadIntervalProbes := 5\<rparr> else t);
         t = (if tu_DegradeLossPct t = 0 then t\<lparr>tu_DegradeLossPct := 10\<rparr> else t);
         t = (if tu_DegradeRTTMs t = 0 then t\<lparr>tu_DegradeRTTMs := 1000\<rparr> else t)
     in if tu_RekeySeconds t = 0 then t\<lparr>tu_RekeySeconds := 120\<rparr> else t)"

definition ProbeInterval :: "Tuning \<Rightarrow> int" where
  "ProbeInterval t = wrap_int64 (tu_ProbeIntervalMs t * 1000000)"

definition MaxReorderDelay :: "Tuning \<Rightarrow> int" where
  "MaxReorderDelay t = wrap_int64 (tu_MaxReorderDelayMs t * 1000000)"

definition DeadInterval :: "Tuning \<Rightarrow> int" where
  "DeadInterval t = wrap_int64 (tu_DeadIntervalProbes t * ProbeInterval t)"

definition RekeyInterval :: "Tuning \<Rightarrow> int" where
  "RekeyInterval t = wrap_int64 (tu_RekeySeconds t * 1000000000)"

definition NotifyPTB :: "Tuning \<Rightarrow> bool" where
  "NotifyPTB t = (case tu_NotifyTooBig t of None \<Rightarrow> True | Some b \<Rightarrow> b)"

record FECConfig =
  fc_Group :: int
  fc_Parity :: int
  fc_FlushMs :: int

definition FEC_applyDefaults :: "FECConfig \<Rightarrow> FECConfig" where
  "FEC_applyDefaults f =
    (let f = (if fc_Group f = 0 then f\<lparr>fc_Group := 10\<rparr> else f)
     in if fc_FlushMs f = 0 then f\<lparr>fc_FlushMs := 8\<rparr> else f)"

datatype config_error =
  ErrDecode | ErrUnknownKey string | ErrRequired string | ErrKey string key_error | ErrAddr string |
  ErrMode string | ErrMTU int | ErrDSCPName string | ErrDSCPRange int | ErrRoute string | ErrNoLinks |
  ErrNoPeers | ErrDupKey string string | ErrPeerAddr string | ErrPeerOutside string |
  ErrFECGroup int | ErrFECParity int | ErrFECFlush int

definition FEC_validate :: "FECConfig \<Rightarrow> config_error option" where
  "FEC_validate f =
    (if fc_Group f < 2 \<or> 15 < fc_Group f then Some (ErrFECGroup (fc_Group f))
     else if fc_Parity f < 0 \<or> fc_Group f < fc_Parity f then Some (ErrFECParity (fc_Parity f))
     else if fc_FlushMs f < 1 \<or> 1000 < fc_FlushMs f then Some (ErrFECFlush (fc_FlushMs f))
     else None)"

definition FlushAfter :: "FECConfig \<Rightarrow> int" where
  "FlushAfter f = wrap_int64 (fc_FlushMs f * 1000000)"

section \<open>DSCP\<close>

text \<open>
  \<open>strings.ToLower\<close>. Outside ASCII only the two letters whose lower case is an ASCII letter
  are converted (U+0130 to \<open>i\<close>, U+212A to \<open>k\<close>); any other letter stays outside ASCII,
  which is all that the comparisons below can see.
\<close>

definition lower_char :: "char \<Rightarrow> char" where
  "lower_char c = (let v = (of_char c :: nat) in if 65 \<le> v \<and> v \<le> 90 then char_of (v + 32) else c)"

fun ToLower :: "string \<Rightarrow> string" where
  "ToLower [] = []"
| "ToLower (c # cs) =
    (if c = CHR 0xC4 \<and> take 1 cs = [CHR 0xB0] then CHR ''i'' # ToLower (drop 1 cs)
     else if c = CHR 0xE2 \<and> take 2 cs = [CHR 0x84, CHR 0xAA] then CHR ''k'' # ToLower (drop 2 cs)
     else lower_char c # ToLower cs)"

text \<open>\<open>strconv.Atoi\<close>: an optional sign and decimal digits, within 64 bits.\<close>

definition Atoi :: "string \<Rightarrow> int option" where
  "Atoi s =
    (let (neg, ds) = (if s \<noteq> [] \<and> hd s = CHR ''-'' then (True, tl s)
                      else if s \<noteq> [] \<and> hd s = CHR ''+'' then (False, tl s) else (False, s))
     in if ds = [] then None
        else case digits_value digit_value 10 0 ds of
            None \<Rightarrow> None
          | Some v \<Rightarrow>
              let n = (if neg then - int v else int v)
              in if - (2 ^ 63) \<le> n \<and> n < 2 ^ 63 then Some n else None)"

definition dscpNames :: "(string \<times> int) list" where
  "dscpNames =
    [('''', 0), (''be'', 0), (''default'', 0),
     (''cs0'', 0), (''cs1'', 8), (''cs2'', 16), (''cs3'', 24),
     (''cs4'', 32), (''cs5'', 40), (''cs6'', 48), (''cs7'', 56),
     (''af11'', 10), (''af12'', 12), (''af13'', 14),
     (''af21'', 18), (''af22'', 20), (''af23'', 22),
     (''af31'', 26), (''af32'', 28), (''af33'', 30),
     (''af41'', 34), (''af42'', 36), (''af43'', 38),
     (''ef'', 46), (''voice-admit'', 44)]"

definition parseDSCP :: "string \<Rightarrow> config_error + int" where
  "parseDSCP s =
    (let k = ToLower (TrimSpace s)
     in case map_of dscpNames k of
          Some v \<Rightarrow> Inr v
        | None \<Rightarrow>
            (case Atoi k of
               None \<Rightarrow> Inl (ErrDSCPName s)
             | Some n \<Rightarrow> if n < 0 \<or> 63 < n then Inl (ErrDSCPRange n) else Inr n))"

section \<open>Client configuration\<close>

record Link =
  li_Interface :: string
  li_InitialMbps :: real

record Links =
  ls_Auto :: bool
  ls_Exclude :: "string list"
  ls_Link :: "Link list"

record ClientSection =
  cs_PrivateKeyFile :: string
  cs_Server :: string
  cs_ServerPublicKey :: string
  cs_PresharedKeyFile :: string
  cs_TunnelAddress :: string
  cs_Mode :: string
  cs_MTU :: int
  cs_DSCP :: string
  cs_Routes :: "string list"
  cs_ControlSocket :: string
  cs_TunName :: string

record Client =
  cl_Client :: ClientSection
  cl_Links :: Links
  cl_Tuning :: Tuning
  cl_FEC :: FECConfig
  cl_PrivateKey :: Key
  cl_ServerPubKey :: Key
  cl_PSK :: Key
  cl_TunnelAddr :: Prefix
  cl_RoutePrefix :: "Prefix list"
  cl_SchedMode :: Mode
  cl_DSCPValue :: int

definition DefaultControlSocket :: string where
  "DefaultControlSocket = ''/var/run/amane.sock''"

text \<open>The Linux default.\<close>

definition defaultTunName :: string where
  "defaultTunName = ''amane0''"

text \<open>
  \<open>decode path\<close> is \<open>toml.DecodeFile\<close>: the decoded value and the undecoded keys.
\<close>

definition decodeStrict :: "(string \<Rightarrow> ('v \<times> string list) option) \<Rightarrow> string \<Rightarrow> config_error + 'v" where
  "decodeStrict decode path =
    (case decode path of
       None \<Rightarrow> Inl ErrDecode
     | Some (v, un) \<Rightarrow> (case un of [] \<Rightarrow> Inr v | k # _ \<Rightarrow> Inl (ErrUnknownKey k)))"

definition or_key :: "string \<Rightarrow> key_error + Key \<Rightarrow> config_error + Key" where
  "or_key field r = (case r of Inl e \<Rightarrow> Inl (ErrKey field e) | Inr k \<Rightarrow> Inr k)"

text \<open>The optional preshared key: the zero key when no file is named.\<close>

definition load_psk :: "(string \<Rightarrow> string option) \<Rightarrow> string \<Rightarrow> string \<Rightarrow> config_error + Key" where
  "load_psk readFile field file =
    (if file \<noteq> [] then or_key field (LoadFile readFile file) else Inr Key_zero)"

fun parse_routes :: "string list \<Rightarrow> config_error + Prefix list" where
  "parse_routes [] = Inr []"
| "parse_routes (r # rs) =
    (case ParsePrefix r of
       None \<Rightarrow> Inl (ErrRoute r)
     | Some p \<Rightarrow> (case parse_routes rs of Inl e \<Rightarrow> Inl e | Inr ps \<Rightarrow> Inr (p # ps)))"

definition bind_err :: "'e + 'a \<Rightarrow> ('a \<Rightarrow> 'e + 'b) \<Rightarrow> 'e + 'b" where
  "bind_err r f = (case r of Inl e \<Rightarrow> Inl e | Inr x \<Rightarrow> f x)"

definition require :: "bool \<Rightarrow> 'e \<Rightarrow> 'e + 'b \<Rightarrow> 'e + 'b" where
  "require ok e r = (if ok then r else Inl e)"

definition or_addr :: "string \<Rightarrow> 'a option \<Rightarrow> config_error + 'a" where
  "or_addr field r = (case r of None \<Rightarrow> Inl (ErrAddr field) | Some x \<Rightarrow> Inr x)"

text \<open>The loaded configuration: defaults filled in and parsed values stored.\<close>

definition complete_client ::
  "Client \<Rightarrow> Key \<Rightarrow> Key \<Rightarrow> Key \<Rightarrow> Prefix \<Rightarrow> int \<Rightarrow> int \<Rightarrow> Prefix list \<Rightarrow> FECConfig \<Rightarrow> Client" where
  "complete_client c priv spub psk tun mtu dscp routes fec =
    (let cc = cl_Client c
     in c\<lparr>cl_Client := cc\<lparr>cs_MTU := mtu,
            cs_ControlSocket := (if cs_ControlSocket cc = [] then DefaultControlSocket else cs_ControlSocket cc),
            cs_TunName := (if cs_TunName cc = [] then defaultTunName else cs_TunName cc)\<rparr>,
          cl_Tuning := Tuning_applyDefaults (cl_Tuning c), cl_FEC := fec,
          cl_PrivateKey := priv, cl_ServerPubKey := spub, cl_PSK := psk, cl_TunnelAddr := tun,
          cl_RoutePrefix := routes, cl_SchedMode := fst (ParseMode (cs_Mode cc)), cl_DSCPValue := dscp\<rparr>)"

definition LoadClient ::
  "(string \<Rightarrow> (Client \<times> string list) option) \<Rightarrow> (string \<Rightarrow> string option) \<Rightarrow> string \<Rightarrow> config_error + Client" where
  "LoadClient decode readFile path =
    bind_err (decodeStrict decode path) (\<lambda>c. let cc = cl_Client c in
    require (cs_PrivateKeyFile cc \<noteq> []) (ErrRequired ''client.private_key_file'') (
    bind_err (or_key ''client.private_key_file'' (LoadFile readFile (cs_PrivateKeyFile cc))) (\<lambda>priv.
    require (cs_Server cc \<noteq> []) (ErrRequired ''client.server'') (
    bind_err (or_key ''client.server_public_key'' (Key_Parse (cs_ServerPublicKey cc))) (\<lambda>spub.
    bind_err (load_psk readFile ''client.preshared_key_file'' (cs_PresharedKeyFile cc)) (\<lambda>psk.
    bind_err (or_addr ''client.tunnel_address'' (ParsePrefix (cs_TunnelAddress cc))) (\<lambda>tun.
    require (snd (ParseMode (cs_Mode cc))) (ErrMode (cs_Mode cc)) (
    let mtu = (if cs_MTU cc = 0 then 1400 else cs_MTU cc) in
    require (\<not> (mtu < 576 \<or> 9000 < mtu)) (ErrMTU mtu) (
    bind_err (parseDSCP (cs_DSCP cc)) (\<lambda>dscp.
    bind_err (parse_routes (cs_Routes cc)) (\<lambda>routes.
    require (ls_Auto (cl_Links c) \<or> ls_Link (cl_Links c) \<noteq> []) ErrNoLinks (
    let fec = FEC_applyDefaults (cl_FEC c) in
    case FEC_validate fec of
      Some e \<Rightarrow> Inl e
    | None \<Rightarrow>
        Inr (complete_client c priv spub psk tun mtu dscp routes fec)))))))))))))"

section \<open>Server configuration\<close>

record Peer =
  pe_Name :: string
  pe_PublicKey :: string
  pe_PresharedKeyFile :: string
  pe_TunnelIP :: string
  pe_PubKey :: Key
  pe_PSK :: Key
  pe_Addr :: Addr

record ServerSection =
  ss_Listen :: string
  ss_PrivateKeyFile :: string
  ss_TunnelAddress :: string
  ss_MTU :: int
  ss_DSCP :: string
  ss_ControlSocket :: string
  ss_TunName :: string
  ss_NATEnabled :: bool
  ss_NATOutInterface :: string

record Server =
  sv_Server :: ServerSection
  sv_Peer :: "Peer list"
  sv_Tuning :: Tuning
  sv_FEC :: FECConfig
  sv_PrivateKey :: Key
  sv_TunnelAddr :: Prefix
  sv_DSCPValue :: int

text \<open>
  The loop over the peers: \<open>seen\<close> maps the public keys so far to the names of their peers.
\<close>

fun load_peers ::
  "(string \<Rightarrow> string option) \<Rightarrow> Prefix \<Rightarrow> (Key \<rightharpoonup> string) \<Rightarrow> Peer list \<Rightarrow> config_error + Peer list" where
  "load_peers readFile tun seen [] = Inr []"
| "load_peers readFile tun seen (p # ps) =
    bind_err (or_key (pe_Name p) (Key_Parse (pe_PublicKey p))) (\<lambda>pub.
    case seen pub of
      Some prev \<Rightarrow> Inl (ErrDupKey prev (pe_Name p))
    | None \<Rightarrow>
        let seen = seen(pub \<mapsto> pe_Name p) in
        bind_err (load_psk readFile (pe_Name p) (pe_PresharedKeyFile p)) (\<lambda>psk.
        case ParseAddr (pe_TunnelIP p) of
          None \<Rightarrow> Inl (ErrPeerAddr (pe_Name p))
        | Some a \<Rightarrow>
            require (Prefix_Contains tun a) (ErrPeerOutside (pe_Name p)) (
            bind_err (load_peers readFile tun seen ps) (\<lambda>ps'.
            Inr (p\<lparr>pe_PubKey := pub, pe_PSK := psk, pe_Addr := a\<rparr> # ps')))))"

definition complete_server ::
  "Server \<Rightarrow> Key \<Rightarrow> Prefix \<Rightarrow> int \<Rightarrow> int \<Rightarrow> Peer list \<Rightarrow> FECConfig \<Rightarrow> Server" where
  "complete_server s priv tun mtu dscp peers fec =
    (let sc = sv_Server s
     in s\<lparr>sv_Server := sc\<lparr>ss_Listen := (if ss_Listen sc = [] then ''0.0.0.0:51820'' else ss_Listen sc),
            ss_MTU := mtu,
            ss_ControlSocket := (if ss_ControlSocket sc = [] then DefaultControlSocket else ss_ControlSocket sc),
            ss_TunName := (if ss_TunName sc = [] then defaultTunName else ss_TunName sc)\<rparr>,
          sv_Peer := peers, sv_Tuning := Tuning_applyDefaults (sv_Tuning s), sv_FEC := fec,
          sv_PrivateKey := priv, sv_TunnelAddr := tun, sv_DSCPValue := dscp\<rparr>)"

definition LoadServer ::
  "(string \<Rightarrow> (Server \<times> string list) option) \<Rightarrow> (string \<Rightarrow> string option) \<Rightarrow> string \<Rightarrow> config_error + Server" where
  "LoadServer decode readFile path =
    bind_err (decodeStrict decode path) (\<lambda>s. let sc = sv_Server s in
    require (ss_PrivateKeyFile sc \<noteq> []) (ErrRequired ''server.private_key_file'') (
    bind_err (or_key ''server.private_key_file'' (LoadFile readFile (ss_PrivateKeyFile sc))) (\<lambda>priv.
    bind_err (or_addr ''server.tunnel_address'' (ParsePrefix (ss_TunnelAddress sc))) (\<lambda>tun.
    let mtu = (if ss_MTU sc = 0 then 1400 else ss_MTU sc) in
    require (\<not> (mtu < 576 \<or> 9000 < mtu)) (ErrMTU mtu) (
    bind_err (parseDSCP (ss_DSCP sc)) (\<lambda>dscp.
    require (\<not> (ss_NATEnabled sc \<and> ss_NATOutInterface sc = [])) (ErrRequired ''server.nat.out_interface'') (
    require (sv_Peer s \<noteq> []) ErrNoPeers (
    bind_err (load_peers readFile tun Map.empty (sv_Peer s)) (\<lambda>peers.
    let fec = FEC_applyDefaults (sv_FEC s) in
    case FEC_validate fec of
      Some e \<Rightarrow> Inl e
    | None \<Rightarrow>
        Inr (complete_server s priv tun mtu dscp peers fec))))))))))"

section \<open>Sample configurations\<close>

definition sample_key :: "byte \<Rightarrow> Key" where
  "sample_key b = replicate 32 b"

definition sample_files :: "string \<Rightarrow> string option" where
  "sample_files _ = Some (Key_String (sample_key 1))"

definition zero_tuning :: Tuning where
  "zero_tuning = \<lparr>tu_ProbeIntervalMs = 0, tu_MaxReorderDelayMs = 0, tu_DeadIntervalProbes = 0,
     tu_DegradeLossPct = 0, tu_DegradeRTTMs = 0, tu_RekeySeconds = 0, tu_NotifyTooBig = None\<rparr>"

definition sample_client :: Client where
  "sample_client =
    \<lparr>cl_Client = \<lparr>cs_PrivateKeyFile = ''k'', cs_Server = ''s:1'',
       cs_ServerPublicKey = Key_String (sample_key 2), cs_PresharedKeyFile = [],
       cs_TunnelAddress = ''10.0.0.2/24'', cs_Mode = ''fec'', cs_MTU = 0, cs_DSCP = [], cs_Routes = [],
       cs_ControlSocket = [], cs_TunName = []\<rparr>,
     cl_Links = \<lparr>ls_Auto = True, ls_Exclude = [], ls_Link = []\<rparr>, cl_Tuning = zero_tuning,
     cl_FEC = \<lparr>fc_Group = 0, fc_Parity = 0, fc_FlushMs = 0\<rparr>, cl_PrivateKey = Key_zero,
     cl_ServerPubKey = Key_zero, cl_PSK = Key_zero, cl_TunnelAddr = Prefix_zero, cl_RoutePrefix = [],
     cl_SchedMode = ModeBonding, cl_DSCPValue = 0\<rparr>"

definition sample_peer :: "string \<Rightarrow> byte \<Rightarrow> Peer" where
  "sample_peer name b = \<lparr>pe_Name = name, pe_PublicKey = Key_String (sample_key b),
     pe_PresharedKeyFile = [], pe_TunnelIP = ''10.0.0.2'', pe_PubKey = Key_zero, pe_PSK = Key_zero,
     pe_Addr = AddrZero\<rparr>"

definition sample_server :: Server where
  "sample_server =
    \<lparr>sv_Server = \<lparr>ss_Listen = [], ss_PrivateKeyFile = ''k'', ss_TunnelAddress = ''10.0.0.1/24'', ss_MTU = 0,
       ss_DSCP = ''ef'', ss_ControlSocket = [], ss_TunName = [], ss_NATEnabled = False,
       ss_NATOutInterface = []\<rparr>,
     sv_Peer = [sample_peer ''a'' 3, sample_peer ''b'' 4], sv_Tuning = zero_tuning,
     sv_FEC = \<lparr>fc_Group = 0, fc_Parity = 0, fc_FlushMs = 0\<rparr>, sv_PrivateKey = Key_zero,
     sv_TunnelAddr = Prefix_zero, sv_DSCPValue = 0\<rparr>"

lemma sample_key_facts [simp]:
  "length (sample_key b) = 32" "Key_Parse (Key_String (sample_key b)) = Inr (sample_key b)"
  "LoadFile sample_files f = Inr (sample_key 1)" "sample_key b = sample_key b' \<longleftrightarrow> b = b'"
  by (simp_all add: Key_Parse_of_String sample_key_def sample_files_def LoadFile_def)

lemma TrimSpace_plain: "s \<noteq> [] \<Longrightarrow> no_space_start (hd s) \<Longrightarrow> no_space_start (last s) \<Longrightarrow> TrimSpace s = s"
  using TrimSpace_padded [of "[]" "[]" s] by simp

lemma sample_text:
  "ParsePrefix ''10.0.0.2/24'' = Some \<lparr>px_Addr = IP4 0x0a000002, px_Bits = 24\<rparr>"
  "ParsePrefix ''10.0.0.1/24'' = Some \<lparr>px_Addr = IP4 0x0a000001, px_Bits = 24\<rparr>"
  "ParseAddr ''10.0.0.2'' = Some (IP4 0x0a000002)"
  by code_simp+

lemma sample_dscp: "parseDSCP [] = Inr 0" "parseDSCP ''ef'' = Inr 46"
proof -
  have "TrimSpace [] = []" by (simp add: TrimSpace_def trim_front_stop)
  then show "parseDSCP [] = Inr 0" by (simp add: parseDSCP_def dscpNames_def)
  have "TrimSpace ''ef'' = ''ef''"
    by (rule TrimSpace_plain) (simp_all add: no_space_start_def space_runes_def)
  then show "parseDSCP ''ef'' = Inr 46" by (simp add: parseDSCP_def dscpNames_def lower_char_def Let_def)
qed

lemma sample_client_loads: "\<exists>c. LoadClient (\<lambda>_. Some (sample_client, [])) sample_files ''f'' = Inr c"
  by (simp add: LoadClient_def decodeStrict_def bind_err_def require_def or_key_def or_addr_def load_psk_def
      sample_client_def sample_text sample_dscp ParseMode_def FEC_validate_def FEC_applyDefaults_def)

lemma sample_server_loads:
  "\<exists>s. LoadServer (\<lambda>_. Some (sample_server, [])) sample_files ''f'' = Inr s \<and>
    map pe_Addr (sv_Peer s) = [IP4 0x0a000002, IP4 0x0a000002] \<and>
    map pe_PubKey (sv_Peer s) = [sample_key 3, sample_key 4]"
proof -
  have "Prefix_Contains \<lparr>px_Addr = IP4 0x0a000001, px_Bits = 24\<rparr> (IP4 0x0a000002)"
    by (simp add: Prefix_Contains_def)
  then show ?thesis
    by (simp add: LoadServer_def decodeStrict_def bind_err_def require_def or_key_def or_addr_def load_psk_def
        sample_server_def sample_peer_def sample_text sample_dscp FEC_validate_def FEC_applyDefaults_def
        complete_server_def Let_def)
qed

section \<open>What a loaded configuration guarantees\<close>

lemma bind_err_Inr: "bind_err r f = Inr y \<longleftrightarrow> (\<exists>x. r = Inr x \<and> f x = Inr y)"
  by (cases r) (auto simp: bind_err_def)

lemma require_Inr: "require ok e r = Inr y \<longleftrightarrow> ok \<and> r = Inr y"
  by (simp add: require_def)

lemma or_key_Inr: "or_key f r = Inr k \<longleftrightarrow> r = Inr k"
  by (cases r) (auto simp: or_key_def)

lemma or_addr_Inr: "or_addr f r = Inr x \<longleftrightarrow> r = Some x"
  by (cases r) (auto simp: or_addr_def)

lemmas load_simps = bind_err_Inr require_Inr or_key_Inr or_addr_Inr

lemma LoadFile_length: "LoadFile rf f = Inr k \<Longrightarrow> length k = KeySize"
  by (auto simp: LoadFile_def split: option.splits sum.splits dest: Key_Parse_length)

lemma load_psk_length: "load_psk rf field f = Inr k \<Longrightarrow> length k = KeySize"
  by (auto simp: load_psk_def or_key_Inr Key_zero_def split: if_splits dest: LoadFile_length)

lemma dscpNames_range: "map_of dscpNames k = Some v \<Longrightarrow> 0 \<le> v \<and> v \<le> 63"
proof -
  have "\<forall>(n, v)\<in>set dscpNames. 0 \<le> v \<and> v \<le> 63" by (simp add: dscpNames_def)
  then show "map_of dscpNames k = Some v \<Longrightarrow> 0 \<le> v \<and> v \<le> 63" by (auto dest: map_of_SomeD)
qed

lemma parseDSCP_range: "parseDSCP s = Inr v \<Longrightarrow> 0 \<le> v \<and> v \<le> 63"
  by (auto simp: parseDSCP_def Let_def split: option.splits if_splits dest: dscpNames_range)

definition fec_ok :: "FECConfig \<Rightarrow> bool" where
  "fec_ok f \<longleftrightarrow> 2 \<le> fc_Group f \<and> fc_Group f \<le> 15 \<and> 0 \<le> fc_Parity f \<and> fc_Parity f \<le> fc_Group f \<and>
    1 \<le> fc_FlushMs f \<and> fc_FlushMs f \<le> 1000"

lemma FEC_validate_None: "FEC_validate f = None \<longleftrightarrow> fec_ok f"
  by (auto simp: FEC_validate_def fec_ok_def)

definition tuning_set :: "Tuning \<Rightarrow> bool" where
  "tuning_set t \<longleftrightarrow> tu_ProbeIntervalMs t \<noteq> 0 \<and> tu_MaxReorderDelayMs t \<noteq> 0 \<and> tu_DeadIntervalProbes t \<noteq> 0 \<and>
    tu_DegradeLossPct t \<noteq> 0 \<and> tu_DegradeRTTMs t \<noteq> 0 \<and> tu_RekeySeconds t \<noteq> 0"

lemma tuning_set_defaults: "tuning_set (Tuning_applyDefaults t)"
  by (simp add: Tuning_applyDefaults_def tuning_set_def Let_def)

lemma Tuning_defaults_idem: "tuning_set t \<Longrightarrow> Tuning_applyDefaults t = t"
  by (simp add: Tuning_applyDefaults_def tuning_set_def Let_def)

lemma LoadClient_cases:
  assumes "LoadClient decode readFile path = Inr c"
  obtains v priv spub psk tun mtu dscp routes where "decode path = Some (v, [])"
    "cs_PrivateKeyFile (cl_Client v) \<noteq> []" "LoadFile readFile (cs_PrivateKeyFile (cl_Client v)) = Inr priv"
    "cs_Server (cl_Client v) \<noteq> []" "Key_Parse (cs_ServerPublicKey (cl_Client v)) = Inr spub"
    "load_psk readFile ''client.preshared_key_file'' (cs_PresharedKeyFile (cl_Client v)) = Inr psk"
    "ParsePrefix (cs_TunnelAddress (cl_Client v)) = Some tun" "snd (ParseMode (cs_Mode (cl_Client v)))"
    "mtu = (if cs_MTU (cl_Client v) = 0 then 1400 else cs_MTU (cl_Client v))" "576 \<le> mtu" "mtu \<le> 9000"
    "parseDSCP (cs_DSCP (cl_Client v)) = Inr dscp" "parse_routes (cs_Routes (cl_Client v)) = Inr routes"
    "ls_Auto (cl_Links v) \<or> ls_Link (cl_Links v) \<noteq> []" "FEC_validate (FEC_applyDefaults (cl_FEC v)) = None"
    "c = complete_client v priv spub psk tun mtu dscp routes (FEC_applyDefaults (cl_FEC v))"
proof -
  obtain v where v: "decode path = Some (v, [])" "decodeStrict decode path = Inr v"
    using assms by (auto simp: LoadClient_def bind_err_def decodeStrict_def split: option.splits list.splits)
  show thesis
    using assms that [OF v(1)] unfolding LoadClient_def v(2) load_simps Let_def
    by (auto simp: not_less split: option.splits)
qed

lemma LoadServer_cases:
  assumes "LoadServer decode readFile path = Inr s"
  obtains v priv tun mtu dscp peers where "decode path = Some (v, [])"
    "LoadFile readFile (ss_PrivateKeyFile (sv_Server v)) = Inr priv"
    "ParsePrefix (ss_TunnelAddress (sv_Server v)) = Some tun" "576 \<le> mtu" "mtu \<le> 9000"
    "parseDSCP (ss_DSCP (sv_Server v)) = Inr dscp"
    "\<not> (ss_NATEnabled (sv_Server v) \<and> ss_NATOutInterface (sv_Server v) = [])" "sv_Peer v \<noteq> []"
    "load_peers readFile tun Map.empty (sv_Peer v) = Inr peers"
    "FEC_validate (FEC_applyDefaults (sv_FEC v)) = None"
    "s = complete_server v priv tun mtu dscp peers (FEC_applyDefaults (sv_FEC v))"
proof -
  obtain v where v: "decode path = Some (v, [])" "decodeStrict decode path = Inr v"
    using assms by (auto simp: LoadServer_def bind_err_def decodeStrict_def split: option.splits list.splits)
  show thesis
    using assms that [OF v(1)] unfolding LoadServer_def v(2) load_simps Let_def
    by (auto simp: not_less split: option.splits)
qed



lemma load_peers_ok:
  "load_peers rf tun seen ps = Inr ps' \<Longrightarrow>
    length ps' = length ps \<and> distinct (map pe_PubKey ps') \<and> (\<forall>p\<in>set ps'. seen (pe_PubKey p) = None) \<and>
    (\<forall>p\<in>set ps'. length (pe_PubKey p) = KeySize \<and> length (pe_PSK p) = KeySize \<and> Prefix_Contains tun (pe_Addr p))"
proof (induction ps arbitrary: seen ps')
  case (Cons p ps)
  from Cons.prems obtain pub psk a ps'' where r: "Key_Parse (pe_PublicKey p) = Inr pub" "seen pub = None"
    "load_psk rf (pe_Name p) (pe_PresharedKeyFile p) = Inr psk" "ParseAddr (pe_TunnelIP p) = Some a"
    "Prefix_Contains tun a" "load_peers rf tun (seen(pub \<mapsto> pe_Name p)) ps = Inr ps''"
    "ps' = p\<lparr>pe_PubKey := pub, pe_PSK := psk, pe_Addr := a\<rparr> # ps''"
    by (auto simp: load_simps Let_def split: option.splits)
  have "length ps'' = length ps \<and> distinct (map pe_PubKey ps'') \<and>
      (\<forall>q\<in>set ps''. (seen(pub \<mapsto> pe_Name p)) (pe_PubKey q) = None) \<and>
      (\<forall>q\<in>set ps''. length (pe_PubKey q) = KeySize \<and> length (pe_PSK q) = KeySize \<and> Prefix_Contains tun (pe_Addr q))"
    using r(6) by (rule Cons.IH)
  then show ?case
    using r Key_Parse_length [OF r(1)] load_psk_length [OF r(3)] by (auto split: if_splits)
qed simp

text \<open>
  Property C29. A server configuration that loads has at least one peer, every peer has its own public key
  and an address of the tunnel's family inside the tunnel prefix, and the MTU, DSCP and FEC
  values are in range.
\<close>

theorem LoadServer_valid:
  assumes "LoadServer decode readFile path = Inr s"
  shows "sv_Peer s \<noteq> [] \<and> distinct (map pe_PubKey (sv_Peer s)) \<and> length (sv_PrivateKey s) = KeySize \<and>
    (\<forall>p\<in>set (sv_Peer s). length (pe_PubKey p) = KeySize \<and> length (pe_PSK p) = KeySize \<and>
       Prefix_Contains (sv_TunnelAddr s) (pe_Addr p) \<and> BitLen (pe_Addr p) = BitLen (px_Addr (sv_TunnelAddr s))) \<and>
    576 \<le> ss_MTU (sv_Server s) \<and> ss_MTU (sv_Server s) \<le> 9000 \<and>
    0 \<le> sv_DSCPValue s \<and> sv_DSCPValue s \<le> 63 \<and> fec_ok (sv_FEC s) \<and> tuning_set (sv_Tuning s) \<and>
    (ss_NATEnabled (sv_Server s) \<longrightarrow> ss_NATOutInterface (sv_Server s) \<noteq> [])"
proof -
  from assms show ?thesis
  proof (rule LoadServer_cases)
    fix v priv tun mtu dscp peers
    assume r: "LoadFile readFile (ss_PrivateKeyFile (sv_Server v)) = Inr priv" "576 \<le> mtu" "mtu \<le> 9000"
      "parseDSCP (ss_DSCP (sv_Server v)) = Inr dscp"
      "\<not> (ss_NATEnabled (sv_Server v) \<and> ss_NATOutInterface (sv_Server v) = [])" "sv_Peer v \<noteq> []"
      "load_peers readFile tun Map.empty (sv_Peer v) = Inr peers"
      "FEC_validate (FEC_applyDefaults (sv_FEC v)) = None"
      "s = complete_server v priv tun mtu dscp peers (FEC_applyDefaults (sv_FEC v))"
    have "\<forall>p\<in>set peers. Prefix_Contains tun (pe_Addr p) \<and> BitLen (pe_Addr p) = BitLen (px_Addr tun)"
      using load_peers_ok [OF r(7)] Prefix_Contains_BitLen by blast
    then show ?thesis
      using r LoadFile_length [OF r(1)] parseDSCP_range [OF r(4)] load_peers_ok [OF r(7)]
      by (auto simp: complete_server_def Let_def FEC_validate_None tuning_set_defaults)
  qed
qed

theorem LoadServer_valid_witness:
  "\<exists>s. LoadServer (\<lambda>_. Some (sample_server, [])) sample_files ''f'' = Inr s \<and>
    distinct (map pe_PubKey (sv_Peer s)) \<and> sv_DSCPValue s \<le> 63"
proof -
  obtain s where "LoadServer (\<lambda>_. Some (sample_server, [])) sample_files ''f'' = Inr s"
    using sample_server_loads by blast
  then show ?thesis using LoadServer_valid by blast
qed

text \<open>
  Two peers may share one tunnel address: the duplicate check covers public keys only, and a
  configuration with two such peers loads.
\<close>

theorem shared_tunnel_ip_accepted:
  "\<exists>s p q. LoadServer (\<lambda>_. Some (sample_server, [])) sample_files ''f'' = Inr s \<and>
    sv_Peer s = [p, q] \<and> pe_PubKey p \<noteq> pe_PubKey q \<and> pe_Addr p = pe_Addr q"
proof -
  obtain s where s: "LoadServer (\<lambda>_. Some (sample_server, [])) sample_files ''f'' = Inr s"
    "map pe_Addr (sv_Peer s) = [IP4 0x0a000002, IP4 0x0a000002]"
    "map pe_PubKey (sv_Peer s) = [sample_key 3, sample_key 4]"
    using sample_server_loads by (elim exE conjE) (rule that)
  obtain p q where "sv_Peer s = [p, q]" using s(2) by (auto simp: map_eq_Cons_conv)
  then show ?thesis using s by (intro exI [of _ s] exI [of _ p] exI [of _ q]) auto
qed

text \<open>
  The tuning section is not validated: whatever loads with one tuning section loads with any
  other, negative intervals included, for which the loops that use them panic when they create
  their timers.
\<close>

theorem tuning_unchecked:
  assumes "LoadClient (\<lambda>_. Some (raw, [])) readFile path = Inr c"
  shows "LoadClient (\<lambda>_. Some (raw\<lparr>cl_Tuning := t\<rparr>, [])) readFile path =
    Inr (c\<lparr>cl_Tuning := Tuning_applyDefaults t\<rparr>)"
  using assms
proof (rule LoadClient_cases, goal_cases)
  case (1 v priv spub psk tun mtu dscp routes)
  then show ?case
    by (auto simp: LoadClient_def decodeStrict_def bind_err_def require_def or_key_def or_addr_def
        complete_client_def Let_def)
qed

theorem tuning_unchecked_witness:
  "\<exists>c. LoadClient (\<lambda>_. Some (sample_client\<lparr>cl_Tuning := zero_tuning\<lparr>tu_ProbeIntervalMs := - 1\<rparr>\<rparr>, []))
      sample_files ''f'' = Inr c \<and> ProbeInterval (cl_Tuning c) < 0"
proof -
  obtain c where c: "LoadClient (\<lambda>_. Some (sample_client, [])) sample_files ''f'' = Inr c"
    using sample_client_loads by blast
  have "ProbeInterval (Tuning_applyDefaults (zero_tuning\<lparr>tu_ProbeIntervalMs := - 1\<rparr>)) < 0"
    by (simp add: ProbeInterval_def Tuning_applyDefaults_def zero_tuning_def Let_def wrap_int64_id)
  then show ?thesis using tuning_unchecked [OF c] by simp
qed

end
