(* ===== verification/Session.thy ===== *)
theory Session
  imports Path Fec_Decoder Reorder Noiseio Pmtunotify Config "HOL-Library.Monad_Syntax"
begin

text \<open>
  One session of the engine, \<open>internal/engine/session.go\<close>, with the buffer layout of
  \<open>internal/pktbuf\<close>: sending and receiving of datagrams, control packets, path admission,
  MTU probes, epoch bookkeeping and the bodies of the housekeeping loops.

  Pointers to epochs are addresses into the list \<open>se_heap\<close>, because the same epoch is
  reached from \<open>txEpoch\<close>, \<open>pending\<close> and the table \<open>epochs\<close>, and its counters and windows are
  updated through all of them. A path object lives in its slot of \<open>paths\<close>. A panic (an index or
  slice out of range, a nil pointer) is \<open>None\<close>. Datagrams given to a socket are appended to
  \<open>se_sent\<close>; \<open>ev_ok\<close> tells which writes succeed. Packets for the TUN writer are the
  emissions of the reorder buffer and, for the ICMP replies, \<open>se_ptb\<close>; a full channel drops
  them, which \<open>ev_tunFull\<close> decides for the replies. What the session uses of its engine is in
  \<open>se_eng\<close>. Log output is left out. Clock readings are arguments: \<open>now\<close> in nanoseconds for
  \<open>time.Now()\<close>, \<open>nowUs\<close> in microseconds for the engine's monotonic clock. Pooled buffers carry
  no identity: the buffer of a packet is written as 0.
\<close>

section \<open>Buffers (\<open>pktbuf\<close>)\<close>

definition BufSize :: nat where [simp]: "BufSize = 2048"
definition TunOffset :: nat where [simp]: "TunOffset = 32"
definition DatagramOffset :: nat where [simp]: "DatagramOffset = 8"
definition RxIPOffset :: nat where [simp]: "RxIPOffset = 24"

section \<open>State\<close>

datatype Role = RoleClient | RoleServer

datatype Sent = ToConn nat bytes | ToAddr AddrPort bytes

record Env =
  ev_rs :: RSLib
  ev_ord :: "u64 list"
  ev_ok :: "Sent \<Rightarrow> bool"
  ev_tunFull :: bool

record EngineConf =
  en_role :: Role
  en_mtu :: int
  en_tuning :: Tuning
  en_fecCfg :: FECConfig
  en_notifyTooBig :: bool
  en_ptbLimiter :: "Limiter option"
  en_rekeyNow :: bool

record epochEntry =
  ee_epoch :: nat
  ee_supersedes :: "int option"

record session =
  se_eng :: EngineConf
  se_name :: string
  se_peerPub :: Key
  se_psk :: Key
  se_peerIP :: Addr
  se_heap :: "Epoch list"
  se_txEpoch :: "nat option"
  se_pending :: "nat option"
  se_epochs :: "(u32 \<times> epochEntry) list"
  se_globalSeq :: u64
  se_paths :: "Path option garray"
  se_conns :: "nat option garray"
  se_acked :: "bool garray"
  se_sched :: Scheduler
  se_reorder :: Buffer
  se_lastHsTs :: u64
  se_lastDupUs :: int
  se_lastFecUs :: int
  se_fecEnc :: Encoder
  se_fecDec :: Decoder
  se_dropNoPath :: u64
  se_dropNoEpoch :: u64
  se_icmpPTBSent :: u64
  se_started :: bool
  se_sent :: "Sent list"
  se_ptb :: "bytes list"

definition epochGrace :: int where [simp]: "epochGrace = 90000000000"

definition newSession :: "EngineConf \<Rightarrow> string \<Rightarrow> Key \<Rightarrow> Key \<Rightarrow> Mode \<Rightarrow> session" where
  "newSession e name pub psk mode =
    \<lparr>se_eng = e, se_name = name, se_peerPub = pub, se_psk = psk, se_peerIP = AddrZero, se_heap = [],
     se_txEpoch = None, se_pending = None, se_epochs = [], se_globalSeq = 0, se_paths = (\<lambda>_. None),
     se_conns = (\<lambda>_. None), se_acked = (\<lambda>_. False), se_sched = NewScheduler DefaultSchedConfig mode,
     se_reorder = New [], se_lastHsTs = 0, se_lastDupUs = 0, se_lastFecUs = 0,
     se_fecEnc = NewEncoder (fc_Group (en_fecCfg e)) (fc_Parity (en_fecCfg e)) (FlushAfter (en_fecCfg e)),
     se_fecDec = NewDecoder, se_dropNoPath = 0, se_dropNoEpoch = 0, se_icmpPTBSent = 0,
     se_started = False, se_sent = [], se_ptb = []\<rparr>"

text \<open>Updating a path object in its slot; nothing happens when the slot is empty.\<close>

definition upd_path :: "nat \<Rightarrow> (Path \<Rightarrow> Path) \<Rightarrow> session \<Rightarrow> session" where
  "upd_path i f s = s\<lparr>se_paths := (se_paths s)(i := map_option f (se_paths s i))\<rparr>"

section \<open>Timeouts and loss over the paths\<close>

text \<open>The loop of \<open>reorderTimeout\<close>: least and largest RTT and largest variation.\<close>

definition rtt_spread :: "Path option garray \<Rightarrow> int \<times> int \<times> int" where
  "rtt_spread ps = fold (\<lambda>i (mn, mx, mv).
     case ps i of
       None \<Rightarrow> (mn, mx, mv)
     | Some p \<Rightarrow>
         (if pa_state p \<noteq> Active then (mn, mx, mv)
          else let m = Path_Metrics p in
            if m_SRTT m = 0 then (mn, mx, mv)
            else (if mn = 0 \<or> m_SRTT m < mn then m_SRTT m else mn,
                  if mx < m_SRTT m then m_SRTT m else mx,
                  if mv < m_RTTVar m then m_RTTVar m else mv)))
     [0..<MaxPaths] (0, 0, 0)"

definition reorderTimeout :: "session \<Rightarrow> int" where
  "reorderTimeout s =
    (let (mn, mx, mv) = rtt_spread (se_paths s);
         d = (mx - mn) + 4 * mv;
         d = (if d < 10000000 then 10000000 else d);
         hi = MaxReorderDelay (en_tuning (se_eng s))
     in if hi < d then hi else d)"

definition worstActiveLoss :: "session \<Rightarrow> real" where
  "worstActiveLoss s = fold (\<lambda>i worst.
     case se_paths s i of
       None \<Rightarrow> worst
     | Some p \<Rightarrow>
         (if pa_state p \<noteq> Active \<and> pa_state p \<noteq> Degraded then worst
          else if worst < m_Loss (Path_Metrics p) then m_Loss (Path_Metrics p) else worst))
     [0..<MaxPaths] 0"

section \<open>Epochs\<close>

text \<open>Dereferencing and updating an epoch.\<close>

definition get_epoch :: "nat \<Rightarrow> session \<Rightarrow> Epoch option" where
  "get_epoch a s = (if a < length (se_heap s) then Some (se_heap s ! a) else None)"

definition put_epoch :: "nat \<Rightarrow> Epoch \<Rightarrow> session \<Rightarrow> session" where
  "put_epoch a e s = s\<lparr>se_heap := (se_heap s)[a := e]\<rparr>"

definition alloc_epoch :: "Epoch \<Rightarrow> session \<Rightarrow> nat \<times> session" where
  "alloc_epoch e s = (length (se_heap s), s\<lparr>se_heap := se_heap s @ [e]\<rparr>)"

definition supersede :: "int \<Rightarrow> u32 \<Rightarrow> session \<Rightarrow> session" where
  "supersede now rx s =
    (case map_of (se_epochs s) rx of
       Some old \<Rightarrow>
         (if ee_supersedes old = None
          then s\<lparr>se_epochs := AList.update rx (old\<lparr>ee_supersedes := Some now\<rparr>) (se_epochs s)\<rparr>
          else s)
     | None \<Rightarrow> s)"

definition registerEpoch :: "int \<Rightarrow> nat \<Rightarrow> bool \<Rightarrow> session \<Rightarrow> session option" where
  "registerEpoch now ep makeTx s = do {
     s \<leftarrow> (case se_txEpoch s of
             None \<Rightarrow> Some s
           | Some cur \<Rightarrow>
               (if makeTx
                then do { e \<leftarrow> get_epoch cur s; Some (supersede now (ep_rxID e) s) }
                else Some s));
     e \<leftarrow> get_epoch ep s;
     let s = s\<lparr>se_epochs := AList.update (ep_rxID e) \<lparr>ee_epoch = ep, ee_supersedes = None\<rparr> (se_epochs s)\<rparr>;
     Some (if makeTx then s\<lparr>se_txEpoch := Some ep\<rparr> else s)
   }"

definition lookupEpoch :: "u32 \<Rightarrow> session \<Rightarrow> nat option" where
  "lookupEpoch rxID s = map_option ee_epoch (map_of (se_epochs s) rxID)"

definition expired_entry :: "int \<Rightarrow> u32 \<times> epochEntry \<Rightarrow> bool" where
  "expired_entry now en =
    (case ee_supersedes (snd en) of None \<Rightarrow> False | Some t \<Rightarrow> epochGrace < now - t)"

definition pruneEpochs :: "int \<Rightarrow> session \<Rightarrow> u32 list \<times> session" where
  "pruneEpochs now s =
    (map fst (filter (expired_entry now) (se_epochs s)),
     s\<lparr>se_epochs := filter (\<lambda>en. \<not> expired_entry now en) (se_epochs s)\<rparr>)"

section \<open>Sending\<close>

definition transmit :: "Env \<Rightarrow> Path \<Rightarrow> bytes \<Rightarrow> session \<Rightarrow> (bool \<times> session) option" where
  "transmit env p datagram s =
    (if en_role (se_eng s) = RoleClient then
       (if MaxPaths \<le> unat (pa_ID p) then None
        else case se_conns s (unat (pa_ID p)) of
            None \<Rightarrow> Some (False, s)
          | Some c \<Rightarrow>
              let w = ToConn c datagram in Some (ev_ok env w, s\<lparr>se_sent := se_sent s @ [w]\<rparr>))
     else
       (if \<not> AddrPort_IsValid (Endpoint p) then Some (False, s)
        else let w = ToAddr (Endpoint p) datagram in Some (ev_ok env w, s\<lparr>se_sent := se_sent s @ [w]\<rparr>)))"

text \<open>
  The common part of all senders: the next counter of the path, the outer header, and the
  sealed plaintext behind it. Returns the datagram.
\<close>

definition seal_datagram :: "nat \<Rightarrow> byte \<Rightarrow> byte \<Rightarrow> bytes \<Rightarrow> session \<Rightarrow> (bytes \<times> session) option" where
  "seal_datagram ep typ pid plaintext s = do {
     e \<leftarrow> get_epoch ep s;
     (ctr, e) \<leftarrow> NextCounter e pid;
     hdr \<leftarrow> Header_Marshal \<lparr>h_Type = typ, h_PathID = pid, h_SessionID = ep_txID e, h_Counter = ctr\<rparr>
              (replicate HeaderSize 0);
     ct \<leftarrow> Epoch_Seal e pid ctr [] plaintext hdr;
     Some (hdr @ ct, put_epoch ep e s)
   }"

text \<open>
  \<open>encryptAndSend\<close>: the datagram starts at \<open>DatagramOffset\<close> of a pooled buffer; slicing
  beyond the buffer panics.
\<close>

definition encryptAndSend :: "Env \<Rightarrow> nat \<Rightarrow> byte \<Rightarrow> bytes \<Rightarrow> nat \<Rightarrow> session \<Rightarrow> session option" where
  "encryptAndSend env ep pid plaintext n s =
    (if MaxPaths \<le> unat pid then None
     else case se_paths s (unat pid) of
         None \<Rightarrow> Some s
       | Some p \<Rightarrow> do {
           (datagram, s) \<leftarrow> seal_datagram ep TypeData pid plaintext s;
           if BufSize < DatagramOffset + length datagram then None
           else do {
             (ok, s) \<leftarrow> transmit env p datagram s;
             Some (if ok then upd_path (unat pid) (OnDataSent (int n)) s else s)
           }
         })"

definition sendControl :: "Env \<Rightarrow> nat option \<Rightarrow> byte \<Rightarrow> byte \<Rightarrow> bytes \<Rightarrow> session \<Rightarrow> session option" where
  "sendControl env ep pid typ payload s =
    (if MaxPaths \<le> unat pid then None
     else case (se_paths s (unat pid), ep) of
         (Some p, Some ep) \<Rightarrow> do {
           (datagram, s) \<leftarrow> seal_datagram ep typ pid payload s;
           if HeaderSize + 256 < length datagram then None
           else do {
             (ok, s) \<leftarrow> transmit env p datagram s;
             Some (if ok then upd_path (unat pid) (OnControlSent (int (length payload))) s else s)
           }
         }
       | _ \<Rightarrow> Some s)"

definition sendFECParity :: "Env \<Rightarrow> nat \<Rightarrow> byte \<Rightarrow> Parity \<Rightarrow> session \<Rightarrow> session option" where
  "sendFECParity env ep pid par s =
    (if MaxPaths \<le> unat pid then None
     else case se_paths s (unat pid) of
         None \<Rightarrow> Some s
       | Some p \<Rightarrow> do {
           hdr \<leftarrow> FECHeader_Marshal (py_Header par) (replicate FECHeaderSize 0);
           let n = FECHeaderSize + length (py_Shard par);
           if BufSize < TunOffset - FECHeaderSize + n then None
           else do {
             (datagram, s) \<leftarrow> seal_datagram ep TypeFEC pid (hdr @ py_Shard par) s;
             if BufSize < DatagramOffset + length datagram then None
             else do {
               (ok, s) \<leftarrow> transmit env p datagram s;
               Some (if ok then upd_path (unat pid) (OnControlSent (int n)) s else s)
             }
           }
         })"

text \<open>
  \<open>sort.Slice\<close> by the number of data shards a path carried. The library's sort is not
  stable, so the order of paths with equal counts is not determined by the code; the model
  keeps the order of the path ids.
\<close>

definition parity_candidates :: "nat \<Rightarrow> Group \<Rightarrow> session \<Rightarrow> (byte \<times> u16) list" where
  "parity_candidates shardLen g s = concat (map (\<lambda>i.
     case se_paths s i of
       None \<Rightarrow> []
     | Some p \<Rightarrow>
         (if pa_state p \<noteq> Active \<or> (pa_maxInner p \<noteq> 0 \<and> pa_maxInner p < int shardLen) then []
          else [(pa_ID p, gr_PathCounts g (unat (pa_ID p)))])) [0..<MaxPaths])"

fun send_parity_list ::
  "Env \<Rightarrow> nat \<Rightarrow> (byte \<times> u16) list \<Rightarrow> nat \<Rightarrow> Parity list \<Rightarrow> session \<Rightarrow> session option" where
  "send_parity_list env ep cands i [] s = Some s"
| "send_parity_list env ep cands i (par # ps) s = do {
     s \<leftarrow> sendFECParity env ep (fst (cands ! (i mod length cands))) par s;
     send_parity_list env ep cands (Suc i) ps s
   }"

definition sendParities :: "Env \<Rightarrow> nat option \<Rightarrow> Group \<Rightarrow> session \<Rightarrow> session option" where
  "sendParities env ep g s =
    (case (ep, gr_Parities g) of
       (Some ep, par # _) \<Rightarrow>
         let cands = sort_key snd (parity_candidates (length (py_Shard par)) g s)
         in if cands = [] then Some s else send_parity_list env ep cands 0 (gr_Parities g) s
     | _ \<Rightarrow> Some s)"

fun innerAddr :: "nat \<Rightarrow> nat \<Rightarrow> bytes \<Rightarrow> Addr option" where
  "innerAddr off4 off6 ip =
    (if length ip < 1 then None
     else let v = drop_bit 4 (ip ! 0)
          in if v = 4 then (if length ip < 20 then None else Some (AddrFrom4 (gslice off4 4 ip)))
             else if v = 6 then (if length ip < 40 then None else Some (Unmap (AddrFrom16 (gslice off6 16 ip))))
             else None)"

definition innerSrc :: "bytes \<Rightarrow> Addr option" where
  "innerSrc ip = innerAddr 12 8 ip"

definition innerDst :: "bytes \<Rightarrow> Addr option" where
  "innerDst ip = innerAddr 16 24 ip"

definition sendPTB :: "Env \<Rightarrow> int \<Rightarrow> bytes \<Rightarrow> int \<Rightarrow> session \<Rightarrow> session" where
  "sendPTB env now inner mtu s =
    (case (en_ptbLimiter (se_eng s), innerSrc inner, innerDst inner) of
       (Some lm, Some src, Some dst) \<Rightarrow>
         (case Allow src now lm of
            (ok, lm) \<Rightarrow>
              let s = s\<lparr>se_eng := (se_eng s)\<lparr>en_ptbLimiter := Some lm\<rparr>\<rparr>
              in if \<not> ok then s
                 else case BuildPTB (replicate (BufSize - RxIPOffset) 0) inner dst mtu (en_mtu (se_eng s)) of
                     None \<Rightarrow> s
                   | Some (n, d) \<Rightarrow>
                       if ev_tunFull env then s
                       else s\<lparr>se_ptb := se_ptb s @ [take n d], se_icmpPTBSent := se_icmpPTBSent s + 1\<rparr>)
     | _ \<Rightarrow> s)"

fun send_targets :: "Env \<Rightarrow> nat \<Rightarrow> bytes \<Rightarrow> nat \<Rightarrow> byte list \<Rightarrow> session \<Rightarrow> session option" where
  "send_targets env ep plaintext n [] s = Some s"
| "send_targets env ep plaintext n (pid # pids) s = do {
     s \<leftarrow> encryptAndSend env ep pid plaintext n s;
     send_targets env ep plaintext n pids s
   }"

definition data_flags :: "byte list \<Rightarrow> bool \<Rightarrow> byte" where
  "data_flags targets fecMode =
    (let flags = (if 1 < length targets then FlagDuplicate else 0)
     in if fecMode then flags OR FlagFEC else flags)"

text \<open>The inner packet \<open>ip\<close> has been read into a pooled buffer at \<open>TunOffset\<close>.\<close>

definition sendData :: "Env \<Rightarrow> int \<Rightarrow> bytes \<Rightarrow> session \<Rightarrow> session option" where
  "sendData env now ip s =
    (let n = length ip in
     case se_txEpoch s of
       None \<Rightarrow> Some (s\<lparr>se_dropNoEpoch := se_dropNoEpoch s + 1\<rparr>)
     | Some ep \<Rightarrow>
         (case Assign (int n) [] (se_sched s) of
            (targets, sched) \<Rightarrow>
              let s = s\<lparr>se_sched := sched\<rparr>
              in if targets = [] then
                   let s = s\<lparr>se_dropNoPath := se_dropNoPath s + 1\<rparr>;
                       mtu = MinUsableInner (se_sched s)
                   in Some (if en_notifyTooBig (se_eng s) \<and> 0 < mtu \<and> mtu < int n
                            then sendPTB env now ip mtu s else s)
                 else do {
                   let s = s\<lparr>se_globalSeq := se_globalSeq s + 1\<rparr>;
                   let seq = se_globalSeq s;
                   let fecMode = (sc_mode (se_sched s) = ModeFEC);
                   hdr \<leftarrow> PutDataHeader (replicate DataHeaderSize 0) seq (data_flags targets fecMode);
                   (group, s) \<leftarrow>
                     (if fecMode then do {
                        (g, enc) \<leftarrow> Encoder_Add (ev_rs env) (worstActiveLoss s) seq ip (hd targets) now (se_fecEnc s);
                        Some (g, s\<lparr>se_fecEnc := enc\<rparr>)
                      } else Some (None, s));
                   s \<leftarrow> send_targets env ep (hdr @ ip) n targets s;
                   (case group of None \<Rightarrow> Some s | Some g \<Rightarrow> sendParities env (Some ep) g s)
                 }))"

section \<open>Control packets\<close>

definition sendPathInit :: "Env \<Rightarrow> int \<Rightarrow> nat \<Rightarrow> byte \<Rightarrow> session \<Rightarrow> session option" where
  "sendPathInit env nowUs ep pid s = do {
     payload \<leftarrow> PutPathInitPayload (replicate PathInitPayloadSize 0) (of_int nowUs);
     sendControl env (Some ep) pid TypePathInit payload s
   }"

fun send_close_list :: "Env \<Rightarrow> nat \<Rightarrow> bytes \<Rightarrow> nat list \<Rightarrow> session \<Rightarrow> session option" where
  "send_close_list env ep payload [] s = Some s"
| "send_close_list env ep payload (i # is) s = do {
     s \<leftarrow> (case se_paths s i of
             None \<Rightarrow> Some s
           | Some p \<Rightarrow> if pa_state p \<noteq> Removed then sendControl env (Some ep) (pa_ID p) TypeClose payload s else Some s);
     send_close_list env ep payload is s
   }"

definition sendCloseAll :: "Env \<Rightarrow> int \<Rightarrow> session \<Rightarrow> session option" where
  "sendCloseAll env nowUs s =
    (case se_txEpoch s of
       None \<Rightarrow> Some s
     | Some ep \<Rightarrow> do {
         payload \<leftarrow> PutPathInitPayload (replicate PathInitPayloadSize 0) (of_int nowUs);
         send_close_list env ep payload [0..<MaxPaths] s
       })"

definition closeConns :: "session \<Rightarrow> session" where
  "closeConns s = s\<lparr>se_conns := (\<lambda>i. if i < MaxPaths then None else se_conns s i)\<rparr>"

definition sendMTUAck :: "Env \<Rightarrow> nat \<Rightarrow> byte \<Rightarrow> u32 \<Rightarrow> u16 \<Rightarrow> session \<Rightarrow> session option" where
  "sendMTUAck env ep pid probe_id wsize s =
    (if MaxPaths \<le> unat pid then None
     else case se_paths s (unat pid) of
         None \<Rightarrow> Some s
       | Some p \<Rightarrow> do {
           payload \<leftarrow> PutMTUPayload (replicate MTUPayloadSize 0) probe_id wsize;
           (datagram, s) \<leftarrow> seal_datagram ep TypeMTUAck pid payload s;
           if HeaderSize + MTUPayloadSize + TagSize < length datagram then None
           else do { (_, s) \<leftarrow> transmit env p datagram s; Some s }
         })"

definition endpoint_v4 :: "Path \<Rightarrow> bool" where
  "endpoint_v4 p = (if AddrPort_IsValid (Endpoint p) then Is4 (fst (Endpoint p)) else True)"

definition sendMTUProbe :: "Env \<Rightarrow> nat \<Rightarrow> nat \<Rightarrow> u32 \<Rightarrow> int \<Rightarrow> session \<Rightarrow> session option" where
  "sendMTUProbe env ep slot probe_id wireMTU s =
    (case se_paths s slot of
       None \<Rightarrow> None
     | Some p \<Rightarrow>
         let n = ProbePlaintextLen wireMTU (endpoint_v4 p)
         in if n < int MTUPayloadSize \<or> int (BufSize - TunOffset) < n
            then Some (upd_path slot (MTUSendError probe_id) s)
            else do {
              plaintext \<leftarrow> PutMTUPayload (replicate (nat n) 0) probe_id (of_int wireMTU);
              (datagram, s) \<leftarrow> seal_datagram ep TypeMTUProbe (pa_ID p) plaintext s;
              if BufSize < DatagramOffset + length datagram then None
              else do {
                (ok, s) \<leftarrow> transmit env p datagram s;
                Some (if ok then s else upd_path slot (MTUSendError probe_id) s)
              }
            })"

section \<open>Paths and the scheduler\<close>

definition addServerPath :: "int \<Rightarrow> byte \<Rightarrow> AddrPort \<Rightarrow> session \<Rightarrow> session option" where
  "addServerPath nowUs pid src s =
    (if MaxPaths \<le> unat pid then None
     else Some (s\<lparr>se_paths := (se_paths s)(unat pid :=
            Some (ResetLiveness nowUs (SetEndpoint src (NewPath pid [] 0 0))))\<rparr>))"

definition admitPath :: "nat \<Rightarrow> bool \<Rightarrow> session \<Rightarrow> session option" where
  "admitPath slot rejoin s =
    (case se_paths s slot of
       None \<Rightarrow> None
     | Some p \<Rightarrow> do {
         sched \<leftarrow> AddPath (pa_ID p) (pa_InitialMbps p * 1000000 / 8) rejoin (se_sched s);
         Some ((upd_path slot (SetPathState Active) s)\<lparr>se_sched := sched\<rparr>)
       })"

definition revivePath :: "nat \<Rightarrow> session \<Rightarrow> session option" where
  "revivePath slot s =
    (case se_paths s slot of
       None \<Rightarrow> None
     | Some p \<Rightarrow> if pa_state p = Down then admitPath slot True s else Some s)"

text \<open>The inner size a discovered wire MTU allows: -1 stands for a path that carries no data.\<close>

definition inner_limit :: "int \<Rightarrow> bool \<Rightarrow> int" where
  "inner_limit wireMTU v4 =
    (if wireMTU = -1 then 1
     else if 0 < wireMTU then
       (let m = MaxInnerForWireMTU wireMTU v4 in if m < 1 then 1 else m)
     else 0)"

definition applyPathMTU :: "nat \<Rightarrow> int \<Rightarrow> session \<Rightarrow> session option" where
  "applyPathMTU slot wireMTU s =
    (case se_paths s slot of
       None \<Rightarrow> None
     | Some p \<Rightarrow>
         let maxInner = inner_limit wireMTU (endpoint_v4 p)
         in do {
              sched \<leftarrow> SetPathMTU (pa_ID p) maxInner (se_sched s);
              Some ((upd_path slot (SetMTU wireMTU maxInner) s)\<lparr>se_sched := sched\<rparr>)
            })"

section \<open>Receiving\<close>

definition injectRecovered :: "int \<Rightarrow> Recovered list \<Rightarrow> session \<Rightarrow> session" where
  "injectRecovered now recs s = fold (\<lambda>r s.
     if BufSize - RxIPOffset < length (rv_Pkt r) then s
     else s\<lparr>se_reorder := Push now (reorderTimeout s) (rv_Seq r) (rv_Pkt r, 0) (se_reorder s)\<rparr>) recs s"

text \<open>The server mirrors the client's scheduling mode.\<close>

definition mirror_mode :: "Mode \<Rightarrow> session \<Rightarrow> session" where
  "mirror_mode m s = (if sc_mode (se_sched s) \<noteq> m then s\<lparr>se_sched := SetMode m (se_sched s)\<rparr> else s)"

definition handle_data :: "Env \<Rightarrow> int \<Rightarrow> int \<Rightarrow> nat \<Rightarrow> bytes \<Rightarrow> session \<Rightarrow> bool \<times> session" where
  "handle_data env now nowUs slot pt s =
    (case ParseDataHeader pt of
       Inl _ \<Rightarrow> (False, s)
     | Inr (seq, flags, ipPkt) \<Rightarrow>
         let server = (en_role (se_eng s) = RoleServer);
             s = (if flags AND FlagDuplicate \<noteq> 0 \<and> server
                  then mirror_mode ModeRedundant (s\<lparr>se_lastDupUs := nowUs\<rparr>) else s);
             (recovered, s) =
               (if flags AND FlagFEC \<noteq> 0 then
                  (let s = (if server then mirror_mode ModeFEC (s\<lparr>se_lastFecUs := nowUs\<rparr>) else s)
                   in case AddData (ev_rs env) (ev_ord env) seq ipPkt (se_fecDec s) of
                        (recs, dec) \<Rightarrow> (recs, s\<lparr>se_fecDec := dec\<rparr>))
                else ([], s));
             s = upd_path slot (OnDataReceived (int (length ipPkt)) nowUs) s;
             s = s\<lparr>se_reorder := Push now (reorderTimeout s) seq (ipPkt, 0) (se_reorder s)\<rparr>
         in (True, injectRecovered now recovered s))"

definition handle_fec :: "Env \<Rightarrow> int \<Rightarrow> int \<Rightarrow> nat \<Rightarrow> bytes \<Rightarrow> session \<Rightarrow> session option" where
  "handle_fec env now nowUs slot pt s =
    (case ParseFECHeader pt of
       Inl _ \<Rightarrow> Some s
     | Inr (fh, shard) \<Rightarrow>
         let s = upd_path slot (OnDataReceived (int (length pt)) nowUs) s
         in do {
              (recs, dec) \<leftarrow> AddParity (ev_rs env) fh shard (se_fecDec s);
              Some (injectRecovered now recs (s\<lparr>se_fecDec := dec\<rparr>))
            })"

definition handle_probe :: "int \<Rightarrow> nat \<Rightarrow> bytes \<Rightarrow> session \<Rightarrow> session option" where
  "handle_probe nowUs slot pt s =
    (case ParseProbe pt of
       Inl _ \<Rightarrow> Some s
     | Inr pr \<Rightarrow>
         (case se_paths s slot of
            None \<Rightarrow> None
          | Some p \<Rightarrow>
              (case OnProbeReceived pr nowUs p of
                 (revive, p') \<Rightarrow>
                   let s = s\<lparr>se_paths := (se_paths s)(slot := Some p')\<rparr>
                   in if revive then revivePath slot s else Some s)))"

definition handle_path_init :: "Env \<Rightarrow> int \<Rightarrow> byte \<Rightarrow> bytes \<Rightarrow> session \<Rightarrow> session option" where
  "handle_path_init env nowUs pid pt s =
    (if en_role (se_eng s) = RoleServer \<and> CheckPathInitPayload pt then do {
       let slot = unat pid;
       let s = upd_path slot (OnControlReceived nowUs) s;
       s \<leftarrow> (case se_paths s slot of
               None \<Rightarrow> None
             | Some p \<Rightarrow>
                 if pa_state p = Probing \<or> pa_state p = Down then admitPath slot False s else Some s);
       payload \<leftarrow> PutPathInitPayload (replicate PathInitPayloadSize 0) (of_int nowUs);
       (case se_txEpoch s of
          None \<Rightarrow> Some s
        | Some tx \<Rightarrow> sendControl env (Some tx) pid TypePathAck payload s)
     } else Some s)"

definition handle_path_ack :: "int \<Rightarrow> nat \<Rightarrow> bytes \<Rightarrow> session \<Rightarrow> session option" where
  "handle_path_ack nowUs slot pt s =
    (if en_role (se_eng s) = RoleClient \<and> CheckPathInitPayload pt then
       let s = upd_path slot (OnControlReceived nowUs) s;
           was = se_acked s slot;
           s = s\<lparr>se_acked := (se_acked s)(slot := True)\<rparr>
       in (case se_paths s slot of
             None \<Rightarrow> None
           | Some p \<Rightarrow> if \<not> was \<or> pa_state p = Probing then admitPath slot False s else Some s)
     else Some s)"

definition handle_mtu_probe :: "Env \<Rightarrow> int \<Rightarrow> byte \<Rightarrow> bytes \<Rightarrow> session \<Rightarrow> session option" where
  "handle_mtu_probe env nowUs pid pt s =
    (case ParseMTUPayload pt of
       Inl _ \<Rightarrow> Some s
     | Inr (i, wsize) \<Rightarrow>
         let s = upd_path (unat pid) (TouchAlive nowUs) s
         in case se_txEpoch s of
              None \<Rightarrow> Some s
            | Some tx \<Rightarrow> sendMTUAck env tx pid i wsize s)"

definition handle_mtu_ack :: "int \<Rightarrow> nat \<Rightarrow> bytes \<Rightarrow> session \<Rightarrow> session" where
  "handle_mtu_ack nowUs slot pt s =
    (case ParseMTUPayload pt of
       Inl _ \<Rightarrow> s
     | Inr (i, _) \<Rightarrow> upd_path slot (MTUAck i) (upd_path slot (TouchAlive nowUs) s))"

definition handle_close :: "session \<Rightarrow> session" where
  "handle_close s =
    (if en_role (se_eng s) = RoleClient then s\<lparr>se_eng := (se_eng s)\<lparr>en_rekeyNow := True\<rparr>\<rparr> else s)"

text \<open>The switch on the packet type; \<open>True\<close> when the reorder buffer took the packet.\<close>

definition dispatch ::
  "Env \<Rightarrow> int \<Rightarrow> int \<Rightarrow> Header \<Rightarrow> bytes \<Rightarrow> session \<Rightarrow> (bool \<times> session) option" where
  "dispatch env now nowUs hdr pt s =
    (let slot = unat (h_PathID hdr); t = h_Type hdr; no = map_option (\<lambda>s. (False, s))
     in if t = TypeData then Some (handle_data env now nowUs slot pt s)
        else if t = TypeFEC then no (handle_fec env now nowUs slot pt s)
        else if t = TypeProbe then no (handle_probe nowUs slot pt s)
        else if t = TypePathInit then no (handle_path_init env nowUs (h_PathID hdr) pt s)
        else if t = TypePathAck then no (handle_path_ack nowUs slot pt s)
        else if t = TypeMTUProbe then no (handle_mtu_probe env nowUs (h_PathID hdr) pt s)
        else if t = TypeMTUAck then Some (False, handle_mtu_ack nowUs slot pt s)
        else if t = TypeClose then Some (False, handle_close s)
        else Some (False, s))"

text \<open>Key confirmation: the first authenticated receive under the pending epoch.\<close>

definition confirm_epoch :: "int \<Rightarrow> nat \<Rightarrow> session \<Rightarrow> session option" where
  "confirm_epoch now ep s =
    (if se_pending s = Some ep then registerEpoch now ep True (s\<lparr>se_pending := None\<rparr>) else Some s)"

text \<open>Roaming: on the server any authenticated packet fixes the endpoint.\<close>

definition roam :: "nat \<Rightarrow> AddrPort \<Rightarrow> session \<Rightarrow> session" where
  "roam slot src s =
    (case se_paths s slot of
       None \<Rightarrow> s
     | Some p \<Rightarrow>
         if en_role (se_eng s) = RoleServer \<and> AddrPort_IsValid src \<and> Endpoint p \<noteq> src
         then upd_path slot (\<lambda>p. MTURestart (SetEndpoint src p)) s else s)"

definition after_replay ::
  "Env \<Rightarrow> int \<Rightarrow> int \<Rightarrow> nat \<Rightarrow> Header \<Rightarrow> bytes \<Rightarrow> AddrPort \<Rightarrow> session \<Rightarrow> (bool \<times> session) option" where
  "after_replay env now nowUs ep hdr pt src s = do {
     s \<leftarrow> confirm_epoch now ep s;
     let slot = unat (h_PathID hdr);
     (case se_paths s slot of
        Some _ \<Rightarrow> dispatch env now nowUs hdr pt (roam slot src s)
      | None \<Rightarrow>
          if h_Type hdr = TypePathInit \<and> en_role (se_eng s) = RoleServer
          then do { s \<leftarrow> addServerPath nowUs (h_PathID hdr) src s;
                    dispatch env now nowUs hdr pt (roam slot src s) }
          else Some (False, s))
   }"

definition handleDatagram ::
  "Env \<Rightarrow> int \<Rightarrow> int \<Rightarrow> nat \<Rightarrow> Header \<Rightarrow> bytes \<Rightarrow> AddrPort \<Rightarrow> session \<Rightarrow> (bool \<times> session) option" where
  "handleDatagram env now nowUs ep hdr datagram src s = do {
     e \<leftarrow> get_epoch ep s;
     r \<leftarrow> Epoch_Open e (h_PathID hdr) (h_Counter hdr) [] (drop HeaderSize datagram) (take HeaderSize datagram);
     (case r of
        Inl _ \<Rightarrow> Some (False, s)
      | Inr pt \<Rightarrow> do {
          (fresh, e) \<leftarrow> CheckReplay e (h_PathID hdr) (h_Counter hdr);
          let s = put_epoch ep e s;
          if \<not> fresh then Some (False, s) else after_replay env now nowUs ep hdr pt src s
        })
   }"

section \<open>Housekeeping\<close>

definition flusher_tick :: "Env \<Rightarrow> int \<Rightarrow> session \<Rightarrow> session option" where
  "flusher_tick env now s =
    (let s = s\<lparr>se_reorder := snd (FlushExpired now (reorderTimeout s) (se_reorder s))\<rparr>
     in if sc_mode (se_sched s) = ModeFEC then
          (case Encoder_FlushExpired (ev_rs env) (worstActiveLoss s) now (se_fecEnc s) of
             (g, enc) \<Rightarrow>
               let s = s\<lparr>se_fecEnc := enc\<rparr>
               in case g of None \<Rightarrow> Some s | Some g \<Rightarrow> sendParities env (se_txEpoch s) g s)
        else Some s)"

text \<open>The local variables of \<open>proberLoop\<close>.\<close>

record ProberVars =
  pv_tick :: int
  pv_prevTx :: "u64 garray"
  pv_prevRx :: "u64 garray"
  pv_prevMTU :: "int garray"
  pv_badTicks :: "int garray"

definition degradeAfterTicks :: int where [simp]: "degradeAfterTicks = 15"

definition ProberVars_zero :: ProberVars where
  "ProberVars_zero = \<lparr>pv_tick = 0, pv_prevTx = (\<lambda>_. 0), pv_prevRx = (\<lambda>_. 0), pv_prevMTU = (\<lambda>_. 0),
     pv_badTicks = (\<lambda>_. 0)\<rparr>"

text \<open>Probe cadence: every tick when up, every 5th when down.\<close>

definition send_probe :: "Env \<Rightarrow> int \<Rightarrow> int \<Rightarrow> nat option \<Rightarrow> State \<Rightarrow> nat \<Rightarrow> session \<Rightarrow> session option" where
  "send_probe env nowUs tick ep st i s =
    (if ep \<noteq> None \<and> (st \<noteq> Down \<or> tick mod 5 = 0) then
       (case se_paths s i of
          None \<Rightarrow> None
        | Some p \<Rightarrow>
            (case NextProbe nowUs p of
               (pr, p') \<Rightarrow> do {
                 payload \<leftarrow> Probe_Marshal pr (replicate ProbeSize 0);
                 sendControl env ep (pa_ID p') TypeProbe payload
                   (s\<lparr>se_paths := (se_paths s)(i := Some p')\<rparr>)
               }))
     else Some s)"

definition retry_path_init :: "Env \<Rightarrow> int \<Rightarrow> int \<Rightarrow> nat option \<Rightarrow> nat \<Rightarrow> session \<Rightarrow> session option" where
  "retry_path_init env nowUs tick ep i s =
    (case (ep, se_paths s i) of
       (Some ep, Some p) \<Rightarrow>
         if en_role (se_eng s) = RoleClient \<and> \<not> se_acked s i \<and> tick mod 5 = 0
         then sendPathInit env nowUs ep (pa_ID p) s else Some s
     | _ \<Rightarrow> Some s)"

definition mtu_discovery ::
  "Env \<Rightarrow> nat option \<Rightarrow> State \<Rightarrow> nat \<Rightarrow> ProberVars \<times> session \<Rightarrow> (ProberVars \<times> session) option" where
  "mtu_discovery env ep st i = (\<lambda>(v, s).
    if st = Active \<or> st = Degraded then do {
      s \<leftarrow> (case (ep, se_paths s i) of
              (Some ep, Some p) \<Rightarrow>
                (case MTUTick p of
                   (r, p') \<Rightarrow>
                     let s = s\<lparr>se_paths := (se_paths s)(i := Some p')\<rparr>
                     in case r of None \<Rightarrow> Some s | Some (pid, wsize) \<Rightarrow> sendMTUProbe env ep i pid wsize s)
            | _ \<Rightarrow> Some s);
      (case se_paths s i of
         None \<Rightarrow> None
       | Some p \<Rightarrow>
           let d = MTUDiscovered p
           in if d \<noteq> pv_prevMTU v i
              then do { s \<leftarrow> applyPathMTU i d s; Some (v\<lparr>pv_prevMTU := (pv_prevMTU v)(i := d)\<rparr>, s) }
              else Some (v, s))
    } else Some (v, s))"

text \<open>
  Degrading after persistent badness, recovering with hysteresis, and the metrics for the
  scheduler.
\<close>

definition path_is_bad :: "Tuning \<Rightarrow> Metrics \<Rightarrow> bool" where
  "path_is_bad t m \<longleftrightarrow> tu_DegradeLossPct t / 100 < m_Loss m \<or>
    (0 < m_SRTT m \<and> wrap_int64 (tu_DegradeRTTMs t * 1000000) < m_SRTT m)"

definition judge_path :: "State \<Rightarrow> nat \<Rightarrow> ProberVars \<times> session \<Rightarrow> (ProberVars \<times> session) option" where
  "judge_path st i = (\<lambda>(v, s).
    case se_paths s i of
      None \<Rightarrow> None
    | Some p \<Rightarrow>
        let t = en_tuning (se_eng s);
            m = Path_Metrics p;
            bad = path_is_bad t m;
            v = v\<lparr>pv_badTicks := (pv_badTicks v)(i := if bad then pv_badTicks v i + 1 else 0)\<rparr>
        in do {
             s \<leftarrow> (if st = Active then
                     (if bad \<and> degradeAfterTicks \<le> pv_badTicks v i then do {
                        sched \<leftarrow> SetState (pa_ID p) StateDegraded (se_sched s);
                        Some ((upd_path i (SetPathState Degraded) s)\<lparr>se_sched := sched\<rparr>)
                      } else Some s)
                   else if st = Degraded then
                     (if m_Loss m < tu_DegradeLossPct t / 100 / 2 \<and>
                         m_SRTT m < wrap_int64 (tu_DegradeRTTMs t * 1000000) then do {
                        sched \<leftarrow> SetState (pa_ID p) StateActive (se_sched s);
                        Some ((upd_path i (SetPathState Active) s)\<lparr>se_sched := sched\<rparr>)
                      } else Some s)
                   else Some s);
             (if st = Active \<or> st = Degraded then do {
                sched \<leftarrow> OnMetrics (pa_ID p) m (se_sched s);
                Some (v, s\<lparr>se_sched := sched\<rparr>)
              } else Some (v, s))
           })"

definition update_rates :: "int \<Rightarrow> nat \<Rightarrow> ProberVars \<times> session \<Rightarrow> ProberVars \<times> session" where
  "update_rates tick i = (\<lambda>(v, s).
    case se_paths s i of
      None \<Rightarrow> (v, s)
    | Some p \<Rightarrow>
        if tick mod 5 = 0 then
          let dt = 5 * seconds (ProbeInterval (en_tuning (se_eng s)));
              tx = of_nat (unat (pa_txBytes p - pv_prevTx v i)) * 8 / dt;
              rx = of_nat (unat (pa_rxBytes p - pv_prevRx v i)) * 8 / dt
          in (v\<lparr>pv_prevTx := (pv_prevTx v)(i := pa_txBytes p), pv_prevRx := (pv_prevRx v)(i := pa_rxBytes p)\<rparr>,
              upd_path i (SetRates tx rx) s)
        else (v, s))"

text \<open>Probe silence beyond the dead interval takes the path down and ends its turn.\<close>

definition path_dead :: "int \<Rightarrow> State \<Rightarrow> Path \<Rightarrow> Tuning \<Rightarrow> bool" where
  "path_dead nowUs st p t \<longleftrightarrow> (st = Active \<or> st = Degraded) \<and> DeadInterval t < SilentFor nowUs p"

definition probe_path ::
  "Env \<Rightarrow> int \<Rightarrow> nat option \<Rightarrow> nat \<Rightarrow> ProberVars \<times> session \<Rightarrow> (ProberVars \<times> session) option" where
  "probe_path env nowUs ep i = (\<lambda>(v, s).
    case se_paths s i of
      None \<Rightarrow> Some (v, s)
    | Some p \<Rightarrow>
        if pa_state p = Removed then Some (v, s)
        else do {
          let st = pa_state p;
          s \<leftarrow> send_probe env nowUs (pv_tick v) ep st i s;
          s \<leftarrow> retry_path_init env nowUs (pv_tick v) ep i s;
          (v, s) \<leftarrow> mtu_discovery env ep st i (v, s);
          p \<leftarrow> se_paths s i;
          (if path_dead nowUs st p (en_tuning (se_eng s)) then do {
             sched \<leftarrow> SetState (pa_ID p) StateDown (se_sched s);
             Some (v, (upd_path i (SetPathState Down) s)\<lparr>se_sched := sched\<rparr>)
           } else do {
             (v, s) \<leftarrow> judge_path st i (v, s);
             Some (update_rates (pv_tick v) i (v, s))
           })
        })"

fun probe_paths ::
  "Env \<Rightarrow> int \<Rightarrow> nat option \<Rightarrow> nat list \<Rightarrow> ProberVars \<times> session \<Rightarrow> (ProberVars \<times> session) option" where
  "probe_paths env nowUs ep [] vs = Some vs"
| "probe_paths env nowUs ep (i # is) vs = do {
     vs \<leftarrow> probe_path env nowUs ep i vs;
     probe_paths env nowUs ep is vs
   }"

text \<open>The server falls back to bonding when the mirrored mode stops appearing.\<close>

definition mode_fallback :: "int \<Rightarrow> session \<Rightarrow> session" where
  "mode_fallback nowUs s =
    (if en_role (se_eng s) = RoleServer then
       (case sc_mode (se_sched s) of
          ModeRedundant \<Rightarrow>
            if 0 < se_lastDupUs s \<and> 5000000 < nowUs - se_lastDupUs s
            then s\<lparr>se_sched := SetMode ModeBonding (se_sched s)\<rparr> else s
        | ModeFEC \<Rightarrow>
            if 0 < se_lastFecUs s \<and> 5000000 < nowUs - se_lastFecUs s
            then s\<lparr>se_sched := SetMode ModeBonding (se_sched s)\<rparr> else s
        | ModeBonding \<Rightarrow> s)
     else s)"

text \<open>
  One round of \<open>proberLoop\<close>. The receiver indices pruned are returned: the server removes
  them from its index.
\<close>

definition prober_tick ::
  "Env \<Rightarrow> int \<Rightarrow> int \<Rightarrow> ProberVars \<times> session \<Rightarrow> (u32 list \<times> ProberVars \<times> session) option" where
  "prober_tick env now nowUs = (\<lambda>(v, s). do {
     let v = v\<lparr>pv_tick := pv_tick v + 1\<rparr>;
     (v, s) \<leftarrow> probe_paths env nowUs (se_txEpoch s) [0..<MaxPaths] (v, s);
     let s = mode_fallback nowUs s;
     (if pv_tick v mod 25 = 0
      then (case pruneEpochs now s of (pruned, s) \<Rightarrow> Some (pruned, v, s))
      else Some ([], v, s))
   })"

end
