(* ===== verification/Reorder_Correct.thy ===== *)
theory Reorder_Correct
  imports Reorder
begin

text \<open>
  Correctness of the resequencing buffer: the packets it was given are all accounted for
  exactly once, its ring is well formed in every reachable state, emission follows the
  sequence numbers except for late passes, an expired gap is given up, and duplicates are
  filtered. The duplicate bitmap is an instance of \<open>sliding_window\<close>.
\<close>

section \<open>Ownership\<close>

text \<open>The packets handed to \<open>emit\<close>, handed to \<open>release\<close> or still in the ring.\<close>

definition held_packets :: "Buffer \<Rightarrow> (u64 \<times> packet) multiset" where
  "held_packets b =
    image_mset (\<lambda>i. (s_seq (b_ring b i), s_pkt (b_ring b i))) (mset_set (used_slots b))"

definition accounted :: "Buffer \<Rightarrow> (u64 \<times> packet) multiset" where
  "accounted b =
    mset (map (\<lambda>e. (em_seq e, em_pkt e)) (b_emitted b)) + mset (b_released b) + held_packets b"

lemma finite_used_slots [simp]: "finite (used_slots b)"
  by (simp add: used_slots_def)

lemma ring_index_mod: "ring_index seq = unat seq mod 8192"
  using unat_and_mask [of seq 13] by (simp add: ring_index_def mask_eq_exp_minus_1)

lemma ring_index_less [simp]: "ring_index seq < 8192"
  by (simp add: ring_index_mod)

lemma emit_slot_fields [simp]:
  "b_ring (emit_slot i b) = (b_ring b)(i := slot_zero)"
  "b_held (emit_slot i b) = b_held b - 1"
  "b_nextSeq (emit_slot i b) = b_nextSeq b"
  "b_emitted (emit_slot i b) =
     b_emitted b @ [\<lparr>em_late = False, em_seq = s_seq (b_ring b i), em_pkt = s_pkt (b_ring b i)\<rparr>]"
  "b_released (emit_slot i b) = b_released b"
  "b_started (emit_slot i b) = b_started b"
  "b_maxHold (emit_slot i b) = b_maxHold b"
  "b_deadline (emit_slot i b) = b_deadline b"
  "b_seen (emit_slot i b) = b_seen b"
  "b_seenHigh (emit_slot i b) = b_seenHigh b"
  "b_seenInit (emit_slot i b) = b_seenInit b"
  by (simp_all add: emit_slot_def emitLocked_def Let_def)

lemma emitLocked_fields [simp]:
  "b_ring (emitLocked l q p b) = b_ring b"
  "b_held (emitLocked l q p b) = b_held b"
  "b_nextSeq (emitLocked l q p b) = b_nextSeq b"
  "b_emitted (emitLocked l q p b) = b_emitted b @ [\<lparr>em_late = l, em_seq = q, em_pkt = p\<rparr>]"
  "b_released (emitLocked l q p b) = b_released b"
  "b_started (emitLocked l q p b) = b_started b"
  "b_maxHold (emitLocked l q p b) = b_maxHold b"
  "b_deadline (emitLocked l q p b) = b_deadline b"
  "b_seen (emitLocked l q p b) = b_seen b"
  "b_seenHigh (emitLocked l q p b) = b_seenHigh b"
  "b_seenInit (emitLocked l q p b) = b_seenInit b"
  by (simp_all add: emitLocked_def)

lemma used_slots_emit_slot: "used_slots (emit_slot i b) = used_slots b - {i}"
  by (auto simp: used_slots_def slot_zero_def)

lemma accounted_cong:
  "b_ring b' = b_ring b \<Longrightarrow> b_emitted b' = b_emitted b \<Longrightarrow> b_released b' = b_released b \<Longrightarrow>
    accounted b' = accounted b"
  by (simp add: accounted_def held_packets_def used_slots_def)

lemma accounted_nextSeq [simp]: "accounted (b\<lparr>b_nextSeq := n\<rparr>) = accounted b"
  and accounted_deadline [simp]: "accounted (b\<lparr>b_deadline := d\<rparr>) = accounted b"
  and accounted_held [simp]: "accounted (b\<lparr>b_held := h\<rparr>) = accounted b"
  and accounted_arm [simp]: "accounted (arm_deadline now tmo b) = accounted b"
  and accounted_count [simp]: "accounted (count_stat f b) = accounted b"
  and accounted_started [simp]: "accounted (b\<lparr>b_started := s\<rparr>) = accounted b"
  by (rule accounted_cong; simp add: arm_deadline_def count_stat_def)+

lemma held_packets_emit_slot:
  assumes "i \<in> used_slots b"
  shows "held_packets b = add_mset (s_seq (b_ring b i), s_pkt (b_ring b i)) (held_packets (emit_slot i b))"
proof -
  have "mset_set (used_slots b) = add_mset i (mset_set (used_slots b - {i}))"
    using assms by (simp add: mset_set.remove)
  moreover have "image_mset (\<lambda>j. (s_seq (((b_ring b)(i := slot_zero)) j), s_pkt (((b_ring b)(i := slot_zero)) j)))
      (mset_set (used_slots b - {i})) =
      image_mset (\<lambda>j. (s_seq (b_ring b j), s_pkt (b_ring b j))) (mset_set (used_slots b - {i}))"
    by (rule image_mset_cong) auto
  ultimately show ?thesis by (simp add: held_packets_def used_slots_emit_slot)
qed

lemma accounted_emit_slot: "i \<in> used_slots b \<Longrightarrow> accounted (emit_slot i b) = accounted b"
  using held_packets_emit_slot [of i b] by (simp add: accounted_def)

lemma ring_index_used: "s_used (b_ring b (ring_index q)) \<Longrightarrow> ring_index q \<in> used_slots b"
  by (simp add: used_slots_def)

lemma accounted_drain_loop [simp]: "accounted (drain_loop b) = accounted b"
  by (induction b rule: drain_loop.induct)
    (subst drain_loop.simps, simp add: Let_def accounted_emit_slot ring_index_used)

lemma accounted_drainLocked [simp]: "accounted (drainLocked now tmo b) = accounted b"
  by (simp add: drainLocked_def Let_def)

lemma accounted_skipGapLocked [simp]: "accounted (skipGapLocked now tmo b) = accounted b"
  by (simp add: skipGapLocked_def split: option.splits)

lemma accounted_select_loop [simp]: "accounted (select_loop target b) = accounted b"
proof (induction target b rule: select_loop.induct)
  case (1 target b)
  show ?case
  proof (cases "scan_min (\<lambda>i. s_used (b_ring b i) \<and> s_seq (b_ring b i) < target)
      (\<lambda>i. s_seq (b_ring b i)) [0..<ringSize]")
    case None
    then show ?thesis by (subst select_loop.simps) simp
  next
    case (Some i)
    then have "i \<in> used_slots b" using scan_min_Some by (fastforce simp: used_slots_def)
    then show ?thesis using Some 1 by (subst select_loop.simps) (simp add: accounted_emit_slot)
  qed
qed

lemma accounted_walk_loop [simp]: "accounted (walk_loop target b) = accounted b"
  by (induction target b rule: walk_loop.induct)
    (subst walk_loop.simps, simp add: Let_def accounted_emit_slot ring_index_used)

lemma accounted_advanceTo [simp]: "accounted (advanceTo target b) = accounted b"
  by (simp add: advanceTo_def Let_def)

lemma accounted_emitLocked [simp]:
  "accounted (emitLocked l q p b) = add_mset (q, p) (accounted b)"
  by (simp add: accounted_def held_packets_def used_slots_def)

lemma accounted_fill_evict:
  assumes "i < 8192"
  shows "accounted (fill_slot i q p (evict_slot i b)) = add_mset (q, p) (accounted b)"
proof -
  let ?f = "\<lambda>r :: slot garray. \<lambda>j. (s_seq (r j), s_pkt (r j))"
  let ?r = "(b_ring b)(i := \<lparr>s_used = True, s_seq = q, s_pkt = p\<rparr>)"
  let ?b' = "fill_slot i q p (evict_slot i b)"
  have ring: "b_ring ?b' = ?r" by (simp add: fill_slot_def evict_slot_def release_def Let_def)
  have "used_slots ?b' = insert i (used_slots b - {i})"
    using assms by (auto simp: used_slots_def ring)
  then have "held_packets ?b' = add_mset (q, p) (image_mset (?f ?r) (mset_set (used_slots b - {i})))"
    by (simp add: held_packets_def ring del: insert_Diff_single)
  moreover have "image_mset (?f ?r) (mset_set (used_slots b - {i})) =
      image_mset (?f (b_ring b)) (mset_set (used_slots b - {i}))"
    by (rule image_mset_cong) auto
  moreover have "held_packets b = (if s_used (b_ring b i) then {#?f (b_ring b) i#} else {#}) +
      image_mset (?f (b_ring b)) (mset_set (used_slots b - {i}))"
    using assms by (auto simp: held_packets_def used_slots_def mset_set.remove)
  ultimately show ?thesis
    by (simp add: accounted_def) (simp add: fill_slot_def evict_slot_def release_def Let_def)
qed

lemma accounted_markSeen [simp]: "accounted (snd (markSeen b seq)) = accounted b"
  by (rule accounted_cong)
    (simp_all add: markSeen_def seen_mark_def seen_advance_def Let_def)

lemma accounted_Push: "accounted (Push now tmo seq p b) = add_mset (seq, p) (accounted b)"
proof -
  have fresh: "accounted (push_fresh now tmo seq p c) = add_mset (seq, p) (accounted c)" for c
    by (simp add: push_fresh_def push_next_def push_late_def push_gap_def Let_def
        accounted_fill_evict)
  have "accounted (release seq p c) = add_mset (seq, p) (accounted c)" for c
    by (simp add: accounted_def release_def held_packets_def used_slots_def)
  then show ?thesis
    using fresh accounted_markSeen [of b seq] by (simp add: Push_def split_beta)
qed

lemma accounted_FlushExpired: "accounted (snd (FlushExpired now tmo b)) = accounted b"
  by (simp add: FlushExpired_def Let_def split: option.splits)

section \<open>Well-formed rings\<close>

text \<open>
  \<open>ring_ok lo b\<close>: every held packet sits at the index of its sequence number, which lies
  in the window of \<open>ringSize\<close> numbers from \<open>lo\<close> on; \<open>held\<close> counts them.
  \<open>order_ok b\<close>: the packets emitted in sequence have increasing sequence numbers,
  all smaller than those still held.
\<close>

definition in_sequence :: "Buffer \<Rightarrow> nat list" where
  "in_sequence b = map (\<lambda>e. unat (em_seq e)) (filter (\<lambda>e. \<not> em_late e) (b_emitted b))"

definition ring_ok :: "nat \<Rightarrow> Buffer \<Rightarrow> bool" where
  "ring_ok lo b \<longleftrightarrow> b_held b = int (card (used_slots b)) \<and>
    (\<forall>i\<in>used_slots b. ring_index (s_seq (b_ring b i)) = i \<and>
       lo \<le> unat (s_seq (b_ring b i)) \<and> unat (s_seq (b_ring b i)) < unat (b_nextSeq b) + 8192 \<and>
       unat (s_seq (b_ring b i)) < 2 ^ 48)"

definition order_ok :: "Buffer \<Rightarrow> bool" where
  "order_ok b \<longleftrightarrow> sorted_wrt (<) (in_sequence b) \<and>
    (\<forall>n\<in>set (in_sequence b). \<forall>i\<in>used_slots b. n < unat (s_seq (b_ring b i)))"

definition below_next :: "Buffer \<Rightarrow> bool" where
  "below_next b \<longleftrightarrow> (\<forall>n\<in>set (in_sequence b). n < unat (b_nextSeq b))"

text \<open>The invariant between operations.\<close>

definition rb_inv :: "Buffer \<Rightarrow> bool" where
  "rb_inv b \<longleftrightarrow> ring_ok (Suc (unat (b_nextSeq b))) b \<and> order_ok b \<and> below_next b \<and>
    unat (b_nextSeq b) \<le> 2 ^ 48 \<and>
    (b_deadline b = None \<longleftrightarrow> b_held b = 0) \<and> b_held b \<le> b_maxHold b \<and>
    (\<not> b_started b \<longrightarrow> b_held b = 0 \<and> in_sequence b = [])"

lemma ring_okD:
  assumes "ring_ok lo b" and "i \<in> used_slots b"
  shows "ring_index (s_seq (b_ring b i)) = i" "lo \<le> unat (s_seq (b_ring b i))"
    "unat (s_seq (b_ring b i)) < unat (b_nextSeq b) + 8192" "unat (s_seq (b_ring b i)) < 2 ^ 48"
  using assms by (auto simp: ring_ok_def)

lemma ring_ok_held_zero: "ring_ok lo b \<Longrightarrow> b_held b = 0 \<longleftrightarrow> used_slots b = {}"
  by (simp add: ring_ok_def)

lemma ring_ok_weaken: "ring_ok lo b \<Longrightarrow> lo' \<le> lo \<Longrightarrow> ring_ok lo' b"
  by (fastforce simp: ring_ok_def)

lemma ring_ok_emit_slot:
  assumes "ring_ok lo b" and "i \<in> used_slots b"
  shows "ring_ok lo (emit_slot i b)"
proof -
  have "int (card (used_slots b - {i})) = int (card (used_slots b)) - 1"
    using card_Suc_Diff1 [OF finite_used_slots assms(2)] by linarith
  then show ?thesis
    using assms by (auto simp: ring_ok_def used_slots_emit_slot)
qed

lemma seq_inj:
  assumes "ring_ok lo b" and "i \<in> used_slots b" and "j \<in> used_slots b"
    and "s_seq (b_ring b i) = s_seq (b_ring b j)"
  shows "i = j"
  using assms ring_okD(1) by metis

lemma in_sequence_emit_slot:
  "in_sequence (emit_slot i b) = in_sequence b @ [unat (s_seq (b_ring b i))]"
  by (simp add: in_sequence_def)

text \<open>Emitting the held packet with the smallest sequence number keeps the order.\<close>

lemma order_ok_emit_slot:
  assumes "ring_ok lo b" and "order_ok b" and "i \<in> used_slots b"
    and least: "\<And>j. j \<in> used_slots b \<Longrightarrow> s_seq (b_ring b i) \<le> s_seq (b_ring b j)"
  shows "order_ok (emit_slot i b)"
proof -
  have "unat (s_seq (b_ring b i)) < unat (s_seq (b_ring b j))" if "j \<in> used_slots b" "j \<noteq> i" for j
    using least [OF that(1)] seq_inj [OF assms(1) assms(3) that(1)] that(2)
    by (metis order_le_less word_less_nat_alt)
  then show ?thesis
    using assms(2,3)
    by (auto simp: order_ok_def used_slots_emit_slot in_sequence_emit_slot sorted_wrt_append)
qed

lemma ring_ok_cong:
  "b_ring b' = b_ring b \<Longrightarrow> b_nextSeq b' = b_nextSeq b \<Longrightarrow> b_held b' = b_held b \<Longrightarrow>
    ring_ok lo b' = ring_ok lo b"
  by (simp add: ring_ok_def used_slots_def)

lemma order_ok_cong:
  "b_ring b' = b_ring b \<Longrightarrow> b_emitted b' = b_emitted b \<Longrightarrow> order_ok b' = order_ok b"
  by (simp add: order_ok_def used_slots_def in_sequence_def)

text \<open>
  Moving \<open>nextSeq\<close> one up, past a number that is not held any more, as the loops of
  \<open>drainLocked\<close> and \<open>advanceTo\<close> do. The state in the middle of those loops is
  \<open>loop_ok\<close>: the packet with number \<open>nextSeq\<close> itself may still be in the ring.
\<close>

definition loop_ok :: "Buffer \<Rightarrow> bool" where
  "loop_ok b \<longleftrightarrow> ring_ok (unat (b_nextSeq b)) b \<and> order_ok b \<and> below_next b \<and>
    unat (b_nextSeq b) \<le> 2 ^ 48"

lemma ring_ok_strict:
  assumes "ring_ok (unat (b_nextSeq b)) b"
    and "let s = b_ring b (ring_index (b_nextSeq b)) in \<not> s_used s \<or> s_seq s \<noteq> b_nextSeq b"
  shows "ring_ok (Suc (unat (b_nextSeq b))) b"
proof -
  have "unat (s_seq (b_ring b i)) \<noteq> unat (b_nextSeq b)" if "i \<in> used_slots b" for i
    using assms(2) ring_okD(1) [OF assms(1) that] that
    by (auto simp: Let_def used_slots_def word_unat_eq_iff [symmetric])
  then show ?thesis using assms(1) by (fastforce simp: ring_ok_def)
qed

lemma loop_ok_advance:
  assumes "ring_ok (Suc (unat (b_nextSeq b))) b" "order_ok b"
    "\<forall>n\<in>set (in_sequence b). n \<le> unat (b_nextSeq b)" "unat (b_nextSeq b) < 2 ^ 48"
  shows "loop_ok (b\<lparr>b_nextSeq := b_nextSeq b + 1\<rparr>)"
proof -
  have "unat (b_nextSeq b + 1) = Suc (unat (b_nextSeq b))"
    using assms(4) by (intro unat_Suc_below [where t = "2 ^ 48"]) simp
  then show ?thesis
    using assms
    by (auto simp: loop_ok_def ring_ok_def order_ok_def below_next_def used_slots_def in_sequence_def
        le_imp_less_Suc less_SucI)
qed

lemma loop_ok_emit_next:
  assumes ok: "loop_ok b" and i: "i = ring_index (b_nextSeq b)"
    and slot: "s_used (b_ring b i)" "s_seq (b_ring b i) = b_nextSeq b"
  shows "loop_ok ((emit_slot i b)\<lparr>b_nextSeq := b_nextSeq b + 1\<rparr>)"
proof -
  have used: "i \<in> used_slots b" using slot i by (simp add: used_slots_def)
  have ring: "ring_ok (unat (b_nextSeq b)) b" using ok by (simp add: loop_ok_def)
  have "ring_ok (unat (b_nextSeq (emit_slot i b))) (emit_slot i b)"
    using ring_ok_emit_slot [OF ring used] by simp
  then have "ring_ok (Suc (unat (b_nextSeq (emit_slot i b)))) (emit_slot i b)"
    by (rule ring_ok_strict) (simp add: i slot_zero_def)
  moreover have "order_ok (emit_slot i b)"
    using ok ring_okD(2) [OF ring]
    by (intro order_ok_emit_slot [OF ring _ used]) (auto simp: loop_ok_def slot word_le_nat_alt)
  moreover have "\<forall>n\<in>set (in_sequence (emit_slot i b)). n \<le> unat (b_nextSeq (emit_slot i b))"
    using ok by (auto simp: loop_ok_def below_next_def in_sequence_emit_slot slot dest: less_imp_le)
  moreover have "unat (b_nextSeq (emit_slot i b)) < 2 ^ 48"
    using ring_okD(4) [OF ring used] slot by simp
  ultimately show ?thesis using loop_ok_advance [of "emit_slot i b"] by simp
qed

lemma loop_ok_drain_loop:
  assumes "loop_ok b"
  shows "loop_ok (drain_loop b) \<and> ring_ok (Suc (unat (b_nextSeq (drain_loop b)))) (drain_loop b)"
  using assms
proof (induction b rule: drain_loop.induct)
  case (1 b)
  let ?i = "ring_index (b_nextSeq b)"
  show ?case
  proof (cases "0 < b_held b \<and> s_used (b_ring b ?i) \<and> s_seq (b_ring b ?i) = b_nextSeq b")
    case True
    then have "drain_loop b = drain_loop ((emit_slot ?i b)\<lparr>b_nextSeq := b_nextSeq b + 1\<rparr>)"
      by (subst drain_loop.simps) (simp add: Let_def)
    moreover have "loop_ok ((emit_slot ?i b)\<lparr>b_nextSeq := b_nextSeq b + 1\<rparr>)"
      using True by (intro loop_ok_emit_next [OF "1.prems"]) simp_all
    ultimately show ?thesis using 1 True by (simp add: Let_def)
  next
    case False
    then have stop: "drain_loop b = b" by (subst drain_loop.simps) (auto simp: Let_def)
    have ring: "ring_ok (unat (b_nextSeq b)) b" using "1.prems" by (simp add: loop_ok_def)
    moreover have "\<not> s_used (b_ring b ?i) \<or> s_seq (b_ring b ?i) \<noteq> b_nextSeq b"
    proof (cases "0 < b_held b")
      case False
      then have "used_slots b = {}" using ring by (simp add: ring_ok_def)
      then show ?thesis using ring_index_used by blast
    qed (use False in simp)
    ultimately show ?thesis using "1.prems" ring_ok_strict [OF ring] by (simp add: stop Let_def)
  qed
qed

lemma drain_loop_frame [simp]:
  "b_started (drain_loop b) = b_started b" "b_maxHold (drain_loop b) = b_maxHold b"
  "b_deadline (drain_loop b) = b_deadline b" "b_seen (drain_loop b) = b_seen b"
  "b_seenHigh (drain_loop b) = b_seenHigh b" "b_seenInit (drain_loop b) = b_seenInit b"
  "b_released (drain_loop b) = b_released b"
  by (induction b rule: drain_loop.induct; subst drain_loop.simps; simp add: Let_def)+

lemma drain_loop_held: "b_held (drain_loop b) \<le> b_held b"
  by (induction b rule: drain_loop.induct)
    (subst drain_loop.simps, auto simp: Let_def intro: less_imp_le)

lemma drain_loop_emits: "\<exists>es. b_emitted (drain_loop b) = b_emitted b @ es"
  by (induction b rule: drain_loop.induct) (subst drain_loop.simps, auto simp: Let_def)

lemma drain_loop_first:
  assumes "0 < b_held b" and "s_used (b_ring b i)" and "s_seq (b_ring b i) = b_nextSeq b"
    and "i = ring_index (b_nextSeq b)"
  shows "b_held (drain_loop b) < b_held b"
    and "\<exists>es. b_emitted (drain_loop b) =
      b_emitted b @ \<lparr>em_late = False, em_seq = b_nextSeq b, em_pkt = s_pkt (b_ring b i)\<rparr> # es"
proof -
  let ?c = "(emit_slot i b)\<lparr>b_nextSeq := b_nextSeq b + 1\<rparr>"
  have step: "drain_loop b = drain_loop ?c"
    using assms by (subst drain_loop.simps) (simp add: Let_def)
  show "b_held (drain_loop b) < b_held b" using drain_loop_held [of ?c] by (simp add: step)
  show "\<exists>es. b_emitted (drain_loop b) =
      b_emitted b @ \<lparr>em_late = False, em_seq = b_nextSeq b, em_pkt = s_pkt (b_ring b i)\<rparr> # es"
    using drain_loop_emits [of ?c] assms(3) by (auto simp: step)
qed

lemma drainLocked_fields [simp]:
  "b_emitted (drainLocked now tmo b) = b_emitted (drain_loop b)"
  "b_held (drainLocked now tmo b) = b_held (drain_loop b)"
  "b_ring (drainLocked now tmo b) = b_ring (drain_loop b)"
  "b_nextSeq (drainLocked now tmo b) = b_nextSeq (drain_loop b)"
  "b_started (drainLocked now tmo b) = b_started b" "b_maxHold (drainLocked now tmo b) = b_maxHold b"
  "b_seen (drainLocked now tmo b) = b_seen b" "b_released (drainLocked now tmo b) = b_released b"
  "b_seenHigh (drainLocked now tmo b) = b_seenHigh b" "b_seenInit (drainLocked now tmo b) = b_seenInit b"
  by (simp_all add: drainLocked_def Let_def arm_deadline_def)

lemma drainLocked_deadline:
  "b_deadline (drainLocked now tmo b) = None \<longleftrightarrow> b_held (drain_loop b) = 0"
  by (simp add: drainLocked_def Let_def arm_deadline_def)

lemma drainLocked_inv:
  assumes "loop_ok b" and "b_started b" and "b_held (drain_loop b) \<le> b_maxHold b"
  shows "rb_inv (drainLocked now tmo b)"
  using loop_ok_drain_loop [OF assms(1)] assms(2,3) drainLocked_deadline [of now tmo b]
  by (simp add: rb_inv_def loop_ok_def ring_ok_def order_ok_def below_next_def used_slots_def
      in_sequence_def)

text \<open>What giving up on a gap does: the oldest held packet becomes the next one.\<close>

lemma skipGapLocked_oldest:
  assumes ring: "ring_ok lo b" and "lo \<ge> unat (b_nextSeq b)" and ord: "order_ok b"
    and "used_slots b \<noteq> {}"
  obtains i where "i \<in> used_slots b"
    "\<And>j. j \<in> used_slots b \<Longrightarrow> s_seq (b_ring b i) \<le> s_seq (b_ring b j)"
    "skipGapLocked now tmo b =
      drainLocked now tmo (b\<lparr>b_nextSeq := s_seq (b_ring b i), b_deadline := None\<rparr>)"
    "loop_ok (b\<lparr>b_nextSeq := s_seq (b_ring b i), b_deadline := None\<rparr>)"
proof -
  let ?scan = "scan_min (\<lambda>i. s_used (b_ring b i)) (\<lambda>i. s_seq (b_ring b i)) [0..<ringSize]"
  obtain i where scan: "?scan = Some i"
    using assms(4) scan_min_exists [of _ "[0..<ringSize]" "\<lambda>i. s_used (b_ring b i)"]
    by (fastforce simp: used_slots_def)
  have i: "i \<in> used_slots b"
    and least: "\<And>j. j \<in> used_slots b \<Longrightarrow> s_seq (b_ring b i) \<le> s_seq (b_ring b j)"
    using scan_min_Some [OF scan] by (auto simp: used_slots_def)
  have "b_held b \<noteq> 0" using assms(4) by (simp add: ring_ok_held_zero [OF ring])
  then have "skipGapLocked now tmo b =
      drainLocked now tmo (b\<lparr>b_nextSeq := s_seq (b_ring b i), b_deadline := None\<rparr>)"
    using scan by (simp add: skipGapLocked_def)
  moreover have "loop_ok (b\<lparr>b_nextSeq := s_seq (b_ring b i), b_deadline := None\<rparr>)"
  proof -
    have "unat (b_nextSeq b) \<le> unat (s_seq (b_ring b i))"
      using ring_okD(2) [OF ring i] assms(2) by linarith
    then show ?thesis
      using ring ord i least ring_okD(4) [OF ring i]
      by (fastforce simp: loop_ok_def ring_ok_def order_ok_def below_next_def used_slots_def
          in_sequence_def word_le_nat_alt)
  qed
  ultimately show ?thesis using i least that by blast
qed

lemma skipGapLocked_emits:
  assumes "ring_ok lo b" and "lo \<ge> unat (b_nextSeq b)" and "order_ok b" and "used_slots b \<noteq> {}"
  obtains i es where "i \<in> used_slots b"
    "\<And>j. j \<in> used_slots b \<Longrightarrow> s_seq (b_ring b i) \<le> s_seq (b_ring b j)"
    "b_emitted (skipGapLocked now tmo b) = b_emitted b @
      \<lparr>em_late = False, em_seq = s_seq (b_ring b i), em_pkt = s_pkt (b_ring b i)\<rparr> # es"
    "b_held (skipGapLocked now tmo b) < b_held b"
    "b_started b \<Longrightarrow> b_held b \<le> b_maxHold b + 1 \<Longrightarrow> rb_inv (skipGapLocked now tmo b)"
proof -
  obtain i where i: "i \<in> used_slots b"
    "\<And>j. j \<in> used_slots b \<Longrightarrow> s_seq (b_ring b i) \<le> s_seq (b_ring b j)"
    and skip: "skipGapLocked now tmo b =
      drainLocked now tmo (b\<lparr>b_nextSeq := s_seq (b_ring b i), b_deadline := None\<rparr>)"
    and ok: "loop_ok (b\<lparr>b_nextSeq := s_seq (b_ring b i), b_deadline := None\<rparr>)"
    using skipGapLocked_oldest [OF assms] by metis
  let ?c = "b\<lparr>b_nextSeq := s_seq (b_ring b i), b_deadline := None\<rparr>"
  have "0 < b_held b" using assms(4) assms(1) by (simp add: ring_ok_def card_gt_0_iff)
  then have first: "b_held (drain_loop ?c) < b_held b"
    "\<exists>es. b_emitted (drain_loop ?c) = b_emitted b @
      \<lparr>em_late = False, em_seq = s_seq (b_ring b i), em_pkt = s_pkt (b_ring b i)\<rparr> # es"
    using drain_loop_first [of ?c i] ring_okD(1) [OF assms(1) i(1)] i(1)
    by (simp_all add: used_slots_def)
  then obtain es where es: "b_emitted (drain_loop ?c) = b_emitted b @
      \<lparr>em_late = False, em_seq = s_seq (b_ring b i), em_pkt = s_pkt (b_ring b i)\<rparr> # es" by blast
  show ?thesis
  proof (rule that [OF i])
    show "rb_inv (skipGapLocked now tmo b)" if "b_started b" "b_held b \<le> b_maxHold b + 1"
      unfolding skip using that first(1) by (intro drainLocked_inv [OF ok]) simp_all
  qed (use first(1) es in \<open>simp_all add: skip\<close>)
qed

section \<open>Overflow\<close>

lemma select_loop_frame [simp]:
  "b_started (select_loop t b) = b_started b" "b_maxHold (select_loop t b) = b_maxHold b"
  "b_nextSeq (select_loop t b) = b_nextSeq b"
  "b_seen (select_loop t b) = b_seen b" "b_released (select_loop t b) = b_released b"
  "b_seenHigh (select_loop t b) = b_seenHigh b" "b_seenInit (select_loop t b) = b_seenInit b"
  by (induction t b rule: select_loop.induct; subst select_loop.simps; simp split: option.split)+

lemma walk_loop_frame [simp]:
  "b_started (walk_loop t b) = b_started b" "b_maxHold (walk_loop t b) = b_maxHold b"
  "b_seen (walk_loop t b) = b_seen b" "b_released (walk_loop t b) = b_released b"
  "b_seenHigh (walk_loop t b) = b_seenHigh b" "b_seenInit (walk_loop t b) = b_seenInit b"
  by (induction t b rule: walk_loop.induct; subst walk_loop.simps; simp add: Let_def)+

lemma select_loop_ok:
  assumes "ring_ok lo b" and "order_ok b" and "\<forall>i\<in>used_slots b. s_seq (b_ring b i) < target"
    and "\<forall>n\<in>set (in_sequence b). n < unat target"
  shows "ring_ok lo (select_loop target b) \<and> order_ok (select_loop target b) \<and>
    used_slots (select_loop target b) = {} \<and>
    (\<forall>n\<in>set (in_sequence (select_loop target b)). n < unat target)"
  using assms
proof (induction target b rule: select_loop.induct)
  case (1 target b)
  let ?scan = "scan_min (\<lambda>i. s_used (b_ring b i) \<and> s_seq (b_ring b i) < target)
      (\<lambda>i. s_seq (b_ring b i)) [0..<ringSize]"
  show ?case
  proof (cases ?scan)
    case None
    then have "used_slots b = {}"
      using "1.prems"(3) by (auto simp: scan_min_None used_slots_def)
    then show ?thesis using None "1.prems" by (subst (1 2 3 4) select_loop.simps) simp
  next
    case (Some i)
    then have i: "i \<in> used_slots b" and below: "s_seq (b_ring b i) < target"
      and least: "\<And>j. j \<in> used_slots b \<Longrightarrow> s_seq (b_ring b i) \<le> s_seq (b_ring b j)"
      using scan_min_Some [OF Some] "1.prems"(3) by (auto simp: used_slots_def)
    have "ring_ok lo (emit_slot i b)" "order_ok (emit_slot i b)"
      using ring_ok_emit_slot [OF "1.prems"(1) i] order_ok_emit_slot [OF "1.prems"(1,2) i least]
      by simp_all
    moreover have "\<forall>j\<in>used_slots (emit_slot i b). s_seq (b_ring (emit_slot i b) j) < target"
      using "1.prems"(3) by (auto simp: used_slots_emit_slot)
    moreover have "\<forall>n\<in>set (in_sequence (emit_slot i b)). n < unat target"
      using "1.prems"(4) below by (auto simp: in_sequence_emit_slot word_less_nat_alt)
    ultimately show ?thesis using "1.IH" [OF Some] Some by (subst (1 2 3 4) select_loop.simps) simp
  qed
qed

lemma walk_loop_ring:
  "i \<in> used_slots (walk_loop t b) \<Longrightarrow> i \<in> used_slots b \<and> b_ring (walk_loop t b) i = b_ring b i"
proof (induction t b rule: walk_loop.induct)
  case (1 target b)
  show ?case
  proof (cases "b_nextSeq b < target")
    case False
    then show ?thesis using "1.prems" by (subst (asm) walk_loop.simps, subst walk_loop.simps) simp
  next
    case True
    let ?i = "ring_index (b_nextSeq b)"
    let ?c = "(if s_used (b_ring b ?i) \<and> s_seq (b_ring b ?i) = b_nextSeq b then emit_slot ?i b else b)
      \<lparr>b_nextSeq := b_nextSeq b + 1\<rparr>"
    have "walk_loop target b = walk_loop target ?c"
      using True by (subst walk_loop.simps) (simp add: Let_def)
    moreover have "j \<in> used_slots ?c \<Longrightarrow> j \<in> used_slots b \<and> b_ring ?c j = b_ring b j" for j
      by (auto simp: used_slots_def slot_zero_def split: if_splits)
    ultimately show ?thesis using "1.IH" [OF True refl refl refl] "1.prems" by simp
  qed
qed

lemma loop_ok_walk_step:
  assumes "loop_ok b" and "b_nextSeq b < target" and "unat target \<le> 2 ^ 48"
  shows "loop_ok ((if s_used (b_ring b (ring_index (b_nextSeq b))) \<and>
      s_seq (b_ring b (ring_index (b_nextSeq b))) = b_nextSeq b
    then emit_slot (ring_index (b_nextSeq b)) b else b)\<lparr>b_nextSeq := b_nextSeq b + 1\<rparr>)"
    (is "loop_ok ((if ?hit then _ else b)\<lparr>b_nextSeq := _\<rparr>)")
proof (cases ?hit)
  case True
  then show ?thesis using loop_ok_emit_next [OF assms(1)] by simp
next
  case False
  have "ring_ok (Suc (unat (b_nextSeq b))) b"
    using assms(1) False by (intro ring_ok_strict) (auto simp: loop_ok_def Let_def)
  then have "loop_ok (b\<lparr>b_nextSeq := b_nextSeq b + 1\<rparr>)"
    using assms
    by (intro loop_ok_advance)
      (auto simp: loop_ok_def below_next_def word_less_nat_alt dest: less_imp_le)
  then show ?thesis using False by auto
qed

lemma walk_loop_ok:
  assumes "loop_ok b" and "b_nextSeq b \<le> target" and "unat target \<le> 2 ^ 48"
  shows "loop_ok (walk_loop target b) \<and> b_nextSeq (walk_loop target b) = target"
  using assms
proof (induction target b rule: walk_loop.induct)
  case (1 target b)
  let ?i = "ring_index (b_nextSeq b)"
  let ?hit = "s_used (b_ring b ?i) \<and> s_seq (b_ring b ?i) = b_nextSeq b"
  let ?c = "(if ?hit then emit_slot ?i b else b)\<lparr>b_nextSeq := b_nextSeq b + 1\<rparr>"
  show ?case
  proof (cases "b_nextSeq b < target")
    case False
    then show ?thesis using "1.prems" by (subst (1 2) walk_loop.simps) simp
  next
    case True
    have "loop_ok ?c" by (rule loop_ok_walk_step [OF "1.prems"(1) True "1.prems"(3)])
    moreover have "b_nextSeq ?c \<le> target"
      using True unat_Suc_below [of "b_nextSeq b" target] by (simp add: word_le_nat_alt word_less_nat_alt)
    ultimately have "loop_ok (walk_loop target ?c) \<and> b_nextSeq (walk_loop target ?c) = target"
      using "1.IH" [OF True] "1.prems"(3) by (simp add: Let_def)
    moreover have "walk_loop target b = walk_loop target ?c"
      using True by (subst walk_loop.simps) (simp add: Let_def)
    ultimately show ?thesis by simp
  qed
qed

text \<open>
  \<open>advanceTo\<close> is called with a target at least \<open>ringSize\<close> ahead of \<open>nextSeq\<close>; both of
  its loops then leave an empty ring.
\<close>

lemma advanceTo_ok:
  assumes ok: "loop_ok b" and far: "unat (b_nextSeq b) + 8192 \<le> unat target" "unat target < 2 ^ 48"
  shows "loop_ok (advanceTo target b)" and "b_nextSeq (advanceTo target b) = target"
    and "used_slots (advanceTo target b) = {}" and "b_held (advanceTo target b) = 0"
    and "b_deadline (advanceTo target b) = None"
proof -
  let ?c = "if 8192 < target - b_nextSeq b then (select_loop target b)\<lparr>b_nextSeq := target\<rparr>
     else walk_loop target b"
  have ring: "ring_ok (unat (b_nextSeq b)) b" using ok by (simp add: loop_ok_def)
  have le: "b_nextSeq b \<le> target" using far by (simp add: word_le_nat_alt)
  have "\<forall>i\<in>used_slots b. s_seq (b_ring b i) < target"
    using ring_okD(3) [OF ring] far(1) by (fastforce simp: word_less_nat_alt)
  then have sel: "ring_ok (unat (b_nextSeq b)) (select_loop target b) \<and> order_ok (select_loop target b) \<and>
      used_slots (select_loop target b) = {} \<and>
      (\<forall>n\<in>set (in_sequence (select_loop target b)). n < unat target)"
    using ok far(1) by (intro select_loop_ok [OF ring]) (auto simp: loop_ok_def below_next_def)
  have c: "loop_ok ?c \<and> b_nextSeq ?c = target \<and> used_slots ?c = {}"
  proof (cases "8192 < target - b_nextSeq b")
    case True
    then show ?thesis
      using sel far(2)
      by (auto simp: loop_ok_def ring_ok_def order_ok_def below_next_def used_slots_def in_sequence_def)
  next
    case False
    have walk: "loop_ok (walk_loop target b)" "b_nextSeq (walk_loop target b) = target"
      using walk_loop_ok [OF ok le] far(2) by simp_all
    then have "ring_ok (unat target) (walk_loop target b)" by (simp add: loop_ok_def)
    moreover have "\<forall>i\<in>used_slots (walk_loop target b).
        unat (s_seq (b_ring (walk_loop target b) i)) < unat target"
      using walk_loop_ring [of _ target b] ring_okD(3) [OF ring] far(1) by fastforce
    ultimately have "used_slots (walk_loop target b) = {}"
      using ring_okD(2) by (metis equals0I not_le)
    then show ?thesis using False walk by simp
  qed
  then have held: "b_held ?c = 0"
    using ring_ok_held_zero [of "unat (b_nextSeq ?c)" ?c] unfolding loop_ok_def by blast
  then have adv: "advanceTo target b = ?c\<lparr>b_deadline := None\<rparr>"
    by (simp add: advanceTo_def Let_def)
  show "b_nextSeq (advanceTo target b) = target" "b_held (advanceTo target b) = 0"
    "b_deadline (advanceTo target b) = None"
    using c held unfolding adv by simp_all
  show "used_slots (advanceTo target b) = {}"
    using c unfolding adv by (simp add: used_slots_def)
  have "loop_ok (d\<lparr>b_deadline := None\<rparr>) = loop_ok d" for d :: Buffer
    by (simp add: loop_ok_def ring_ok_def order_ok_def below_next_def used_slots_def in_sequence_def)
  then show "loop_ok (advanceTo target b)" using c unfolding adv by simp
qed

lemma advanceTo_frame [simp]:
  "b_started (advanceTo t b) = b_started b" "b_maxHold (advanceTo t b) = b_maxHold b"
  "b_seen (advanceTo t b) = b_seen b" "b_released (advanceTo t b) = b_released b"
  "b_seenHigh (advanceTo t b) = b_seenHigh b" "b_seenInit (advanceTo t b) = b_seenInit b"
  by (simp_all add: advanceTo_def Let_def)

section \<open>The invariant\<close>

lemmas rb_fields = loop_ok_def ring_ok_def order_ok_def below_next_def used_slots_def in_sequence_def

lemma rb_inv_loop_ok: "rb_inv b \<Longrightarrow> loop_ok b"
  by (auto simp: rb_inv_def loop_ok_def intro: ring_ok_weaken)

lemma rb_inv_cong:
  assumes "b_ring b' = b_ring b" "b_emitted b' = b_emitted b" "b_nextSeq b' = b_nextSeq b"
    "b_held b' = b_held b" "b_deadline b' = b_deadline b" "b_maxHold b' = b_maxHold b"
    "b_started b' = b_started b"
  shows "rb_inv b' = rb_inv b"
  using assms by (simp add: rb_inv_def rb_fields)

lemma count_stat_fields [simp]:
  "b_ring (count_stat f b) = b_ring b" "b_emitted (count_stat f b) = b_emitted b"
  "b_nextSeq (count_stat f b) = b_nextSeq b" "b_held (count_stat f b) = b_held b"
  "b_deadline (count_stat f b) = b_deadline b" "b_maxHold (count_stat f b) = b_maxHold b"
  "b_started (count_stat f b) = b_started b" "b_seen (count_stat f b) = b_seen b"
  "b_seenHigh (count_stat f b) = b_seenHigh b" "b_seenInit (count_stat f b) = b_seenInit b"
  "b_released (count_stat f b) = b_released b"
  by (simp_all add: count_stat_def)

lemma ring_ok_count: "ring_ok lo (count_stat f b) = ring_ok lo b"
  and order_ok_count: "order_ok (count_stat f b) = order_ok b"
  and used_slots_count: "used_slots (count_stat f b) = used_slots b"
  by (rule ring_ok_cong order_ok_cong; simp)+ (simp add: used_slots_def)

lemma rb_inv_count_stat [simp]: "rb_inv (count_stat f b) = rb_inv b"
  by (rule rb_inv_cong) simp_all

lemma markSeen_fields [simp]:
  "b_ring (snd (markSeen b q)) = b_ring b" "b_emitted (snd (markSeen b q)) = b_emitted b"
  "b_nextSeq (snd (markSeen b q)) = b_nextSeq b" "b_held (snd (markSeen b q)) = b_held b"
  "b_deadline (snd (markSeen b q)) = b_deadline b" "b_maxHold (snd (markSeen b q)) = b_maxHold b"
  "b_started (snd (markSeen b q)) = b_started b" "b_released (snd (markSeen b q)) = b_released b"
  by (simp_all add: markSeen_def seen_mark_def seen_advance_def Let_def)

lemma rb_inv_markSeen [simp]: "rb_inv (snd (markSeen b q)) = rb_inv b"
  by (rule rb_inv_cong) simp_all

lemma rb_inv_release [simp]: "rb_inv (release q p b) = rb_inv b"
  by (rule rb_inv_cong) (simp_all add: release_def)

lemma fill_evict_fields [simp]:
  "b_ring (fill_slot i q p (evict_slot i b)) = (b_ring b)(i := \<lparr>s_used = True, s_seq = q, s_pkt = p\<rparr>)"
  "b_emitted (fill_slot i q p (evict_slot i b)) = b_emitted b"
  "b_nextSeq (fill_slot i q p (evict_slot i b)) = b_nextSeq b"
  "b_deadline (fill_slot i q p (evict_slot i b)) = b_deadline b"
  "b_maxHold (fill_slot i q p (evict_slot i b)) = b_maxHold b"
  "b_started (fill_slot i q p (evict_slot i b)) = b_started b"
  "b_seen (fill_slot i q p (evict_slot i b)) = b_seen b"
  "b_seenHigh (fill_slot i q p (evict_slot i b)) = b_seenHigh b"
  "b_seenInit (fill_slot i q p (evict_slot i b)) = b_seenInit b"
  "b_held (fill_slot i q p (evict_slot i b)) = (if s_used (b_ring b i) then b_held b else b_held b + 1)"
  by (simp_all add: fill_slot_def evict_slot_def release_def Let_def)

lemma ring_ok_fill:
  assumes "ring_ok lo b" and "lo \<le> unat q" "unat q < unat (b_nextSeq b) + 8192" "unat q < 2 ^ 48"
  shows "ring_ok lo (fill_slot (ring_index q) q p (evict_slot (ring_index q) b))"
proof -
  let ?i = "ring_index q" and ?c = "fill_slot (ring_index q) q p (evict_slot (ring_index q) b)"
  have used: "used_slots ?c = insert ?i (used_slots b)"
    using ring_index_less [of q] by (auto simp: used_slots_def simp del: ring_index_less)
  have "?i \<in> used_slots b \<longleftrightarrow> s_used (b_ring b ?i)" by (simp add: used_slots_def)
  then have "b_held ?c = int (card (used_slots ?c))"
    using assms(1) by (simp add: used ring_ok_def card_insert_if)
  then show ?thesis using assms unfolding ring_ok_def used by auto
qed

lemma order_ok_fill:
  assumes "order_ok b" "below_next b" "b_nextSeq b < q"
  shows "order_ok (fill_slot i q p (evict_slot i b))"
  using assms by (fastforce simp: order_ok_def below_next_def in_sequence_def used_slots_def word_less_nat_alt)

lemma push_gap_inv:
  assumes inv: "rb_inv b" "b_started b"
    and q: "b_nextSeq b < q" "unat q < unat (b_nextSeq b) + 8192" "unat q < 2 ^ 48"
  shows "rb_inv (push_gap now tmo q p b)"
proof -
  let ?i = "ring_index q"
  let ?c = "count_stat inc_Reordered (fill_slot ?i q p (evict_slot ?i b))"
  let ?d = "if b_deadline ?c = None then arm_deadline now tmo ?c else ?c"
  have lo: "Suc (unat (b_nextSeq b)) \<le> unat q" using q(1) by (simp add: word_less_nat_alt Suc_leI)
  have "ring_ok (Suc (unat (b_nextSeq b))) (fill_slot ?i q p (evict_slot ?i b))"
    using inv lo q by (intro ring_ok_fill) (simp_all add: rb_inv_def)
  moreover have "ring_ok lo ?d = ring_ok lo (fill_slot ?i q p (evict_slot ?i b))" for lo
    by (rule ring_ok_cong) (simp_all add: arm_deadline_def)
  ultimately have ring: "ring_ok (Suc (unat (b_nextSeq ?d))) ?d" by (simp add: arm_deadline_def)
  have "order_ok (fill_slot ?i q p (evict_slot ?i b))"
    using inv q(1) by (intro order_ok_fill) (simp_all add: rb_inv_def)
  moreover have "order_ok ?d = order_ok (fill_slot ?i q p (evict_slot ?i b))"
    by (rule order_ok_cong) (simp_all add: arm_deadline_def)
  ultimately have ord: "order_ok ?d" by blast
  have "s_used (b_ring ?d ?i)" by (simp add: arm_deadline_def)
  then have used: "used_slots ?d \<noteq> {}" using ring_index_used by blast
  have fields: "b_started ?d" "b_maxHold ?d = b_maxHold b" "b_held ?d \<le> b_held b + 1"
    "b_deadline ?d \<noteq> None" "b_nextSeq ?d = b_nextSeq b" "in_sequence ?d = in_sequence b"
    using inv(2) by (auto simp: arm_deadline_def in_sequence_def)
  show ?thesis
  proof (cases "b_maxHold ?d < b_held ?d")
    case True
    have skip: "rb_inv (skipGapLocked now tmo e)"
      if "ring_ok (Suc (unat (b_nextSeq e))) e" "order_ok e" "used_slots e \<noteq> {}" "b_started e"
        "b_held e \<le> b_maxHold e + 1" for e
      using skipGapLocked_emits [OF that(1) _ that(2,3)] that(4,5) by (metis le_SucI order_refl)
    have "rb_inv (skipGapLocked now tmo (count_stat inc_TimeoutFlush ?d))"
      using ring ord used fields(1-3) inv
      by (intro skip) (simp_all add: ring_ok_count order_ok_count used_slots_count rb_inv_def)
    then show ?thesis using True by (simp add: push_gap_def Let_def)
  next
    case False
    have "rb_inv ?d"
      using ring ord fields inv(1) False used ring_ok_held_zero [OF ring]
      unfolding rb_inv_def below_next_def by simp
    then show ?thesis using False by (simp add: push_gap_def Let_def)
  qed
qed

lemma loop_ok_push_next:
  fixes b :: Buffer and p :: packet
  defines "e \<equiv> emitLocked False (b_nextSeq b) p b"
  assumes "rb_inv b" "unat (b_nextSeq b) < 2 ^ 48"
  shows "loop_ok (e\<lparr>b_nextSeq := b_nextSeq e + 1\<rparr>)"
proof -
  let ?e = "emitLocked False (b_nextSeq b) p b"
  have "in_sequence ?e = in_sequence b @ [unat (b_nextSeq b)]" by (simp add: in_sequence_def)
  moreover have "used_slots ?e = used_slots b" by (simp add: used_slots_def)
  moreover have "ring_ok (Suc (unat (b_nextSeq b))) ?e = ring_ok (Suc (unat (b_nextSeq b))) b"
    by (rule ring_ok_cong) simp_all
  ultimately show ?thesis
    using assms(2,3) ring_okD(2) [of "Suc (unat (b_nextSeq b))" b] unfolding e_def
    by (intro loop_ok_advance)
      (auto simp: rb_inv_def order_ok_def below_next_def sorted_wrt_append Suc_le_eq dest: less_imp_le)
qed

lemma push_next_inv:
  assumes "rb_inv b" "b_started b" "unat (b_nextSeq b) < 2 ^ 48"
  shows "rb_inv (push_next now tmo (b_nextSeq b) p b)"
proof -
  let ?e = "emitLocked False (b_nextSeq b) p b"
  have "loop_ok (?e\<lparr>b_nextSeq := b_nextSeq ?e + 1\<rparr>)" by (rule loop_ok_push_next [OF assms(1,3)])
  then show ?thesis
    using assms drain_loop_held [of "?e\<lparr>b_nextSeq := b_nextSeq ?e + 1\<rparr>"]
    unfolding push_next_def Let_def by (intro drainLocked_inv) (auto simp: rb_inv_def)
qed

lemma push_late_inv: "rb_inv b \<Longrightarrow> rb_inv (push_late q p b) \<or> \<not> b_started b"
proof -
  assume "rb_inv b"
  moreover have "in_sequence (push_late q p b) = in_sequence b"
    by (simp add: push_late_def in_sequence_def)
  moreover have "used_slots (push_late q p b) = used_slots b"
    by (simp add: push_late_def used_slots_def)
  moreover have "ring_ok lo (push_late q p b) = ring_ok lo b" for lo
    by (rule ring_ok_cong) (simp_all add: push_late_def)
  ultimately show ?thesis
    by (simp add: rb_inv_def order_ok_def below_next_def) (simp add: push_late_def)
qed

lemma rb_inv_start:
  assumes "rb_inv b" "\<not> b_started b" "unat q < 2 ^ 48"
  shows "rb_inv (b\<lparr>b_started := True, b_nextSeq := q\<rparr>)"
proof -
  have "used_slots b = {}" "in_sequence b = []"
    using assms(1,2) ring_ok_held_zero [of "Suc (unat (b_nextSeq b))" b] by (simp_all add: rb_inv_def)
  then show ?thesis using assms by (auto simp: rb_inv_def rb_fields)
qed

lemma rb_inv_advanceTo:
  assumes "rb_inv b" "b_started b" "unat (b_nextSeq b) + 8192 \<le> unat q" "unat q < 2 ^ 48"
  shows "rb_inv (advanceTo q b)"
  using advanceTo_ok [OF rb_inv_loop_ok [OF assms(1)] assms(3,4)] assms(1,2)
  by (auto simp: rb_inv_def loop_ok_def ring_ok_def)

lemma overflow_distance:
  "b_nextSeq b < q \<and> 8192 \<le> q - b_nextSeq b \<longleftrightarrow> unat (b_nextSeq b) + 8192 \<le> unat q"
  by (auto simp: word_less_nat_alt word_le_nat_alt unat_diff)

lemma mod_window:
  fixes x y :: nat
  assumes "x mod m = y mod m" and "lo < x" "x < lo + m" "lo < y" "y < lo + m"
  shows "x = y"
proof -
  have "a = b" if "a mod m = b mod m" "a \<le> b" "lo < a" "b < lo + m" for a b :: nat
    using that mod_eq_dvd_iff_nat [of a b m] nat_dvd_not_less [of "b - a" m] by fastforce
  then show ?thesis using assms by (metis nat_le_linear)
qed

lemma same_slot:
  assumes "ring_ok (Suc (unat (b_nextSeq b))) b" and "ring_index q \<in> used_slots b"
    and "b_nextSeq b < q" "unat q < unat (b_nextSeq b) + 8192"
  shows "s_seq (b_ring b (ring_index q)) = q"
proof -
  let ?s = "s_seq (b_ring b (ring_index q))"
  have "unat ?s = unat q"
  proof (rule mod_window)
    show "unat ?s mod 8192 = unat q mod 8192"
      using ring_okD(1) [OF assms(1,2)] by (simp add: ring_index_mod)
    show "unat (b_nextSeq b) < unat ?s" "unat ?s < unat (b_nextSeq b) + 8192"
      using ring_okD(2,3) [OF assms(1,2)] by simp_all
    show "unat (b_nextSeq b) < unat q" using assms(3) by (simp add: word_less_nat_alt)
  qed (rule assms(4))
  then show ?thesis by (simp add: word_unat_eq_iff)
qed

lemma push_switch_inv:
  assumes "rb_inv b" "b_started b" "unat q < unat (b_nextSeq b) + 8192" "unat q < 2 ^ 48"
  shows "rb_inv (if q = b_nextSeq b then push_next now tmo q p b
    else if q < b_nextSeq b then push_late q p b else push_gap now tmo q p b)"
proof -
  consider "q = b_nextSeq b" | "q < b_nextSeq b" | "b_nextSeq b < q" by (rule linorder_cases) auto
  then show ?thesis
  proof cases
    case 1
    then show ?thesis using push_next_inv [OF assms(1,2)] assms(4) by simp
  next
    case 2
    then show ?thesis using push_late_inv [OF assms(1)] assms(2) by auto
  next
    case 3
    then show ?thesis using push_gap_inv [OF assms(1,2) _ assms(3,4)] by auto
  qed
qed

lemma push_fresh_inv:
  assumes "rb_inv b" and q: "unat q < 2 ^ 48"
  shows "rb_inv (push_fresh now tmo q p b)"
proof -
  define b1 where "b1 = (if \<not> b_started b then b\<lparr>b_started := True, b_nextSeq := q\<rparr> else b)"
  define b2 where "b2 = (if b_nextSeq b1 < q \<and> 8192 \<le> q - b_nextSeq b1
      then advanceTo q (count_stat inc_OverflowSkip b1) else b1)"
  have 1: "rb_inv b1" "b_started b1"
    using assms rb_inv_start unfolding b1_def by auto
  have "rb_inv (count_stat inc_OverflowSkip b1)" "loop_ok (count_stat inc_OverflowSkip b1)"
    using 1 rb_inv_loop_ok by simp_all
  then have 2: "rb_inv b2" "b_started b2" "unat q < unat (b_nextSeq b2) + 8192"
    using 1 advanceTo_ok(2) [of "count_stat inc_OverflowSkip b1" q] q
      rb_inv_advanceTo [of "count_stat inc_OverflowSkip b1" q]
    unfolding b2_def overflow_distance by simp_all
  then show ?thesis
    using push_switch_inv [OF 2 q] unfolding push_fresh_def Let_def b1_def b2_def by blast
qed

lemma Push_inv: "rb_inv b \<Longrightarrow> unat q < 2 ^ 48 \<Longrightarrow> rb_inv (Push now tmo q p b)"
  using push_fresh_inv [of "snd (markSeen b q)" q now tmo p] by (simp add: Push_def split_beta)

lemma rb_inv_started: "rb_inv b \<Longrightarrow> b_held b \<noteq> 0 \<Longrightarrow> b_started b"
  by (auto simp: rb_inv_def)

lemma FlushExpired_fires:
  assumes "rb_inv b" and "b_deadline b = Some d" and "d \<le> now"
  obtains i es where "i \<in> used_slots b"
    "\<And>j. j \<in> used_slots b \<Longrightarrow> s_seq (b_ring b i) \<le> s_seq (b_ring b j)"
    "b_emitted (snd (FlushExpired now tmo b)) = b_emitted b @
      \<lparr>em_late = False, em_seq = s_seq (b_ring b i), em_pkt = s_pkt (b_ring b i)\<rparr> # es"
    "b_held (snd (FlushExpired now tmo b)) < b_held b" "rb_inv (snd (FlushExpired now tmo b))"
proof -
  let ?c = "count_stat inc_TimeoutFlush b"
  have flush: "snd (FlushExpired now tmo b) = skipGapLocked now tmo ?c"
    using assms(2,3) by (simp add: FlushExpired_def Let_def)
  have held: "b_held b \<noteq> 0" using assms(1,2) by (simp add: rb_inv_def)
  then have "used_slots ?c \<noteq> {}" "b_started b" "b_held b \<le> b_maxHold b + 1"
    using assms(1) ring_ok_held_zero [of "Suc (unat (b_nextSeq b))" b]
    by (auto simp: rb_inv_def used_slots_count)
  moreover have "ring_ok (Suc (unat (b_nextSeq ?c))) ?c" "order_ok ?c"
    using assms(1) by (simp_all add: rb_inv_def ring_ok_count order_ok_count)
  ultimately show ?thesis
    using skipGapLocked_emits [of "Suc (unat (b_nextSeq ?c))" ?c now tmo] that
    unfolding flush by (auto simp: used_slots_count)
qed

lemma FlushExpired_inv: "rb_inv b \<Longrightarrow> rb_inv (snd (FlushExpired now tmo b))"
proof (cases "b_deadline b")
  case None
  then show "rb_inv b \<Longrightarrow> ?thesis" by (simp add: FlushExpired_def)
next
  case (Some d)
  assume "rb_inv b"
  then show ?thesis
    using Some FlushExpired_fires [of b d now tmo]
    by (cases "now < d") (auto simp: FlushExpired_def)
qed

section \<open>Duplicates\<close>

definition seen_chk :: "Buffer \<Rightarrow> u64 \<Rightarrow> bool \<times> Buffer" where
  "seen_chk b q = (\<not> fst (markSeen b q), snd (markSeen b q))"

lemma seen_index: "unat (drop_bit 6 (q :: u64) mod seenBlocks) = blk q mod 128"
  by (simp add: unat_mod unat_block)

lemma clear_seen_ring:
  "n \<le> 128 \<Longrightarrow> clear_seen (drop_bit 6 c) n bs = clear_ring 128 (blk c) n bs"
proof (induction n)
  case (Suc n)
  have "unat ((drop_bit 6 c + of_nat (Suc n)) mod seenBlocks) = (blk c + Suc n) mod 128"
    using unat_block_plus [of "Suc n" c] Suc.prems by (simp only: unat_mod seenBlocks_def) simp
  then show ?case using Suc by (simp del: of_nat_Suc seenBlocks_def)
qed simp

lemma seen_advance_bit:
  assumes "b_seenHigh b < c"
  shows "bitmap_at (b_seen (seen_advance b c)) r \<longleftrightarrow> bitmap_at (b_seen b) r \<and>
    \<not> (\<exists>k. blk (b_seenHigh b) < k \<and> k \<le> blk c \<and> k mod 128 = r div 64)"
proof -
  have le: "b_seenHigh b \<le> c" using assms by simp
  show ?thesis
    using unat_clamped_distance [OF le, of seenBlocks 128] bitmap_at_clear [OF blk_mono [OF le]]
    by (simp add: seen_advance_def Let_def clear_seen_ring)
qed

lemma seen_advance_fields [simp]:
  "b_seenHigh (seen_advance b c) = c" "b_seenInit (seen_advance b c) = b_seenInit b"
  by (simp_all add: seen_advance_def Let_def)

lemma seen_mark_fields [simp]:
  "b_seenHigh (snd (seen_mark b c)) = b_seenHigh b" "b_seenInit (snd (seen_mark b c)) = b_seenInit b"
  by (simp_all add: seen_mark_def Let_def)

lemma seen_mark_dup: "fst (seen_mark b c) \<longleftrightarrow> bitmap_at (b_seen b) (win_pos 128 c)"
  by (simp add: seen_mark_def Let_def bitmap_at_pos seen_index unat_and_63 and_exp_eq_0
      del: seenBlocks_def)

lemma seen_mark_bit:
  "bitmap_at (b_seen (snd (seen_mark b c))) r \<longleftrightarrow> bitmap_at (b_seen b) r \<or> r = win_pos 128 c"
  using bitmap_at_set [of "b_seen b" c 128 r] bitmap_at_pos [of "b_seen b" 128 c]
  by (auto simp: seen_mark_def Let_def seen_index unat_and_63 and_exp_eq_0 simp del: seenBlocks_def)

interpretation dedup: sliding_window 128 seen_chk b_seenInit b_seenHigh "\<lambda>b. bitmap_at (b_seen b)"
    "\<lambda>b. \<not> b_seenInit b"
proof unfold_locales
  fix b :: Buffer and c :: u64
  show "(0 :: nat) < 128" by simp
  show "\<not> b_seenInit b \<Longrightarrow> \<not> b_seenInit b" .
  show "fst (seen_chk b c) \<and> b_seenInit (snd (seen_chk b c)) \<and> b_seenHigh (snd (seen_chk b c)) = c \<and>
      (\<forall>r<64 * 128. bitmap_at (b_seen (snd (seen_chk b c))) r = (r = win_pos 128 c))"
    if "\<not> b_seenInit b"
    using that bitmap_at_only [of c 128]
    by (simp add: seen_chk_def markSeen_def seen_index unat_and_63 del: seenBlocks_def)
  show "seen_chk b c = (False, b)"
    if "b_seenInit b" "c \<le> b_seenHigh b" "64 * 128 \<le> unat (b_seenHigh b) - unat c"
    using that by (simp add: seen_chk_def markSeen_def word_le_nat_alt word_less_nat_alt unat_diff)
  show "fst (seen_chk b c) = (\<not> bitmap_at (b_seen b) (win_pos 128 c)) \<and> b_seenInit (snd (seen_chk b c)) \<and>
      b_seenHigh (snd (seen_chk b c)) = b_seenHigh b \<and>
      (\<forall>r<64 * 128. bitmap_at (b_seen (snd (seen_chk b c))) r =
        (bitmap_at (b_seen b) r \<or> r = win_pos 128 c))"
    if "b_seenInit b" "c \<le> b_seenHigh b" "unat (b_seenHigh b) - unat c < 64 * 128"
  proof -
    have "markSeen b c = seen_mark b c"
      using that by (simp add: markSeen_def word_le_nat_alt word_less_nat_alt unat_diff)
    then show ?thesis using that(1) by (simp add: seen_chk_def seen_mark_dup seen_mark_bit)
  qed
  show "fst (seen_chk b c) = (\<not> bitmap_at (b_seen b) (win_pos 128 c) \<or> blk (b_seenHigh b) < blk c) \<and>
      b_seenInit (snd (seen_chk b c)) \<and> b_seenHigh (snd (seen_chk b c)) = c \<and>
      (\<forall>r<64 * 128. bitmap_at (b_seen (snd (seen_chk b c))) r =
        (bitmap_at (b_seen b) r \<and> \<not> (\<exists>k>blk (b_seenHigh b). k \<le> blk c \<and> k mod 128 = r div 64) \<or>
         r = win_pos 128 c))"
    if "b_seenInit b" "b_seenHigh b < c"
  proof -
    have "markSeen b c = seen_mark (seen_advance b c) c" using that by (simp add: markSeen_def)
    moreover have "(\<exists>k>blk (b_seenHigh b). k \<le> blk c \<and> k mod 128 = blk c mod 128) \<longleftrightarrow>
        blk (b_seenHigh b) < blk c"
      by auto
    ultimately show ?thesis
      using that by (simp add: seen_chk_def seen_mark_dup seen_mark_bit seen_advance_bit win_pos_div)
  qed
qed

text \<open>Only \<open>markSeen\<close> touches the duplicate filter, and it looks at nothing else.\<close>

definition seen_view :: "Buffer \<Rightarrow> bool \<times> u64 \<times> u64 garray" where
  "seen_view b = (b_seenInit b, b_seenHigh b, b_seen b)"

lemma markSeen_view:
  "seen_view b = seen_view c \<Longrightarrow> fst (markSeen b q) = fst (markSeen c q) \<and>
    seen_view (snd (markSeen b q)) = seen_view (snd (markSeen c q))"
  by (simp add: seen_view_def markSeen_def seen_mark_def seen_advance_def Let_def)

lemma skipGapLocked_seen [simp]: "seen_view (skipGapLocked now tmo b) = seen_view b"
  by (simp add: skipGapLocked_def seen_view_def split: option.split)

lemma Push_seen: "seen_view (Push now tmo q p b) = seen_view (snd (markSeen b q))"
proof -
  have "seen_view (push_fresh now tmo q p c) = seen_view c" for c
  proof -
    have "seen_view (skipGapLocked now tmo (count_stat f c)) = seen_view c" for f c
      using skipGapLocked_seen by (simp add: seen_view_def)
    then show ?thesis
      by (simp add: push_fresh_def push_next_def push_late_def push_gap_def Let_def)
        (simp add: seen_view_def arm_deadline_def)
  qed
  then show ?thesis by (simp add: Push_def split_beta) (simp add: seen_view_def release_def)
qed

lemma FlushExpired_seen: "seen_view (snd (FlushExpired now tmo b)) = seen_view b"
  using skipGapLocked_seen [of now tmo "count_stat inc_TimeoutFlush b"]
  by (simp add: FlushExpired_def Let_def seen_view_def split: option.split)

text \<open>Histories of a buffer: the pushes and timer ticks it has seen.\<close>

datatype rb_op = PushOp int int u64 packet | FlushOp int int

fun rb_step :: "rb_op \<Rightarrow> Buffer \<Rightarrow> Buffer" where
  "rb_step (PushOp now tmo q p) b = Push now tmo q p b"
| "rb_step (FlushOp now tmo) b = snd (FlushExpired now tmo b)"

definition rb_run :: "Buffer \<Rightarrow> rb_op list \<Rightarrow> Buffer" where
  "rb_run b ops = foldl (\<lambda>c x. rb_step x c) b ops"

fun pushed_seqs :: "rb_op list \<Rightarrow> u64 list" where
  "pushed_seqs [] = []"
| "pushed_seqs (PushOp now tmo q p # ops) = q # pushed_seqs ops"
| "pushed_seqs (FlushOp now tmo # ops) = pushed_seqs ops"

fun pushed :: "rb_op list \<Rightarrow> (u64 \<times> packet) list" where
  "pushed [] = []"
| "pushed (PushOp now tmo q p # ops) = (q, p) # pushed ops"
| "pushed (FlushOp now tmo # ops) = pushed ops"

definition wire_seqs :: "rb_op list \<Rightarrow> bool" where
  "wire_seqs ops \<longleftrightarrow> (\<forall>q\<in>set (pushed_seqs ops). unat q < 2 ^ 48)"

lemma rb_run_simps [simp]:
  "rb_run b [] = b" "rb_run b (x # ops) = rb_run (rb_step x b) ops"
  "rb_run b (xs @ ys) = rb_run (rb_run b xs) ys"
  by (simp_all add: rb_run_def)

lemma pushed_seqs_append [simp]: "pushed_seqs (xs @ ys) = pushed_seqs xs @ pushed_seqs ys"
  by (induction xs rule: pushed_seqs.induct) simp_all

lemma pushed_append [simp]: "pushed (xs @ ys) = pushed xs @ pushed ys"
  by (induction xs rule: pushed.induct) simp_all

lemma rb_run_inv: "rb_inv b \<Longrightarrow> wire_seqs ops \<Longrightarrow> rb_inv (rb_run b ops)"
  by (induction ops arbitrary: b rule: pushed_seqs.induct)
    (simp_all add: wire_seqs_def Push_inv FlushExpired_inv del: power_Suc)

lemma rb_run_accounted: "accounted (rb_run b ops) = mset (pushed ops) + accounted b"
  by (induction ops arbitrary: b rule: pushed.induct)
    (simp_all add: accounted_Push accounted_FlushExpired)

lemma rb_run_seen:
  "seen_view b = seen_view c \<Longrightarrow> seen_view (rb_run b ops) = seen_view (win_run seen_chk c (pushed_seqs ops))"
proof (induction ops arbitrary: b c rule: pushed_seqs.induct)
  case (2 now tmo q p ops)
  have "seen_view (Push now tmo q p b) = seen_view (snd (seen_chk c q))"
    using markSeen_view [OF "2.prems", of q] by (simp add: Push_seen seen_chk_def)
  then show ?case using "2.IH" by simp
next
  case (3 now tmo ops)
  then show ?case by (simp add: FlushExpired_seen)
qed simp

lemma seen_chk_view: "seen_view b = seen_view c \<Longrightarrow> fst (seen_chk b q) = fst (seen_chk c q)"
  using markSeen_view [of b c q] by (simp add: seen_chk_def)

lemma New_used: "used_slots (New [WithMaxHold m]) = {}"
  by (simp add: New_def WithMaxHold_def used_slots_def slot_zero_def)

lemma New_fields [simp]:
  "\<not> b_seenInit (New [WithMaxHold m])" "b_emitted (New [WithMaxHold m]) = []"
  "b_released (New [WithMaxHold m]) = []" "b_maxHold (New [WithMaxHold m]) = m"
  "\<not> b_started (New [WithMaxHold m])" "b_held (New [WithMaxHold m]) = 0"
  "b_nextSeq (New [WithMaxHold m]) = 0" "b_deadline (New [WithMaxHold m]) = None"
  by (simp_all add: New_def WithMaxHold_def)

lemma rb_inv_New: "0 \<le> m \<Longrightarrow> rb_inv (New [WithMaxHold m])"
  by (simp add: rb_inv_def ring_ok_def order_ok_def below_next_def New_used in_sequence_def)

lemma accounted_New: "accounted (New [WithMaxHold m]) = {#}"
  by (simp add: accounted_def held_packets_def New_used)

lemma skipGapLocked_maxHold: "b_maxHold (skipGapLocked now tmo b) = b_maxHold b"
  by (simp add: skipGapLocked_def split: option.split)

lemma push_switch_maxHold:
  "b_maxHold (push_next now tmo q p b) = b_maxHold b"
  "b_maxHold (push_late q p b) = b_maxHold b"
  "b_maxHold (push_gap now tmo q p b) = b_maxHold b"
  by (simp_all add: push_next_def push_late_def push_gap_def Let_def skipGapLocked_maxHold
      arm_deadline_def)

lemma push_fresh_maxHold: "b_maxHold (push_fresh now tmo q p b) = b_maxHold b"
  unfolding push_fresh_def Let_def by (simp add: push_switch_maxHold)

lemma rb_step_maxHold: "b_maxHold (rb_step x b) = b_maxHold b"
  by (cases x)
    (simp_all add: push_fresh_maxHold skipGapLocked_maxHold Push_def split_beta FlushExpired_def
      Let_def release_def split: option.split)

lemma skipGapLocked_started: "b_started (skipGapLocked now tmo b) = b_started b"
  by (simp add: skipGapLocked_def split: option.split)

lemma push_switch_started:
  "b_started (push_next now tmo q p b) = b_started b"
  "b_started (push_late q p b) = b_started b"
  "b_started (push_gap now tmo q p b) = b_started b"
  by (simp_all add: push_next_def push_late_def push_gap_def Let_def skipGapLocked_started
      arm_deadline_def)

lemma push_fresh_started: "b_started (push_fresh now tmo q p b)"
  unfolding push_fresh_def Let_def by (simp add: push_switch_started)

lemma Push_started: "b_started b \<Longrightarrow> b_started (Push now tmo q p b)"
  by (simp add: push_fresh_started Push_def split_beta release_def)

lemma rb_run_maxHold: "b_maxHold (rb_run b ops) = b_maxHold b"
  by (induction ops arbitrary: b) (simp_all add: rb_step_maxHold)

section \<open>Gap-free histories\<close>

text \<open>
  As long as no gap is given up, the emitted sequence numbers are the interval from the
  first one to \<open>nextSeq\<close>, nothing was passed late and nothing was released.
\<close>

definition contiguous :: "nat \<Rightarrow> Buffer \<Rightarrow> bool" where
  "contiguous s b \<longleftrightarrow> in_sequence b = [s..<unat (b_nextSeq b)] \<and> s \<le> unat (b_nextSeq b) \<and>
    (\<forall>e\<in>set (b_emitted b). \<not> em_late e) \<and> b_released b = []"

lemma contiguous_cong:
  "b_emitted b' = b_emitted b \<Longrightarrow> b_nextSeq b' = b_nextSeq b \<Longrightarrow> b_released b' = b_released b \<Longrightarrow>
    contiguous s b' = contiguous s b"
  by (simp add: contiguous_def in_sequence_def)

lemma contiguous_emit:
  assumes "contiguous s b" and "unat (b_nextSeq b) < 2 ^ 48"
    and "b_emitted c = b_emitted b @ [\<lparr>em_late = False, em_seq = b_nextSeq b, em_pkt = p\<rparr>]"
    and "b_nextSeq c = b_nextSeq b + 1" and "b_released c = b_released b"
  shows "contiguous s c"
proof -
  have "unat (b_nextSeq b + 1) = Suc (unat (b_nextSeq b))"
    using assms(2) by (intro unat_Suc_below [where t = "2 ^ 48"]) simp
  moreover have "in_sequence c = in_sequence b @ [unat (b_nextSeq b)]"
    using assms(3) by (simp add: in_sequence_def)
  ultimately show ?thesis using assms by (auto simp: contiguous_def)
qed

lemma contiguous_drain_loop: "loop_ok b \<Longrightarrow> contiguous s b \<Longrightarrow> contiguous s (drain_loop b)"
proof (induction b rule: drain_loop.induct)
  case (1 b)
  let ?i = "ring_index (b_nextSeq b)"
  let ?c = "(emit_slot ?i b)\<lparr>b_nextSeq := b_nextSeq b + 1\<rparr>"
  show ?case
  proof (cases "0 < b_held b \<and> s_used (b_ring b ?i) \<and> s_seq (b_ring b ?i) = b_nextSeq b")
    case True
    have ok: "loop_ok ?c" using True loop_ok_emit_next [OF "1.prems"(1)] by simp
    have "unat (b_nextSeq b) < 2 ^ 48"
      using True "1.prems"(1) ring_okD(4) [of _ b ?i] ring_index_used [of b] by (auto simp: loop_ok_def)
    then have "contiguous s ?c"
      using True by (intro contiguous_emit [OF "1.prems"(2)]) simp_all
    moreover have "drain_loop b = drain_loop ?c"
      using True by (subst drain_loop.simps) (simp add: Let_def)
    ultimately show ?thesis using "1.IH" ok True by simp
  next
    case False
    then show ?thesis using "1.prems" by (subst drain_loop.simps) (auto simp: Let_def)
  qed
qed

lemma contiguous_push_next:
  assumes "rb_inv b" "b_started b" "unat (b_nextSeq b) < 2 ^ 48" "contiguous s b"
  shows "contiguous s (push_next now tmo (b_nextSeq b) p b)"
proof -
  let ?e = "emitLocked False (b_nextSeq b) p b"
  let ?c = "?e\<lparr>b_nextSeq := b_nextSeq ?e + 1\<rparr>"
  have "loop_ok ?c" using assms(1,3) by (rule loop_ok_push_next)
  moreover have "contiguous s ?c" by (rule contiguous_emit [OF assms(4,3)]) simp_all
  ultimately have "contiguous s (drain_loop ?c)" by (rule contiguous_drain_loop)
  moreover have "contiguous s (drainLocked now tmo ?c) = contiguous s (drain_loop ?c)"
    by (rule contiguous_cong) simp_all
  ultimately show ?thesis by (simp add: push_next_def Let_def)
qed

lemma contiguous_push_gap:
  assumes "contiguous s b" "\<not> s_used (b_ring b (ring_index q))" "b_held b < b_maxHold b"
  shows "contiguous s (push_gap now tmo q p b)"
proof -
  have "b_released (fill_slot (ring_index q) q p (evict_slot (ring_index q) b)) = b_released b"
    using assms(2) by (simp add: fill_slot_def evict_slot_def Let_def)
  then have "contiguous s (push_gap now tmo q p b) = contiguous s b"
    using assms(2,3) by (intro contiguous_cong) (simp_all add: push_gap_def Let_def arm_deadline_def)
  then show ?thesis using assms(1) by simp
qed

lemma push_fresh_near:
  "b_started b \<Longrightarrow> \<not> (b_nextSeq b < q \<and> 8192 \<le> q - b_nextSeq b) \<Longrightarrow>
    push_fresh now tmo q p b = (if q = b_nextSeq b then push_next now tmo q p b
      else if q < b_nextSeq b then push_late q p b else push_gap now tmo q p b)"
  by (simp only: push_fresh_def Let_def if_True if_False not_True_eq_False)

lemma contiguous_Push:
  assumes inv: "rb_inv b" "b_started b" and "contiguous s b" and "\<not> fst (markSeen b q)"
    and "unat (b_nextSeq b) \<le> unat q" "unat q < unat (b_nextSeq b) + 8192" "unat q < 2 ^ 48"
    and "q \<notin> (\<lambda>i. s_seq (b_ring b i)) ` used_slots b" and "b_held b < b_maxHold b"
  shows "contiguous s (Push now tmo q p b)" and "b_started (Push now tmo q p b)"
proof -
  let ?b = "snd (markSeen b q)"
  have b: "rb_inv ?b" "b_started ?b" "contiguous s ?b"
    using inv assms(3) by (simp_all add: contiguous_cong [of ?b b])
  have free: "\<not> s_used (b_ring ?b (ring_index q))" if "b_nextSeq b < q"
  proof
    assume used: "s_used (b_ring ?b (ring_index q))"
    then have i: "ring_index q \<in> used_slots b" using ring_index_used by simp
    have ring: "ring_ok (Suc (unat (b_nextSeq b))) b" using inv by (simp add: rb_inv_def)
    let ?r = "s_seq (b_ring b (ring_index q))"
    have "unat ?r mod 8192 = unat q mod 8192"
      using ring_okD(1) [OF ring i] by (simp add: ring_index_mod)
    then have "unat ?r = unat q"
      using ring_okD(2,3) [OF ring i] assms(5,6) that
        mod_eq_same_range [of "unat ?r" 8192 "unat q"] mod_eq_same_range [of "unat q" 8192 "unat ?r"]
      by (cases "unat ?r \<le> unat q") (simp_all add: word_less_nat_alt)
    then show False using assms(8) i by (metis image_eqI word_unat_eq_iff)
  qed
  have "\<not> (b_nextSeq ?b < q \<and> 8192 \<le> q - b_nextSeq ?b)"
    unfolding overflow_distance using assms(6) by simp
  from push_fresh_near [OF b(2) this] have "Push now tmo q p b =
      (if q = b_nextSeq ?b then push_next now tmo q p ?b else push_gap now tmo q p ?b)"
    using assms(4,5) by (simp add: Push_def split_beta word_less_nat_alt)
  moreover have "contiguous s (push_next now tmo (b_nextSeq ?b) p ?b)" if "q = b_nextSeq b"
    using b assms(7) that by (intro contiguous_push_next) simp_all
  moreover have "contiguous s (push_gap now tmo q p ?b)" if "q \<noteq> b_nextSeq b"
    using b assms(5,9) that free
    by (intro contiguous_push_gap) (auto simp: word_less_nat_alt order_less_le word_unat_eq_iff)
  ultimately show "contiguous s (Push now tmo q p b)" by simp
  show "b_started (Push now tmo q p b)"
    using b(2) Push_inv [OF inv(1) assms(7)] by (simp add: Push_started)
qed

text \<open>
  A complete block of arrivals: every sequence number from \<open>s\<close> to \<open>s + n\<close> once, the
  first one first. The clock readings are arbitrary; the timer does not fire.
\<close>

definition push_all :: "(int \<times> int \<times> u64 \<times> packet) list \<Rightarrow> rb_op list" where
  "push_all xs = map (\<lambda>(now, tmo, q, p). PushOp now tmo q p) xs"

definition arrival_seqs :: "(int \<times> int \<times> u64 \<times> packet) list \<Rightarrow> nat list" where
  "arrival_seqs xs = map (\<lambda>(now, tmo, q, p). unat q) xs"

lemma push_all_simps [simp]:
  "push_all [] = []" "push_all ((now, tmo, q, p) # xs) = PushOp now tmo q p # push_all xs"
  "push_all (xs @ ys) = push_all xs @ push_all ys"
  "arrival_seqs [] = []" "arrival_seqs ((now, tmo, q, p) # xs) = unat q # arrival_seqs xs"
  "arrival_seqs (xs @ ys) = arrival_seqs xs @ arrival_seqs ys"
  "length (arrival_seqs xs) = length xs"
  by (simp_all add: push_all_def arrival_seqs_def)

lemma pushed_push_all:
  "pushed (push_all xs) = map (\<lambda>(now, tmo, q, p). (q, p)) xs"
  "map unat (pushed_seqs (push_all xs)) = arrival_seqs xs"
  by (induction xs) (auto simp: split_beta)

lemma used_accounted:
  "i \<in> used_slots b \<Longrightarrow> (s_seq (b_ring b i), s_pkt (b_ring b i)) \<in># accounted b"
  by (auto simp: accounted_def held_packets_def)

lemma in_sequence_accounted:
  assumes "n \<in> set (in_sequence b)"
  shows "n \<in> (\<lambda>x. unat (fst x)) ` set_mset (accounted b)"
proof -
  obtain e where "e \<in> set (b_emitted b)" "n = unat (em_seq e)"
    using assms by (auto simp: in_sequence_def)
  then show ?thesis by (intro image_eqI [where x = "(em_seq e, em_pkt e)"]) (auto simp: accounted_def)
qed

lemma held_le_accounted: "ring_ok lo b \<Longrightarrow> b_held b \<le> int (size (accounted b))"
  by (simp add: accounted_def held_packets_def ring_ok_def)

lemma seqs_accounted:
  "rb_inv (rb_run (New [WithMaxHold m]) (push_all xs)) \<Longrightarrow>
    (\<lambda>x. unat (fst x)) ` set_mset (accounted (rb_run (New [WithMaxHold m]) (push_all xs))) =
    set (arrival_seqs xs)"
  by (force simp: rb_run_accounted accounted_New pushed_push_all arrival_seqs_def)

text \<open>Histories inside an interval of at most 8128 numbers are orderly for the duplicate filter.\<close>

lemma orderly_near:
  assumes "\<forall>x\<in>set cs. s \<le> unat x \<and> unat x < s + 8128" and "\<not> b_seenInit w \<or> (s \<le> unat (b_seenHigh w) \<and> unat (b_seenHigh w) < s + 8128)"
    and "\<not> b_seenInit w \<longrightarrow> b_seenHigh w = 0"
  shows "orderly_run 128 b_seenHigh seen_chk w cs"
  using assms
proof (induction cs arbitrary: w)
  case Nil
  then show ?case by simp
next
  case (Cons c cs)
  have near: "b_seenHigh w < c \<or> blk (b_seenHigh w) < blk c + 128" if "b_seenInit w"
    using Cons.prems that by (intro disjI2 dedup.near_blocks) auto
  have arr: "orderly_arrival 128 (b_seenHigh w) c"
    using near Cons.prems(3) by (cases "b_seenInit w") (auto simp: orderly_arrival_def blk_def)
  have "b_seenInit (snd (seen_chk w c))"
    "b_seenHigh (snd (seen_chk w c)) = c \<or> b_seenHigh (snd (seen_chk w c)) = b_seenHigh w \<and> b_seenInit w"
    by (simp_all add: seen_chk_def markSeen_def)
  then show ?case using Cons arr by auto
qed

definition complete_prefix :: "int \<Rightarrow> nat \<Rightarrow> nat \<Rightarrow> (int \<times> int \<times> u64 \<times> packet) list \<Rightarrow> bool" where
  "complete_prefix m s n xs \<longleftrightarrow> distinct (arrival_seqs xs) \<and> set (arrival_seqs xs) \<subseteq> {s..<s + n} \<and>
    xs \<noteq> [] \<and> hd (arrival_seqs xs) = s \<and> n \<le> 8128 \<and> int n \<le> m \<and> s + n \<le> 2 ^ 48"

lemma complete_prefix_snoc:
  "complete_prefix m s n (xs @ [x]) \<Longrightarrow> xs \<noteq> [] \<Longrightarrow> complete_prefix m s n xs"
  by (cases xs) (auto simp: complete_prefix_def)

lemma complete_prefix_inv:
  assumes "complete_prefix m s n xs"
  shows "rb_inv (rb_run (New [WithMaxHold m]) (push_all xs))"
proof (rule rb_run_inv [OF rb_inv_New])
  show "0 \<le> m" using assms by (auto simp: complete_prefix_def)
  have "set (arrival_seqs xs) = unat ` set (pushed_seqs (push_all xs))"
    by (metis list.set_map pushed_push_all(2))
  then show "wire_seqs (push_all xs)"
    using assms by (fastforce simp: complete_prefix_def wire_seqs_def)
qed

lemma fresh_in_interval:
  assumes "complete_prefix m s n (xs @ [(now, tmo, q, p)])"
  shows "\<not> fst (markSeen (rb_run (New [WithMaxHold m]) (push_all xs)) q)"
proof -
  let ?N = "New [WithMaxHold m]" and ?cs = "pushed_seqs (push_all xs)"
  have img: "unat ` set ?cs = set (arrival_seqs xs)" by (metis list.set_map pushed_push_all(2))
  then have range: "\<forall>x\<in>set (?cs @ [q]). s \<le> unat x \<and> unat x < s + 8128"
    using assms by (fastforce simp: complete_prefix_def)
  then have "orderly_run 128 b_seenHigh seen_chk ?N (?cs @ [q])"
    by (rule orderly_near) (simp_all add: New_def WithMaxHold_def)
  from dedup.ideal_verdict [OF _ this]
  have "fst (seen_chk (win_run seen_chk ?N ?cs) q) \<longleftrightarrow>
      q \<notin> set ?cs \<and> (\<forall>x\<in>set ?cs. unat x < unat q + 64 * 128)" by simp
  moreover have "q \<notin> set ?cs" using assms img by (auto simp: complete_prefix_def)
  moreover have "\<forall>x\<in>set ?cs. unat x < unat q + 64 * 128" using range by fastforce
  ultimately have "fst (seen_chk (rb_run ?N (push_all xs)) q)"
    using seen_chk_view [OF rb_run_seen [OF refl]] by blast
  then show ?thesis by (simp add: seen_chk_def)
qed

lemma contiguous_first:
  assumes "0 \<le> m" and "unat q < 2 ^ 48"
  shows "contiguous (unat q) (Push now tmo q p (New [WithMaxHold m])) \<and>
    b_started (Push now tmo q p (New [WithMaxHold m]))"
proof -
  let ?N = "New [WithMaxHold m]"
  let ?b = "(snd (markSeen ?N q))\<lparr>b_started := True, b_nextSeq := q\<rparr>"
  have fresh: "\<not> fst (markSeen ?N q)" by (simp add: markSeen_def)
  then have "Push now tmo q p ?N = push_next now tmo q p ?b"
    by (simp add: Push_def split_beta push_fresh_def Let_def)
  moreover have "rb_inv ?b" using assms by (intro rb_inv_start) (simp_all add: rb_inv_New)
  moreover have "contiguous (unat q) ?b" by (simp add: contiguous_def in_sequence_def)
  ultimately show ?thesis
    using contiguous_push_next [of ?b] assms(2) by (simp add: push_switch_started)
qed

lemma contiguous_run:
  assumes "complete_prefix m s n xs"
  shows "contiguous s (rb_run (New [WithMaxHold m]) (push_all xs)) \<and>
    b_started (rb_run (New [WithMaxHold m]) (push_all xs))"
  using assms
proof (induction xs rule: rev_induct)
  case Nil
  then show ?case by (simp add: complete_prefix_def)
next
  case (snoc x xs)
  obtain now tmo q p where x: "x = (now, tmo, q, p)" by (cases x) auto
  let ?b = "rb_run (New [WithMaxHold m]) (push_all xs)"
  show ?case
  proof (cases "xs = []")
    case True
    then show ?thesis
      using snoc.prems contiguous_first [of m q now tmo p] by (auto simp: x complete_prefix_def)
  next
    case False
    note pre = complete_prefix_snoc [OF snoc.prems False]
    have con: "contiguous s ?b" "b_started ?b" using snoc.IH [OF pre] by simp_all
    have inv: "rb_inv ?b" by (rule complete_prefix_inv [OF pre])
    have q: "s \<le> unat q" "unat q < s + n" "unat q \<notin> set (arrival_seqs xs)"
      and n: "n \<le> 8128" "int n \<le> m" "s + n \<le> 2 ^ 48"
      using snoc.prems by (auto simp: x complete_prefix_def)
    have emitted: "set (in_sequence ?b) \<subseteq> set (arrival_seqs xs)"
      using in_sequence_accounted seqs_accounted [OF inv] by blast
    have next_le: "unat (b_nextSeq ?b) \<le> unat q"
    proof (rule ccontr)
      assume "\<not> unat (b_nextSeq ?b) \<le> unat q"
      then have "unat q \<in> set (in_sequence ?b)" using con(1) q(1) by (simp add: contiguous_def)
      then show False using emitted q(3) by blast
    qed
    have len: "Suc (length xs) \<le> n"
    proof -
      have "card (set (arrival_seqs (xs @ [x]))) \<le> card {s..<s + n}"
        using snoc.prems by (intro card_mono) (simp_all add: complete_prefix_def)
      then show ?thesis
        using snoc.prems distinct_card [of "arrival_seqs (xs @ [x])"]
        unfolding complete_prefix_def by simp
    qed
    have free: "q \<notin> (\<lambda>i. s_seq (b_ring ?b i)) ` used_slots ?b"
      using used_accounted [of _ ?b] seqs_accounted [OF inv] q(3) by force
    have "b_held ?b \<le> int (length xs)"
      using held_le_accounted [of "Suc (unat (b_nextSeq ?b))" ?b] inv
      by (simp add: rb_inv_def rb_run_accounted accounted_New pushed_push_all)
    then have room: "b_held ?b < b_maxHold ?b" using len n(2) by (simp add: rb_run_maxHold)
    have near: "unat q < unat (b_nextSeq ?b) + 8192" using con(1) q n by (simp add: contiguous_def)
    have small: "unat q < 2 ^ 48" using q n by linarith
    have fresh: "\<not> fst (markSeen ?b q)" using snoc.prems fresh_in_interval by (simp add: x)
    have "contiguous s (Push now tmo q p ?b) \<and> b_started (Push now tmo q p ?b)"
      using contiguous_Push [OF inv con(2,1) fresh next_le near small free room] by simp
    then show ?thesis by (simp add: x)
  qed
qed

lemma contiguous_accounted:
  assumes "contiguous s b" and "x \<in> (\<lambda>x. unat (fst x)) ` set_mset (accounted b)"
  shows "x \<in> set (in_sequence b) \<or> (\<exists>i\<in>used_slots b. x = unat (s_seq (b_ring b i)))"
proof -
  have "filter (\<lambda>e. \<not> em_late e) (b_emitted b) = b_emitted b" "b_released b = []"
    using assms(1) by (simp_all add: contiguous_def)
  then show ?thesis
    using assms(2) by (auto simp: accounted_def held_packets_def in_sequence_def)
qed

lemma complete_block_drained:
  assumes xs: "complete_prefix m s n xs" and all: "set (arrival_seqs xs) = {s..<s + n}"
  defines "b \<equiv> rb_run (New [WithMaxHold m]) (push_all xs)"
  shows "used_slots b = {} \<and> unat (b_nextSeq b) = s + n"
proof -
  have inv: "rb_inv b" unfolding b_def by (rule complete_prefix_inv [OF xs])
  have con: "contiguous s b" using contiguous_run [OF xs] by (simp add: b_def)
  have acc: "(\<lambda>x. unat (fst x)) ` set_mset (accounted b) = {s..<s + n}"
    using seqs_accounted inv all unfolding b_def by blast
  have ring: "ring_ok (Suc (unat (b_nextSeq b))) b" using inv by (simp add: rb_inv_def)
  have out: "unat (b_nextSeq b) \<notin> {s..<s + n}"
  proof
    assume "unat (b_nextSeq b) \<in> {s..<s + n}"
    then have "unat (b_nextSeq b) \<in> set (in_sequence b) \<or>
        (\<exists>i\<in>used_slots b. unat (b_nextSeq b) = unat (s_seq (b_ring b i)))"
      using contiguous_accounted [OF con] acc by blast
    then show False using con ring_okD(2) [OF ring] by (fastforce simp: contiguous_def)
  qed
  have "used_slots b = {}"
  proof (rule ccontr)
    assume "used_slots b \<noteq> {}"
    then obtain i where i: "i \<in> used_slots b" by blast
    have "unat (s_seq (b_ring b i)) \<in> {s..<s + n}"
      using used_accounted [OF i] acc by (metis fst_conv image_eqI)
    then show False
      using out ring_okD(2) [OF ring i] con by (auto simp: contiguous_def)
  qed
  moreover have "unat (b_nextSeq b) \<le> s + n"
  proof (rule ccontr)
    assume "\<not> unat (b_nextSeq b) \<le> s + n"
    then have "s + n \<in> set (in_sequence b)" using con by (simp add: contiguous_def)
    then show False using in_sequence_accounted [of "s + n" b] acc by simp
  qed
  ultimately show ?thesis using out con by (auto simp: contiguous_def)
qed

text \<open>The first push, and a push ahead of an empty ring, on concrete states.\<close>

lemma drain_loop_empty: "b_held b = 0 \<Longrightarrow> drain_loop b = b"
  by (subst drain_loop.simps) simp

lemma Push_first:
  fixes now tmo m :: int and q :: u64 and p :: packet
  defines "b \<equiv> Push now tmo q p (New [WithMaxHold m])"
  shows "b_started b" "b_nextSeq b = q + 1" "b_held b = 0" "b_deadline b = None" "b_maxHold b = m"
    "b_seenHigh b = q" "b_seenInit b" "b_released b = []"
    "b_emitted b = [\<lparr>em_late = False, em_seq = q, em_pkt = p\<rparr>]" "b_ring b = (\<lambda>_. slot_zero)"
    "b_seen b = (\<lambda>_. 0)(unat (drop_bit 6 q mod seenBlocks) := push_bit (unat (q AND 63)) 1)"
  unfolding b_def
  by (simp_all add: New_def WithMaxHold_def Push_def split_beta push_fresh_def Let_def push_next_def
      drainLocked_def drain_loop_empty markSeen_def emitLocked_def)

lemma Push_ahead:
  assumes "b_started b" "\<not> fst (markSeen b q)" "b_nextSeq b < q" "q - b_nextSeq b < 8192"
    "b_held b = 0" "b_ring b = (\<lambda>_. slot_zero)" "1 \<le> b_maxHold b" "b_deadline b = None"
  shows "b_started (Push now tmo q p b)" "b_deadline (Push now tmo q p b) = Some (now + tmo)"
    "b_nextSeq (Push now tmo q p b) = b_nextSeq b" "b_emitted (Push now tmo q p b) = b_emitted b"
proof -
  let ?b = "snd (markSeen b q)"
  have "Push now tmo q p b = push_gap now tmo q p ?b"
    using assms(1-4) push_fresh_near [of ?b q now tmo p] by (auto simp: Push_def split_beta)
  then show "b_started (Push now tmo q p b)" "b_deadline (Push now tmo q p b) = Some (now + tmo)"
    "b_nextSeq (Push now tmo q p b) = b_nextSeq b" "b_emitted (Push now tmo q p b) = b_emitted b"
    using assms by (simp_all add: push_gap_def Let_def arm_deadline_def slot_zero_def)
qed

text \<open>What a complete block leaves: everything emitted, in sequence, each number with its own packet.\<close>

lemma complete_block_emitted:
  assumes xs: "complete_prefix m s n xs" and all: "set (arrival_seqs xs) = {s..<s + n}"
  defines "b \<equiv> rb_run (New [WithMaxHold m]) (push_all xs)"
  shows "map (\<lambda>e. unat (em_seq e)) (b_emitted b) = [s..<s + n]" "\<forall>e\<in>set (b_emitted b). \<not> em_late e"
    "b_released b = []" "held_packets b = {#}"
    "e \<in> set (b_emitted b) \<Longrightarrow> (em_seq e, em_pkt e) \<in> set (map (\<lambda>(now, tmo, q, p). (q, p)) xs)"
proof -
  have con: "contiguous s b" using contiguous_run [OF xs] by (simp add: b_def)
  have "filter (\<lambda>e. \<not> em_late e) (b_emitted b) = b_emitted b" using con by (simp add: contiguous_def)
  then show "map (\<lambda>e. unat (em_seq e)) (b_emitted b) = [s..<s + n]" "\<forall>e\<in>set (b_emitted b). \<not> em_late e"
    "b_released b = []" "held_packets b = {#}"
    using con complete_block_drained [OF xs all] by (simp_all add: b_def contiguous_def in_sequence_def held_packets_def)
  show "(em_seq e, em_pkt e) \<in> set (map (\<lambda>(now, tmo, q, p). (q, p)) xs)" if e: "e \<in> set (b_emitted b)"
  proof -
    have "(em_seq e, em_pkt e) \<in># accounted b" using e by (auto simp: accounted_def)
    then show ?thesis unfolding b_def rb_run_accounted accounted_New pushed_push_all by simp
  qed
qed

section \<open>Properties of the resequencing buffer\<close>

text \<open>
  Property C17. Ownership: over any history, the multiset of packets handed to \<open>emit\<close>,
  handed to \<open>release\<close> or still held in the ring is exactly the multiset of packets
  pushed: every packet is passed to one of the callbacks at most once, and is never lost,
  also on the overflow and eviction paths.
\<close>

theorem Push_exactly_once:
  "mset (map (\<lambda>e. (em_seq e, em_pkt e)) (b_emitted (rb_run (New [WithMaxHold m]) ops))) +
   mset (b_released (rb_run (New [WithMaxHold m]) ops)) +
   held_packets (rb_run (New [WithMaxHold m]) ops) = mset (pushed ops)"
  using rb_run_accounted [of "New [WithMaxHold m]" ops] unfolding accounted_New
  by (simp add: accounted_def)

text \<open>
  In every state reached by pushes of 48-bit sequence numbers and timer ticks,
  the ring is well formed: \<open>held\<close> counts the occupied slots and never exceeds
  \<open>maxHold\<close>, every held packet is ahead of \<open>nextSeq\<close> by less than the ring, sits at
  its own index, and the gap deadline is armed exactly when packets are held, so that no
  packet waits without a timer.
\<close>

theorem reorder_invariant:
  assumes "0 \<le> m" and "wire_seqs ops"
  defines "b \<equiv> rb_run (New [WithMaxHold m]) ops"
  shows "b_held b = int (card (used_slots b)) \<and> b_held b \<le> m \<and>
    (b_deadline b = None \<longleftrightarrow> b_held b = 0) \<and>
    (\<forall>i\<in>used_slots b. ring_index (s_seq (b_ring b i)) = i \<and>
       unat (b_nextSeq b) < unat (s_seq (b_ring b i)) \<and>
       unat (s_seq (b_ring b i)) < unat (b_nextSeq b) + ringSize)"
  using rb_run_inv [OF rb_inv_New [OF assms(1)] assms(2)] rb_run_maxHold [of "New [WithMaxHold m]" ops]
  by (auto simp: b_def rb_inv_def ring_ok_def Suc_le_eq)

theorem reorder_invariant_witness:
  "b_held (rb_run (New [WithMaxHold 4]) [PushOp 0 30 7 ([], 1), PushOp 5 30 9 ([], 2)]) \<le> 4"
  using reorder_invariant [of 4 "[PushOp 0 30 7 ([], 1), PushOp 5 30 9 ([], 2)]"]
  by (simp add: wire_seqs_def)

text \<open>
  Property C18. Order: the packets that are not late passes are emitted in strictly
  increasing order of their sequence numbers, over any history.
\<close>

theorem emission_in_order:
  assumes "0 \<le> m" and "wire_seqs ops"
  shows "sorted_wrt (<) (map (\<lambda>e. unat (em_seq e))
    (filter (\<lambda>e. \<not> em_late e) (b_emitted (rb_run (New [WithMaxHold m]) ops))))"
  using rb_run_inv [OF rb_inv_New [OF assms(1)] assms(2)]
  by (simp add: rb_inv_def order_ok_def in_sequence_def)

theorem emission_in_order_witness:
  "sorted_wrt (<) (map (\<lambda>e. unat (em_seq e)) (filter (\<lambda>e. \<not> em_late e)
    (b_emitted (rb_run (New [WithMaxHold 2]) [PushOp 0 30 7 ([], 1), PushOp 1 30 9 ([], 2), PushOp 2 30 8 ([], 3)]))))"
  by (rule emission_in_order) (simp_all add: wire_seqs_def)



text \<open>
  Property C19. Gaps are given up on time: when the timer fires at or after the deadline,
  the oldest held packet is emitted at once (then whatever follows it without a gap), fewer
  packets remain held, and a new deadline is returned exactly when some are left.
\<close>

theorem FlushExpired_gives_up:
  fixes tmo :: int
  assumes "0 \<le> m" and "wire_seqs ops"
    and "b_deadline (rb_run (New [WithMaxHold m]) ops) = Some d" and "d \<le> now"
  defines "b \<equiv> rb_run (New [WithMaxHold m]) ops"
  defines "b' \<equiv> snd (FlushExpired now tmo b)"
  shows "\<exists>i\<in>used_slots b. (\<forall>j\<in>used_slots b. s_seq (b_ring b i) \<le> s_seq (b_ring b j)) \<and>
    (\<exists>es. b_emitted b' = b_emitted b @
      \<lparr>em_late = False, em_seq = s_seq (b_ring b i), em_pkt = s_pkt (b_ring b i)\<rparr> # es) \<and>
    b_held b' < b_held b \<and> (fst (FlushExpired now tmo b) = None \<longleftrightarrow> b_held b' = 0)"
proof -
  have inv: "rb_inv b" unfolding b_def by (rule rb_run_inv [OF rb_inv_New [OF assms(1)] assms(2)])
  have d: "b_deadline b = Some d" using assms(3) by (simp add: b_def)
  obtain i es where fires: "i \<in> used_slots b"
      "\<And>j. j \<in> used_slots b \<Longrightarrow> s_seq (b_ring b i) \<le> s_seq (b_ring b j)"
      "b_emitted b' = b_emitted b @
        \<lparr>em_late = False, em_seq = s_seq (b_ring b i), em_pkt = s_pkt (b_ring b i)\<rparr> # es"
      "b_held b' < b_held b" "rb_inv b'"
    unfolding b'_def using FlushExpired_fires [OF inv d assms(4)] by metis
  have "fst (FlushExpired now tmo b) = b_deadline b'"
    using d assms(4) by (simp add: b'_def FlushExpired_def Let_def)
  then show ?thesis using fires by (auto simp: rb_inv_def)
qed

theorem FlushExpired_gives_up_witness:
  "\<exists>es. es \<noteq> [] \<and> b_emitted (snd (FlushExpired 40 30 (rb_run (New [WithMaxHold 4])
      [PushOp 0 30 7 ([], 0), PushOp 5 30 9 ([], 2)]))) =
    b_emitted (rb_run (New [WithMaxHold 4]) [PushOp 0 30 7 ([], 0), PushOp 5 30 9 ([], 2)]) @ es"
proof -
  let ?ops = "[PushOp 0 30 7 ([], 0), PushOp 5 30 9 ([], 2)]"
  note b = Push_first [of 0 30 7 "([], 0)" 4]
  have "\<not> fst (markSeen (Push 0 30 7 ([], 0) (New [WithMaxHold 4])) 9)"
    by (simp add: b markSeen_def seen_mark_def seen_advance_def Let_def)
  then have "b_deadline (rb_run (New [WithMaxHold 4]) ?ops) = Some 35"
    using Push_ahead(2) [of "Push 0 30 7 ([], 0) (New [WithMaxHold 4])" 9 5 30] b by simp
  then show ?thesis
    using FlushExpired_gives_up [of 4 ?ops 35 40 30] by (fastforce simp: wire_seqs_def)
qed

text \<open>
  Duplicates are dropped: a sequence number that was accepted before is released
  and not emitted when it arrives again, as long as the highest sequence number received is
  at most 8128 ahead of it; the buffer is otherwise unchanged.
\<close>

theorem duplicate_dropped:
  assumes "\<not> fst (markSeen (rb_run (New [WithMaxHold m]) pre) q)"
    and "unat (b_seenHigh (rb_run (New [WithMaxHold m]) (pre @ PushOp t0 tmo0 q p0 # post))) \<le> unat q + 8128"
  defines "b \<equiv> rb_run (New [WithMaxHold m]) (pre @ PushOp t0 tmo0 q p0 # post)"
  shows "fst (markSeen b q) \<and> b_emitted (Push now tmo q p b) = b_emitted b \<and>
    b_released (Push now tmo q p b) = b_released b @ [(q, p)] \<and>
    b_ring (Push now tmo q p b) = b_ring b \<and> b_nextSeq (Push now tmo q p b) = b_nextSeq b"
proof -
  let ?N = "New [WithMaxHold m]"
  let ?w = "win_run seen_chk ?N (pushed_seqs pre)"
  let ?v = "win_run seen_chk ?w (q # pushed_seqs post)"
  have pre: "seen_view (rb_run ?N pre) = seen_view ?w" by (rule rb_run_seen) simp
  have view: "seen_view b = seen_view ?v"
    using rb_run_seen [OF refl, of ?N "pre @ PushOp t0 tmo0 q p0 # post"] by (simp add: b_def)
  have "fst (seen_chk ?w q)"
    using assms(1) seen_chk_view [OF pre, of q] by (simp add: seen_chk_def)
  moreover have "\<not> b_seenInit ?w \<or> b_seenInit ?w" by simp
  moreover have "blk (b_seenHigh ?v) < blk q + 128"
    using assms(2) view by (intro dedup.near_blocks) (simp add: b_def seen_view_def)
  ultimately have "\<not> fst (seen_chk ?v q)" by (intro dedup.no_second_acceptance) simp_all
  then have "fst (markSeen b q)" using seen_chk_view [OF view, of q] by (simp add: seen_chk_def)
  then show ?thesis by (simp add: Push_def split_beta release_def)
qed

theorem duplicate_dropped_witness:
  "b_released (Push 9 30 7 ([], 1) (rb_run (New [WithMaxHold 4]) [PushOp 0 30 7 ([], 0)])) =
   b_released (rb_run (New [WithMaxHold 4]) [PushOp 0 30 7 ([], 0)]) @ [(7, ([], 1))]"
  using duplicate_dropped [of 4 "[]" 7 0 30 "([], 0)" "[]" 9 30 "([], 1)"]
    Push_first [of 0 30 7 "([], 0)" 4]
  by (simp add: markSeen_def)

text \<open>
  The duplicate window is one block too wide for its ring, as that of
  \<open>internal/replay\<close> is: sequence number 1 is pushed twice, with 8192 in between, and both
  copies are emitted, the second as a late pass; nothing is released.
\<close>

theorem duplicate_emitted_at_window_edge:
  "map em_seq (b_emitted (rb_run (New [WithMaxHold 4096])
     [PushOp 0 30 1 ([], 0), PushOp 1 30 8192 ([], 1), PushOp 2 30 1 ([], 2)])) = [1, 1]"
proof -
  let ?b1 = "Push 0 30 1 ([], 0) (New [WithMaxHold 4096])"
  let ?b2 = "Push 1 30 8192 ([], 1) ?b1"
  note b1 = Push_first [of 0 30 1 "([], 0)" 4096]
  have nums: "blk 1 = 0" "blk 8192 = 128" "win_pos 128 1 = 1" "(1 :: u64) < 8192" "(1 :: u64) \<le> 8192"
    by (simp_all add: blk_def win_pos_def word_less_nat_alt word_le_nat_alt)
  have adv: "fst (seen_chk ?b1 8192)" "b_seenHigh (snd (seen_chk ?b1 8192)) = 8192"
    "b_seenInit (snd (seen_chk ?b1 8192))" "\<not> bitmap_at (b_seen (snd (seen_chk ?b1 8192))) 1"
    using dedup.chk_advance [of ?b1 8192] b1 nums by (auto simp: win_pos_def intro: exI [of _ 128])
  then have "seen_view ?b2 = seen_view (snd (seen_chk ?b1 8192))" by (simp add: Push_seen seen_chk_def)
  then have b2: "b_seenInit ?b2" "b_seenHigh ?b2 = 8192" "\<not> bitmap_at (b_seen ?b2) 1"
    using adv by (simp_all add: seen_view_def)
  have fields: "b_started ?b2" "b_nextSeq ?b2 = 2" "b_emitted ?b2 = b_emitted ?b1"
    using Push_ahead [of ?b1 8192 1 30] adv(1) b1 by (simp_all add: seen_chk_def)
  have "fst (seen_chk ?b2 1)" using dedup.chk_within [of ?b2 1] b2 nums by simp
  then have "Push 2 30 1 ([], 2) ?b2 = push_late 1 ([], 2) (snd (markSeen ?b2 1))"
    using push_fresh_near [of "snd (markSeen ?b2 1)" 1 2 30] fields
    by (simp add: Push_def split_beta seen_chk_def)
  then show ?thesis using fields b1 by (simp add: push_late_def)
qed

end
