(* ===== verification/Engine.thy ===== *)
theory Engine
  imports Session
begin

text \<open>
  The engine around the sessions: the handshake gate and random indices of
  \<open>internal/engine/engine.go\<close>, the server of \<open>server.go\<close> (peer tables, handshakes, the
  demultiplexing of received datagrams and of TUN packets) and the client of \<open>client.go\<close>
  (links, sockets, handshakes) with its control operations from \<open>status.go\<close>.

  Each function is the body of one handler or one round of a loop, under the locks the code
  takes. The results of the platform calls are arguments: which interfaces there are, which
  can be dialled and with which local address. A socket is a number; \<open>ce_local\<close> records the
  local address of each socket ever opened. Random bytes are a list of draws.
\<close>

section \<open>Shared pieces (\<open>engine.go\<close>)\<close>

record tokenBucket =
  tb_tokens :: real
  tb_max :: real
  tb_rate :: real
  tb_last :: int

definition newTokenBucket :: "int \<Rightarrow> real \<Rightarrow> real \<Rightarrow> tokenBucket" where
  "newTokenBucket now mx perSecond =
    \<lparr>tb_tokens = mx, tb_max = mx, tb_rate = perSecond, tb_last = now\<rparr>"

definition tb_allow :: "int \<Rightarrow> tokenBucket \<Rightarrow> bool \<times> tokenBucket" where
  "tb_allow now t =
    (let k = tb_tokens t + seconds (now - tb_last t) * tb_rate t;
         k = (if tb_max t < k then tb_max t else k);
         t = t\<lparr>tb_tokens := k, tb_last := now\<rparr>
     in if k < 1 then (False, t) else (True, t\<lparr>tb_tokens := k - 1\<rparr>))"

text \<open>
  \<open>randUint32\<close> draws until the value is not zero. The draws are a list; \<open>None\<close> is a source
  that ran dry, which the code turns into a panic.
\<close>

fun randUint32 :: "bytes list \<Rightarrow> (u32 \<times> bytes list) option" where
  "randUint32 [] = None"
| "randUint32 (b # bs) = (let v = get_le b :: u32 in if v \<noteq> 0 then Some (v, bs) else randUint32 bs)"

section \<open>The server\<close>

record ServerEng =
  sr_conf :: EngineConf
  sr_priv :: Key
  sr_sessions :: "session list"
  sr_peers :: "Key \<rightharpoonup> nat"
  sr_byIP :: "Addr \<rightharpoonup> nat"
  sr_byRxID :: "(u32 \<times> nat \<times> nat) list"
  sr_hsGate :: tokenBucket
  sr_limiter :: Limiter
  sr_sent :: "Sent list"

text \<open>The sessions and tables that \<open>StartServer\<close> builds, peer by peer.\<close>

definition add_peer :: "Peer \<Rightarrow> ServerEng \<Rightarrow> ServerEng" where
  "add_peer p e =
    (let i = length (sr_sessions e);
         s = (newSession (sr_conf e) (pe_Name p) (pe_PubKey p) (pe_PSK p) ModeBonding)\<lparr>se_peerIP := pe_Addr p\<rparr>
     in e\<lparr>sr_sessions := sr_sessions e @ [s], sr_peers := (sr_peers e)(pe_PubKey p \<mapsto> i),
          sr_byIP := (sr_byIP e)(pe_Addr p \<mapsto> i)\<rparr>)"

definition StartServer :: "int \<Rightarrow> Server \<Rightarrow> ServerEng" where
  "StartServer now cfg =
    (let lm = NewLimiter 4 8;
         conf = \<lparr>en_role = RoleServer, en_mtu = ss_MTU (sv_Server cfg), en_tuning = sv_Tuning cfg,
                 en_fecCfg = sv_FEC cfg, en_notifyTooBig = NotifyPTB (sv_Tuning cfg),
                 en_ptbLimiter = Some lm, en_rekeyNow = False\<rparr>
     in fold add_peer (sv_Peer cfg)
          \<lparr>sr_conf = conf, sr_priv = sv_PrivateKey cfg, sr_sessions = [], sr_peers = Map.empty,
           sr_byIP = Map.empty, sr_byRxID = [], sr_hsGate = newTokenBucket now 20 10, sr_limiter = lm,
           sr_sent = []\<rparr>)"

text \<open>\<open>allocRxID\<close>: random indices until one is not in use.\<close>

function allocRxID :: "(u32 \<times> nat \<times> nat) list \<Rightarrow> bytes list \<Rightarrow> (u32 \<times> bytes list) option" where
  "allocRxID used rands =
    (case randUint32 rands of
       None \<Rightarrow> None
     | Some (i, rest) \<Rightarrow> if map_of used i = None then Some (i, rest) else allocRxID used rest)"
  by pat_completeness auto
termination
proof (relation "measure (\<lambda>(u, d). length d)")
  have dec: "randUint32 d = Some (i, r) \<Longrightarrow> length r < length d" for d i r
    by (induction d rule: randUint32.induct) (auto simp: Let_def split: if_splits)
  fix used rands x i rest
  assume "randUint32 rands = Some x" "(i, rest) = x"
  then show "((used, rest), used, rands) \<in> measure (\<lambda>(u, d). length d)" using dec by auto
qed simp

declare allocRxID.simps [simp del]

definition unindexRxIDs :: "u32 list \<Rightarrow> ServerEng \<Rightarrow> ServerEng" where
  "unindexRxIDs ids e = e\<lparr>sr_byRxID := filter (\<lambda>(i, _). i \<notin> set ids) (sr_byRxID e)\<rparr>"

definition put_session :: "nat \<Rightarrow> session \<Rightarrow> ServerEng \<Rightarrow> ServerEng" where
  "put_session i s e = e\<lparr>sr_sessions := (sr_sessions e)[i := s]\<rparr>"

text \<open>
  The session's part of an accepted handshake: the new epoch is indexed and awaits key
  confirmation, unless there is no epoch to send with; the path the handshake came on is
  created or refreshed.
\<close>

definition index_epoch :: "int \<Rightarrow> u32 \<Rightarrow> Epoch \<Rightarrow> session \<Rightarrow> (nat \<times> session) option" where
  "index_epoch now rxID epoch s =
    (case alloc_epoch epoch s of
       (a, s) \<Rightarrow> do {
         let s = s\<lparr>se_epochs := AList.update rxID \<lparr>ee_epoch = a, ee_supersedes = None\<rparr> (se_epochs s)\<rparr>;
         let s = s\<lparr>se_pending := Some a\<rparr>;
         s \<leftarrow> (if se_txEpoch s = None then registerEpoch now a True (s\<lparr>se_pending := None\<rparr>) else Some s);
         Some (a, s)
       })"

definition handshake_path :: "int \<Rightarrow> byte \<Rightarrow> AddrPort \<Rightarrow> session \<Rightarrow> session option" where
  "handshake_path nowUs pid src s = do {
     s \<leftarrow> (if MaxPaths \<le> unat pid then None
           else if se_paths s (unat pid) = None then addServerPath nowUs pid src s else Some s);
     Some (upd_path (unat pid) (\<lambda>p. OnControlReceived nowUs (SetEndpoint src p)) s)
   }"

definition handshake_response :: "Header \<Rightarrow> bytes \<Rightarrow> bytes option" where
  "handshake_response hdr msg = do {
     h \<leftarrow> Header_Marshal \<lparr>h_Type = TypeHandshakeResp, h_PathID = h_PathID hdr,
            h_SessionID = h_SessionID hdr, h_Counter = 0\<rparr> (replicate HeaderSize 0);
     Some (h @ msg)
   }"

text \<open>
  \<open>handleHandshakeInit\<close>, in two parts: what follows once the timestamp has advanced, and
  the checks before it. \<open>seed\<close> and \<open>rnd\<close> are the random bytes of the response, \<open>rands\<close>
  those of the index. The compare-and-swap loop on the timestamp is one step. The loops of
  the session are started once the response is out.
\<close>

definition accept_init ::
  "Crypto \<Rightarrow> 'hs Noise \<Rightarrow> Env \<Rightarrow> int \<Rightarrow> int \<Rightarrow> bytes option \<Rightarrow> bytes \<Rightarrow> bytes list \<Rightarrow> Header \<Rightarrow> AddrPort \<Rightarrow>
    'hs ServerHandshake \<Rightarrow> nat \<Rightarrow> ServerEng \<Rightarrow> ServerEng option" where
  "accept_init c ns env now nowUs seed rnd rands hdr src sh i e = do {
     let s = sr_sessions e ! i;
     (rxID, _) \<leftarrow> allocRxID (sr_byRxID e) rands;
     (case Respond c ns now seed rnd sh (se_psk s) rxID (h_SessionID hdr) of
        None \<Rightarrow> Some e
      | Some (msg, epoch) \<Rightarrow> do {
          (a, s) \<leftarrow> index_epoch now rxID epoch s;
          s \<leftarrow> handshake_path nowUs (h_PathID hdr) src s;
          pkt \<leftarrow> handshake_response hdr msg;
          let w = ToAddr src pkt;
          let s = (if ev_ok env w then s\<lparr>se_started := True\<rparr> else s);
          Some (put_session i s (e\<lparr>sr_byRxID := AList.update rxID (i, a) (sr_byRxID e), sr_sent := sr_sent e @ [w]\<rparr>))
        })
   }"

definition handleHandshakeInit ::
  "Crypto \<Rightarrow> 'hs Noise \<Rightarrow> Env \<Rightarrow> int \<Rightarrow> int \<Rightarrow> bytes option \<Rightarrow> bytes \<Rightarrow> bytes list \<Rightarrow> Header \<Rightarrow> bytes \<Rightarrow> AddrPort \<Rightarrow>
    ServerEng \<Rightarrow> ServerEng option" where
  "handleHandshakeInit c ns env now nowUs seed rnd rands hdr datagram src e =
    (case tb_allow now (sr_hsGate e) of
       (ok, gate) \<Rightarrow>
         let e = e\<lparr>sr_hsGate := gate\<rparr>
         in if \<not> ok then Some e
            else case ConsumeInit ns (sr_priv e) (drop HeaderSize datagram) of
                Inl _ \<Rightarrow> Some e
              | Inr sh \<Rightarrow>
                  (case sr_peers e (sh_peer sh) of
                     None \<Rightarrow> Some e
                   | Some i \<Rightarrow>
                       let s = sr_sessions e ! i;
                           ts = ip_TimestampNs (sh_payload sh)
                       in if ts \<le> se_lastHsTs s then Some e
                          else accept_init c ns env now nowUs seed rnd rands hdr src sh i
                                 (put_session i (s\<lparr>se_lastHsTs := ts\<rparr>) e)))"

text \<open>
  One datagram of \<open>listenReader\<close>. The limiter is the engine's: the session sees it during
  its step.
\<close>

definition with_limiter :: "Limiter \<Rightarrow> session \<Rightarrow> session" where
  "with_limiter lm s = s\<lparr>se_eng := (se_eng s)\<lparr>en_ptbLimiter := Some lm\<rparr>\<rparr>"

definition listen_datagram ::
  "Crypto \<Rightarrow> 'hs Noise \<Rightarrow> Env \<Rightarrow> int \<Rightarrow> int \<Rightarrow> bytes option \<Rightarrow> bytes \<Rightarrow> bytes list \<Rightarrow> bytes \<Rightarrow> AddrPort \<Rightarrow>
    ServerEng \<Rightarrow> ServerEng option" where
  "listen_datagram c ns env now nowUs seed rnd rands datagram src e =
    (if length datagram < HeaderSize then Some e
     else case ParseHeader datagram of
         Inl _ \<Rightarrow> Some e
       | Inr hdr \<Rightarrow>
           let src = (Unmap (fst src), snd src)
           in if h_Type hdr = TypeHandshakeInit
              then handleHandshakeInit c ns env now nowUs seed rnd rands hdr datagram src e
              else case map_of (sr_byRxID e) (h_SessionID hdr) of
                  None \<Rightarrow> Some e
                | Some (i, ep) \<Rightarrow> do {
                    (_, s) \<leftarrow> handleDatagram env now nowUs ep hdr datagram src (sr_sessions e ! i);
                    Some (put_session i s e)
                  })"

definition routeSession :: "bytes \<Rightarrow> ServerEng \<Rightarrow> nat option" where
  "routeSession ip e = (case innerDst ip of None \<Rightarrow> None | Some dst \<Rightarrow> sr_byIP e dst)"

text \<open>One packet of \<open>tunReader\<close> on the server.\<close>

definition server_tun_packet :: "Env \<Rightarrow> int \<Rightarrow> bytes \<Rightarrow> ServerEng \<Rightarrow> ServerEng option" where
  "server_tun_packet env now ip e =
    (if ip = [] then Some e
     else case routeSession ip e of
         None \<Rightarrow> Some e
       | Some i \<Rightarrow> do {
           s \<leftarrow> sendData env now ip (with_limiter (sr_limiter e) (sr_sessions e ! i));
           let e = (case en_ptbLimiter (se_eng s) of None \<Rightarrow> e | Some lm \<Rightarrow> e\<lparr>sr_limiter := lm\<rparr>);
           Some (put_session i s e)
         })"

text \<open>One prober round of a server session, with the index kept in step.\<close>

definition server_prober_tick ::
  "Env \<Rightarrow> int \<Rightarrow> int \<Rightarrow> nat \<Rightarrow> ProberVars \<Rightarrow> ServerEng \<Rightarrow> (ProberVars \<times> ServerEng) option" where
  "server_prober_tick env now nowUs i v e = do {
     (pruned, v, s) \<leftarrow> prober_tick env now nowUs (v, sr_sessions e ! i);
     Some (v, unindexRxIDs pruned (put_session i s e))
   }"

section \<open>The client\<close>

record ClientEng =
  ce_sess :: session
  ce_links :: Links
  ce_tunName :: string
  ce_serverAddr :: AddrPort
  ce_priv :: Key
  ce_serverPub :: Key
  ce_psk :: Key
  ce_nextConn :: nat
  ce_local :: "nat \<Rightarrow> Addr"
  ce_hsRespCh :: "(u32 \<times> bytes) list"

definition hsRespCap :: nat where [simp]: "hsRespCap = 4"

text \<open>
  \<open>desiredLinks\<close>: the configured links (a later entry for the same interface wins) and, in
  automatic mode, every usable interface not among them; \<open>usableIfs exclude\<close> is what the
  platform reports. The Go map has no order; the model lists the configured ones first.
\<close>

definition desiredLinks :: "(string list \<Rightarrow> string list) \<Rightarrow> ClientEng \<Rightarrow> (string \<times> real) list" where
  "desiredLinks usableIfs e =
    (let want = fold (\<lambda>l w. AList.update (li_Interface l) (li_InitialMbps l) w) (ls_Link (ce_links e)) []
     in if ls_Auto (ce_links e)
        then fold (\<lambda>n w. if map_of w n = None then w @ [(n, 0)] else w)
               (usableIfs ([ce_tunName e, ''lo*''] @ ls_Exclude (ce_links e))) want
        else want)"

definition freePathID :: "session \<Rightarrow> nat option" where
  "freePathID s = find (\<lambda>i. se_paths s i = None) [0..<MaxPaths]"

definition markLinkGone :: "nat \<Rightarrow> session \<Rightarrow> session option" where
  "markLinkGone slot s =
    (case se_paths s slot of
       None \<Rightarrow> None
     | Some p \<Rightarrow>
         let i = unat (pa_ID p);
             s = s\<lparr>se_conns := (se_conns s)(i := None)\<rparr>
         in if pa_state p \<noteq> Removed then do {
              let s = (upd_path slot (SetPathState Removed) s)\<lparr>se_acked := (se_acked s)(i := False)\<rparr>;
              sched \<leftarrow> RemovePath (pa_ID p) (se_sched s);
              Some (s\<lparr>se_sched := sched\<rparr>)
            } else Some s)"

definition swapConn :: "nat \<Rightarrow> nat \<Rightarrow> session \<Rightarrow> session option" where
  "swapConn slot conn s =
    (case se_paths s slot of
       None \<Rightarrow> None
     | Some p \<Rightarrow>
         let i = unat (pa_ID p);
             s = s\<lparr>se_acked := (se_acked s)(i := False)\<rparr>;
             s = upd_path slot MTURestart s
         in Some (s\<lparr>se_conns := (se_conns s)(i := Some conn)\<rparr>))"

definition announcePath :: "Env \<Rightarrow> int \<Rightarrow> nat \<Rightarrow> session \<Rightarrow> session option" where
  "announcePath env nowUs slot s =
    (case (se_txEpoch s, se_paths s slot) of
       (Some ep, Some p) \<Rightarrow> sendPathInit env nowUs ep (pa_ID p) s
     | _ \<Rightarrow> Some s)"

text \<open>The index of the existing paths by interface, built before the reconciliation.\<close>

definition paths_by_if :: "session \<Rightarrow> string \<rightharpoonup> nat" where
  "paths_by_if s = fold (\<lambda>i m. case se_paths s i of None \<Rightarrow> m | Some p \<Rightarrow> m(pa_IfName p \<mapsto> i)) [0..<MaxPaths] Map.empty"

text \<open>
  What the platform answers, and \<open>pf_order\<close>, the order in which Go walks the map of wanted
  links. The walk over the map of removals has no effect that depends on its order.
\<close>

record Platform =
  pf_usable :: "string list \<Rightarrow> string list"
  pf_dial :: "string \<Rightarrow> Addr option"
  pf_ifMTU :: "string \<Rightarrow> int option"
  pf_order :: "(string \<times> real) list \<Rightarrow> (string \<times> real) list"

definition add_link ::
  "Env \<Rightarrow> Platform \<Rightarrow> int \<Rightarrow> string \<Rightarrow> real \<Rightarrow> nat \<Rightarrow> AddrPort \<Rightarrow> session \<Rightarrow> session option" where
  "add_link env pf nowUs ifname hint conn server s =
    (case freePathID s of
       None \<Rightarrow> Some s
     | Some pid \<Rightarrow> do {
         let ceil = (case pf_ifMTU pf ifname of None \<Rightarrow> 0 | Some m \<Rightarrow> m);
         let p = ResetLiveness nowUs (SetEndpoint server (NewPath (of_nat pid) ifname hint ceil));
         let s = s\<lparr>se_paths := (se_paths s)(pid := Some p)\<rparr>;
         s \<leftarrow> swapConn pid conn s;
         announcePath env nowUs pid s
       })"

definition rebind_link :: "Env \<Rightarrow> int \<Rightarrow> nat \<Rightarrow> nat \<Rightarrow> session \<Rightarrow> session option" where
  "rebind_link env nowUs slot conn s = do {
     s \<leftarrow> swapConn slot conn s;
     let s = upd_path slot (ResetLiveness nowUs) s;
     let s = upd_path slot (\<lambda>p. if pa_state p = Removed then SetPathState Probing p else p) s;
     announcePath env nowUs slot s
   }"

text \<open>One wanted interface of \<open>setupLinks\<close>.\<close>

definition want_link ::
  "Env \<Rightarrow> Platform \<Rightarrow> int \<Rightarrow> (string \<rightharpoonup> nat) \<Rightarrow> string \<times> real \<Rightarrow> ClientEng \<Rightarrow> ClientEng option" where
  "want_link env pf nowUs byIf = (\<lambda>(ifname, hint) e.
    let s = ce_sess e in
    case pf_dial pf ifname of
      None \<Rightarrow>
        (case byIf ifname of
           None \<Rightarrow> Some e
         | Some slot \<Rightarrow>
             (case se_paths s slot of
                None \<Rightarrow> None
              | Some p \<Rightarrow>
                  if pa_state p \<noteq> Down \<and> pa_state p \<noteq> Removed
                  then do { s \<leftarrow> markLinkGone slot s; Some (e\<lparr>ce_sess := s\<rparr>) } else Some e))
    | Some local \<Rightarrow>
        let conn = ce_nextConn e;
            e = e\<lparr>ce_nextConn := conn + 1, ce_local := (ce_local e)(conn := local)\<rparr>
        in case byIf ifname of
             None \<Rightarrow> do { s \<leftarrow> add_link env pf nowUs ifname hint conn (ce_serverAddr e) s; Some (e\<lparr>ce_sess := s\<rparr>) }
           | Some slot \<Rightarrow>
               (case se_paths s slot of
                  None \<Rightarrow> None
                | Some p \<Rightarrow>
                    let old = se_conns s (unat (pa_ID p));
                        cur = (case old of None \<Rightarrow> AddrZero | Some o' \<Rightarrow> Unmap (ce_local e o'))
                    in if old = None \<or> cur \<noteq> local
                       then do { s \<leftarrow> rebind_link env nowUs slot conn s; Some (e\<lparr>ce_sess := s\<rparr>) }
                       else Some e))"

fun want_links ::
  "Env \<Rightarrow> Platform \<Rightarrow> int \<Rightarrow> (string \<rightharpoonup> nat) \<Rightarrow> (string \<times> real) list \<Rightarrow> ClientEng \<Rightarrow> ClientEng option" where
  "want_links env pf nowUs byIf [] e = Some e"
| "want_links env pf nowUs byIf (w # ws) e = do {
     e \<leftarrow> want_link env pf nowUs byIf w e;
     want_links env pf nowUs byIf ws e
   }"

fun drop_links :: "(string \<times> real) list \<Rightarrow> (string \<rightharpoonup> nat) \<Rightarrow> nat list \<Rightarrow> session \<Rightarrow> session option" where
  "drop_links want byIf [] s = Some s"
| "drop_links want byIf (i # is) s = do {
     s \<leftarrow> (case se_paths s i of
             None \<Rightarrow> Some s
           | Some p \<Rightarrow>
               if byIf (pa_IfName p) = Some i \<and> map_of want (pa_IfName p) = None then markLinkGone i s else Some s);
     drop_links want byIf is s
   }"

definition setupLinks :: "Env \<Rightarrow> Platform \<Rightarrow> int \<Rightarrow> ClientEng \<Rightarrow> ClientEng option" where
  "setupLinks env pf nowUs e = do {
     let want = desiredLinks (pf_usable pf) e;
     let byIf = paths_by_if (ce_sess e);
     e \<leftarrow> want_links env pf nowUs byIf (pf_order pf want) e;
     s \<leftarrow> drop_links want byIf [0..<MaxPaths] (ce_sess e);
     Some (e\<lparr>ce_sess := s\<rparr>)
   }"

text \<open>
  The state \<open>StartClient\<close> builds once the server's name is resolved and the TUN device
  \<open>tunName\<close> is configured.
\<close>

definition StartClient ::
  "Env \<Rightarrow> Platform \<Rightarrow> int \<Rightarrow> AddrPort \<Rightarrow> string \<Rightarrow> Client \<Rightarrow> ClientEng option" where
  "StartClient env pf nowUs serverAddr tunName cfg = do {
     let conf = \<lparr>en_role = RoleClient, en_mtu = cs_MTU (cl_Client cfg), en_tuning = cl_Tuning cfg,
                 en_fecCfg = cl_FEC cfg, en_notifyTooBig = NotifyPTB (cl_Tuning cfg),
                 en_ptbLimiter = Some (NewLimiter 4 8), en_rekeyNow = False\<rparr>;
     e \<leftarrow> setupLinks env pf nowUs
            \<lparr>ce_sess = newSession conf ''server'' (cl_ServerPubKey cfg) (cl_PSK cfg) (cl_SchedMode cfg),
             ce_links = cl_Links cfg, ce_tunName = tunName, ce_serverAddr = serverAddr,
             ce_priv = cl_PrivateKey cfg, ce_serverPub = cl_ServerPubKey cfg, ce_psk = cl_PSK cfg,
             ce_nextConn = 0, ce_local = (\<lambda>_. AddrZero), ce_hsRespCh = []\<rparr>;
     Some (e\<lparr>ce_sess := (ce_sess e)\<lparr>se_started := True\<rparr>\<rparr>)
   }"

definition client_tun_packet :: "Env \<Rightarrow> int \<Rightarrow> bytes \<Rightarrow> ClientEng \<Rightarrow> ClientEng option" where
  "client_tun_packet env now ip e =
    (if ip = [] then Some e else do { s \<leftarrow> sendData env now ip (ce_sess e); Some (e\<lparr>ce_sess := s\<rparr>) })"

text \<open>\<open>Stop\<close> on the client: the peer is told on every usable path, then the sockets close.\<close>

definition Engine_Stop :: "Env \<Rightarrow> int \<Rightarrow> ClientEng \<Rightarrow> ClientEng option" where
  "Engine_Stop env nowUs e = do {
     s \<leftarrow> sendCloseAll env nowUs (ce_sess e);
     Some (e\<lparr>ce_sess := closeConns s\<rparr>)
   }"

definition pickHandshakePath :: "session \<Rightarrow> (byte \<times> nat) option" where
  "pickHandshakePath s =
    (let cands = concat (map (\<lambda>i. case (se_paths s i, se_conns s i) of
                     (Some p, Some c) \<Rightarrow> if pa_state p \<noteq> Removed then [(p, c)] else []
                   | _ \<Rightarrow> []) [0..<MaxPaths])
     in case find (\<lambda>(p, c). pa_state p = Active) cands of
          Some (p, c) \<Rightarrow> Some (pa_ID p, c)
        | None \<Rightarrow> (case cands of [] \<Rightarrow> None | (p, c) # _ \<Rightarrow> Some (pa_ID p, c)))"

text \<open>
  The two halves of \<open>handshakeOnce\<close>: sending the first message, and using a response.
  \<open>hs_start\<close> is \<open>None\<close> when the attempt fails before the message is out.
\<close>

definition hs_start ::
  "'hs Noise \<Rightarrow> Env \<Rightarrow> bytes list \<Rightarrow> bytes option \<Rightarrow> bytes \<Rightarrow> u64 \<Rightarrow> ClientEng \<Rightarrow>
    (u32 \<times> 'hs ClientHandshake \<times> ClientEng) option" where
  "hs_start ns env rands seed rnd timestampNs e = do {
     (pid, conn) \<leftarrow> pickHandshakePath (ce_sess e);
     (rxID, _) \<leftarrow> randUint32 rands;
     ch \<leftarrow> NewClientHandshake ns seed (ce_priv e) (ce_serverPub e) (ce_psk e) rxID;
     (msg, ch) \<leftarrow> InitMessage ns rnd ch timestampNs;
     h \<leftarrow> Header_Marshal \<lparr>h_Type = TypeHandshakeInit, h_PathID = pid, h_SessionID = rxID, h_Counter = 0\<rparr>
            (replicate HeaderSize 0);
     let s = ce_sess e;
     let w = ToConn conn (h @ msg);
     if ev_ok env w then Some (rxID, ch, e\<lparr>ce_sess := s\<lparr>se_sent := se_sent s @ [w]\<rparr>\<rparr>) else None
   }"

fun announce_all :: "Env \<Rightarrow> int \<Rightarrow> nat \<Rightarrow> nat list \<Rightarrow> session \<Rightarrow> session option" where
  "announce_all env nowUs ep [] s = Some s"
| "announce_all env nowUs ep (i # is) s = do {
     s \<leftarrow> (case se_paths s i of
             None \<Rightarrow> Some s
           | Some p \<Rightarrow>
               if pa_state p \<noteq> Removed
               then sendPathInit env nowUs ep (pa_ID p) (s\<lparr>se_acked := (se_acked s)(i := False)\<rparr>) else Some s);
     announce_all env nowUs ep is s
   }"

text \<open>
  A response taken from the channel: \<open>Inl\<close> when it is not for this attempt or is refused
  (with the handshake to continue or give up), \<open>Inr\<close> when the session has the new epoch.
\<close>

definition hs_response ::
  "Crypto \<Rightarrow> 'hs Noise \<Rightarrow> Env \<Rightarrow> int \<Rightarrow> int \<Rightarrow> u32 \<Rightarrow> 'hs ClientHandshake \<Rightarrow> u32 \<times> bytes \<Rightarrow> session \<Rightarrow>
    (noise_error option + session) option" where
  "hs_response c ns env now nowUs rxID ch resp s =
    (if fst resp \<noteq> rxID then Some (Inl None)
     else case fst (Finish c ns now ch (snd resp)) of
         Inl e \<Rightarrow> Some (Inl (Some e))
       | Inr epoch \<Rightarrow>
           (case alloc_epoch epoch s of
              (a, s) \<Rightarrow> do {
                s \<leftarrow> registerEpoch now a True s;
                s \<leftarrow> announce_all env nowUs a [0..<MaxPaths] s;
                Some (Inr s)
              }))"

text \<open>One datagram of \<open>pathReader\<close>.\<close>

definition path_datagram :: "Env \<Rightarrow> int \<Rightarrow> int \<Rightarrow> bytes \<Rightarrow> ClientEng \<Rightarrow> ClientEng option" where
  "path_datagram env now nowUs datagram e =
    (if length datagram < HeaderSize then Some e
     else case ParseHeader datagram of
         Inl _ \<Rightarrow> Some e
       | Inr hdr \<Rightarrow>
           if h_Type hdr = TypeHandshakeResp then
             Some (if length (ce_hsRespCh e) < hsRespCap
                   then e\<lparr>ce_hsRespCh := ce_hsRespCh e @ [(h_SessionID hdr, drop HeaderSize datagram)]\<rparr> else e)
           else case lookupEpoch (h_SessionID hdr) (ce_sess e) of
               None \<Rightarrow> Some e
             | Some ep \<Rightarrow> do {
                 (_, s) \<leftarrow> handleDatagram env now nowUs ep hdr datagram (AddrZero, 0) (ce_sess e);
                 Some (e\<lparr>ce_sess := s\<rparr>)
               })"

text \<open>\<open>runHandshake\<close>: the pause between attempts doubles up to five seconds.\<close>

definition next_backoff :: "int \<Rightarrow> int" where
  "next_backoff b = (let b = b * 2 in if 5000000000 < b then 5000000000 else b)"

section \<open>Control operations (\<open>status.go\<close>)\<close>

datatype ctl_error = ErrNotClient | ErrLinkExists string | ErrNoSuchLink string | ErrUnknownMode string

definition AddLink ::
  "Env \<Rightarrow> Platform \<Rightarrow> int \<Rightarrow> string \<Rightarrow> real \<Rightarrow> ClientEng \<Rightarrow> (ctl_error + ClientEng) option" where
  "AddLink env pf nowUs ifname initialMbps e =
    (if en_role (se_eng (ce_sess e)) \<noteq> RoleClient then Some (Inl ErrNotClient)
     else if \<exists>l\<in>set (ls_Link (ce_links e)). li_Interface l = ifname then Some (Inl (ErrLinkExists ifname))
     else map_option Inr (setupLinks env pf nowUs
            (e\<lparr>ce_links := (ce_links e)\<lparr>ls_Link := ls_Link (ce_links e) @
                [\<lparr>li_Interface = ifname, li_InitialMbps = initialMbps\<rparr>]\<rparr>\<rparr>)))"

fun remove_first_link :: "string \<Rightarrow> Link list \<Rightarrow> Link list option" where
  "remove_first_link n [] = None"
| "remove_first_link n (l # ls) =
    (if li_Interface l = n then Some ls else map_option (\<lambda>r. l # r) (remove_first_link n ls))"

fun mark_if_gone :: "string \<Rightarrow> nat list \<Rightarrow> session \<Rightarrow> session option" where
  "mark_if_gone n [] s = Some s"
| "mark_if_gone n (i # is) s = do {
     s \<leftarrow> (case se_paths s i of
             None \<Rightarrow> Some s
           | Some p \<Rightarrow> if pa_IfName p = n then markLinkGone i s else Some s);
     mark_if_gone n is s
   }"

definition RemoveLink :: "string \<Rightarrow> ClientEng \<Rightarrow> (ctl_error + ClientEng) option" where
  "RemoveLink ifname e =
    (let s = ce_sess e in
     if en_role (se_eng s) \<noteq> RoleClient then Some (Inl ErrNotClient)
     else case remove_first_link ifname (ls_Link (ce_links e)) of
         Some ls \<Rightarrow> do {
           s \<leftarrow> mark_if_gone ifname [0..<MaxPaths] s;
           Some (Inr (e\<lparr>ce_links := (ce_links e)\<lparr>ls_Link := ls\<rparr>, ce_sess := s\<rparr>))
         }
       | None \<Rightarrow>
           (case find (\<lambda>i. case se_paths s i of None \<Rightarrow> False
                       | Some p \<Rightarrow> pa_IfName p = ifname \<and> pa_state p \<noteq> Removed) [0..<MaxPaths] of
              None \<Rightarrow> Some (Inl (ErrNoSuchLink ifname))
            | Some i \<Rightarrow> do { s \<leftarrow> markLinkGone i s; Some (Inr (e\<lparr>ce_sess := s\<rparr>)) }))"

definition Engine_SetMode :: "string \<Rightarrow> ClientEng \<Rightarrow> ctl_error + ClientEng" where
  "Engine_SetMode mode e =
    (let s = ce_sess e in
     if en_role (se_eng s) \<noteq> RoleClient then Inl ErrNotClient
     else case ParseMode mode of
         (m, ok) \<Rightarrow>
           if \<not> ok then Inl (ErrUnknownMode mode)
           else Inr (e\<lparr>ce_sess := s\<lparr>se_sched := SetMode m (se_sched s)\<rparr>\<rparr>))"

section \<open>Index allocation\<close>

text \<open>A draw the loop of \<open>allocRxID\<close> stops at.\<close>

definition free_draw :: "(u32 \<times> nat \<times> nat) list \<Rightarrow> bytes \<Rightarrow> bool" where
  "free_draw used b \<longleftrightarrow> (get_le b :: u32) \<noteq> 0 \<and> map_of used (get_le b :: u32) = None"

lemma allocRxID_Cons:
  "allocRxID used (b # bs) = (if free_draw used b then Some (get_le b, bs) else allocRxID used bs)"
proof (cases "(get_le b :: u32) = 0")
  case True
  then show ?thesis by (simp add: free_draw_def allocRxID.simps [of used "b # bs"] allocRxID.simps [of used bs])
next
  case False
  then show ?thesis by (auto simp: free_draw_def allocRxID.simps [of used "b # bs"])
qed

text \<open>
  Property C39. Index allocation ends: the loop returns at the first draw that is not zero and
  not in use, whatever was drawn before, so it ends with any source that ever draws one.
\<close>

theorem allocRxID_terminates:
  assumes "\<exists>b \<in> set rands. free_draw used b"
  shows "\<exists>pre b rest. rands = pre @ b # rest \<and> free_draw used b \<and> (\<forall>x \<in> set pre. \<not> free_draw used x) \<and>
    allocRxID used rands = Some (get_le b, rest)"
  using assms
proof (induction rands)
  case (Cons x xs)
  show ?case
  proof (cases "free_draw used x")
    case False
    then obtain pre b rest where "xs = pre @ b # rest" "free_draw used b" "\<forall>x \<in> set pre. \<not> free_draw used x"
      "allocRxID used xs = Some (get_le b, rest)" using Cons by auto
    then show ?thesis using False by (intro exI [of _ "x # pre"] exI [of _ b] exI [of _ rest]) (simp add: allocRxID_Cons)
  qed (auto simp: allocRxID_Cons intro: exI [of _ "[]"])
qed simp

theorem allocRxID_terminates_witness:
  "allocRxID [(7, 0, 0)] [[0, 0, 0, 0], [7, 0, 0, 0], [9, 0, 0, 0], [3, 0, 0, 0]] = Some (9, [[3, 0, 0, 0]])"
proof -
  have d: "\<not> free_draw [(7, 0, 0)] [0, 0, 0, 0]" "\<not> free_draw [(7, 0, 0)] [7, 0, 0, 0]" "free_draw [(7, 0, 0)] [9, 0, 0, 0]"
    by code_simp+
  then obtain pre b rest where x: "[[0, 0, 0, 0], [7, 0, 0, 0], [9, 0, 0, 0], [3, 0, 0, 0]] = pre @ b # rest" "free_draw [(7, 0, 0)] b"
    "\<forall>x \<in> set pre. \<not> free_draw [(7, 0, 0)] x"
    "allocRxID [(7, 0, 0)] [[0, 0, 0, 0], [7, 0, 0, 0], [9, 0, 0, 0], [3, 0, 0, 0]] = Some (get_le b, rest)"
    using allocRxID_terminates [of "[[0, 0, 0, 0], [7, 0, 0, 0], [9, 0, 0, 0], [3, 0, 0, 0]]" "[(7, 0, 0)]"] by auto
  have "pre = [[0, 0, 0, 0], [7, 0, 0, 0]] \<and> b = [9, 0, 0, 0] \<and> rest = [[3, 0, 0, 0]]"
    using x(1-3) d by (auto simp: Cons_eq_append_conv)
  moreover have "get_le [9, 0, 0, 0] = (9 :: u32)" by code_simp
  ultimately show ?thesis using x(4) by simp
qed

end
