(* ===== verification/Path_Agreement.thy ===== *)
theory Path_Agreement
  imports Session_Correct Engine
begin

text \<open>
  Every session keeps two tables of its paths: the path objects with their liveness state and
  the slots of the scheduler. \<open>agrees\<close> says that they tell the same story, slot by slot; it is
  kept by every operation of a session, of the client and of the server, error branches
  included. It follows that a data packet is only ever given to a path that is up.
\<close>

section \<open>The invariant\<close>

fun wanted :: "State \<Rightarrow> PathState option" where
  "wanted Probing = None"
| "wanted Active = Some StateActive"
| "wanted Degraded = Some StateDegraded"
| "wanted Down = Some StateDown"
| "wanted Removed = None"

definition slot_view :: "pathState \<Rightarrow> PathState option" where
  "slot_view q = (if p_present q then Some (p_state q) else None)"

definition slot_agrees :: "nat \<Rightarrow> (byte \<times> State) option \<Rightarrow> pathState \<Rightarrow> bool" where
  "slot_agrees i k q \<longleftrightarrow> (p_present q \<longrightarrow> unat (p_id q) = i) \<and>
    slot_view q = (case k of None \<Rightarrow> None | Some (_, st) \<Rightarrow> wanted st) \<and>
    (case k of None \<Rightarrow> True | Some (pid, _) \<Rightarrow> unat pid = i)"

abbreviation key_at :: "session \<Rightarrow> nat \<Rightarrow> (byte \<times> State) option" where
  "key_at s i \<equiv> map_option path_key (se_paths s i)"

abbreviation sched_at :: "session \<Rightarrow> nat \<Rightarrow> pathState" where
  "sched_at s i \<equiv> sc_paths (se_sched s) i"

definition agrees :: "session \<Rightarrow> bool" where
  "agrees s \<longleftrightarrow> (\<forall>i < MaxPaths. slot_agrees i (key_at s i) (sched_at s i)) \<and>
    (\<forall>i. MaxPaths \<le> i \<longrightarrow> se_paths s i = None)"

definition sched_key :: "pathState \<Rightarrow> bool \<times> PathState \<times> byte" where
  "sched_key q = (p_present q, p_state q, p_id q)"

text \<open>Two sessions that \<open>agrees\<close> cannot tell apart outside the slots in \<open>X\<close>.\<close>

definition same_view :: "nat set \<Rightarrow> session \<Rightarrow> session \<Rightarrow> bool" where
  "same_view X s s' \<longleftrightarrow> (\<forall>i. i \<notin> X \<longrightarrow> key_at s' i = key_at s i \<and>
     sched_key (sched_at s' i) = sched_key (sched_at s i))"

lemma slot_agrees_key:
  "sched_key q' = sched_key q \<Longrightarrow> slot_agrees i k q' = slot_agrees i k q"
  by (simp add: slot_agrees_def sched_key_def slot_view_def)

lemma same_viewI:
  "(\<And>i. i \<notin> X \<Longrightarrow> key_at s' i = key_at s i) \<Longrightarrow>
   (\<And>i. i \<notin> X \<Longrightarrow> sched_key (sched_at s' i) = sched_key (sched_at s i)) \<Longrightarrow> same_view X s s'"
  by (simp add: same_view_def)

lemma agrees_frame: "agrees s \<Longrightarrow> same_view {} s s' \<Longrightarrow> agrees s'"
  unfolding agrees_def same_view_def by (metis empty_iff map_option_is_None slot_agrees_key)

lemma agrees_change:
  assumes "agrees s" "same_view {j} s s'" "j < MaxPaths" "slot_agrees j (key_at s' j) (sched_at s' j)"
  shows "agrees s'"
  using assms unfolding agrees_def same_view_def
  by (metis linorder_not_less map_option_is_None singletonD slot_agrees_key)

lemma quiet_view: "quiet s s' \<Longrightarrow> same_view {} s s'"
  by (simp add: quiet_def same_view_def)

lemma agrees_quiet: "agrees s \<Longrightarrow> quiet s s' \<Longrightarrow> agrees s'"
  by (blast intro: agrees_frame quiet_view)

lemma agrees_slot:
  assumes "agrees s" "se_paths s i = Some p"
  shows "i < MaxPaths" "unat (pa_ID p) = i" "slot_view (sched_at s i) = wanted (pa_state p)"
proof -
  show i: "i < MaxPaths" using assms by (metis agrees_def linorder_not_less option.distinct(1))
  then have "slot_agrees i (key_at s i) (sched_at s i)" using assms(1) by (simp only: agrees_def)
  then show "unat (pa_ID p) = i" "slot_view (sched_at s i) = wanted (pa_state p)"
    using assms(2) by (simp_all add: slot_agrees_def path_key_def)
qed

lemma agrees_present:
  assumes "agrees s" "i < MaxPaths" "p_present (sched_at s i)"
  obtains p where "se_paths s i = Some p" "unat (p_id (sched_at s i)) = i"
    "wanted (pa_state p) = Some (p_state (sched_at s i))"
proof -
  have a: "slot_agrees i (key_at s i) (sched_at s i)" using assms(1,2) by (simp only: agrees_def)
  then have "unat (p_id (sched_at s i)) = i" using assms(3) by (simp add: slot_agrees_def)
  moreover obtain p where "se_paths s i = Some p" "wanted (pa_state p) = Some (p_state (sched_at s i))"
    using a assms(3) by (cases "se_paths s i") (auto simp: slot_agrees_def slot_view_def path_key_def)
  ultimately show ?thesis using that by blast
qed

section \<open>The scheduler's operations\<close>

lemma Assign_keys: "sched_key (sc_paths (snd (Assign n out c)) i) = sched_key (sc_paths c i)"
  by (rule Assign_cases [where s = c and n = n and out = out]) (auto simp: sched_key_def)

lemma SetMode_keys: "sc_paths (SetMode m c) = sc_paths c"
  by (simp add: SetMode_def)

lemma SetPathMTU_keys: "SetPathMTU j n c = Some c' \<Longrightarrow> sched_key (sc_paths c' i) = sched_key (sc_paths c i)"
  by (auto simp: SetPathMTU_def update_path_def sched_key_def split: if_splits)

lemma OnMetrics_keys: "OnMetrics j m c = Some c' \<Longrightarrow> sched_key (sc_paths c' i) = sched_key (sc_paths c i)"
  by (auto simp: OnMetrics_def Let_def recap_def sched_key_def split: if_splits)

lemma SetState_slot:
  assumes "SetState j st c = Some c'"
  shows "i \<noteq> unat j \<Longrightarrow> sc_paths c' i = sc_paths c i"
    and "p_present (sc_paths c (unat j)) \<Longrightarrow> sc_paths c' (unat j) = (sc_paths c (unat j))\<lparr>p_state := st\<rparr>"
  using assms by (auto simp: SetState_def update_path_def split: if_splits)

lemma AddPath_slot:
  assumes "AddPath j bps r c = Some c'"
  shows "i \<noteq> unat j \<Longrightarrow> sc_paths c' i = sc_paths c i"
    and "sched_key (sc_paths c' (unat j)) = (True, StateActive, j)"
  using assms by (auto simp: AddPath_def Let_def update_path_def sched_key_def split: if_splits)

lemma RemovePath_slot:
  assumes "RemovePath j c = Some c'"
  shows "i \<noteq> unat j \<Longrightarrow> sc_paths c' i = sc_paths c i" and "\<not> p_present (sc_paths c' (unat j))"
  using assms by (auto simp: RemovePath_def update_path_def pathState_zero_def split: if_splits)

section \<open>Transitions of one path\<close>

lemma admitPath_agrees:
  assumes "agrees s" "admitPath j r s = Some s'"
  shows "agrees s'"
proof -
  obtain p sched where p: "se_paths s j = Some p"
    and add: "AddPath (pa_ID p) (pa_InitialMbps p * 1000000 / 8) r (se_sched s) = Some sched"
    and s': "s' = (upd_path j (SetPathState Active) s)\<lparr>se_sched := sched\<rparr>"
    using assms(2) by (auto simp: admitPath_def bind_eq_Some_conv split: option.splits)
  note j = agrees_slot(1,2) [OF assms(1) p]
  have "sched_key (sc_paths sched j) = (True, StateActive, pa_ID p)" using AddPath_slot(2) [OF add] j(2) by simp
  then have "slot_agrees j (key_at s' j) (sched_at s' j)"
    using p j by (simp add: s' slot_agrees_def slot_view_def upd_path_def path_key_def SetPathState_def sched_key_def)
  moreover have "same_view {j} s s'"
    by (rule same_viewI) (use AddPath_slot(1) [OF add] j in \<open>simp_all add: s' upd_path_def\<close>)
  ultimately show ?thesis using agrees_change assms(1) j(1) by blast
qed

text \<open>The prober moves a path that is in service between the states of service.\<close>

lemma set_state_agrees:
  assumes "agrees s" "se_paths s j = Some p" "wanted (pa_state p) \<noteq> None"
    and "wanted st = Some q" "SetState (pa_ID p) q (se_sched s) = Some sched"
  shows "agrees ((upd_path j (SetPathState st) s)\<lparr>se_sched := sched\<rparr>)" (is "agrees ?s")
proof -
  note j = agrees_slot [OF assms(1,2)]
  have pr: "p_present (sched_at s j)" using j(3) assms(3) by (auto simp: slot_view_def split: if_splits)
  then have "sc_paths sched j = (sched_at s j)\<lparr>p_state := q\<rparr>" using SetState_slot(2) [OF assms(5)] j(2) by simp
  moreover have "unat (p_id (sched_at s j)) = j" by (rule agrees_present [OF assms(1) j(1) pr])
  ultimately have "slot_agrees j (key_at ?s j) (sched_at ?s j)"
    using pr assms(2,4) j(2) by (simp add: slot_agrees_def slot_view_def upd_path_def path_key_def SetPathState_def)
  moreover have "same_view {j} s ?s"
    by (rule same_viewI) (use SetState_slot(1) [OF assms(5)] j in \<open>simp_all add: upd_path_def\<close>)
  ultimately show ?thesis using agrees_change assms(1) j(1) by blast
qed

lemma markLinkGone_agrees:
  assumes "agrees s" "markLinkGone j s = Some s'"
  shows "agrees s'"
proof -
  obtain p where p: "se_paths s j = Some p" using assms(2) by (auto simp: markLinkGone_def split: option.splits)
  note j = agrees_slot [OF assms(1) p]
  show ?thesis
  proof (cases "pa_state p = Removed")
    case True
    then have "same_view {} s s'" using assms(2) p by (auto simp: markLinkGone_def Let_def same_view_def)
    then show ?thesis using assms(1) agrees_frame by blast
  next
    case False
    then obtain sched where rm: "RemovePath (pa_ID p) (se_sched s) = Some sched"
      and s': "se_sched s' = sched" "se_paths s' = (se_paths s)(j := Some (SetPathState Removed p))"
      using assms(2) p by (auto simp: markLinkGone_def Let_def bind_eq_Some_conv upd_path_def)
    have "slot_agrees j (key_at s' j) (sched_at s' j)"
      using RemovePath_slot(2) [OF rm] j(2) by (simp add: s' slot_agrees_def slot_view_def path_key_def SetPathState_def)
    moreover have "same_view {j} s s'"
      by (rule same_viewI) (use RemovePath_slot(1) [OF rm] j in \<open>simp_all add: s'\<close>)
    ultimately show ?thesis using agrees_change assms(1) j(1) by blast
  qed
qed

text \<open>A new path starts outside the scheduler.\<close>

lemma slot_byte: "i < MaxPaths \<Longrightarrow> unat (of_nat i :: byte) = i"
  by (simp add: unsigned_of_nat take_bit_nat_eq_self)

lemma new_path_agrees:
  assumes "agrees s" "i < MaxPaths" "se_paths s i = None" "path_key p = (of_nat i, Probing)"
  shows "agrees (s\<lparr>se_paths := (se_paths s)(i := Some p)\<rparr>)" (is "agrees ?s")
proof -
  have "slot_agrees i (key_at s i) (sched_at s i)" using assms(1,2) by (simp only: agrees_def)
  then have "slot_agrees i (key_at ?s i) (sched_at ?s i)"
    using assms by (simp add: slot_agrees_def slot_byte)
  moreover have "same_view {i} s ?s" by (rule same_viewI) simp_all
  ultimately show ?thesis using agrees_change assms(1,2) by blast
qed

section \<open>Operations of a session\<close>

lemma same_view_refl [simp, intro]: "same_view X s s"
  by (simp add: same_view_def)

lemma same_view_upd_path: "(\<And>p. path_key (f p) = path_key p) \<Longrightarrow> same_view {} s (upd_path i f s)"
  by (simp add: quiet_view quiet_upd_path)

lemma agrees_upd_path: "agrees s \<Longrightarrow> (\<And>p. path_key (f p) = path_key p) \<Longrightarrow> agrees (upd_path i f s)"
  by (blast intro: agrees_frame same_view_upd_path)

lemma agrees_tables:
  "se_paths s' = se_paths s \<Longrightarrow> sc_paths (se_sched s') = sc_paths (se_sched s) \<Longrightarrow> agrees s' = agrees s"
  by (simp add: agrees_def)

lemma agrees_put_path:
  "agrees s \<Longrightarrow> se_paths s i = Some p \<Longrightarrow> path_key p' = path_key p \<Longrightarrow>
    agrees (s\<lparr>se_paths := (se_paths s)(i := Some p')\<rparr>)"
  by (erule agrees_frame) (simp add: same_view_def)

lemma agrees_put_sched:
  "agrees s \<Longrightarrow> (\<And>i. sched_key (sc_paths c i) = sched_key (sched_at s i)) \<Longrightarrow> agrees (s\<lparr>se_sched := c\<rparr>)"
  by (erule agrees_frame) (simp add: same_view_def)

lemma injectRecovered_tables [simp]:
  "se_paths (injectRecovered now rs s) = se_paths s" "se_sched (injectRecovered now rs s) = se_sched s"
  by (induction rs arbitrary: s) (simp_all add: injectRecovered_def)

lemma mirror_mode_tables [simp]:
  "se_paths (mirror_mode m s) = se_paths s" "sc_paths (se_sched (mirror_mode m s)) = sc_paths (se_sched s)"
  by (simp_all add: mirror_mode_def SetMode_def)

lemma sendPTB_tables [simp]:
  "se_paths (sendPTB env now ip m s) = se_paths s" "se_sched (sendPTB env now ip m s) = se_sched s"
  by (simp_all add: sendPTB_def Let_def split: option.splits prod.splits)

lemma registerEpoch_tables:
  "registerEpoch now ep m s = Some s' \<Longrightarrow> se_paths s' = se_paths s \<and> se_sched s' = se_sched s"
  by (auto simp: registerEpoch_def supersede_def bind_eq_Some_conv Let_def split: option.splits if_splits)

lemma confirm_epoch_tables:
  "confirm_epoch now ep s = Some s' \<Longrightarrow> se_paths s' = se_paths s \<and> se_sched s' = se_sched s"
  by (auto simp: confirm_epoch_def dest!: registerEpoch_tables split: if_splits)

lemma put_epoch_tables [simp]: "se_paths (put_epoch a e s) = se_paths s" "se_sched (put_epoch a e s) = se_sched s"
  by (simp_all add: put_epoch_def)

text \<open>The parts of the data handler before and after the path's own counters.\<close>

definition mirrored :: "Env \<Rightarrow> int \<Rightarrow> u64 \<Rightarrow> byte \<Rightarrow> bytes \<Rightarrow> session \<Rightarrow> Recovered list \<times> session" where
  "mirrored env nowUs seq flags ipPkt s =
    (let server = (en_role (se_eng s) = RoleServer);
         s = (if flags AND FlagDuplicate \<noteq> 0 \<and> server
              then mirror_mode ModeRedundant (s\<lparr>se_lastDupUs := nowUs\<rparr>) else s)
     in if flags AND FlagFEC \<noteq> 0 then
          (let s = (if server then mirror_mode ModeFEC (s\<lparr>se_lastFecUs := nowUs\<rparr>) else s)
           in case AddData (ev_rs env) (ev_ord env) seq ipPkt (se_fecDec s) of
                (recs, dec) \<Rightarrow> (recs, s\<lparr>se_fecDec := dec\<rparr>))
        else ([], s))"

lemma handle_data_split:
  assumes "ParseDataHeader pt = Inr (seq, flags, ipPkt)"
  obtains recs s1 where "mirrored env nowUs seq flags ipPkt s = (recs, s1)"
    "handle_data env now nowUs j pt s = (True, injectRecovered now recs
      ((upd_path j (OnDataReceived (int (length ipPkt)) nowUs) s1)\<lparr>se_reorder :=
        Push now (reorderTimeout (upd_path j (OnDataReceived (int (length ipPkt)) nowUs) s1)) seq (ipPkt, 0)
          (se_reorder (upd_path j (OnDataReceived (int (length ipPkt)) nowUs) s1))\<rparr>))"
  by (cases "mirrored env nowUs seq flags ipPkt s")
    (rule that, assumption, simp only: handle_data_def mirrored_def Let_def assms sum.case prod.case case_prod_conv)

lemma mirrored_tables:
  "mirrored env nowUs seq flags ipPkt s = (recs, s1) \<Longrightarrow>
    se_paths s1 = se_paths s \<and> sc_paths (se_sched s1) = sc_paths (se_sched s)"
  by (auto simp: mirrored_def Let_def split: if_splits prod.splits)

lemma handle_data_agrees:
  assumes "agrees s"
  shows "agrees (snd (handle_data env now nowUs j pt s))"
proof (cases "ParseDataHeader pt")
  case (Inr x)
  then obtain seq flags ipPkt where p: "ParseDataHeader pt = Inr (seq, flags, ipPkt)" by (cases x) auto
  obtain recs s1 where "mirrored env nowUs seq flags ipPkt s = (recs, s1)"
    and h: "handle_data env now nowUs j pt s = (True, injectRecovered now recs
      ((upd_path j (OnDataReceived (int (length ipPkt)) nowUs) s1)\<lparr>se_reorder :=
        Push now (reorderTimeout (upd_path j (OnDataReceived (int (length ipPkt)) nowUs) s1)) seq (ipPkt, 0)
          (se_reorder (upd_path j (OnDataReceived (int (length ipPkt)) nowUs) s1))\<rparr>))"
    by (rule handle_data_split [OF p])
  then have "agrees s1" using assms agrees_tables mirrored_tables by metis
  then have "agrees (upd_path j (OnDataReceived (int (length ipPkt)) nowUs) s1)" by (simp add: agrees_upd_path)
  then show ?thesis unfolding h by (simp add: agrees_def)
qed (use assms in \<open>simp add: handle_data_def\<close>)

lemma handle_fec_agrees: "agrees s \<Longrightarrow> handle_fec env now nowUs j pt s = Some s' \<Longrightarrow> agrees s'"
  using agrees_upd_path [of s "OnDataReceived (int (length pt)) nowUs" j]
  by (auto simp: handle_fec_def Let_def bind_eq_Some_conv agrees_def split: sum.splits)

lemma revivePath_agrees: "agrees s \<Longrightarrow> revivePath j s = Some s' \<Longrightarrow> agrees s'"
  by (auto simp: revivePath_def split: option.splits if_splits intro: admitPath_agrees)

lemma handle_probe_agrees:
  assumes "agrees s" "handle_probe nowUs j pt s = Some s'"
  shows "agrees s'"
proof (cases "ParseProbe pt")
  case (Inr pr)
  then obtain p where p: "se_paths s j = Some p"
    using assms(2) by (auto simp: handle_probe_def split: option.splits)
  let ?p' = "snd (OnProbeReceived pr nowUs p)"
  have "agrees (s\<lparr>se_paths := (se_paths s)(j := Some ?p')\<rparr>)"
    using assms(1) p by (rule agrees_put_path) simp
  then show ?thesis using assms(2) Inr p revivePath_agrees
    by (auto simp: handle_probe_def Let_def split: prod.splits if_splits)
qed (use assms in \<open>simp add: handle_probe_def\<close>)

lemma handle_path_init_agrees:
  assumes "agrees s" "handle_path_init env nowUs pid pt s = Some s'"
  shows "agrees s'"
proof (cases "en_role (se_eng s) = RoleServer \<and> CheckPathInitPayload pt")
  case True
  let ?s = "upd_path (unat pid) (OnControlReceived nowUs) s"
  have a: "agrees ?s" using assms(1) by (simp add: agrees_upd_path)
  obtain p s1 payload where "se_paths ?s (unat pid) = Some p"
    and adm: "(if pa_state p = Probing \<or> pa_state p = Down then admitPath (unat pid) False ?s else Some ?s) = Some s1"
    and send: "(case se_txEpoch s1 of None \<Rightarrow> Some s1
      | Some tx \<Rightarrow> sendControl env (Some tx) pid TypePathAck payload s1) = Some s'"
    using assms(2) True by (auto simp: handle_path_init_def Let_def bind_eq_Some_conv split: option.splits)
  have "agrees s1" using adm a admitPath_agrees by (auto split: if_splits)
  then show ?thesis using send sendControl_quiet agrees_quiet by (auto split: option.splits)
qed (use assms in \<open>auto simp: handle_path_init_def\<close>)

lemma handle_path_ack_agrees:
  assumes "agrees s" "handle_path_ack nowUs j pt s = Some s'"
  shows "agrees s'"
proof (cases "en_role (se_eng s) = RoleClient \<and> CheckPathInitPayload pt")
  case True
  let ?s = "(upd_path j (OnControlReceived nowUs) s)\<lparr>se_acked := (se_acked s)(j := True)\<rparr>"
  have "agrees ?s" using agrees_upd_path [OF assms(1), of "OnControlReceived nowUs" j] by (simp add: agrees_def)
  then show ?thesis using assms(2) True admitPath_agrees
    by (auto simp: handle_path_ack_def Let_def upd_path_def split: option.splits if_splits)
qed (use assms in \<open>auto simp: handle_path_ack_def\<close>)

lemma handle_mtu_agrees:
  assumes "agrees s"
  shows "handle_mtu_probe env nowUs pid pt s = Some s' \<Longrightarrow> agrees s'"
    and "agrees (handle_mtu_ack nowUs j pt s)"
proof -
  have a: "agrees (upd_path i (TouchAlive nowUs) s)" for i using assms by (simp add: agrees_upd_path)
  show "handle_mtu_probe env nowUs pid pt s = Some s' \<Longrightarrow> agrees s'"
    using assms a agrees_quiet [OF a sendMTUAck_quiet]
    by (auto simp: handle_mtu_probe_def Let_def split: sum.splits option.splits)
  show "agrees (handle_mtu_ack nowUs j pt s)"
    using assms a by (auto simp: handle_mtu_ack_def agrees_upd_path split: sum.splits)
qed

lemma handle_close_agrees: "agrees s \<Longrightarrow> agrees (handle_close s)"
  by (simp add: handle_close_def agrees_def)

lemma dispatch_agrees:
  assumes "agrees s" "dispatch env now nowUs hdr pt s = Some (b, s')"
  shows "agrees s'"
  using assms handle_data_agrees [OF assms(1), of env now nowUs "unat (h_PathID hdr)" pt]
  by (auto simp: dispatch_def Let_def simp del: One_nat_def split: if_splits
      dest: handle_fec_agrees handle_probe_agrees handle_path_init_agrees handle_path_ack_agrees
        handle_mtu_agrees(1) intro: handle_mtu_agrees(2) handle_close_agrees)

lemma roam_agrees: "agrees s \<Longrightarrow> agrees (roam j src s)"
  by (auto simp: roam_def intro!: agrees_upd_path split: option.splits)

lemma addServerPath_agrees:
  assumes "agrees s" "addServerPath nowUs pid src s = Some s'" "se_paths s (unat pid) = None"
  shows "agrees s'"
proof -
  have "path_key (ResetLiveness nowUs (SetEndpoint src (NewPath pid [] 0 0))) = (of_nat (unat pid), Probing)"
    by (simp add: path_key_def ResetLiveness_def SetEndpoint_def NewPath_def)
  then show ?thesis using assms new_path_agrees by (auto simp: addServerPath_def split: if_splits)
qed

lemma after_replay_agrees:
  assumes "agrees s" "after_replay env now nowUs ep hdr pt src s = Some (b, s')"
  shows "agrees s'"
proof -
  obtain s1 where "confirm_epoch now ep s = Some s1"
    and rest: "(case se_paths s1 (unat (h_PathID hdr)) of
        Some _ \<Rightarrow> dispatch env now nowUs hdr pt (roam (unat (h_PathID hdr)) src s1)
      | None \<Rightarrow>
          if h_Type hdr = TypePathInit \<and> en_role (se_eng s1) = RoleServer
          then do { s \<leftarrow> addServerPath nowUs (h_PathID hdr) src s1;
                    dispatch env now nowUs hdr pt (roam (unat (h_PathID hdr)) src s) }
          else Some (False, s1)) = Some (b, s')"
    using assms(2) by (auto simp: after_replay_def Let_def bind_eq_Some_conv)
  then have "agrees s1" using assms(1) confirm_epoch_tables agrees_tables by metis
  then show ?thesis using rest
    by (auto simp: bind_eq_Some_conv split: option.splits if_splits
        dest: addServerPath_agrees intro: dispatch_agrees [OF roam_agrees])
qed

lemma handleDatagram_cases:
  assumes "handleDatagram env now nowUs ep hdr d src s = Some (b, s')"
  obtains (refused) err e where "get_epoch ep s = Some e"
      "Epoch_Open e (h_PathID hdr) (h_Counter hdr) [] (drop HeaderSize d) (take HeaderSize d) = Some (Inl err)"
      "s' = s" "\<not> b"
  | (replayed) e pt e' where "get_epoch ep s = Some e"
      "Epoch_Open e (h_PathID hdr) (h_Counter hdr) [] (drop HeaderSize d) (take HeaderSize d) = Some (Inr pt)"
      "CheckReplay e (h_PathID hdr) (h_Counter hdr) = Some (False, e')" "s' = put_epoch ep e' s" "\<not> b"
  | (fresh) e pt e' where "get_epoch ep s = Some e"
      "Epoch_Open e (h_PathID hdr) (h_Counter hdr) [] (drop HeaderSize d) (take HeaderSize d) = Some (Inr pt)"
      "CheckReplay e (h_PathID hdr) (h_Counter hdr) = Some (True, e')"
      "after_replay env now nowUs ep hdr pt src (put_epoch ep e' s) = Some (b, s')"
proof -
  obtain e r where e: "get_epoch ep s = Some e"
    and r: "Epoch_Open e (h_PathID hdr) (h_Counter hdr) [] (drop HeaderSize d) (take HeaderSize d) = Some r"
    using assms unfolding handleDatagram_def bind_eq_Some_conv by blast
  show ?thesis
  proof (cases r)
    case (Inl err)
    then show ?thesis using refused e r assms by (auto simp: handleDatagram_def)
  next
    case (Inr pt)
    then obtain fresh_ok e' where c: "CheckReplay e (h_PathID hdr) (h_Counter hdr) = Some (fresh_ok, e')"
      using assms e r by (auto simp: handleDatagram_def bind_eq_Some_conv)
    then show ?thesis using fresh replayed Inr e r assms
      by (cases fresh_ok) (auto simp: handleDatagram_def)
  qed
qed

lemma handleDatagram_agrees:
  assumes "agrees s" "handleDatagram env now nowUs ep hdr d src s = Some (b, s')"
  shows "agrees s'"
  using assms(2)
proof (cases rule: handleDatagram_cases)
  case (fresh e pt e')
  moreover have "agrees (put_epoch ep e' s)" using assms(1) by (simp add: agrees_def)
  ultimately show ?thesis using after_replay_agrees by blast
qed (use assms(1) in \<open>simp_all add: agrees_def\<close>)

lemma sendParities_agrees: "agrees s \<Longrightarrow> sendParities env ep g s = Some s' \<Longrightarrow> agrees s'"
  by (blast intro: agrees_quiet sendParities_quiet)

lemma sendData_agrees:
  assumes "agrees s" "sendData env now ip s = Some s'"
  shows "agrees s'"
proof (cases "se_txEpoch s")
  case (Some ep)
  let ?fec = "sc_mode (snd (Assign (int (length ip)) [] (se_sched s))) = ModeFEC"
  obtain targets sched where a: "Assign (int (length ip)) [] (se_sched s) = (targets, sched)" by fastforce
  have "agrees (s\<lparr>se_sched := sched\<rparr>)"
    using Assign_keys [of "int (length ip)" "[]" "se_sched s"] assms(1) a by (simp add: agrees_put_sched)
  then have k: "agrees t" if "se_paths t = se_paths s" "se_sched t = sched" for t
    using that by (simp add: agrees_def)
  have send: ?thesis if "send_targets env ep pt n ts s1 = Some s2" "agrees s1"
    "(case group of None \<Rightarrow> Some s2 | Some g \<Rightarrow> sendParities env (Some ep) g s2) = Some s'" for pt n ts s1 s2 group
  proof -
    have "agrees s2" using that(1,2) agrees_quiet send_targets_quiet by blast
    then show ?thesis using that(3) sendParities_agrees by (cases group) auto
  qed
  show ?thesis
  proof (cases "targets = []")
    case True
    then show ?thesis using assms(2) Some a by (auto simp: sendData_def Let_def intro!: k)
  next
    case False
    let ?s = "s\<lparr>se_sched := sched, se_globalSeq := se_globalSeq s + 1\<rparr>"
    show ?thesis
    proof (cases ?fec)
      case True
      then obtain hdr g enc s2 where t: "send_targets env ep (hdr @ ip) (length ip) targets (?s\<lparr>se_fecEnc := enc\<rparr>) = Some s2"
        and g: "(case g of None \<Rightarrow> Some s2 | Some g \<Rightarrow> sendParities env (Some ep) g s2) = Some s'"
        using assms(2) Some a False by (auto simp: sendData_def Let_def bind_eq_Some_conv)
      show ?thesis by (rule send [OF t _ g]) (rule k; simp)
    next
      case nf: False
      then obtain hdr where t: "send_targets env ep (hdr @ ip) (length ip) targets ?s = Some s'"
        using assms(2) Some a False by (auto simp: sendData_def Let_def bind_eq_Some_conv)
      show ?thesis by (rule send [OF t, where group = None]) (rule k, simp_all)
    qed
  qed
qed (use assms in \<open>auto simp: sendData_def agrees_def\<close>)

lemma flusher_tick_agrees: "agrees s \<Longrightarrow> flusher_tick env now s = Some s' \<Longrightarrow> agrees s'"
  by (auto simp: flusher_tick_def Let_def agrees_def split: if_splits option.splits prod.splits
      dest!: sendParities_agrees [rotated])

section \<open>The prober\<close>

text \<open>Up to the verdict on a path nothing of its identity or state changes.\<close>

definition keeps_path :: "nat \<Rightarrow> session \<Rightarrow> session \<Rightarrow> bool" where
  "keeps_path i s s' \<longleftrightarrow> (agrees s \<longrightarrow> agrees s') \<and> key_at s' i = key_at s i"

lemma keeps_path_refl [simp, intro]: "keeps_path i s s"
  by (simp add: keeps_path_def)

lemma keeps_path_trans: "keeps_path i s t \<Longrightarrow> keeps_path i t u \<Longrightarrow> keeps_path i s u"
  by (simp add: keeps_path_def)

lemma keeps_path_quiet: "quiet s s' \<Longrightarrow> keeps_path i s s'"
  using agrees_quiet by (auto simp: keeps_path_def quiet_def)

lemma keeps_path_put:
  "se_paths s i = Some p \<Longrightarrow> path_key p' = path_key p \<Longrightarrow> keeps_path i s (s\<lparr>se_paths := (se_paths s)(i := Some p')\<rparr>)"
  by (simp add: keeps_path_def agrees_put_path)

lemma send_probe_keeps:
  assumes "send_probe env nowUs tick ep st i s = Some s'"
  shows "keeps_path i s s'"
proof (cases "ep \<noteq> None \<and> (st \<noteq> Down \<or> tick mod 5 = 0)")
  case True
  then obtain p where p: "se_paths s i = Some p" using assms by (auto simp: send_probe_def split: option.splits)
  let ?p' = "snd (NextProbe nowUs p)"
  obtain payload where "sendControl env ep (pa_ID ?p') TypeProbe payload (s\<lparr>se_paths := (se_paths s)(i := Some ?p')\<rparr>) = Some s'"
    using assms True p by (auto simp: send_probe_def bind_eq_Some_conv split: prod.splits)
  then have "keeps_path i (s\<lparr>se_paths := (se_paths s)(i := Some ?p')\<rparr>) s'"
    by (blast intro: keeps_path_quiet sendControl_quiet)
  moreover have "keeps_path i s (s\<lparr>se_paths := (se_paths s)(i := Some ?p')\<rparr>)" using p by (rule keeps_path_put) simp
  ultimately show ?thesis using keeps_path_trans by blast
qed (use assms in \<open>auto simp: send_probe_def\<close>)

lemma retry_path_init_keeps: "retry_path_init env nowUs tick ep i s = Some s' \<Longrightarrow> keeps_path i s s'"
  by (auto simp: retry_path_init_def split: option.splits if_splits intro: keeps_path_quiet sendPathInit_quiet)

lemma applyPathMTU_keeps:
  assumes "applyPathMTU i d s = Some s'"
  shows "keeps_path i s s'"
proof -
  obtain p sched m where p: "se_paths s i = Some p" and c: "SetPathMTU (pa_ID p) m (se_sched s) = Some sched"
    and s': "s' = (upd_path i (SetMTU d m) s)\<lparr>se_sched := sched\<rparr>"
    using assms by (auto simp: applyPathMTU_def Let_def bind_eq_Some_conv split: option.splits)
  have "agrees s'" if "agrees s"
    unfolding s' using agrees_upd_path [OF that, of "SetMTU d m" i] SetPathMTU_keys [OF c]
    by (intro agrees_put_sched) (simp_all add: upd_path_def)
  then show ?thesis by (simp add: keeps_path_def s' upd_path_def p)
qed

lemma mtu_discovery_keeps:
  assumes "mtu_discovery env ep st i (v, s) = Some (v', s')"
  shows "keeps_path i s s'"
proof (cases "st = Active \<or> st = Degraded")
  case True
  have tick: "keeps_path i s (s\<lparr>se_paths := (se_paths s)(i := Some (snd (MTUTick p)))\<rparr>)" if "se_paths s i = Some p" for p
    using that by (rule keeps_path_put) simp
  obtain s1 where s1: "(case (ep, se_paths s i) of
              (Some ep, Some p) \<Rightarrow>
                (case MTUTick p of
                   (r, p') \<Rightarrow>
                     let s = s\<lparr>se_paths := (se_paths s)(i := Some p')\<rparr>
                     in case r of None \<Rightarrow> Some s | Some (pid, wsize) \<Rightarrow> sendMTUProbe env ep i pid wsize s)
            | _ \<Rightarrow> Some s) = Some s1"
    and rest: "keeps_path i s1 s'"
    using assms True by (auto simp: mtu_discovery_def bind_eq_Some_conv Let_def split: option.splits if_splits
        dest: applyPathMTU_keeps)
  have "keeps_path i s s1"
    using s1 tick keeps_path_trans [OF tick keeps_path_quiet [OF sendMTUProbe_quiet]]
    by (auto simp: Let_def split: option.splits prod.splits)
  then show ?thesis using rest keeps_path_trans by blast
qed (use assms in \<open>auto simp: mtu_discovery_def\<close>)

lemma judge_path_agrees:
  assumes a: "agrees s" and p: "se_paths s i = Some p" and st: "pa_state p = st"
    and j: "judge_path st i (v, s) = Some (v', s')"
  shows "agrees s'"
proof -
  obtain s1 sched where s1: "s1 = s \<or> (st = Active \<and> SetState (pa_ID p) StateDegraded (se_sched s) = Some sched \<and>
        s1 = (upd_path i (SetPathState Degraded) s)\<lparr>se_sched := sched\<rparr>) \<or>
      (st = Degraded \<and> SetState (pa_ID p) StateActive (se_sched s) = Some sched \<and>
        s1 = (upd_path i (SetPathState Active) s)\<lparr>se_sched := sched\<rparr>)"
    and rest: "s' = s1 \<or> (\<exists>c. OnMetrics (pa_ID p) (Path_Metrics p) (se_sched s1) = Some c \<and> s' = s1\<lparr>se_sched := c\<rparr>)"
    using j p by (auto simp: judge_path_def Let_def bind_eq_Some_conv split: if_splits)
  have "agrees s1" using s1 a set_state_agrees [OF a p] st by auto
  then show ?thesis using rest OnMetrics_keys agrees_put_sched by metis
qed

lemma update_rates_agrees: "agrees s \<Longrightarrow> agrees (snd (update_rates tick i (v, s)))"
  by (auto simp: update_rates_def Let_def intro!: agrees_upd_path split: option.splits)

lemma probe_path_agrees:
  assumes "agrees s" "probe_path env nowUs ep i (v, s) = Some (v', s')"
  shows "agrees s'"
proof (cases "\<exists>p. se_paths s i = Some p \<and> pa_state p \<noteq> Removed")
  case True
  then obtain p where p: "se_paths s i = Some p" "pa_state p \<noteq> Removed" by blast
  let ?st = "pa_state p"
  obtain s1 s2 v3 s3 q where "send_probe env nowUs (pv_tick v) ep ?st i s = Some s1"
    "retry_path_init env nowUs (pv_tick v) ep i s1 = Some s2" "mtu_discovery env ep ?st i (v, s2) = Some (v3, s3)"
    and q: "se_paths s3 i = Some q"
    and rest: "(if path_dead nowUs ?st q (en_tuning (se_eng s3)) then do {
             sched \<leftarrow> SetState (pa_ID q) StateDown (se_sched s3);
             Some (v3, (upd_path i (SetPathState Down) s3)\<lparr>se_sched := sched\<rparr>)
           } else do {
             (v, s) \<leftarrow> judge_path ?st i (v3, s3);
             Some (update_rates (pv_tick v) i (v, s))
           }) = Some (v', s')"
    using assms(2) p by (auto simp: probe_path_def Let_def bind_eq_Some_conv)
  then have k: "keeps_path i s s3"
    using send_probe_keeps retry_path_init_keeps mtu_discovery_keeps keeps_path_trans by metis
  then have a: "agrees s3" and st: "pa_state q = ?st"
    using assms(1) p q by (auto simp: keeps_path_def path_key_def)
  show ?thesis
  proof (cases "path_dead nowUs ?st q (en_tuning (se_eng s3))")
    case True
    then have "wanted (pa_state q) \<noteq> None" using st by (auto simp: path_dead_def)
    then show ?thesis using rest True set_state_agrees [OF a q, of Down] by (auto simp: bind_eq_Some_conv)
  next
    case False
    then obtain v4 s4 where "judge_path ?st i (v3, s3) = Some (v4, s4)" "update_rates (pv_tick v4) i (v4, s4) = (v', s')"
      using rest by (auto simp: bind_eq_Some_conv)
    then show ?thesis using judge_path_agrees [OF a q st] update_rates_agrees by (metis snd_conv)
  qed
next
  case False
  then show ?thesis using assms by (auto simp: probe_path_def split: option.splits)
qed

lemma probe_paths_agrees: "agrees s \<Longrightarrow> probe_paths env nowUs ep js (v, s) = Some (v', s') \<Longrightarrow> agrees s'"
  by (induction js arbitrary: v s) (auto simp: bind_eq_Some_conv dest: probe_path_agrees)

lemma prober_tick_agrees:
  assumes "agrees s" "prober_tick env now nowUs (v, s) = Some (ids, v', s')"
  shows "agrees s'"
proof -
  have m: "agrees (mode_fallback nowUs t)" if "agrees t" for t
    using that by (simp add: mode_fallback_def agrees_def SetMode_keys split: Mode.splits)
  obtain v1 s1 where "probe_paths env nowUs (se_txEpoch s) [0..<MaxPaths] (v\<lparr>pv_tick := pv_tick v + 1\<rparr>, s) = Some (v1, s1)"
    and s': "se_paths s' = se_paths (mode_fallback nowUs s1)" "se_sched s' = se_sched (mode_fallback nowUs s1)"
    using assms(2) by (auto simp: prober_tick_def Let_def bind_eq_Some_conv pruneEpochs_def
        simp del: probe_paths.simps MaxPaths_def split: if_splits)
  then have "agrees (mode_fallback nowUs s1)" using assms(1) m probe_paths_agrees by blast
  then show ?thesis using s' agrees_tables by metis
qed

section \<open>The client\<close>

lemma swapConn_keeps:
  assumes "swapConn i conn s = Some s'"
  shows "keeps_path i s s'"
proof -
  obtain p where p: "se_paths s i = Some p" and s': "se_paths s' = (se_paths s)(i := Some (MTURestart p))" "se_sched s' = se_sched s"
    using assms by (auto simp: swapConn_def Let_def upd_path_def split: option.splits)
  have "agrees s'" if "agrees s"
    using agrees_put_path [OF that p, of "MTURestart p"] by (simp add: agrees_def s')
  then show ?thesis using p by (simp add: keeps_path_def s')
qed

lemma announcePath_keeps: "announcePath env nowUs i s = Some s' \<Longrightarrow> keeps_path i s s'"
  by (auto simp: announcePath_def split: option.splits intro: keeps_path_quiet sendPathInit_quiet)

lemma freePathID_free: "freePathID s = Some i \<Longrightarrow> i < MaxPaths \<and> se_paths s i = None"
  by (auto simp: freePathID_def find_Some_iff simp del: MaxPaths_def)

lemma add_link_agrees:
  assumes "agrees s" "add_link env pf nowUs ifname hint conn server s = Some s'"
  shows "agrees s'"
proof (cases "freePathID s")
  case (Some i)
  let ?p = "ResetLiveness nowUs (SetEndpoint server (NewPath (of_nat i) ifname hint
    (case pf_ifMTU pf ifname of None \<Rightarrow> 0 | Some m \<Rightarrow> m)))"
  have "path_key ?p = (of_nat i, Probing)"
    by (simp add: path_key_def ResetLiveness_def SetEndpoint_def NewPath_def)
  then have "agrees (s\<lparr>se_paths := (se_paths s)(i := Some ?p)\<rparr>)"
    using new_path_agrees [OF assms(1)] freePathID_free [OF Some] by blast
  then show ?thesis using assms(2) Some swapConn_keeps announcePath_keeps
    by (auto simp: add_link_def bind_eq_Some_conv keeps_path_def)
qed (use assms in \<open>simp add: add_link_def\<close>)

text \<open>A removed path that comes back probes first: neither state is in the scheduler.\<close>

lemma reprobe_agrees:
  assumes "agrees s"
  shows "agrees (upd_path i (\<lambda>p. if pa_state p = Removed then SetPathState Probing p else p) s)" (is "agrees ?s")
proof (cases "\<exists>p. se_paths s i = Some p \<and> pa_state p = Removed")
  case True
  then obtain p where p: "se_paths s i = Some p" "pa_state p = Removed" by blast
  note j = agrees_slot [OF assms p(1)]
  have "slot_agrees i (key_at s i) (sched_at s i)" using assms j(1) by (simp only: agrees_def)
  then have "slot_agrees i (key_at ?s i) (sched_at ?s i)"
    using p by (simp add: slot_agrees_def upd_path_def path_key_def SetPathState_def)
  moreover have "same_view {i} s ?s" by (rule same_viewI) (simp_all add: upd_path_def)
  ultimately show ?thesis using agrees_change assms j(1) by blast
next
  case False
  then have "se_paths ?s = se_paths s" by (cases "se_paths s i") (auto simp: upd_path_def)
  then show ?thesis using assms by (simp add: agrees_def upd_path_def)
qed

lemma rebind_link_agrees:
  assumes "agrees s" "rebind_link env nowUs i conn s = Some s'"
  shows "agrees s'"
proof -
  let ?f = "\<lambda>p. if pa_state p = Removed then SetPathState Probing p else p"
  obtain s1 where s1: "swapConn i conn s = Some s1"
    and an: "announcePath env nowUs i (upd_path i ?f (upd_path i (ResetLiveness nowUs) s1)) = Some s'"
    using assms(2) by (auto simp: rebind_link_def Let_def bind_eq_Some_conv)
  have "agrees (upd_path i (ResetLiveness nowUs) s1)"
    using swapConn_keeps [OF s1] assms(1) by (simp add: keeps_path_def agrees_upd_path path_key_def ResetLiveness_def)
  from reprobe_agrees [OF this, of i] show ?thesis
    using announcePath_keeps [OF an] by (simp add: keeps_path_def)
qed

lemma want_link_agrees:
  assumes "agrees (ce_sess e)" "want_link env pf nowUs byIf w e = Some e'"
  shows "agrees (ce_sess e')"
  using assms by (cases w) (auto simp: want_link_def Let_def bind_eq_Some_conv split: option.splits if_splits
      dest: markLinkGone_agrees add_link_agrees rebind_link_agrees)

lemma want_links_agrees:
  "agrees (ce_sess e) \<Longrightarrow> want_links env pf nowUs byIf ws e = Some e' \<Longrightarrow> agrees (ce_sess e')"
  by (induction ws arbitrary: e) (auto simp: bind_eq_Some_conv dest: want_link_agrees)

lemma drop_links_agrees: "agrees s \<Longrightarrow> drop_links want byIf js s = Some s' \<Longrightarrow> agrees s'"
  by (induction js arbitrary: s)
    (auto simp: bind_eq_Some_conv split: option.splits if_splits dest: markLinkGone_agrees)

lemma mark_if_gone_agrees: "agrees s \<Longrightarrow> mark_if_gone n js s = Some s' \<Longrightarrow> agrees s'"
  by (induction js arbitrary: s)
    (auto simp: bind_eq_Some_conv split: option.splits if_splits dest: markLinkGone_agrees)

lemma setupLinks_agrees:
  assumes "agrees (ce_sess e)" "setupLinks env pf nowUs e = Some e'"
  shows "agrees (ce_sess e')"
  using assms by (auto simp: setupLinks_def Let_def bind_eq_Some_conv simp del: MaxPaths_def
      dest!: want_links_agrees [rotated] drop_links_agrees [rotated])

lemma announce_all_agrees: "agrees s \<Longrightarrow> announce_all env nowUs ep js s = Some s' \<Longrightarrow> agrees s'"
proof (induction js arbitrary: s)
  case (Cons i js)
  have "agrees (s\<lparr>se_acked := (se_acked s)(i := False)\<rparr>)" using Cons.prems(1) by (simp add: agrees_def)
  then have "agrees t" if "sendPathInit env nowUs ep pid (s\<lparr>se_acked := (se_acked s)(i := False)\<rparr>) = Some t" for pid t
    using agrees_quiet sendPathInit_quiet that by blast
  then show ?case using Cons by (auto simp: bind_eq_Some_conv split: option.splits if_splits)
qed simp

lemma hs_response_agrees:
  assumes "agrees s" "hs_response c ns env now nowUs rxID ch resp s = Some (Inr s')"
  shows "agrees s'"
proof -
  obtain epoch s1 where "registerEpoch now (length (se_heap s)) True (s\<lparr>se_heap := se_heap s @ [epoch]\<rparr>) = Some s1"
    and an: "announce_all env nowUs (length (se_heap s)) [0..<MaxPaths] s1 = Some s'"
    using assms(2) by (auto simp: hs_response_def alloc_epoch_def bind_eq_Some_conv simp del: MaxPaths_def
        split: if_splits sum.splits)
  then have "agrees s1" using registerEpoch_tables assms(1) by (fastforce simp: agrees_def)
  then show ?thesis using an announce_all_agrees by blast
qed

lemma path_datagram_agrees:
  "agrees (ce_sess e) \<Longrightarrow> path_datagram env now nowUs d e = Some e' \<Longrightarrow> agrees (ce_sess e')"
  by (auto simp: path_datagram_def bind_eq_Some_conv split: if_splits sum.splits option.splits
      dest: handleDatagram_agrees)

text \<open>Everything that changes the client's state, one atomic step each.\<close>

inductive client_step :: "Crypto \<Rightarrow> 'hs Noise \<Rightarrow> ClientEng \<Rightarrow> ClientEng \<Rightarrow> bool"
  for c :: Crypto and ns :: "'hs Noise" where
  tun: "client_tun_packet env now ip e = Some e' \<Longrightarrow> client_step c ns e e'"
| datagram: "path_datagram env now nowUs d e = Some e' \<Longrightarrow> client_step c ns e e'"
| init: "hs_start ns env rands seed rnd ts e = Some (rxID, ch, e') \<Longrightarrow> client_step c ns e e'"
| response: "ce_hsRespCh e = r # rs \<Longrightarrow>
    hs_response c ns env now nowUs rxID ch r (ce_sess e) = Some (Inr s) \<Longrightarrow>
    client_step c ns e (e\<lparr>ce_hsRespCh := rs, ce_sess := s\<rparr>)"
| stale: "ce_hsRespCh e = r # rs \<Longrightarrow> client_step c ns e (e\<lparr>ce_hsRespCh := rs\<rparr>)"
| links: "setupLinks env pf nowUs e = Some e' \<Longrightarrow> client_step c ns e e'"
| add: "AddLink env pf nowUs ifname mbps e = Some (Inr e') \<Longrightarrow> client_step c ns e e'"
| remove: "RemoveLink ifname e = Some (Inr e') \<Longrightarrow> client_step c ns e e'"
| mode: "Engine_SetMode m e = Inr e' \<Longrightarrow> client_step c ns e e'"
| flush: "flusher_tick env now (ce_sess e) = Some s \<Longrightarrow> client_step c ns e (e\<lparr>ce_sess := s\<rparr>)"
| probe: "prober_tick env now nowUs (v, ce_sess e) = Some (ids, v', s) \<Longrightarrow>
    client_step c ns e (e\<lparr>ce_sess := s\<rparr>)"
| stop: "Engine_Stop env nowUs e = Some e' \<Longrightarrow> client_step c ns e e'"

lemma hs_start_tables:
  "hs_start ns env rands seed rnd ts e = Some (rxID, ch, e') \<Longrightarrow> agrees (ce_sess e') = agrees (ce_sess e)"
  by (auto simp: hs_start_def bind_eq_Some_conv Let_def agrees_def split: if_splits)

lemma control_agrees:
  assumes "agrees (ce_sess e)"
  shows "AddLink env pf nowUs ifname mbps e = Some (Inr e') \<Longrightarrow> agrees (ce_sess e')"
    and "RemoveLink ifname e = Some (Inr e') \<Longrightarrow> agrees (ce_sess e')"
    and "Engine_SetMode m e = Inr e' \<Longrightarrow> agrees (ce_sess e')"
proof -
  show "AddLink env pf nowUs ifname mbps e = Some (Inr e') \<Longrightarrow> agrees (ce_sess e')" using assms
    by (auto simp: AddLink_def split: if_splits dest!: setupLinks_agrees [rotated])
  show "RemoveLink ifname e = Some (Inr e') \<Longrightarrow> agrees (ce_sess e')" using assms
    by (auto simp: RemoveLink_def Let_def bind_eq_Some_conv simp del: MaxPaths_def split: if_splits option.splits
        dest: mark_if_gone_agrees markLinkGone_agrees)
  show "Engine_SetMode m e = Inr e' \<Longrightarrow> agrees (ce_sess e')" using assms
    by (auto simp: Engine_SetMode_def Let_def agrees_def SetMode_keys split: if_splits prod.splits)
qed

lemma client_tun_packet_agrees:
  "agrees (ce_sess e) \<Longrightarrow> client_tun_packet env now ip e = Some e' \<Longrightarrow> agrees (ce_sess e')"
  by (auto simp: client_tun_packet_def bind_eq_Some_conv split: if_splits dest: sendData_agrees)

lemma Engine_Stop_agrees: "agrees (ce_sess e) \<Longrightarrow> Engine_Stop env nowUs e = Some e' \<Longrightarrow> agrees (ce_sess e')"
  by (auto simp: Engine_Stop_def closeConns_def bind_eq_Some_conv agrees_def dest!: sendCloseAll_quiet agrees_quiet [unfolded agrees_def, rotated])

lemma client_step_agrees: "client_step c ns e e' \<Longrightarrow> agrees (ce_sess e) \<Longrightarrow> agrees (ce_sess e')"
proof (induction rule: client_step.induct)
  case (tun env now ip e e')
  then show ?case by (blast intro: client_tun_packet_agrees)
next
  case (datagram env now nowUs d e e')
  then show ?case by (blast intro: path_datagram_agrees)
next
  case (init env rands seed rnd ts e rxID ch e')
  then show ?case by (simp add: hs_start_tables)
next
  case (response e r rs env now nowUs rxID ch s)
  then show ?case by (simp add: hs_response_agrees)
next
  case (links env pf nowUs e e')
  then show ?case by (blast intro: setupLinks_agrees)
next
  case (add env pf nowUs ifname mbps e e')
  then show ?case by (blast intro: control_agrees)
next
  case (remove ifname e e')
  then show ?case by (blast intro: control_agrees)
next
  case (mode m e e')
  then show ?case by (blast intro: control_agrees)
next
  case (flush env now e s)
  then show ?case by (simp add: flusher_tick_agrees)
next
  case (probe env now nowUs v e ids v' s)
  then show ?case by (simp add: prober_tick_agrees)
next
  case (stop env nowUs e e')
  then show ?case by (blast intro: Engine_Stop_agrees)
qed simp

lemma newSession_agrees: "agrees (newSession conf name pub psk mode)"
  by (simp add: agrees_def newSession_def NewScheduler_def pathState_zero_def slot_agrees_def slot_view_def)

lemma agrees_started [simp]: "agrees (s\<lparr>se_started := b\<rparr>) = agrees s"
  by (simp add: agrees_def)

lemma StartClient_agrees: "StartClient env pf nowUs srv tunName cfg = Some e \<Longrightarrow> agrees (ce_sess e)"
  by (auto simp: StartClient_def bind_eq_Some_conv Let_def newSession_agrees dest!: setupLinks_agrees [rotated])

interpretation client_paths: machine "client_step c ns" "\<lambda>e. agrees (ce_sess e)" for c ns
  by unfold_locales (rule client_step_agrees)

lemmas client_reachable_agrees = client_paths.reachable_inv

section \<open>The server\<close>

inductive server_step :: "Crypto \<Rightarrow> 'hs Noise \<Rightarrow> ServerEng \<Rightarrow> ServerEng \<Rightarrow> bool"
  for c :: Crypto and ns :: "'hs Noise" where
  listen: "listen_datagram c ns env now nowUs seed rnd rands d src e = Some e' \<Longrightarrow> server_step c ns e e'"
| tun: "server_tun_packet env now ip e = Some e' \<Longrightarrow> server_step c ns e e'"
| flush: "i < length (sr_sessions e) \<Longrightarrow> flusher_tick env now (sr_sessions e ! i) = Some s \<Longrightarrow>
    server_step c ns e (put_session i s e)"
| probe: "i < length (sr_sessions e) \<Longrightarrow> server_prober_tick env now nowUs i v e = Some (v', e') \<Longrightarrow>
    server_step c ns e e'"

text \<open>The tables of the server point to sessions it has, and every session agrees.\<close>

definition tables_ok :: "ServerEng \<Rightarrow> bool" where
  "tables_ok e \<longleftrightarrow> (\<forall>i \<in> ran (sr_peers e) \<union> ran (sr_byIP e). i < length (sr_sessions e)) \<and>
    (\<forall>rx i a. map_of (sr_byRxID e) rx = Some (i, a) \<longrightarrow> i < length (sr_sessions e))"

definition server_agrees :: "ServerEng \<Rightarrow> bool" where
  "server_agrees e \<longleftrightarrow> (\<forall>s \<in> set (sr_sessions e). agrees s)"

lemma put_session_fields [simp]:
  "sr_peers (put_session i s e) = sr_peers e" "sr_byIP (put_session i s e) = sr_byIP e"
  "sr_byRxID (put_session i s e) = sr_byRxID e" "sr_sessions (put_session i s e) = (sr_sessions e)[i := s]"
  "sr_limiter (put_session i s e) = sr_limiter e" "sr_conf (put_session i s e) = sr_conf e"
  by (simp_all add: put_session_def)

lemma server_agrees_put: "server_agrees e \<Longrightarrow> agrees s \<Longrightarrow> server_agrees (put_session i s e)"
  by (auto simp: server_agrees_def dest: set_update_subset_insert [THEN subsetD])

lemma server_agrees_nth: "server_agrees e \<Longrightarrow> i < length (sr_sessions e) \<Longrightarrow> agrees (sr_sessions e ! i)"
  by (simp add: server_agrees_def)

lemma server_agrees_cong: "sr_sessions e' = sr_sessions e \<Longrightarrow> server_agrees e' = server_agrees e"
  by (simp add: server_agrees_def)

lemma index_epoch_tables:
  "index_epoch now rxID epoch s = Some (a, s') \<Longrightarrow> se_paths s' = se_paths s \<and> se_sched s' = se_sched s"
  by (auto simp: index_epoch_def alloc_epoch_def Let_def bind_eq_Some_conv split: if_splits dest!: registerEpoch_tables)

lemma handshake_path_agrees: "agrees s \<Longrightarrow> handshake_path nowUs pid src s = Some s' \<Longrightarrow> agrees s'"
  by (auto simp: handshake_path_def bind_eq_Some_conv agrees_upd_path simp del: MaxPaths_def split: if_splits
      dest: addServerPath_agrees)

lemma accept_init_cases:
  assumes "accept_init c ns env now nowUs seed rnd rands hdr src sh i e = Some e'"
  obtains (failed) "e' = e"
  | (accepted) rxID rest msg epoch a s t pkt where "allocRxID (sr_byRxID e) rands = Some (rxID, rest)"
      "Respond c ns now seed rnd sh (se_psk (sr_sessions e ! i)) rxID (h_SessionID hdr) = Some (msg, epoch)"
      "index_epoch now rxID epoch (sr_sessions e ! i) = Some (a, s)"
      "handshake_path nowUs (h_PathID hdr) src s = Some t"
      "e' = put_session i (if ev_ok env (ToAddr src pkt) then t\<lparr>se_started := True\<rparr> else t)
        (e\<lparr>sr_byRxID := AList.update rxID (i, a) (sr_byRxID e), sr_sent := sr_sent e @ [ToAddr src pkt]\<rparr>)"
proof -
  obtain rxID rest where x: "allocRxID (sr_byRxID e) rands = Some (rxID, rest)"
    using assms by (auto simp: accept_init_def Let_def bind_eq_Some_conv)
  show ?thesis
  proof (cases "Respond c ns now seed rnd sh (se_psk (sr_sessions e ! i)) rxID (h_SessionID hdr)")
    case None
    then show ?thesis using failed assms x by (simp add: accept_init_def Let_def)
  next
    case (Some r)
    then obtain msg epoch where r: "Respond c ns now seed rnd sh (se_psk (sr_sessions e ! i)) rxID (h_SessionID hdr) = Some (msg, epoch)"
      by (cases r) simp
    show ?thesis using assms unfolding accept_init_def Let_def
      by (simp only: x r option.case bind.bind_lunit prod.case)
        (auto simp: bind_eq_Some_conv intro: accepted [OF x r])
  qed
qed

lemma accept_init_agrees:
  assumes "server_agrees e" "i < length (sr_sessions e)"
    and "accept_init c ns env now nowUs seed rnd rands hdr src sh i e = Some e'"
  shows "server_agrees e'"
  using assms(3)
proof (cases rule: accept_init_cases)
  case (accepted rxID rest msg epoch a s t pkt)
  have "agrees s" using server_agrees_nth [OF assms(1,2)] index_epoch_tables [OF accepted(3)] agrees_tables by metis
  then have "agrees t" using accepted(4) handshake_path_agrees by blast
  then show ?thesis unfolding accepted(5)
    by (intro server_agrees_put) (use assms(1) in \<open>simp_all add: server_agrees_def\<close>)
qed (use assms(1) in simp)

lemma handleHandshakeInit_cases:
  assumes "handleHandshakeInit c ns env now nowUs seed rnd rands hdr d src e = Some e'"
  obtains (ignored) gate where "e' = e\<lparr>sr_hsGate := gate\<rparr>"
  | (advanced) gate sh i where "fst (tb_allow now (sr_hsGate e))"
      "ConsumeInit ns (sr_priv e) (drop HeaderSize d) = Inr sh" "sr_peers e (sh_peer sh) = Some i"
      "se_lastHsTs (sr_sessions e ! i) < ip_TimestampNs (sh_payload sh)"
      "accept_init c ns env now nowUs seed rnd rands hdr src sh i
        (put_session i ((sr_sessions e ! i)\<lparr>se_lastHsTs := ip_TimestampNs (sh_payload sh)\<rparr>) (e\<lparr>sr_hsGate := gate\<rparr>)) = Some e'"
proof -
  obtain ok gate where t: "tb_allow now (sr_hsGate e) = (ok, gate)" by fastforce
  show ?thesis using assms ignored [of gate] advanced [of _ _ gate] unfolding handleHandshakeInit_def t
    by (auto simp: t Let_def not_le split: if_splits sum.splits option.splits)
qed

lemma stamped_agrees:
  "server_agrees e \<Longrightarrow> i < length (sr_sessions e) \<Longrightarrow>
    server_agrees (put_session i ((sr_sessions e ! i)\<lparr>se_lastHsTs := ts\<rparr>) (e\<lparr>sr_hsGate := g\<rparr>))"
  using server_agrees_nth [of e i] agrees_tables [of "(sr_sessions e ! i)\<lparr>se_lastHsTs := ts\<rparr>" "sr_sessions e ! i"]
  by (intro server_agrees_put) (simp_all add: server_agrees_def)

lemma tables_okD:
  assumes "tables_ok e"
  shows "sr_peers e k = Some i \<Longrightarrow> i < length (sr_sessions e)"
    and "sr_byIP e k' = Some i \<Longrightarrow> i < length (sr_sessions e)"
    and "map_of (sr_byRxID e) rx = Some (i, a) \<Longrightarrow> i < length (sr_sessions e)"
  using assms unfolding tables_ok_def by (blast intro: ranI)+

lemma listen_datagram_cases:
  assumes "listen_datagram c ns env now nowUs seed rnd rands d src e = Some e'"
  obtains (ignored) "e' = e"
  | (handshake) hdr where "ParseHeader d = Inr hdr" "h_Type hdr = TypeHandshakeInit"
      "handleHandshakeInit c ns env now nowUs seed rnd rands hdr d (Unmap (fst src), snd src) e = Some e'"
  | (received) hdr i ep b s where "ParseHeader d = Inr hdr" "map_of (sr_byRxID e) (h_SessionID hdr) = Some (i, ep)"
      "handleDatagram env now nowUs ep hdr d (Unmap (fst src), snd src) (sr_sessions e ! i) = Some (b, s)"
      "e' = put_session i s e"
proof (cases "length d < HeaderSize \<or> (\<exists>err. ParseHeader d = Inl err)")
  case True
  then show ?thesis using ignored assms by (auto simp: listen_datagram_def split: if_splits)
next
  case False
  then obtain hdr where h: "ParseHeader d = Inr hdr" by (cases "ParseHeader d") auto
  show ?thesis
  proof (cases "h_Type hdr = TypeHandshakeInit")
    case True
    then show ?thesis using handshake [OF h] assms False h by (simp add: listen_datagram_def)
  next
    case nh: False
    show ?thesis
    proof (cases "map_of (sr_byRxID e) (h_SessionID hdr)")
      case None
      then show ?thesis using ignored assms False nh h by (simp add: listen_datagram_def)
    next
      case (Some x)
      then obtain i ep where x: "map_of (sr_byRxID e) (h_SessionID hdr) = Some (i, ep)" by (cases x) simp
      then show ?thesis using received [OF h x] assms False nh h
        by (auto simp: listen_datagram_def bind_eq_Some_conv)
    qed
  qed
qed

lemma listen_datagram_agrees:
  assumes "server_agrees e" "tables_ok e" "listen_datagram c ns env now nowUs seed rnd rands d src e = Some e'"
  shows "server_agrees e'"
  using assms(3)
proof (cases rule: listen_datagram_cases)
  case (handshake hdr)
  from handshake(3) show ?thesis
  proof (cases rule: handleHandshakeInit_cases)
    case (advanced gate sh i)
    note i = tables_okD(1) [OF assms(2) advanced(3)]
    show ?thesis by (rule accept_init_agrees [OF stamped_agrees [OF assms(1) i] _ advanced(5)]) (simp add: i)
  qed (use assms(1) in \<open>simp add: server_agrees_def\<close>)
next
  case (received hdr i ep b s)
  then have "agrees s" using handleDatagram_agrees server_agrees_nth assms(1) tables_okD(3) [OF assms(2)] by blast
  then show ?thesis using received(4) server_agrees_put assms(1) by blast
qed (use assms(1) in simp)

lemma server_tun_packet_cases:
  assumes "server_tun_packet env now ip e = Some e'"
  obtains (ignored) "e' = e"
  | (sent) i s lm where "routeSession ip e = Some i"
      "sendData env now ip (with_limiter (sr_limiter e) (sr_sessions e ! i)) = Some s"
      "e' = put_session i s (e\<lparr>sr_limiter := lm\<rparr>)"
proof (cases "ip = [] \<or> routeSession ip e = None")
  case True
  then show ?thesis using ignored assms by (auto simp: server_tun_packet_def split: if_splits)
next
  case False
  then obtain i where i: "routeSession ip e = Some i" by blast
  then obtain s where s: "sendData env now ip (with_limiter (sr_limiter e) (sr_sessions e ! i)) = Some s"
    using assms False by (auto simp: server_tun_packet_def bind_eq_Some_conv)
  have "e' = put_session i s (e\<lparr>sr_limiter := (case en_ptbLimiter (se_eng s) of None \<Rightarrow> sr_limiter e | Some lm \<Rightarrow> lm)\<rparr>)"
    using assms False i s by (auto simp: server_tun_packet_def Let_def split: option.splits)
  then show ?thesis by (rule sent [OF i s])
qed

lemma server_tun_packet_agrees:
  assumes "server_agrees e" "tables_ok e" "server_tun_packet env now ip e = Some e'"
  shows "server_agrees e'"
  using assms(3)
proof (cases rule: server_tun_packet_cases)
  case (sent i s lm)
  then have "i < length (sr_sessions e)"
    using tables_okD(2) [OF assms(2)] by (auto simp: routeSession_def split: option.splits)
  then have "agrees (with_limiter (sr_limiter e) (sr_sessions e ! i))"
    using server_agrees_nth [OF assms(1)] by (auto simp: with_limiter_def agrees_def)
  then have "agrees s" using sent(2) sendData_agrees by blast
  then show ?thesis unfolding sent(3) by (intro server_agrees_put) (use assms(1) in \<open>simp_all add: server_agrees_def\<close>)
qed (use assms in simp)

lemma server_step_agrees:
  assumes "server_step c ns e e'" "server_agrees e" "tables_ok e"
  shows "server_agrees e'"
  using assms
proof (induction rule: server_step.induct)
  case (listen env now nowUs seed rnd rands d src e e')
  then show ?case by (blast intro: listen_datagram_agrees)
next
  case (tun env now ip e e')
  then show ?case by (blast intro: server_tun_packet_agrees)
next
  case (flush i e env now s)
  then show ?case using server_agrees_put server_agrees_nth flusher_tick_agrees by blast
next
  case (probe i e env now nowUs v v' e')
  then obtain ids s where t: "prober_tick env now nowUs (v, sr_sessions e ! i) = Some (ids, v', s)"
    and e': "e' = unindexRxIDs ids (put_session i s e)"
    by (auto simp: server_prober_tick_def bind_eq_Some_conv)
  have "agrees s" using t prober_tick_agrees server_agrees_nth probe by blast
  then have "server_agrees (put_session i s e)" using probe(3) server_agrees_put by blast
  then show ?case by (simp add: e' server_agrees_def unindexRxIDs_def)
qed

text \<open>The tables keep pointing to the server's sessions.\<close>

lemma tables_ok_same:
  assumes "tables_ok e" "sr_peers e' = sr_peers e" "sr_byIP e' = sr_byIP e"
    "length (sr_sessions e') = length (sr_sessions e)" "map_of (sr_byRxID e') \<subseteq>\<^sub>m map_of (sr_byRxID e)"
  shows "tables_ok e'"
proof -
  have "map_of (sr_byRxID e) rx = Some x" if "map_of (sr_byRxID e') rx = Some x" for rx x
    using assms(5) that by (metis domI map_le_def)
  then show ?thesis using assms(1) unfolding tables_ok_def assms(2-4) by blast
qed

lemma map_of_filter_keys:
  "map_of (filter (\<lambda>(k, _). k \<notin> A) xs) k = (if k \<in> A then None else map_of xs k)"
  by (induction xs) auto

lemma accept_init_tables:
  assumes "tables_ok e" "i < length (sr_sessions e)"
    and "accept_init c ns env now nowUs seed rnd rands hdr src sh i e = Some e'"
  shows "tables_ok e'"
  using assms(3)
proof (cases rule: accept_init_cases)
  case (accepted rxID rest msg epoch a s t pkt)
  then show ?thesis using assms(1,2) by (auto simp: tables_ok_def update_conv' split: if_splits)
qed (use assms(1) in simp)

lemma listen_datagram_tables:
  assumes "tables_ok e" "listen_datagram c ns env now nowUs seed rnd rands d src e = Some e'"
  shows "tables_ok e'"
  using assms(2)
proof (cases rule: listen_datagram_cases)
  case (handshake hdr)
  from handshake(3) show ?thesis
  proof (cases rule: handleHandshakeInit_cases)
    case (advanced gate sh i)
    note i = tables_okD(1) [OF assms(1) advanced(3)]
    show ?thesis
      by (rule accept_init_tables [OF _ _ advanced(5)]) (use assms(1) i in \<open>simp_all add: tables_ok_def\<close>)
  qed (use assms(1) in \<open>simp add: tables_ok_def\<close>)
next
  case (received hdr i ep b s)
  then show ?thesis using assms(1) by (simp add: tables_ok_def)
qed (use assms(1) in simp)

lemma server_step_tables:
  assumes "server_step c ns e e'" "tables_ok e"
  shows "tables_ok e'"
  using assms
proof (induction rule: server_step.induct)
  case (listen env now nowUs seed rnd rands d src e e')
  then show ?case by (blast intro: listen_datagram_tables)
next
  case (tun env now ip e e')
  then show ?case
    by (cases rule: server_tun_packet_cases) (auto simp: tables_ok_def)
next
  case (flush i e env now s)
  then show ?case by (simp add: tables_ok_def)
next
  case (probe i e env now nowUs v v' e')
  then show ?case
    by (auto elim!: tables_ok_same simp: server_prober_tick_def unindexRxIDs_def bind_eq_Some_conv
        map_le_def map_of_filter_keys split: if_splits)
qed

definition server_inv :: "ServerEng \<Rightarrow> bool" where
  "server_inv e \<longleftrightarrow> server_agrees e \<and> tables_ok e"

lemma add_peer_inv:
  assumes "server_inv e"
  shows "server_inv (add_peer p e)"
proof -
  have "agrees ((newSession conf nm k psk m)\<lparr>se_peerIP := ip\<rparr>)" for conf nm k psk m ip
    using newSession_agrees agrees_tables [of "(newSession conf nm k psk m)\<lparr>se_peerIP := ip\<rparr>" "newSession conf nm k psk m"]
    by simp
  then have "server_agrees (add_peer p e)"
    using assms by (simp add: server_inv_def server_agrees_def add_peer_def Let_def)
  moreover have "tables_ok (add_peer p e)"
    using assms by (auto simp: server_inv_def tables_ok_def add_peer_def Let_def ran_def less_Suc_eq split: if_splits)
  ultimately show ?thesis by (simp add: server_inv_def)
qed

lemma StartServer_inv: "server_inv (StartServer now cfg)"
proof -
  have "server_inv (fold add_peer ps e)" if "server_inv e" for ps e
    using that by (induction ps arbitrary: e) (simp_all add: add_peer_inv)
  then show ?thesis unfolding StartServer_def Let_def
    by this (simp add: server_inv_def server_agrees_def tables_ok_def)
qed

interpretation server_paths: machine "server_step c ns" server_inv for c ns
  by unfold_locales (auto simp: server_inv_def intro: server_step_agrees server_step_tables)

lemmas server_reachable_inv = server_paths.reachable_inv

section \<open>Data goes to paths that are up\<close>

definition in_service :: "Path \<Rightarrow> bool" where
  "in_service p \<longleftrightarrow> pa_state p = Active \<or> pa_state p = Degraded"

lemma in_service_usable:
  assumes "agrees s" "i < MaxPaths"
  shows "usable (sched_at s i) \<longleftrightarrow> (\<exists>p. se_paths s i = Some p \<and> in_service p)"
proof
  assume u: "usable (sched_at s i)"
  then obtain p where p: "se_paths s i = Some p" "wanted (pa_state p) = Some (p_state (sched_at s i))"
    using agrees_present [OF assms] unfolding usable_def by metis
  then show "\<exists>p. se_paths s i = Some p \<and> in_service p"
    using u by (cases "pa_state p") (auto simp: usable_def in_service_def)
next
  assume "\<exists>p. se_paths s i = Some p \<and> in_service p"
  then obtain p where p: "se_paths s i = Some p" "in_service p" by blast
  then show "usable (sched_at s i)"
    using agrees_slot(3) [OF assms(1) p(1)] by (auto simp: in_service_def usable_def slot_view_def split: if_splits)
qed

text \<open>What the scheduler returns, in any mode, for a session whose tables agree.\<close>

definition serves :: "session \<Rightarrow> int \<Rightarrow> byte \<Rightarrow> bool" where
  "serves s n pid \<longleftrightarrow> (\<exists>p. se_paths s (unat pid) = Some p \<and> pa_ID p = pid \<and> in_service p) \<and>
    fits_inner n (sched_at s (unat pid))"

lemma candidate_serves:
  assumes "agrees s" "i < MaxPaths" "candidate n (sched_at s i)"
  shows "serves s n (p_id (sched_at s i))"
proof -
  have u: "usable (sched_at s i)" and f: "fits_inner n (sched_at s i)" using assms(3) by (simp_all add: candidate_def)
  have i: "unat (p_id (sched_at s i)) = i"
    by (rule agrees_present [OF assms(1,2)]) (use u in \<open>simp add: usable_def\<close>)
  obtain p where p: "se_paths s i = Some p" "in_service p" using in_service_usable [OF assms(1,2)] u by blast
  then have "pa_ID p = p_id (sched_at s i)" using agrees_slot(2) [OF assms(1) p(1)] i word_unat_eq_iff by metis
  then show ?thesis using p f i by (simp add: serves_def)
qed

lemma serves_candidate:
  assumes "agrees s" "serves s n pid"
  shows "unat pid < MaxPaths" "candidate n (sched_at s (unat pid))"
proof -
  obtain p where p: "se_paths s (unat pid) = Some p" "in_service p" using assms(2) by (auto simp: serves_def)
  show i: "unat pid < MaxPaths" using agrees_slot(1) [OF assms(1) p(1)] .
  then show "candidate n (sched_at s (unat pid))"
    using in_service_usable [OF assms(1) i] p assms(2) by (auto simp: candidate_def serves_def)
qed

lemma Assign_serves:
  assumes "agrees s"
  shows "(\<forall>pid \<in> set (fst (Assign n [] (se_sched s))). serves s n pid) \<and>
    (fst (Assign n [] (se_sched s)) = [] \<longleftrightarrow> (\<forall>pid. \<not> serves s n pid))"
proof (cases rule: Assign_cases [where s = "se_sched s" and n = n and out = "[]"])
  case fan
  have f: "fst (Assign n [] (se_sched s)) =
      map (\<lambda>i. p_id (sched_at s i)) (filter (\<lambda>i. candidate n (sched_at s i)) [0..<MaxPaths])"
    using fan redundant_fold [of "sc_paths (se_sched s)" "candidate n" p_id "[0..<MaxPaths]" "[]"]
    by (simp add: Assign_def)
  have "(\<forall>i < MaxPaths. \<not> candidate n (sched_at s i)) \<longleftrightarrow> (\<forall>pid. \<not> serves s n pid)"
    using candidate_serves [OF assms, where n = n] serves_candidate [OF assms, where n = n] by blast
  then show ?thesis using candidate_serves [OF assms] unfolding f
    by (auto simp add: filter_empty_conv Ball_def simp del: MaxPaths_def)
next
  case none
  then have "\<not> serves s n pid" for pid using serves_candidate [OF assms] by blast
  then show ?thesis using none(2) by simp
next
  case (one b)
  then show ?thesis using candidate_serves [OF assms] by auto
qed


definition sample_env :: Env where
  "sample_env = \<lparr>ev_rs = xor_codec, ev_ord = [], ev_ok = (\<lambda>_. True), ev_tunFull = False\<rparr>"

definition sample_platform :: Platform where
  "sample_platform = \<lparr>pf_usable = (\<lambda>_. [''eth0'']), pf_dial = (\<lambda>_. Some (IP4 0xc0a80002)),
     pf_ifMTU = (\<lambda>_. Some 1500), pf_order = (\<lambda>w. w)\<rparr>"

lemma sample_client_starts:
  "\<exists>e. StartClient sample_env sample_platform 1 (IP4 0x01020304, 443) ''tun0'' sample_client = Some e \<and>
    en_role (se_eng (ce_sess e)) = RoleClient \<and> se_sched (ce_sess e) = NewScheduler DefaultSchedConfig ModeBonding \<and>
    map_option path_key (se_paths (ce_sess e) 0) = Some (0, Probing)"
  by (simp add: StartClient_def setupLinks_def desiredLinks_def sample_client_def sample_platform_def Let_def
      newSession_def paths_by_if_def want_link_def add_link_def freePathID_def upt_rec swapConn_def upd_path_def
      announcePath_def path_key_def MTURestart_def ResetLiveness_def SetEndpoint_def NewPath_def)




end
