(* ===== verification/Epochs_Correct.thy ===== *)
theory Epochs_Correct
  imports Path_Agreement
begin

text \<open>
  Key epochs over the lifetime of a session and of the server: the table of receiver indices
  of a session, the server's index over all sessions, rekeying with its grace period, and the
  timestamps that stop replayed handshakes.
\<close>

section \<open>What the data plane leaves alone\<close>

text \<open>
  \<open>rxview\<close> is what the tables of receiver indices depend on; \<open>epview\<close> adds the epochs themselves,
  without their send counters.
\<close>

definition rxview :: "session \<Rightarrow> (u32 \<times> epochEntry) list \<times> nat option \<times> nat option \<times> u32 list \<times> u64" where
  "rxview s = (se_epochs s, se_txEpoch s, se_pending s, map ep_rxID (se_heap s), se_lastHsTs s)"

definition epview where
  "epview s = (rxview s, map frozen (se_heap s))"

lemma rx_of: "epview s' = epview s \<Longrightarrow> rxview s' = rxview s"
  by (simp add: epview_def)

lemma epview_quiet:
  assumes "quiet s s'"
  shows "epview s' = epview s"
proof -
  have "map ep_rxID (map frozen (se_heap s')) = map ep_rxID (map frozen (se_heap s))"
    using assms by (simp add: quiet_def)
  then have "map ep_rxID (se_heap s') = map ep_rxID (se_heap s)" by (simp add: frozen_def comp_def)
  then show ?thesis using assms by (simp add: epview_def rxview_def quiet_def)
qed

lemma epview_fields [simp]:
  "epview (upd_path i f s) = epview s" "epview (s\<lparr>se_paths := ps\<rparr>) = epview s"
  "epview (s\<lparr>se_sched := c\<rparr>) = epview s" "epview (s\<lparr>se_acked := ak\<rparr>) = epview s"
  "epview (s\<lparr>se_conns := cn\<rparr>) = epview s" "epview (s\<lparr>se_reorder := b\<rparr>) = epview s"
  "epview (s\<lparr>se_fecDec := fd\<rparr>) = epview s" "epview (s\<lparr>se_fecEnc := fe\<rparr>) = epview s"
  "epview (s\<lparr>se_eng := en\<rparr>) = epview s" "epview (s\<lparr>se_globalSeq := g\<rparr>) = epview s"
  "epview (s\<lparr>se_lastDupUs := t\<rparr>) = epview s" "epview (s\<lparr>se_lastFecUs := t\<rparr>) = epview s"
  "epview (s\<lparr>se_dropNoPath := d\<rparr>) = epview s" "epview (s\<lparr>se_dropNoEpoch := d\<rparr>) = epview s"
  "epview (s\<lparr>se_ptb := p, se_icmpPTBSent := d\<rparr>) = epview s" "epview (s\<lparr>se_started := x\<rparr>) = epview s"
  "epview (s\<lparr>se_sent := w\<rparr>) = epview s"
  by (simp_all add: epview_def rxview_def upd_path_def)

lemma epview_mirror_mode [simp]: "epview (mirror_mode m s) = epview s"
  by (simp add: mirror_mode_def)

lemma epview_injectRecovered [simp]: "epview (injectRecovered now rs s) = epview s"
  by (induction rs arbitrary: s) (simp_all add: injectRecovered_def)

lemma epview_sendPTB [simp]: "epview (sendPTB env now ip m s) = epview s"
  by (simp add: sendPTB_def Let_def split: option.splits prod.splits)

lemma epview_admit:
  "admitPath j r s = Some s' \<Longrightarrow> epview s' = epview s" "revivePath j s = Some s' \<Longrightarrow> epview s' = epview s"
  by (auto simp: admitPath_def revivePath_def bind_eq_Some_conv split: option.splits if_splits)

lemma epview_addServerPath: "addServerPath t pid src s = Some s' \<Longrightarrow> epview s' = epview s"
  by (auto simp: addServerPath_def split: if_splits)

lemma epview_roam [simp]: "epview (roam j src s) = epview s"
  by (simp add: roam_def split: option.splits)

lemma epview_handle_data: "epview (snd (handle_data env now nowUs j pt s)) = epview s"
proof (cases "ParseDataHeader pt")
  case (Inr x)
  then obtain seq flags ipPkt where p: "ParseDataHeader pt = Inr (seq, flags, ipPkt)" by (cases x) auto
  have "epview s1 = epview s" if "mirrored env nowUs seq flags ipPkt s = (recs, s1)" for recs s1
    using that by (auto simp: mirrored_def Let_def split: if_splits prod.splits)
  then show ?thesis
    using handle_data_split [OF p, of env nowUs s now j, where thesis = ?thesis] by fastforce
qed (simp add: handle_data_def)

lemma epview_handlers:
  "handle_fec env now nowUs j pt s = Some s' \<Longrightarrow> epview s' = epview s"
  "handle_probe nowUs j pt s = Some s' \<Longrightarrow> epview s' = epview s"
  "handle_path_ack nowUs j pt s = Some s' \<Longrightarrow> epview s' = epview s"
  "handle_mtu_probe env nowUs pid pt s = Some s' \<Longrightarrow> epview s' = epview s"
  "epview (handle_mtu_ack nowUs j pt s) = epview s"
  "epview (handle_close s) = epview s"
  by (auto simp: handle_fec_def handle_probe_def handle_path_ack_def handle_mtu_probe_def handle_mtu_ack_def
      handle_close_def Let_def bind_eq_Some_conv split: sum.splits option.splits prod.splits if_splits
      dest!: epview_admit sendMTUAck_quiet epview_quiet)

lemma epview_handle_path_init:
  assumes "handle_path_init env nowUs pid pt s = Some s'"
  shows "epview s' = epview s"
proof (cases "en_role (se_eng s) = RoleServer \<and> CheckPathInitPayload pt")
  case True
  let ?s = "upd_path (unat pid) (OnControlReceived nowUs) s"
  obtain p s1 payload where "se_paths ?s (unat pid) = Some p"
    and adm: "(if pa_state p = Probing \<or> pa_state p = Down then admitPath (unat pid) False ?s else Some ?s) = Some s1"
    and send: "(case se_txEpoch s1 of None \<Rightarrow> Some s1
      | Some tx \<Rightarrow> sendControl env (Some tx) pid TypePathAck payload s1) = Some s'"
    using assms True by (auto simp: handle_path_init_def Let_def bind_eq_Some_conv split: option.splits)
  have "epview s1 = epview s" using adm epview_admit(1) by (fastforce split: if_splits)
  moreover have "epview s' = epview s1" using send sendControl_quiet epview_quiet by (auto split: option.splits)
  ultimately show ?thesis by simp
qed (use assms in \<open>auto simp: handle_path_init_def\<close>)

lemma epview_dispatch: "dispatch env now nowUs hdr pt s = Some (b, s') \<Longrightarrow> epview s' = epview s"
  using epview_handle_data [of env now nowUs "unat (h_PathID hdr)" pt s]
  by (auto simp: dispatch_def Let_def split: if_splits dest: epview_handlers(1-4) epview_handle_path_init
      simp: epview_handlers(5,6))

lemma epview_sendParities: "sendParities env ep g s = Some s' \<Longrightarrow> epview s' = epview s"
  by (blast intro: epview_quiet sendParities_quiet)

lemma epview_sendData:
  assumes "sendData env now ip s = Some s'"
  shows "epview s' = epview s"
proof (cases "se_txEpoch s")
  case (Some ep)
  obtain targets sched where a: "Assign (int (length ip)) [] (se_sched s) = (targets, sched)" by fastforce
  have send: "epview s' = epview s" if "send_targets env ep pt n ts s1 = Some s2" "epview s1 = epview s"
    "(case group of None \<Rightarrow> Some s2 | Some g \<Rightarrow> sendParities env (Some ep) g s2) = Some s'" for pt n ts s1 s2 group
  proof -
    have "epview s2 = epview s" using that(1,2) epview_quiet send_targets_quiet by metis
    then show ?thesis using that(3) epview_sendParities by (cases group) auto
  qed
  show ?thesis
  proof (cases "targets = []")
    case True
    then show ?thesis using assms Some a by (auto simp: sendData_def Let_def)
  next
    case False
    let ?s = "s\<lparr>se_sched := sched, se_globalSeq := se_globalSeq s + 1\<rparr>"
    obtain hdr g s1 s2 where t: "send_targets env ep (hdr @ ip) (length ip) targets s1 = Some s2"
      and s1: "epview s1 = epview ?s"
      and g: "(case g of None \<Rightarrow> Some s2 | Some g \<Rightarrow> sendParities env (Some ep) g s2) = Some s'"
    proof (cases "sc_mode sched = ModeFEC")
      case True
      then obtain hdr g enc s2 where "send_targets env ep (hdr @ ip) (length ip) targets (?s\<lparr>se_fecEnc := enc\<rparr>) = Some s2"
        "(case g of None \<Rightarrow> Some s2 | Some g \<Rightarrow> sendParities env (Some ep) g s2) = Some s'"
        using assms Some a False by (auto simp: sendData_def Let_def bind_eq_Some_conv)
      then show ?thesis using that by simp
    next
      case nf: False
      then obtain hdr where t: "send_targets env ep (hdr @ ip) (length ip) targets ?s = Some s'"
        using assms Some a False by (auto simp: sendData_def Let_def bind_eq_Some_conv)
      show ?thesis by (rule that [OF t, where g = None]) simp_all
    qed
    then show ?thesis using send by simp
  qed
qed (use assms in \<open>auto simp: sendData_def\<close>)

lemma epview_flusher_tick: "flusher_tick env now s = Some s' \<Longrightarrow> epview s' = epview s"
  by (auto simp: flusher_tick_def Let_def split: if_splits option.splits prod.splits dest!: epview_sendParities)

lemma epview_prober_parts:
  "send_probe env nowUs tick ep st i s = Some s' \<Longrightarrow> epview s' = epview s"
  "retry_path_init env nowUs tick ep i s = Some s' \<Longrightarrow> epview s' = epview s"
  "applyPathMTU i d s = Some s' \<Longrightarrow> epview s' = epview s"
  "judge_path st i (v, s) = Some (v', s') \<Longrightarrow> epview s' = epview s"
  "epview (snd (update_rates tick i (v, s))) = epview s"
proof -
  show "send_probe env nowUs tick ep st i s = Some s' \<Longrightarrow> epview s' = epview s"
    by (auto simp: send_probe_def bind_eq_Some_conv split: if_splits option.splits prod.splits
        dest!: sendControl_quiet epview_quiet)
  show "retry_path_init env nowUs tick ep i s = Some s' \<Longrightarrow> epview s' = epview s"
    by (auto simp: retry_path_init_def split: if_splits option.splits dest!: sendPathInit_quiet epview_quiet)
  show "applyPathMTU i d s = Some s' \<Longrightarrow> epview s' = epview s"
    by (auto simp: applyPathMTU_def Let_def bind_eq_Some_conv split: option.splits)
  show "judge_path st i (v, s) = Some (v', s') \<Longrightarrow> epview s' = epview s"
    by (auto simp: judge_path_def Let_def bind_eq_Some_conv split: if_splits option.splits)
  show "epview (snd (update_rates tick i (v, s))) = epview s"
    by (auto simp: update_rates_def Let_def split: option.splits)
qed

lemma epview_mtu_discovery:
  assumes "mtu_discovery env ep st i (v, s) = Some (v', s')"
  shows "epview s' = epview s"
proof (cases "st = Active \<or> st = Degraded")
  case True
  obtain s1 where s1: "(case (ep, se_paths s i) of
              (Some ep, Some p) \<Rightarrow>
                (case MTUTick p of
                   (r, p') \<Rightarrow>
                     let s = s\<lparr>se_paths := (se_paths s)(i := Some p')\<rparr>
                     in case r of None \<Rightarrow> Some s | Some (pid, wsize) \<Rightarrow> sendMTUProbe env ep i pid wsize s)
            | _ \<Rightarrow> Some s) = Some s1"
    and rest: "epview s' = epview s1"
    using assms True by (auto simp: mtu_discovery_def bind_eq_Some_conv Let_def split: option.splits if_splits
        dest: epview_prober_parts(3))
  have "epview s1 = epview s"
    using s1 by (auto simp: Let_def split: option.splits prod.splits dest!: sendMTUProbe_quiet epview_quiet)
  then show ?thesis using rest by simp
qed (use assms in \<open>auto simp: mtu_discovery_def\<close>)

lemma epview_probe_path:
  assumes "probe_path env nowUs ep i (v, s) = Some (v', s')"
  shows "epview s' = epview s"
proof (cases "\<exists>p. se_paths s i = Some p \<and> pa_state p \<noteq> Removed")
  case True
  then obtain p where p: "se_paths s i = Some p" "pa_state p \<noteq> Removed" by blast
  let ?st = "pa_state p"
  obtain s1 s2 v3 s3 q where "send_probe env nowUs (pv_tick v) ep ?st i s = Some s1"
    "retry_path_init env nowUs (pv_tick v) ep i s1 = Some s2" "mtu_discovery env ep ?st i (v, s2) = Some (v3, s3)"
    and rest: "(if path_dead nowUs ?st q (en_tuning (se_eng s3)) then do {
             sched \<leftarrow> SetState (pa_ID q) StateDown (se_sched s3);
             Some (v3, (upd_path i (SetPathState Down) s3)\<lparr>se_sched := sched\<rparr>)
           } else do {
             (v, s) \<leftarrow> judge_path ?st i (v3, s3);
             Some (update_rates (pv_tick v) i (v, s))
           }) = Some (v', s')"
    using assms p by (auto simp: probe_path_def Let_def bind_eq_Some_conv)
  then have "epview s3 = epview s"
    using epview_prober_parts(1,2) epview_mtu_discovery by metis
  moreover have "epview s' = epview s3"
  proof (cases "path_dead nowUs ?st q (en_tuning (se_eng s3))")
    case False
    then obtain v4 s4 where "judge_path ?st i (v3, s3) = Some (v4, s4)" "update_rates (pv_tick v4) i (v4, s4) = (v', s')"
      using rest by (auto simp: bind_eq_Some_conv)
    then show ?thesis using epview_prober_parts(4,5) by (metis snd_conv)
  qed (use rest in \<open>auto simp: bind_eq_Some_conv\<close>)
  ultimately show ?thesis by simp
next
  case False
  then show ?thesis using assms by (auto simp: probe_path_def split: option.splits)
qed

lemma epview_probe_paths: "probe_paths env nowUs ep js (v, s) = Some (v', s') \<Longrightarrow> epview s' = epview s"
  by (induction js arbitrary: v s) (auto simp: bind_eq_Some_conv dest: epview_probe_path)

text \<open>A prober round prunes or leaves the table alone.\<close>

lemma prober_tick_epochs:
  assumes "prober_tick env now nowUs (v, s) = Some (ids, v', s')"
  obtains s1 where "epview s1 = epview s" "(ids, s') = pruneEpochs now s1 \<or> ids = [] \<and> s' = s1"
proof -
  obtain v1 s1 where p: "probe_paths env nowUs (se_txEpoch s) [0..<MaxPaths] (v\<lparr>pv_tick := pv_tick v + 1\<rparr>, s) = Some (v1, s1)"
    and t: "(ids, s') = pruneEpochs now (mode_fallback nowUs s1) \<or> ids = [] \<and> s' = mode_fallback nowUs s1"
    using assms by (auto simp: prober_tick_def Let_def bind_eq_Some_conv pruneEpochs_def
        simp del: probe_paths.simps MaxPaths_def split: if_splits)
  have "epview (mode_fallback nowUs s1) = epview s"
    using epview_probe_paths [OF p] by (simp add: mode_fallback_def split: Mode.splits)
  then show ?thesis using that t by blast
qed

section \<open>The table of a session\<close>

text \<open>
  Every entry leads to an epoch with the entry's receiver index; the epoch used for sending and
  the one awaiting confirmation are in the table, current.
\<close>

definition current :: "session \<Rightarrow> nat \<Rightarrow> bool" where
  "current s a \<longleftrightarrow> a < length (se_heap s) \<and>
    map_of (se_epochs s) (ep_rxID (se_heap s ! a)) = Some \<lparr>ee_epoch = a, ee_supersedes = None\<rparr>"

definition epochs_ok :: "session \<Rightarrow> bool" where
  "epochs_ok s \<longleftrightarrow> distinct (map fst (se_epochs s)) \<and>
    (\<forall>rx en. map_of (se_epochs s) rx = Some en \<longrightarrow>
       ee_epoch en < length (se_heap s) \<and> ep_rxID (se_heap s ! ee_epoch en) = rx) \<and>
    (\<forall>a. se_txEpoch s = Some a \<longrightarrow> current s a) \<and> (\<forall>a. se_pending s = Some a \<longrightarrow> current s a)"

lemma rxview_eqD:
  assumes "rxview s' = rxview s"
  shows "se_epochs s' = se_epochs s" "se_txEpoch s' = se_txEpoch s" "se_pending s' = se_pending s"
    "length (se_heap s') = length (se_heap s)" "se_lastHsTs s' = se_lastHsTs s"
    "a < length (se_heap s) \<Longrightarrow> ep_rxID (se_heap s' ! a) = ep_rxID (se_heap s ! a)"
proof -
  have m: "map ep_rxID (se_heap s') = map ep_rxID (se_heap s)" using assms by (simp add: rxview_def)
  then show l: "length (se_heap s') = length (se_heap s)" by (rule map_eq_imp_length_eq)
  show "a < length (se_heap s) \<Longrightarrow> ep_rxID (se_heap s' ! a) = ep_rxID (se_heap s ! a)"
    using m l by (metis nth_map)
qed (use assms in \<open>simp_all add: rxview_def\<close>)

lemma rx_epochs_ok:
  assumes "rxview s' = rxview s" "epochs_ok s"
  shows "epochs_ok s'"
proof -
  note f = rxview_eqD [OF assms(1)]
  have "current s' a" if "current s a" for a using that f by (simp add: current_def)
  moreover have "ee_epoch en < length (se_heap s') \<and> ep_rxID (se_heap s' ! ee_epoch en) = rx"
    if "map_of (se_epochs s') rx = Some en" for rx en
    using that assms(2) f by (simp add: epochs_ok_def)
  ultimately show ?thesis using assms(2) unfolding epochs_ok_def f(1-3) by blast
qed

lemma rx_look: "rxview s' = rxview s \<Longrightarrow> lookupEpoch rx s' = lookupEpoch rx s"
  by (simp add: rxview_def lookupEpoch_def)

lemmas epview_eqD = rxview_eqD [OF rx_of]
lemmas epochs_ok_frame = rx_epochs_ok [OF rx_of]
lemmas look_epview = rx_look [OF rx_of]

lemma supersede_facts:
  "se_heap (supersede now r s) = se_heap s" "se_txEpoch (supersede now r s) = se_txEpoch s"
  "se_pending (supersede now r s) = se_pending s" "se_lastHsTs (supersede now r s) = se_lastHsTs s"
  "lookupEpoch rx (supersede now r s) = lookupEpoch rx s"
  "distinct (map fst (se_epochs s)) \<Longrightarrow> distinct (map fst (se_epochs (supersede now r s)))"
  by (auto simp: supersede_def lookupEpoch_def update_conv' distinct_update split: option.splits if_splits)

text \<open>A table is sound when its entries lead to epochs with their index.\<close>

definition entries_ok :: "session \<Rightarrow> bool" where
  "entries_ok s \<longleftrightarrow> distinct (map fst (se_epochs s)) \<and>
    (\<forall>rx a. lookupEpoch rx s = Some a \<longrightarrow> a < length (se_heap s) \<and> ep_rxID (se_heap s ! a) = rx)"

lemma epochs_ok_entries: "epochs_ok s \<Longrightarrow> entries_ok s"
  by (auto simp: epochs_ok_def entries_ok_def lookupEpoch_def)

lemma epochs_okI:
  "entries_ok s \<Longrightarrow> (\<And>a. se_txEpoch s = Some a \<Longrightarrow> current s a) \<Longrightarrow>
    (\<And>a. se_pending s = Some a \<Longrightarrow> current s a) \<Longrightarrow> epochs_ok s"
  unfolding epochs_ok_def entries_ok_def lookupEpoch_def by (metis option.map(2))

lemma registerEpoch_facts:
  assumes "entries_ok s" "se_pending s = None" "registerEpoch now ep True s = Some s'"
    and "ep < length (se_heap s)" and "rx0 = ep_rxID (se_heap s ! ep)"
  shows "epochs_ok s'" "lookupEpoch rx s' = (if rx = rx0 then Some ep else lookupEpoch rx s)"
    "se_heap s' = se_heap s" "se_txEpoch s' = Some ep" "se_pending s' = None" "se_lastHsTs s' = se_lastHsTs s"
proof -
  obtain s1 where s1: "s1 = s \<or> (\<exists>r. s1 = supersede now r s)"
    and s': "s' = s1\<lparr>se_epochs := AList.update rx0 \<lparr>ee_epoch = ep, ee_supersedes = None\<rparr> (se_epochs s1), se_txEpoch := Some ep\<rparr>"
  proof (cases "se_txEpoch s")
    case None
    then show ?thesis using assms(3,4,5) by (intro that [of s]) (auto simp: registerEpoch_def get_epoch_def Let_def)
  next
    case (Some cur)
    then show ?thesis using assms(3,4,5)
      by (intro that [of "supersede now (ep_rxID (se_heap s ! cur)) s"])
        (auto simp: registerEpoch_def get_epoch_def Let_def bind_eq_Some_conv supersede_facts(1) split: if_splits)
  qed
  have f: "se_heap s1 = se_heap s" "se_pending s1 = se_pending s" "se_lastHsTs s1 = se_lastHsTs s"
    "lookupEpoch rx s1 = lookupEpoch rx s" "distinct (map fst (se_epochs s1))" for rx
    using s1 supersede_facts assms(1) by (auto simp: entries_ok_def)
  show l: "lookupEpoch rx s' = (if rx = rx0 then Some ep else lookupEpoch rx s)" for rx
    using f(4) [of rx] by (simp add: s' lookupEpoch_def update_conv')
  show "se_heap s' = se_heap s" "se_txEpoch s' = Some ep" "se_pending s' = None" "se_lastHsTs s' = se_lastHsTs s"
    using f assms(2) by (simp_all add: s')
  moreover have "entries_ok s'"
    using assms(1,4,5) f l unfolding entries_ok_def by (auto simp: s' distinct_update split: if_splits)
  moreover have "current s' ep" using assms(4,5) f by (simp add: current_def s' update_conv')
  ultimately show "epochs_ok s'" by (intro epochs_okI) auto
qed

lemma registerEpoch_total:
  assumes "epochs_ok s" "ep < length (se_heap s)"
  shows "\<exists>s'. registerEpoch now ep True s = Some s'"
proof (cases "se_txEpoch s")
  case (Some cur)
  then have "cur < length (se_heap s)" using assms(1) by (simp add: epochs_ok_def current_def)
  then show ?thesis using assms(2) Some by (simp add: registerEpoch_def get_epoch_def Let_def supersede_facts(1))
qed (use assms(2) in \<open>simp add: registerEpoch_def get_epoch_def Let_def\<close>)

lemma confirm_epoch_facts:
  assumes "epochs_ok s" "confirm_epoch now ep s = Some s'"
  shows "epochs_ok s'" "lookupEpoch rx s' = lookupEpoch rx s" "se_lastHsTs s' = se_lastHsTs s"
    "se_heap s' = se_heap s"
proof -
  have "epochs_ok s' \<and> lookupEpoch rx s' = lookupEpoch rx s \<and> se_lastHsTs s' = se_lastHsTs s \<and> se_heap s' = se_heap s" for rx
  proof (cases "se_pending s = Some ep")
    case True
    let ?s = "s\<lparr>se_pending := None\<rparr>"
    have c: "current s ep" using assms(1) True by (simp add: epochs_ok_def)
    have e: "entries_ok ?s" using epochs_ok_entries [OF assms(1)] by (simp add: entries_ok_def lookupEpoch_def)
    have r: "registerEpoch now ep True ?s = Some s'" using assms(2) True by (simp add: confirm_epoch_def)
    have p: "se_pending ?s = None" "ep < length (se_heap ?s)" using c by (simp_all add: current_def)
    note facts = registerEpoch_facts [OF e p(1) r p(2) refl]
    have "lookupEpoch (ep_rxID (se_heap s ! ep)) s = Some ep" using c by (simp add: current_def lookupEpoch_def)
    then show ?thesis using facts by (auto simp: lookupEpoch_def)
  qed (use assms in \<open>auto simp: confirm_epoch_def\<close>)
  then show "epochs_ok s'" "lookupEpoch rx s' = lookupEpoch rx s" "se_lastHsTs s' = se_lastHsTs s" "se_heap s' = se_heap s"
    by blast+
qed

lemma index_epoch_facts:
  assumes "epochs_ok s" "lookupEpoch rxID s = None" "ep_rxID epoch = rxID"
    and "index_epoch now rxID epoch s = Some (a, s')"
  shows "epochs_ok s'" "a = length (se_heap s)" "lookupEpoch rx s' = (if rx = rxID then Some a else lookupEpoch rx s)"
    "se_lastHsTs s' = se_lastHsTs s" "se_heap s' = se_heap s @ [epoch]"
proof -
  let ?a = "length (se_heap s)"
  let ?s = "s\<lparr>se_heap := se_heap s @ [epoch],
    se_epochs := AList.update rxID \<lparr>ee_epoch = ?a, ee_supersedes = None\<rparr> (se_epochs s)\<rparr>"
  have l: "lookupEpoch rx ?s = (if rx = rxID then Some ?a else lookupEpoch rx s)" for rx
    by (simp add: lookupEpoch_def update_conv')
  have lp: "lookupEpoch rx (?s\<lparr>se_pending := x\<rparr>) = lookupEpoch rx ?s" for rx x
    by (simp add: lookupEpoch_def)
  have en: "entries_ok (?s\<lparr>se_pending := x\<rparr>)" for x
    using epochs_ok_entries [OF assms(1)] assms(3) l lp unfolding entries_ok_def
    by (auto simp: distinct_update nth_append less_Suc_eq split: if_splits)
  have "epochs_ok s' \<and> a = ?a \<and> lookupEpoch rx s' = (if rx = rxID then Some a else lookupEpoch rx s) \<and>
    se_lastHsTs s' = se_lastHsTs s \<and> se_heap s' = se_heap s @ [epoch]" for rx
  proof (cases "se_txEpoch s")
    case None
    then have r: "registerEpoch now ?a True (?s\<lparr>se_pending := None\<rparr>) = Some s'" and "a = ?a"
      using assms(4) by (auto simp: index_epoch_def alloc_epoch_def Let_def bind_eq_Some_conv)
    have p: "se_pending (?s\<lparr>se_pending := None\<rparr>) = None" "?a < length (se_heap (?s\<lparr>se_pending := None\<rparr>))"
      "rxID = ep_rxID (se_heap (?s\<lparr>se_pending := None\<rparr>) ! ?a)" using assms(3) by simp_all
    note facts = registerEpoch_facts [OF en p(1) r p(2,3)]
    then show ?thesis using \<open>a = ?a\<close> l lp by simp
  next
    case (Some tx)
    then have s': "s' = ?s\<lparr>se_pending := Some ?a\<rparr>" and "a = ?a"
      using assms(4) by (auto simp: index_epoch_def alloc_epoch_def Let_def bind_eq_Some_conv)
    have c: "current s tx" using assms(1) Some by (simp add: epochs_ok_def)
    then have "ep_rxID (se_heap s ! tx) \<noteq> rxID" using assms(2) by (auto simp: current_def lookupEpoch_def)
    then have "current s' tx" using c by (auto simp: s' current_def nth_append update_conv')
    moreover have "current s' ?a" using assms(3) by (simp add: s' current_def update_conv')
    ultimately have "epochs_ok s'" by (intro epochs_okI) (use en Some in \<open>auto simp: s'\<close>)
    then show ?thesis using \<open>a = ?a\<close> l lp by (simp add: s')
  qed
  then show "epochs_ok s'" "a = length (se_heap s)" "lookupEpoch rx s' = (if rx = rxID then Some a else lookupEpoch rx s)"
    "se_lastHsTs s' = se_lastHsTs s" "se_heap s' = se_heap s @ [epoch]" by blast+
qed

lemma pruneEpochs_facts:
  assumes "epochs_ok s" "pruneEpochs now s = (ids, s')"
  shows "epochs_ok s'" "lookupEpoch rx s' = (if rx \<in> set ids then None else lookupEpoch rx s)"
    "se_lastHsTs s' = se_lastHsTs s"
    "rx \<in> set ids \<longleftrightarrow> (\<exists>en. map_of (se_epochs s) rx = Some en \<and> expired_entry now (rx, en))"
proof -
  have d: "distinct (map fst (se_epochs s))" using assms(1) by (simp add: epochs_ok_def)
  have ids: "rx \<in> set ids \<longleftrightarrow> (\<exists>en. map_of (se_epochs s) rx = Some en \<and> expired_entry now (rx, en))" for rx
    using assms(2) d by (force simp: pruneEpochs_def)
  have s': "s' = s\<lparr>se_epochs := filter (\<lambda>en. \<not> expired_entry now en) (se_epochs s)\<rparr>"
    using assms(2) by (simp add: pruneEpochs_def)
  have d': "distinct (map fst (filter P (se_epochs s)))" for P using d by (rule distinct_map_filter)
  have m: "map_of (se_epochs s') rx = (if rx \<in> set ids then None else map_of (se_epochs s) rx)" for rx
  proof (cases "map_of (se_epochs s) rx")
    case None
    then have "map_of (se_epochs s') rx = None" by (auto simp: s' map_of_eq_None_iff)
    then show ?thesis using None by simp
  next
    case (Some en)
    then have "(rx, en) \<in> set (se_epochs s)" by (rule map_of_SomeD)
    then show ?thesis using ids Some d d'
      by (cases "expired_entry now (rx, en)")
        (auto simp: s' map_of_eq_None_iff map_of_eq_Some_iff dest: eq_key_imp_eq_value [OF d])
  qed
  show "lookupEpoch rx s' = (if rx \<in> set ids then None else lookupEpoch rx s)"
    by (simp add: lookupEpoch_def m)
  show "se_lastHsTs s' = se_lastHsTs s" by (simp add: s')
  show "rx \<in> set ids \<longleftrightarrow> (\<exists>en. map_of (se_epochs s) rx = Some en \<and> expired_entry now (rx, en))" by (rule ids)
  have c: "current s' a" if "current s a" for a
  proof -
    have "ep_rxID (se_heap s ! a) \<notin> set ids" using that ids by (auto simp: current_def expired_entry_def)
    then show ?thesis using that m by (simp add: current_def s' [THEN arg_cong [of _ _ se_heap]])
  qed
  have f: "se_heap s' = se_heap s" "se_txEpoch s' = se_txEpoch s" "se_pending s' = se_pending s"
    "distinct (map fst (se_epochs s'))" using d' by (simp_all add: s')
  show "epochs_ok s'" using assms(1) c m unfolding epochs_ok_def f(1-3)
    by (metis f(4) option.distinct(1))
qed

lemma after_replay_epochs:
  assumes "after_replay env now nowUs ep hdr pt src s = Some (b, s')"
  obtains s1 where "confirm_epoch now ep s = Some s1" "epview s' = epview s1"
proof -
  obtain s1 where c: "confirm_epoch now ep s = Some s1" and rest: "(case se_paths s1 (unat (h_PathID hdr)) of
      Some _ \<Rightarrow> dispatch env now nowUs hdr pt (roam (unat (h_PathID hdr)) src s1)
    | None \<Rightarrow>
        if h_Type hdr = TypePathInit \<and> en_role (se_eng s1) = RoleServer
        then do { s \<leftarrow> addServerPath nowUs (h_PathID hdr) src s1;
                  dispatch env now nowUs hdr pt (roam (unat (h_PathID hdr)) src s) }
        else Some (False, s1)) = Some (b, s')"
    using assms by (auto simp: after_replay_def Let_def bind_eq_Some_conv)
  have "epview s' = epview s1" using rest
    by (auto simp: bind_eq_Some_conv split: option.splits if_splits dest!: epview_dispatch epview_addServerPath)
  then show ?thesis using c that by blast
qed

lemma rxview_replay:
  "get_epoch ep s = Some e \<Longrightarrow> CheckReplay e p n = Some (x, e') \<Longrightarrow> rxview (put_epoch ep e' s) = rxview s"
  by (auto simp: rxview_def put_epoch_def get_epoch_def CheckReplay_def Let_def map_update
      list_update_same_conv split: if_splits prod.splits)

lemma handleDatagram_epochs:
  assumes "epochs_ok s" "handleDatagram env now nowUs ep hdr d src s = Some (b, s')"
  shows "epochs_ok s'" "lookupEpoch rx s' = lookupEpoch rx s" "se_lastHsTs s' = se_lastHsTs s"
proof -
  have "epochs_ok s' \<and> lookupEpoch rx s' = lookupEpoch rx s \<and> se_lastHsTs s' = se_lastHsTs s" for rx
    using assms(2)
  proof (cases rule: handleDatagram_cases)
    case (replayed e pt e')
    note p = rxview_replay [OF replayed(1,3)]
    show ?thesis unfolding replayed(4) using rx_epochs_ok [OF p assms(1)] rx_look [OF p] rxview_eqD(5) [OF p] by simp
  next
    case (fresh e pt e')
    note p = rxview_replay [OF fresh(1,3)]
    obtain s1 where c: "confirm_epoch now ep (put_epoch ep e' s) = Some s1" and v: "epview s' = epview s1"
      by (rule after_replay_epochs [OF fresh(4)])
    note cf = confirm_epoch_facts [OF rx_epochs_ok [OF p assms(1)] c]
    show ?thesis using epochs_ok_frame [OF v cf(1)] look_epview [OF v] rx_look [OF p] cf(2,3)
        epview_eqD(5) [OF v] rxview_eqD(5) [OF p] by simp
  qed (use assms(1) in simp)
  then show "epochs_ok s'" "lookupEpoch rx s' = lookupEpoch rx s" "se_lastHsTs s' = se_lastHsTs s" by blast+
qed

text \<open>With nothing pending, as on the client, receiving does not touch the table at all.\<close>

lemma handleDatagram_settled:
  assumes "se_pending s = None" "handleDatagram env now nowUs ep hdr d src s = Some (b, s')"
  shows "rxview s' = rxview s"
  using assms(2)
proof (cases rule: handleDatagram_cases)
  case (fresh e pt e')
  note p = rxview_replay [OF fresh(1,3)]
  obtain s1 where c: "confirm_epoch now ep (put_epoch ep e' s) = Some s1" and v: "epview s' = epview s1"
    by (rule after_replay_epochs [OF fresh(4)])
  have "s1 = put_epoch ep e' s" using c rxview_eqD(3) [OF p] assms(1) by (simp add: confirm_epoch_def)
  then show ?thesis using rx_of [OF v] p by simp
qed (auto simp: rxview_replay)

section \<open>The server's index\<close>

definition index_ok :: "ServerEng \<Rightarrow> bool" where
  "index_ok e \<longleftrightarrow> (\<forall>s \<in> set (sr_sessions e). epochs_ok s) \<and>
    (\<forall>rx i a. map_of (sr_byRxID e) rx = Some (i, a) \<longleftrightarrow>
       i < length (sr_sessions e) \<and> lookupEpoch rx (sr_sessions e ! i) = Some a)"

lemma index_ok_nth: "index_ok e \<Longrightarrow> i < length (sr_sessions e) \<Longrightarrow> epochs_ok (sr_sessions e ! i)"
  by (simp add: index_ok_def)

lemma index_ok_put:
  assumes "index_ok e" "epochs_ok s" "\<And>rx. lookupEpoch rx s = lookupEpoch rx (sr_sessions e ! i)"
  shows "index_ok (put_session i s e)"
proof -
  have "\<forall>t \<in> set ((sr_sessions e)[i := s]). epochs_ok t"
    using assms(1,2) by (auto simp: index_ok_def dest: set_update_subset_insert [THEN subsetD])
  then show ?thesis using assms(1,3) unfolding index_ok_def put_session_fields length_list_update
    by (metis nth_list_update_eq nth_list_update_neq)
qed

lemma index_ok_cong: "sr_sessions e' = sr_sessions e \<Longrightarrow> sr_byRxID e' = sr_byRxID e \<Longrightarrow> index_ok e' = index_ok e"
  by (simp add: index_ok_def)

lemma allocRxID_fresh: "allocRxID used rands = Some (i, rest) \<Longrightarrow> map_of used i = None"
  by (induction used rands rule: allocRxID.induct)
    (subst (asm) allocRxID.simps, auto split: option.splits if_splits)

lemma Respond_ids: "Respond c ns now seed rnd h psk rxID txID = Some (msg, ep) \<Longrightarrow> ep_rxID ep = rxID \<and> ep_txID ep = txID"
  by (auto simp: Respond_def split: option.splits if_splits dest: newEpoch_fields)

lemma handshake_path_epview: "handshake_path nowUs pid src s = Some s' \<Longrightarrow> epview s' = epview s"
  by (auto simp: handshake_path_def bind_eq_Some_conv split: if_splits dest!: epview_addServerPath)

lemma accept_init_index:
  assumes "index_ok e" "i < length (sr_sessions e)"
    and "accept_init c ns env now nowUs seed rnd rands hdr src sh i e = Some e'"
  shows "index_ok e'"
  using assms(3)
proof (cases rule: accept_init_cases)
  case (accepted rxID rest msg epoch a s t pkt)
  let ?s0 = "sr_sessions e ! i" and ?t = "if ev_ok env (ToAddr src pkt) then t\<lparr>se_started := True\<rparr> else t"
  have ok: "epochs_ok ?s0" using index_ok_nth [OF assms(1,2)] .
  have free: "map_of (sr_byRxID e) rxID = None" using accepted(1) by (rule allocRxID_fresh)
  then have no: "lookupEpoch rxID (sr_sessions e ! j) = None" if "j < length (sr_sessions e)" for j
    using assms(1) that unfolding index_ok_def by (metis not_None_eq option.distinct(1))
  have rx: "ep_rxID epoch = rxID" using Respond_ids [OF accepted(2)] by simp
  note ix = index_epoch_facts [OF ok no [OF assms(2)] rx accepted(3)]
  have v: "epview ?t = epview s" using handshake_path_epview [OF accepted(4)] by simp
  have okt: "epochs_ok ?t" using epochs_ok_frame [OF v ix(1)] .
  have l: "lookupEpoch rx ?t = (if rx = rxID then Some a else lookupEpoch rx ?s0)" for rx
    using look_epview [OF v] ix(3) by simp
  have "\<forall>u \<in> set ((sr_sessions e)[i := ?t]). epochs_ok u"
    using assms(1) okt unfolding index_ok_def by (metis insertE set_update_subset_insert subsetD)
  moreover have "map_of (AList.update rxID (i, a) (sr_byRxID e)) r = Some (j, b) \<longleftrightarrow>
      j < length (sr_sessions e) \<and> lookupEpoch r ((sr_sessions e)[i := ?t] ! j) = Some b" for r j b
  proof (cases "r = rxID")
    case True
    then show ?thesis using l [of rxID] no [of j] assms(2)
      by (cases "j = i") (auto simp: update_conv' simp del: if_split_asm)
  next
    case False
    then have "lookupEpoch r ((sr_sessions e)[i := ?t] ! j) = lookupEpoch r (sr_sessions e ! j)"
      if "j < length (sr_sessions e)"
      using l [of r] that by (cases "j = i") auto
    then show ?thesis using False assms(1) unfolding index_ok_def by (auto simp: update_conv')
  qed
  ultimately show ?thesis unfolding accepted(5) index_ok_def by simp
qed (use assms(1) in simp)

lemma stamped_index:
  assumes "index_ok e" "i < length (sr_sessions e)"
  shows "index_ok (put_session i ((sr_sessions e ! i)\<lparr>se_lastHsTs := ts\<rparr>) (e\<lparr>sr_hsGate := g\<rparr>))"
proof -
  have "epochs_ok ((sr_sessions e ! i)\<lparr>se_lastHsTs := ts\<rparr>)"
    using index_ok_nth [OF assms] by (simp add: epochs_ok_def current_def)
  moreover have "index_ok (e\<lparr>sr_hsGate := g\<rparr>)" using assms(1) by (simp add: index_ok_def)
  ultimately show ?thesis by (intro index_ok_put) (simp_all add: lookupEpoch_def)
qed

lemma listen_datagram_index:
  assumes "index_ok e" "tables_ok e" "listen_datagram c ns env now nowUs seed rnd rands d src e = Some e'"
  shows "index_ok e'"
  using assms(3)
proof (cases rule: listen_datagram_cases)
  case (handshake hdr)
  from handshake(3) show ?thesis
  proof (cases rule: handleHandshakeInit_cases)
    case (advanced gate sh i)
    note i = tables_okD(1) [OF assms(2) advanced(3)]
    show ?thesis by (rule accept_init_index [OF stamped_index [OF assms(1) i] _ advanced(5)]) (simp add: i)
  qed (use assms(1) in \<open>simp add: index_ok_def\<close>)
next
  case (received hdr i ep b s)
  have "epochs_ok (sr_sessions e ! i)" using index_ok_nth [OF assms(1)] tables_okD(3) [OF assms(2) received(2)] .
  note h = handleDatagram_epochs [OF this received(3)]
  show ?thesis unfolding received(4) by (rule index_ok_put [OF assms(1) h(1,2)])
qed (use assms(1) in simp)

lemma server_tun_packet_index:
  assumes "index_ok e" "tables_ok e" "server_tun_packet env now ip e = Some e'"
  shows "index_ok e'"
  using assms(3)
proof (cases rule: server_tun_packet_cases)
  case (sent i s lm)
  then have "i < length (sr_sessions e)"
    using tables_okD(2) [OF assms(2)] by (auto simp: routeSession_def split: option.splits)
  then have ok: "epochs_ok (sr_sessions e ! i)" using index_ok_nth [OF assms(1)] by blast
  have v: "epview s = epview (sr_sessions e ! i)" using epview_sendData [OF sent(2)] by (simp add: with_limiter_def)
  have "index_ok (e\<lparr>sr_limiter := lm\<rparr>)" using assms(1) by (simp add: index_ok_def)
  then show ?thesis unfolding sent(3) by (rule index_ok_put) (use epochs_ok_frame [OF v ok] look_epview [OF v] in simp_all)
qed (use assms in simp)

lemma server_prober_tick_index:
  assumes "index_ok e" "i < length (sr_sessions e)" "server_prober_tick env now nowUs i v e = Some (v', e')"
  shows "index_ok e'"
proof -
  obtain ids s where t: "prober_tick env now nowUs (v, sr_sessions e ! i) = Some (ids, v', s)"
    and e': "e' = unindexRxIDs ids (put_session i s e)"
    using assms(3) by (auto simp: server_prober_tick_def bind_eq_Some_conv)
  obtain s1 where v: "epview s1 = epview (sr_sessions e ! i)" and p: "(ids, s) = pruneEpochs now s1 \<or> ids = [] \<and> s = s1"
    by (rule prober_tick_epochs [OF t])
  have ok1: "epochs_ok s1" using epochs_ok_frame [OF v index_ok_nth [OF assms(1,2)]] .
  have s: "epochs_ok s \<and> (\<forall>rx. lookupEpoch rx s = (if rx \<in> set ids then None else lookupEpoch rx (sr_sessions e ! i)))"
    using p pruneEpochs_facts(1,2) [OF ok1, of now ids s] ok1 look_epview [OF v] by auto
  have owner: "\<exists>a. lookupEpoch rx (sr_sessions e ! i) = Some a" if r: "rx \<in> set ids" for rx
  proof -
    obtain en where "map_of (se_epochs s1) rx = Some en"
      using p r pruneEpochs_facts(4) [OF ok1, of now ids s rx] by auto
    then show ?thesis using look_epview [OF v, of rx] by (metis lookupEpoch_def option.map(2))
  qed
  have other: "lookupEpoch rx (sr_sessions e ! j) = None" if "rx \<in> set ids" "j < length (sr_sessions e)" "j \<noteq> i" for rx j
    using owner [OF that(1)] that(2,3) assms(1,2) unfolding index_ok_def by (metis not_None_eq option.inject prod.inject)
  have "\<forall>u \<in> set ((sr_sessions e)[i := s]). epochs_ok u"
    using assms(1) s unfolding index_ok_def by (metis insertE set_update_subset_insert subsetD)
  moreover have "map_of (filter (\<lambda>(k, _). k \<notin> set ids) (sr_byRxID e)) r = Some (j, b) \<longleftrightarrow>
      j < length (sr_sessions e) \<and> lookupEpoch r ((sr_sessions e)[i := s] ! j) = Some b" for r j b
  proof (cases "j = i")
    case True
    then show ?thesis using s assms(1,2) unfolding index_ok_def by (simp add: map_of_filter_keys)
  next
    case False
    then show ?thesis using other [of r j] assms(1) unfolding index_ok_def by (auto simp: map_of_filter_keys)
  qed
  ultimately show ?thesis unfolding e' index_ok_def by (simp add: unindexRxIDs_def)
qed

lemma server_step_index:
  assumes "server_step c ns e e'" "index_ok e" "tables_ok e"
  shows "index_ok e'"
  using assms
proof (induction rule: server_step.induct)
  case (listen env now nowUs seed rnd rands d src e e')
  then show ?case by (blast intro: listen_datagram_index)
next
  case (tun env now ip e e')
  then show ?case by (blast intro: server_tun_packet_index)
next
  case (flush i e env now s)
  note v = epview_flusher_tick [OF flush(2)]
  show ?case using epochs_ok_frame [OF v index_ok_nth [OF flush(3,1)]] look_epview [OF v] by (rule index_ok_put [OF flush(3)])
next
  case (probe i e env now nowUs v v' e')
  then show ?case by (blast intro: server_prober_tick_index)
qed

lemma newSession_epochs [simp]: "epochs_ok (newSession conf nm k psk m)" "lookupEpoch rx (newSession conf nm k psk m) = None"
  by (simp_all add: epochs_ok_def newSession_def lookupEpoch_def)

lemma StartServer_index: "index_ok (StartServer now cfg)"
proof -
  have add: "index_ok (add_peer p e) \<and> sr_byRxID (add_peer p e) = []" if "index_ok e \<and> sr_byRxID e = []" for p e
  proof -
    let ?s = "(newSession (sr_conf e) (pe_Name p) (pe_PubKey p) (pe_PSK p) ModeBonding)\<lparr>se_peerIP := pe_Addr p\<rparr>"
    have "epochs_ok ?s" using newSession_epochs(1) by (simp add: epochs_ok_def current_def newSession_def)
    moreover have "lookupEpoch rx ?s = None" for rx by (simp add: lookupEpoch_def newSession_def)
    ultimately show ?thesis using that
      by (auto simp: index_ok_def add_peer_def Let_def nth_append less_Suc_eq)
  qed
  have "index_ok (fold add_peer ps e)" if "index_ok e \<and> sr_byRxID e = []" for ps e
    using that add by (induction ps arbitrary: e) simp_all
  then show ?thesis unfolding StartServer_def Let_def by this (simp add: index_ok_def)
qed

interpretation server_index: machine "server_step c ns" "\<lambda>e. index_ok e \<and> tables_ok e" for c ns
  by unfold_locales (use server_step_index server_step_tables in blast)

lemma server_reachable_index: "(server_step c ns)\<^sup>*\<^sup>* (StartServer now cfg) e \<Longrightarrow> index_ok e \<and> tables_ok e"
  using server_index.reachable_inv StartServer_index StartServer_inv server_inv_def by blast

text \<open>A server that has accepted a handshake, for the witnesses.\<close>

definition sample_init :: bytes where
  "sample_init = [TypeHandshakeInit, 0, 0, 0, 7, 0, 0, 0, 0, 0, 0, 0, 0, 0, 0, 0] @ replicate 32 0 @
     ProtocolVersion # replicate 32 0 @ [1, 0, 0, 0, 0, 0, 0, 0]"

definition sample_handshake :: "ServerEng option" where
  "sample_handshake = listen_datagram plain_crypto plain_noise sample_env 0 1 (Some (replicate 32 0)) [] [[1, 0, 0, 0]]
     sample_init (IP4 0x01020304, 443) (StartServer 0 sample_server)"

lemma sample_init_parses:
  "length sample_init = 89"
  "ParseHeader sample_init = Inr \<lparr>h_Type = TypeHandshakeInit, h_PathID = 0, h_SessionID = 7, h_Counter = 0\<rparr>"
  "ConsumeInit plain_noise k (drop HeaderSize sample_init) = Inr \<lparr>sh_hs = (PublicKey Some k, Key_zero, Key_zero),
     sh_payload = \<lparr>ip_Version = ProtocolVersion, ip_Seed = replicate 32 0, ip_TimestampNs = 1\<rparr>, sh_peer = Key_zero\<rparr>"
proof -
  show "length sample_init = 89" "ParseHeader sample_init = Inr \<lparr>h_Type = TypeHandshakeInit, h_PathID = 0, h_SessionID = 7, h_Counter = 0\<rparr>"
    by code_simp+
  have "drop 32 (drop HeaderSize sample_init) = ProtocolVersion # replicate 32 0 @ [1, 0, 0, 0, 0, 0, 0, 0]"
    "take 32 (drop HeaderSize sample_init) = Key_zero" "blit 0 (take KeySize Key_zero) Key_zero = Key_zero"
    "ParseInitPayload (ProtocolVersion # replicate 32 0 @ [1, 0, 0, 0, 0, 0, 0, 0]) =
      Inr \<lparr>ip_Version = ProtocolVersion, ip_Seed = replicate 32 0, ip_TimestampNs = 1\<rparr>"
    by code_simp+
  then show "ConsumeInit plain_noise k (drop HeaderSize sample_init) = Inr \<lparr>sh_hs = (PublicKey Some k, Key_zero, Key_zero),
     sh_payload = \<lparr>ip_Version = ProtocolVersion, ip_Seed = replicate 32 0, ip_TimestampNs = 1\<rparr>, sh_peer = Key_zero\<rparr>"
    by (simp add: ConsumeInit_def plain_noise_def newConfig_def del: drop_drop)
qed

lemma plain_Respond_keys:
  assumes "Respond plain_crypto plain_noise now seed rnd h psk rxID txID = Some (msg, ep)"
  shows "ep_win ep = (\<lambda>_. Window_zero)" "ep_recv ep 0 = Some (plain_aead 0)"
proof -
  obtain cs cb cl where n: "newEpoch plain_crypto now cs (the seed) cb txID rxID cl = Some ep"
    using assms by (auto simp: Respond_def split: option.splits if_splits)
  have "deriveAEAD plain_crypto prk d p = Some (plain_aead p)" for prk d p
    by (simp add: deriveAEAD_def plain_crypto_def key_info_def)
  then show "ep_win ep = (\<lambda>_. Window_zero)" "ep_recv ep 0 = Some (plain_aead 0)"
    using newEpoch_fields [OF n] newEpoch_keys [OF n, of 0] by simp_all
qed

lemma sample_handshake_accepted:
  "\<exists>e ep. sample_handshake = Some e \<and> map_of (sr_byRxID e) 1 = Some (Suc 0, 0) \<and>
    se_heap (sr_sessions e ! Suc 0) = [ep] \<and> ep_win ep = (\<lambda>_. Window_zero) \<and> ep_recv ep 0 = Some (plain_aead 0) \<and>
    se_paths (sr_sessions e ! Suc 0) 0 \<noteq> None"
proof -
  let ?e0 = "StartServer 0 sample_server"
  have len: "length (sr_sessions ?e0) = 2" and peer: "sr_peers ?e0 Key_zero = Some (Suc 0)" and rx: "sr_byRxID ?e0 = []"
    and gate: "sr_hsGate ?e0 = newTokenBucket 0 20 10"
    by (simp_all add: StartServer_def sample_server_def sample_peer_def add_peer_def Let_def)
  have s1: "se_txEpoch (sr_sessions ?e0 ! Suc 0) = None" "se_lastHsTs (sr_sessions ?e0 ! Suc 0) = 0" "se_heap (sr_sessions ?e0 ! Suc 0) = []"
    "se_paths (sr_sessions ?e0 ! Suc 0) 0 = None"
    by (simp_all add: StartServer_def sample_server_def sample_peer_def add_peer_def Let_def newSession_def)
  have al: "allocRxID [] [[1, 0, 0, 0]] = Some (1, [])" by code_simp
  have tb: "tb_allow 0 (newTokenBucket 0 20 10) = (True, (newTokenBucket 0 20 10)\<lparr>tb_tokens := 19\<rparr>)"
    by (simp add: tb_allow_def newTokenBucket_def Let_def seconds_def)
  obtain msg ep where r: "Respond plain_crypto plain_noise 0 (Some (replicate 32 0)) [] \<lparr>sh_hs = (PublicKey Some (sr_priv ?e0), Key_zero, Key_zero),
     sh_payload = \<lparr>ip_Version = ProtocolVersion, ip_Seed = replicate 32 0, ip_TimestampNs = 1\<rparr>, sh_peer = Key_zero\<rparr>
     (se_psk (sr_sessions ?e0 ! Suc 0)) 1 7 = Some (msg, ep)" using plain_Respond by blast
  define e1 where "e1 = put_session (Suc 0) ((sr_sessions ?e0 ! Suc 0)\<lparr>se_lastHsTs := 1\<rparr>)
    (?e0\<lparr>sr_hsGate := (newTokenBucket 0 20 10)\<lparr>tb_tokens := 19\<rparr>\<rparr>)"
  define s where "s = (sr_sessions ?e0 ! Suc 0)\<lparr>se_lastHsTs := 1\<rparr>"
  have e1: "sr_sessions e1 ! Suc 0 = s" "sr_byRxID e1 = []" using len rx by (simp_all add: e1_def s_def)
  have s: "se_psk s = se_psk (sr_sessions ?e0 ! Suc 0)" "se_txEpoch s = None" "se_heap s = []" "se_paths s 0 = None"
    using s1 by (simp_all add: s_def)
  obtain s2 where s2: "index_epoch 0 1 ep s = Some (0, s2)"
    using s by (simp add: index_epoch_def alloc_epoch_def registerEpoch_def get_epoch_def)
  then have "se_paths s2 0 = None" using s(4) index_epoch_tables by metis
  then obtain s3 where s3: "handshake_path 1 0 (IP4 0x01020304, 443) s2 = Some s3"
    by (simp add: handshake_path_def addServerPath_def)
  obtain pkt where pkt: "handshake_response \<lparr>h_Type = TypeHandshakeInit, h_PathID = 0, h_SessionID = 7, h_Counter = 0\<rparr> msg = Some pkt"
    by (simp add: handshake_response_def Header_Marshal_def)
  have "sample_handshake = accept_init plain_crypto plain_noise sample_env 0 1 (Some (replicate 32 0)) [] [[1, 0, 0, 0]]
    \<lparr>h_Type = TypeHandshakeInit, h_PathID = 0, h_SessionID = 7, h_Counter = 0\<rparr> (IP4 0x01020304, 443)
    \<lparr>sh_hs = (PublicKey Some (sr_priv ?e0), Key_zero, Key_zero),
     sh_payload = \<lparr>ip_Version = ProtocolVersion, ip_Seed = replicate 32 0, ip_TimestampNs = 1\<rparr>, sh_peer = Key_zero\<rparr> (Suc 0) e1"
    by (simp add: sample_handshake_def listen_datagram_def sample_init_parses(1,2) sample_init_parses(3) [unfolded HeaderSize_def]
        handleHandshakeInit_def gate tb peer s1 e1_def)
  then have "sample_handshake = Some (put_session (Suc 0)
      (if ev_ok sample_env (ToAddr (IP4 0x01020304, 443) pkt) then s3\<lparr>se_started := True\<rparr> else s3)
      (e1\<lparr>sr_byRxID := [(1, Suc 0, 0)], sr_sent := sr_sent e1 @ [ToAddr (IP4 0x01020304, 443) pkt]\<rparr>))"
    using r pkt s2 s3 by (simp add: accept_init_def e1 s(1) al Let_def)
  moreover have "se_heap s3 = [ep]" "se_paths s3 0 \<noteq> None"
    using s2 s3 s(2,3) by (auto simp: index_epoch_def alloc_epoch_def registerEpoch_def get_epoch_def handshake_path_def
        addServerPath_def upd_path_def Let_def bind_eq_Some_conv split: if_splits)
  ultimately show ?thesis using plain_Respond_keys [OF r] e1(1) len
    by (intro exI [of _ "put_session (Suc 0) (if ev_ok sample_env (ToAddr (IP4 0x01020304, 443) pkt) then s3\<lparr>se_started := True\<rparr> else s3)
      (e1\<lparr>sr_byRxID := [(1, Suc 0, 0)], sr_sent := sr_sent e1 @ [ToAddr (IP4 0x01020304, 443) pkt]\<rparr>)"] exI [of _ ep]) (simp add: e1_def)
qed

text \<open>
  Property C4. Demultiplexing is exact. In every reachable state of the server a receiver index
  leads to session \<open>i\<close> and epoch \<open>a\<close> exactly when that session has the index in its own table
  with that epoch; the epoch exists and carries the index, so no index is shared by two
  sessions, none dangles after pruning and no datagram can make the lookup panic. The epoch
  a session sends with is always in the index, so replies under it are received.
\<close>

theorem server_demux_exact:
  assumes "(server_step c ns)\<^sup>*\<^sup>* (StartServer now cfg) e"
  shows "(map_of (sr_byRxID e) rx = Some (i, a) \<longleftrightarrow>
      i < length (sr_sessions e) \<and> lookupEpoch rx (sr_sessions e ! i) = Some a) \<and>
    (map_of (sr_byRxID e) rx = Some (i, a) \<longrightarrow>
      (\<exists>ep. get_epoch a (sr_sessions e ! i) = Some ep \<and> ep_rxID ep = rx)) \<and>
    (i < length (sr_sessions e) \<and> se_txEpoch (sr_sessions e ! i) = Some a \<longrightarrow>
      (\<exists>ep. get_epoch a (sr_sessions e ! i) = Some ep \<and> map_of (sr_byRxID e) (ep_rxID ep) = Some (i, a)))"
proof -
  have ix: "index_ok e" using server_reachable_index [OF assms] by simp
  then have eq: "map_of (sr_byRxID e) rx = Some (i, a) \<longleftrightarrow>
      i < length (sr_sessions e) \<and> lookupEpoch rx (sr_sessions e ! i) = Some a" for rx i a
    unfolding index_ok_def by blast
  moreover have "\<exists>ep. get_epoch a (sr_sessions e ! i) = Some ep \<and> ep_rxID ep = rx"
    if "map_of (sr_byRxID e) rx = Some (i, a)"
    using that eq [of rx i a] epochs_ok_entries [OF index_ok_nth [OF ix]] by (auto simp: entries_ok_def get_epoch_def)
  moreover have "\<exists>ep. get_epoch a (sr_sessions e ! i) = Some ep \<and> map_of (sr_byRxID e) (ep_rxID ep) = Some (i, a)"
    if i: "i < length (sr_sessions e)" and tx: "se_txEpoch (sr_sessions e ! i) = Some a"
  proof -
    have c: "current (sr_sessions e ! i) a" using index_ok_nth [OF ix i] tx by (simp add: epochs_ok_def)
    then have "lookupEpoch (ep_rxID (se_heap (sr_sessions e ! i) ! a)) (sr_sessions e ! i) = Some a"
      by (simp add: current_def lookupEpoch_def)
    then show ?thesis using eq i c by (auto simp: current_def get_epoch_def)
  qed
  ultimately show ?thesis by blast
qed

theorem server_demux_exact_witness:
  "\<exists>e. sample_handshake = Some e \<and> map_of (sr_byRxID e) 1 = Some (Suc 0, 0) \<and>
    lookupEpoch 1 (sr_sessions e ! Suc 0) = Some 0"
proof -
  obtain e where e: "sample_handshake = Some e" "map_of (sr_byRxID e) 1 = Some (Suc 0, 0)"
    using sample_handshake_accepted by blast
  then have "(server_step plain_crypto plain_noise)\<^sup>*\<^sup>* (StartServer 0 sample_server) e"
    unfolding sample_handshake_def by (blast intro: server_step.listen)
  then show ?thesis using server_demux_exact [of plain_crypto plain_noise 0 sample_server e 1 "Suc 0" 0] e by blast
qed

section \<open>Replayed handshakes\<close>

text \<open>The timestamp of a session never goes back.\<close>

definition stamps_advance :: "ServerEng \<Rightarrow> ServerEng \<Rightarrow> bool" where
  "stamps_advance e e' \<longleftrightarrow> length (sr_sessions e') = length (sr_sessions e) \<and> sr_peers e' = sr_peers e \<and>
    sr_priv e' = sr_priv e \<and>
    (\<forall>i < length (sr_sessions e). se_lastHsTs (sr_sessions e ! i) \<le> se_lastHsTs (sr_sessions e' ! i))"

lemma stamps_advance_refl [simp, intro]: "stamps_advance e e"
  by (simp add: stamps_advance_def)

lemma stamps_advance_trans: "stamps_advance e f \<Longrightarrow> stamps_advance f g \<Longrightarrow> stamps_advance e g"
  unfolding stamps_advance_def by (metis order_trans)

lemma put_session_priv [simp]: "sr_priv (put_session i s e) = sr_priv e"
  by (simp add: put_session_def)

lemma stamps_advance_put:
  "se_lastHsTs (sr_sessions e ! i) \<le> se_lastHsTs s \<Longrightarrow> sr_sessions f = sr_sessions e \<Longrightarrow> sr_peers f = sr_peers e \<Longrightarrow>
    sr_priv f = sr_priv e \<Longrightarrow> stamps_advance e (put_session i s f)"
  unfolding stamps_advance_def put_session_fields put_session_priv length_list_update
  by (metis nth_list_update_eq nth_list_update_neq order_refl)

lemma accept_init_stamp:
  assumes "index_ok e" "i < length (sr_sessions e)"
    and "accept_init c ns env now nowUs seed rnd rands hdr src sh i e = Some e'"
  shows "stamps_advance e e' \<and> se_lastHsTs (sr_sessions e' ! i) = se_lastHsTs (sr_sessions e ! i)"
  using assms(3)
proof (cases rule: accept_init_cases)
  case (accepted rxID rest msg epoch a s t pkt)
  have free: "map_of (sr_byRxID e) rxID = None" using accepted(1) by (rule allocRxID_fresh)
  then have no: "lookupEpoch rxID (sr_sessions e ! i) = None"
    using assms(1,2) unfolding index_ok_def by (metis not_None_eq option.distinct(1))
  have rx: "ep_rxID epoch = rxID" using Respond_ids [OF accepted(2)] by simp
  note ix = index_epoch_facts(4) [OF index_ok_nth [OF assms(1,2)] no rx accepted(3)]
  have "se_lastHsTs t = se_lastHsTs (sr_sessions e ! i)"
    using ix epview_eqD(5) [OF handshake_path_epview [OF accepted(4)]] by simp
  then show ?thesis unfolding accepted(5) using assms(2) by (auto intro!: stamps_advance_put)
qed simp

lemma handshake_stamp:
  assumes "index_ok e" "tables_ok e" "handleHandshakeInit c ns env now nowUs seed rnd rands hdr d src e = Some e'"
  shows "stamps_advance e e' \<and> (sr_sessions e' \<noteq> sr_sessions e \<longrightarrow>
    (\<exists>sh i. ConsumeInit ns (sr_priv e) (drop HeaderSize d) = Inr sh \<and> sr_peers e (sh_peer sh) = Some i \<and>
      i < length (sr_sessions e) \<and> se_lastHsTs (sr_sessions e' ! i) = ip_TimestampNs (sh_payload sh)))"
  using assms(3)
proof (cases rule: handleHandshakeInit_cases)
  case (ignored gate)
  then show ?thesis by (simp add: stamps_advance_def)
next
  case (advanced gate sh i)
  note i = tables_okD(1) [OF assms(2) advanced(3)]
  let ?e = "put_session i ((sr_sessions e ! i)\<lparr>se_lastHsTs := ip_TimestampNs (sh_payload sh)\<rparr>) (e\<lparr>sr_hsGate := gate\<rparr>)"
  have "stamps_advance e ?e" by (rule stamps_advance_put) (use advanced(4) in simp_all)
  moreover have "stamps_advance ?e e' \<and> se_lastHsTs (sr_sessions e' ! i) = se_lastHsTs (sr_sessions ?e ! i)"
    by (rule accept_init_stamp [OF stamped_index [OF assms(1) i] _ advanced(5)]) (simp add: i)
  ultimately have "stamps_advance e e'" "se_lastHsTs (sr_sessions e' ! i) = ip_TimestampNs (sh_payload sh)"
    using stamps_advance_trans i by auto
  then show ?thesis using advanced(2,3) i by blast
qed

lemma handshake_index:
  assumes "index_ok e" "tables_ok e" "handleHandshakeInit c ns env now nowUs seed rnd rands hdr d src e = Some e'"
  shows "index_ok e' \<and> tables_ok e'"
  using assms(3)
proof (cases rule: handleHandshakeInit_cases)
  case (ignored gate)
  then show ?thesis using assms(1,2) by (simp add: index_ok_def tables_ok_def)
next
  case (advanced gate sh i)
  note i = tables_okD(1) [OF assms(2) advanced(3)]
  have "index_ok e'" by (rule accept_init_index [OF stamped_index [OF assms(1) i] _ advanced(5)]) (simp add: i)
  moreover have "tables_ok e'"
    by (rule accept_init_tables [OF _ _ advanced(5)]) (use assms(2) i in \<open>simp_all add: tables_ok_def\<close>)
  ultimately show ?thesis by simp
qed

lemma server_step_stamps:
  assumes "server_step c ns e e'" "index_ok e" "tables_ok e"
  shows "stamps_advance e e'"
  using assms
proof (induction rule: server_step.induct)
  case (listen env now nowUs seed rnd rands d src e e')
  from listen(1) show ?case
  proof (cases rule: listen_datagram_cases)
    case (handshake hdr)
    then show ?thesis using handshake_stamp listen by blast
  next
    case (received hdr i ep b s)
    have "epochs_ok (sr_sessions e ! i)" using index_ok_nth listen tables_okD(3) received(2) by blast
    then show ?thesis unfolding received(4)
      using handleDatagram_epochs(3) [OF _ received(3)] by (intro stamps_advance_put) simp_all
  qed simp
next
  case (tun env now ip e e')
  from tun(1) show ?case
  proof (cases rule: server_tun_packet_cases)
    case (sent i s lm)
    have "epview s = epview (sr_sessions e ! i)" using epview_sendData [OF sent(2)] by (simp add: with_limiter_def)
    from epview_eqD(5) [OF this] show ?thesis unfolding sent(3) by (intro stamps_advance_put) simp_all
  qed simp
next
  case (flush i e env now s)
  show ?case using epview_eqD(5) [OF epview_flusher_tick [OF flush(2)]] by (intro stamps_advance_put) simp_all
next
  case (probe i e env now nowUs v v' e')
  then obtain ids s where t: "prober_tick env now nowUs (v, sr_sessions e ! i) = Some (ids, v', s)"
    and e': "e' = unindexRxIDs ids (put_session i s e)"
    by (auto simp: server_prober_tick_def bind_eq_Some_conv)
  obtain s1 where v: "epview s1 = epview (sr_sessions e ! i)" and p: "(ids, s) = pruneEpochs now s1 \<or> ids = [] \<and> s = s1"
    by (rule prober_tick_epochs [OF t])
  have "se_lastHsTs s = se_lastHsTs s1" using p by (auto simp: pruneEpochs_def)
  then have "se_lastHsTs s = se_lastHsTs (sr_sessions e ! i)" using epview_eqD(5) [OF v] by simp
  then have "stamps_advance e (put_session i s e)" by (intro stamps_advance_put) simp_all
  then show ?case by (simp add: e' stamps_advance_def unindexRxIDs_def)
qed

interpretation server_stamps: evolving_machine "server_step c ns" "\<lambda>e. index_ok e \<and> tables_ok e" stamps_advance for c ns
  by unfold_locales (use stamps_advance_refl stamps_advance_trans server_step_stamps in blast)+

lemma server_run_stamps:
  assumes "(server_step c ns)\<^sup>*\<^sup>* e e'" "index_ok e" "tables_ok e"
  shows "stamps_advance e e' \<and> index_ok e' \<and> tables_ok e'"
  using server_stamps.run_rel server_index.reachable_inv assms by blast

text \<open>
  Property C5. A handshake message works once. If a first message had any effect on the server's
  sessions, then the same Noise message presented again, after anything else the server did
  and under any outer header and source address, changes no session, creates no
  receiver index and draws no response.
\<close>

theorem handshake_replay_rejected:
  assumes "(server_step c ns)\<^sup>*\<^sup>* (StartServer start cfg) e"
    and "handleHandshakeInit c ns env now nowUs seed rnd rands hdr d src e = Some e1" "sr_sessions e1 \<noteq> sr_sessions e"
    and "(server_step c ns)\<^sup>*\<^sup>* e1 e2" "drop HeaderSize d' = drop HeaderSize d"
    and "handleHandshakeInit c ns env' now' nowUs' seed' rnd' rands' hdr' d' src' e2 = Some e3"
  shows "sr_sessions e3 = sr_sessions e2 \<and> sr_byRxID e3 = sr_byRxID e2 \<and> sr_sent e3 = sr_sent e2"
proof -
  have ix: "index_ok e" "tables_ok e" using server_reachable_index [OF assms(1)] by auto
  have ix1: "index_ok e1" "tables_ok e1" using handshake_index [OF ix assms(2)] by auto
  obtain sh i where sh: "ConsumeInit ns (sr_priv e) (drop HeaderSize d) = Inr sh" "sr_peers e (sh_peer sh) = Some i"
    "i < length (sr_sessions e)" "se_lastHsTs (sr_sessions e1 ! i) = ip_TimestampNs (sh_payload sh)"
    using handshake_stamp [OF ix assms(2)] assms(3) by blast
  have e1: "stamps_advance e e1" using handshake_stamp [OF ix assms(2)] by blast
  have e2: "stamps_advance e1 e2" using server_run_stamps [OF assms(4) ix1] by blast
  have late: "ip_TimestampNs (sh_payload sh) \<le> se_lastHsTs (sr_sessions e2 ! i)"
    using e1 e2 sh(3,4) unfolding stamps_advance_def by metis
  have same: "sr_priv e2 = sr_priv e" "sr_peers e2 = sr_peers e" using e1 e2 by (simp_all add: stamps_advance_def)
  from assms(6) show ?thesis
  proof (cases rule: handleHandshakeInit_cases)
    case (advanced gate sh' i')
    then have "sh' = sh" "i' = i" using sh(1,2) same assms(5) by auto
    then show ?thesis using advanced(4) late by simp
  qed simp
qed

theorem handshake_replay_rejected_witness:
  "\<exists>e e'. sample_handshake = Some e \<and>
    handleHandshakeInit plain_crypto plain_noise sample_env 9 9 None [] [] \<lparr>h_Type = TypeHandshakeInit, h_PathID = 3,
      h_SessionID = 5, h_Counter = 0\<rparr> sample_init (IP4 0x05060708, 80) e = Some e' \<and>
    sr_sessions e' = sr_sessions e \<and> sr_byRxID e' = sr_byRxID e \<and> sr_sent e' = sr_sent e"
proof -
  let ?h = "handleHandshakeInit plain_crypto plain_noise sample_env" and ?e0 = "StartServer 0 sample_server"
  obtain e where e: "sample_handshake = Some e" "map_of (sr_byRxID e) 1 = Some (Suc 0, 0)"
    using sample_handshake_accepted by blast
  have h: "?h 0 1 (Some (replicate 32 0)) [] [[1, 0, 0, 0]] \<lparr>h_Type = TypeHandshakeInit, h_PathID = 0,
      h_SessionID = 7, h_Counter = 0\<rparr> sample_init (IP4 0x01020304, 443) ?e0 = Some e"
    using e(1) by (simp add: sample_handshake_def listen_datagram_def sample_init_parses(1,2))
  have ix: "index_ok ?e0" "tables_ok ?e0" using StartServer_index StartServer_inv by (simp_all add: server_inv_def)
  have "sr_byRxID ?e0 = []" by (simp add: StartServer_def sample_server_def add_peer_def Let_def)
  then have ne: "sr_sessions e \<noteq> sr_sessions ?e0"
    using e(2) handshake_index [OF ix h] ix(1) unfolding index_ok_def by (metis map_of.simps(1) option.distinct(1))
  obtain sh i where sh: "ConsumeInit plain_noise (sr_priv ?e0) (drop HeaderSize sample_init) = Inr sh"
    "sr_peers ?e0 (sh_peer sh) = Some i" "se_lastHsTs (sr_sessions e ! i) = ip_TimestampNs (sh_payload sh)"
    and same: "sr_priv e = sr_priv ?e0" "sr_peers e = sr_peers ?e0"
    using handshake_stamp [OF ix h] ne by (auto simp: stamps_advance_def)
  have "\<exists>e'. ?h 9 9 None [] [] \<lparr>h_Type = TypeHandshakeInit, h_PathID = 3, h_SessionID = 5, h_Counter = 0\<rparr>
      sample_init (IP4 0x05060708, 80) e = Some e'"
    using sh same by (cases "tb_allow 9 (sr_hsGate e)") (simp add: handleHandshakeInit_def Let_def)
  then obtain e' where e': "?h 9 9 None [] [] \<lparr>h_Type = TypeHandshakeInit, h_PathID = 3, h_SessionID = 5, h_Counter = 0\<rparr>
      sample_init (IP4 0x05060708, 80) e = Some e'" by blast
  show ?thesis
    using handshake_replay_rejected [OF rtranclp.rtrancl_refl h ne rtranclp.rtrancl_refl refl e'] e(1) e' by blast
qed

section \<open>The client's epochs\<close>

lemma epview_links:
  "swapConn i conn s = Some s' \<Longrightarrow> epview s' = epview s"
  "announcePath env nowUs i s = Some s' \<Longrightarrow> epview s' = epview s"
  "markLinkGone i s = Some s' \<Longrightarrow> epview s' = epview s"
  by (auto simp: swapConn_def announcePath_def markLinkGone_def Let_def bind_eq_Some_conv
      split: option.splits if_splits dest!: sendPathInit_quiet epview_quiet)

lemma epview_add_link: "add_link env pf nowUs n h conn srv s = Some s' \<Longrightarrow> epview s' = epview s"
  by (auto simp: add_link_def Let_def bind_eq_Some_conv split: option.splits dest!: epview_links)

lemma epview_rebind_link: "rebind_link env nowUs i conn s = Some s' \<Longrightarrow> epview s' = epview s"
  by (auto simp: rebind_link_def Let_def bind_eq_Some_conv dest!: epview_links)

lemma epview_want_links:
  "want_links env pf nowUs byIf ws e = Some e' \<Longrightarrow> epview (ce_sess e') = epview (ce_sess e)"
proof (induction ws arbitrary: e)
  case (Cons w ws)
  then obtain f where f: "want_link env pf nowUs byIf w e = Some f" "epview (ce_sess e') = epview (ce_sess f)"
    by (auto simp: bind_eq_Some_conv)
  have "epview (ce_sess f) = epview (ce_sess e)" using f(1)
    by (cases w) (auto simp: want_link_def Let_def bind_eq_Some_conv split: option.splits if_splits
        dest!: epview_links(3) epview_add_link epview_rebind_link)
  then show ?case using f(2) by simp
qed simp

lemma epview_drop_links:
  "drop_links want byIf js s = Some s' \<Longrightarrow> epview s' = epview s"
  "mark_if_gone n js s = Some s' \<Longrightarrow> epview s' = epview s"
  by (induction js arbitrary: s) (auto simp: bind_eq_Some_conv split: option.splits if_splits dest!: epview_links(3))

lemma epview_setupLinks: "setupLinks env pf nowUs e = Some e' \<Longrightarrow> epview (ce_sess e') = epview (ce_sess e)"
  by (auto simp: setupLinks_def Let_def bind_eq_Some_conv simp del: MaxPaths_def
      dest!: epview_want_links epview_drop_links(1))

lemma epview_control:
  "AddLink env pf nowUs n m e = Some (Inr e') \<Longrightarrow> epview (ce_sess e') = epview (ce_sess e)"
  "RemoveLink n e = Some (Inr e') \<Longrightarrow> epview (ce_sess e') = epview (ce_sess e)"
  "Engine_SetMode md e = Inr e' \<Longrightarrow> epview (ce_sess e') = epview (ce_sess e)"
  by (auto simp: AddLink_def RemoveLink_def Engine_SetMode_def Let_def bind_eq_Some_conv simp del: MaxPaths_def
      split: if_splits option.splits prod.splits dest!: epview_setupLinks epview_drop_links(2) epview_links(3))

lemma epview_announce_all: "announce_all env nowUs ep js s = Some s' \<Longrightarrow> epview s' = epview s"
  by (induction js arbitrary: s)
    (auto simp: bind_eq_Some_conv split: option.splits if_splits dest!: sendPathInit_quiet epview_quiet)

definition client_epochs :: "session \<Rightarrow> bool" where
  "client_epochs s \<longleftrightarrow> epochs_ok s \<and> se_pending s = None"

lemma client_epochs_rx: "client_epochs s \<Longrightarrow> rxview s' = rxview s \<Longrightarrow> client_epochs s'"
  using rx_epochs_ok rxview_eqD(3) unfolding client_epochs_def by metis

lemmas client_epochs_frame = client_epochs_rx [OF _ rx_of]

lemma Finish_rxID: "fst (Finish c ns now ch m) = Inr ep \<Longrightarrow> ep_rxID ep = ch_rxID ch"
  by (auto simp: Finish_def split: option.splits prod.splits sum.splits dest!: newEpoch_fields(2))

text \<open>A completed handshake: the new epoch is registered, then the paths are announced.\<close>

lemma hs_response_facts:
  assumes "hs_response c ns env now nowUs rxID ch resp s = Some (Inr s')" "client_epochs s"
  obtains epoch s1 where "ep_rxID epoch = ch_rxID ch" "epview s' = epview s1"
    "registerEpoch now (length (se_heap s)) True (s\<lparr>se_heap := se_heap s @ [epoch]\<rparr>) = Some s1"
    "entries_ok (s\<lparr>se_heap := se_heap s @ [epoch]\<rparr>)"
proof -
  obtain epoch s1 where f: "fst (Finish c ns now ch (snd resp)) = Inr epoch"
    and r: "registerEpoch now (length (se_heap s)) True (s\<lparr>se_heap := se_heap s @ [epoch]\<rparr>) = Some s1"
    and a: "announce_all env nowUs (length (se_heap s)) [0..<MaxPaths] s1 = Some s'"
    using assms(1) by (auto simp: hs_response_def alloc_epoch_def bind_eq_Some_conv simp del: MaxPaths_def
        split: if_splits sum.splits)
  have "entries_ok (s\<lparr>se_heap := se_heap s @ [epoch]\<rparr>)"
    using assms(2) by (auto simp: client_epochs_def entries_ok_def epochs_ok_def lookupEpoch_def nth_append less_Suc_eq)
  then show ?thesis using that Finish_rxID [OF f] epview_announce_all [OF a] r by blast
qed

lemma hs_response_epochs:
  assumes "hs_response c ns env now nowUs rxID ch resp s = Some (Inr s')" "client_epochs s"
  shows "client_epochs s'"
proof -
  obtain epoch s1 where v: "epview s' = epview s1"
    and r: "registerEpoch now (length (se_heap s)) True (s\<lparr>se_heap := se_heap s @ [epoch]\<rparr>) = Some s1"
    and en: "entries_ok (s\<lparr>se_heap := se_heap s @ [epoch]\<rparr>)"
    by (rule hs_response_facts [OF assms])
  have p: "se_pending (s\<lparr>se_heap := se_heap s @ [epoch]\<rparr>) = None"
    "length (se_heap s) < length (se_heap (s\<lparr>se_heap := se_heap s @ [epoch]\<rparr>))"
    using assms(2) by (simp_all add: client_epochs_def)
  have "client_epochs s1" using registerEpoch_facts(1,5) [OF en p(1) r p(2) refl] by (simp add: client_epochs_def)
  then show ?thesis using v client_epochs_frame by blast
qed

lemma hs_start_epview:
  "hs_start ns env rands seed rnd ts e = Some (rxID, ch, e') \<Longrightarrow> epview (ce_sess e') = epview (ce_sess e)"
  by (auto simp: hs_start_def bind_eq_Some_conv Let_def split: if_splits)

lemma prober_tick_client:
  assumes "prober_tick env now nowUs (v, s) = Some (ids, v', s')" "client_epochs s"
  shows "client_epochs s'"
proof -
  obtain s1 where v: "epview s1 = epview s" and p: "(ids, s') = pruneEpochs now s1 \<or> ids = [] \<and> s' = s1"
    by (rule prober_tick_epochs [OF assms(1)])
  have c: "client_epochs s1" using client_epochs_frame [OF assms(2) v] .
  then show ?thesis using p pruneEpochs_facts(1) [of s1 now ids s']
    by (auto simp: client_epochs_def pruneEpochs_def)
qed

lemma client_step_epochs: "client_step c ns e e' \<Longrightarrow> client_epochs (ce_sess e) \<Longrightarrow> client_epochs (ce_sess e')"
proof (induction rule: client_step.induct)
  case (tun env now ip e e')
  then show ?case using client_epochs_frame epview_sendData
    by (auto simp: client_tun_packet_def bind_eq_Some_conv split: if_splits)
next
  case (datagram env now nowUs d e e')
  then have "rxview (ce_sess e') = rxview (ce_sess e)" using handleDatagram_settled
    by (auto simp: path_datagram_def bind_eq_Some_conv client_epochs_def split: if_splits sum.splits option.splits)
  then show ?case using client_epochs_rx datagram(2) by blast
next
  case (init env rands seed rnd ts e rxID ch e')
  then show ?case using client_epochs_frame hs_start_epview by blast
next
  case (response e r rs env now nowUs rxID ch s)
  then show ?case by (simp add: hs_response_epochs)
next
  case (links env pf nowUs e e')
  then show ?case using client_epochs_frame epview_setupLinks by blast
next
  case (add env pf nowUs ifname mbps e e')
  then show ?case using client_epochs_frame epview_control by blast
next
  case (remove ifname e e')
  then show ?case using client_epochs_frame epview_control by blast
next
  case (mode m e e')
  then show ?case using client_epochs_frame epview_control by blast
next
  case (flush env now e s)
  then show ?case using client_epochs_frame epview_flusher_tick by fastforce
next
  case (probe env now nowUs v e ids v' s)
  then show ?case by (simp add: prober_tick_client)
next
  case (stop env nowUs e e')
  then have "epview (ce_sess e') = epview (ce_sess e)"
    by (auto simp: Engine_Stop_def closeConns_def bind_eq_Some_conv dest!: sendCloseAll_quiet epview_quiet)
  then show ?case using client_epochs_frame stop(2) by blast
qed simp

lemma StartClient_epochs: "StartClient env pf nowUs srv tunName cfg = Some e \<Longrightarrow> client_epochs (ce_sess e)"
proof -
  have "client_epochs (newSession conf nm k psk m)" for conf nm k psk m
    using newSession_epochs(1) by (simp add: client_epochs_def) (simp add: newSession_def)
  then have k: "client_epochs t" if "epview t = epview (newSession conf nm k psk m)" for t conf nm k psk m
    using that client_epochs_frame by blast
  assume "StartClient env pf nowUs srv tunName cfg = Some e"
  then show "client_epochs (ce_sess e)"
    by (auto simp: StartClient_def bind_eq_Some_conv Let_def dest!: epview_setupLinks intro: k)
qed

interpretation client_keys: machine "client_step c ns" "\<lambda>e. client_epochs (ce_sess e)" for c ns
  by unfold_locales (rule client_step_epochs)

lemmas client_reachable_epochs = client_keys.reachable_inv

section \<open>Rekeying\<close>

text \<open>What registering a new epoch and pruning later does to the index of the old one.\<close>

lemma superseded_lookup:
  assumes "epochs_ok s" "se_txEpoch s = Some old" "rx = ep_rxID (se_heap s ! old)"
    and "registerEpoch now ep True s' = Some s1" "se_epochs s' = se_epochs s" "se_txEpoch s' = Some old"
    and "get_epoch old s' = Some e" "ep_rxID e = rx" "get_epoch ep s' = Some e'" "ep_rxID e' \<noteq> rx"
  shows "map_of (se_epochs s1) rx = Some \<lparr>ee_epoch = old, ee_supersedes = Some now\<rparr>"
proof -
  have "map_of (se_epochs s') rx = Some \<lparr>ee_epoch = old, ee_supersedes = None\<rparr>"
    using assms(1,2,3,5) by (auto simp: epochs_ok_def current_def)
  moreover from this have "get_epoch ep (supersede now rx s') = Some e'"
    using assms(9) by (simp add: supersede_def get_epoch_def split: if_splits)
  ultimately show ?thesis using assms(4,6,7,8,10)
    by (auto simp: registerEpoch_def supersede_def Let_def bind_eq_Some_conv update_conv')
qed


definition sample_hs :: "u32 \<Rightarrow> (bytes \<times> bytes \<times> bytes) ClientHandshake" where
  "sample_hs rx = \<lparr>ch_hs = ([], [], []), ch_seed = [], ch_rxID = rx\<rparr>"

lemma sample_response:
  assumes "client_epochs s" "se_paths s = (\<lambda>_. None)"
  shows "\<exists>s'. hs_response plain_crypto plain_noise env now nowUs rx (sample_hs rx) (rx, replicate 68 0) s = Some (Inr s') \<and>
    client_epochs s' \<and> se_paths s' = (\<lambda>_. None) \<and> se_txEpoch s' = Some (length (se_heap s)) \<and>
    (\<exists>ep. se_heap s' = se_heap s @ [ep] \<and> ep_rxID ep = rx)"
proof -
  have "ParseRespPayload (replicate 36 0) = Inr \<lparr>rp_Seed = replicate 32 0, rp_SessionID = 0\<rparr>" by code_simp
  moreover obtain ep where ep: "newEpoch plain_crypto now [] (replicate 32 0) [] 0 rx True = Some ep" using plain_newEpoch by blast
  ultimately have fin: "fst (Finish plain_crypto plain_noise now (sample_hs rx) (replicate 68 0)) = Inr ep"
    by (simp add: Finish_def sample_hs_def plain_noise_def)
  let ?s = "s\<lparr>se_heap := se_heap s @ [ep]\<rparr>"
  have ok: "epochs_ok ?s"
    using assms(1) by (auto simp: client_epochs_def epochs_ok_def current_def nth_append less_Suc_eq)
  then obtain s1 where r: "registerEpoch now (length (se_heap s)) True ?s = Some s1"
    using registerEpoch_total [OF ok, of "length (se_heap s)"] by auto
  have p: "se_pending ?s = None" using assms(1) by (simp add: client_epochs_def)
  note f = registerEpoch_facts [OF epochs_ok_entries [OF ok] p r _ refl]
  have s1: "se_paths s1 = (\<lambda>_. None)" using registerEpoch_tables [OF r] assms(2) by simp
  have "announce_all env nowUs (length (se_heap s)) js s1 = Some s1" for js using s1 by (induction js) simp_all
  then have h: "hs_response plain_crypto plain_noise env now nowUs rx (sample_hs rx) (rx, replicate 68 0) s = Some (Inr s1)"
    using r fin by (simp add: hs_response_def alloc_epoch_def)
  show ?thesis
    using hs_response_epochs [OF h assms(1)] h s1 f(3,4) newEpoch_fields(2) [OF ep] by auto
qed


text \<open>
  An epoch that never got confirmed is never forgotten. If a second handshake
  replaces the pending epoch \<open>a\<close> before the peer used it, then after the second epoch is
  confirmed no pruning at any later time removes the receiver index of \<open>a\<close>: only the epoch that
  was used for sending is marked as superseded.
\<close>

theorem unconfirmed_epoch_stays:
  assumes "epochs_ok s" "se_pending s = Some a" "se_txEpoch s = Some tx" "tx \<noteq> a" "rx = ep_rxID (se_heap s ! a)"
    and "index_epoch now rx' epoch s = Some (b, s1)" "ep_rxID epoch = rx'" "lookupEpoch rx' s = None"
    and "confirm_epoch now' b s1 = Some s2"
  shows "se_txEpoch s2 = Some b \<and> (\<forall>t. lookupEpoch rx (snd (pruneEpochs t s2)) = Some a)"
proof -
  let ?b = "length (se_heap s)"
  have a: "map_of (se_epochs s) rx = Some \<lparr>ee_epoch = a, ee_supersedes = None\<rparr>" "a < ?b"
    and t: "map_of (se_epochs s) (ep_rxID (se_heap s ! tx)) = Some \<lparr>ee_epoch = tx, ee_supersedes = None\<rparr>" "tx < ?b"
    using assms(1,2,3,5) by (auto simp: epochs_ok_def current_def)
  have ne: "rx \<noteq> rx'" "ep_rxID (se_heap s ! tx) \<noteq> rx" using a t assms(4,8) by (auto simp: lookupEpoch_def)
  have b: "b = ?b" and s1: "s1 = s\<lparr>se_heap := se_heap s @ [epoch],
      se_epochs := AList.update rx' \<lparr>ee_epoch = ?b, ee_supersedes = None\<rparr> (se_epochs s), se_pending := Some ?b\<rparr>"
    using assms(3,6) by (auto simp: index_epoch_def alloc_epoch_def Let_def)
  have tx: "se_txEpoch s1 = Some tx" using assms(3) by (simp add: s1)
  have c: "registerEpoch now' ?b True (s1\<lparr>se_pending := None\<rparr>) = Some s2"
    using assms(9) b by (simp add: confirm_epoch_def s1)
  have m: "map_of (se_epochs s2) rx = map_of (se_epochs s) rx \<and> se_txEpoch s2 = Some b"
    using c t(2) tx ne assms(7) b
    by (auto simp: registerEpoch_def get_epoch_def Let_def s1 supersede_def nth_append update_conv' split: option.splits if_splits)
  have "epochs_ok s1" using index_epoch_facts(1) [OF assms(1,8,7,6)] .
  then have ok: "epochs_ok s2" using confirm_epoch_facts(1) assms(9) by blast
  have "lookupEpoch rx (snd (pruneEpochs t s2)) = Some a" for t
  proof -
    obtain ids s3 where pr: "pruneEpochs t s2 = (ids, s3)" by fastforce
    show ?thesis using pruneEpochs_facts(2,4) [OF ok pr, of rx] m a(1) by (simp add: pr expired_entry_def lookupEpoch_def)
  qed
  then show ?thesis using m by blast
qed

definition sample_epoch :: "u32 \<Rightarrow> Epoch" where
  "sample_epoch rx = \<lparr>ep_txID = 0, ep_rxID = rx, ep_createdAt = 0, ep_send = (\<lambda>_. None), ep_recv = (\<lambda>_. None),
     ep_ctr = (\<lambda>_. 0), ep_win = (\<lambda>_. Window_zero)\<rparr>"

definition sample_session :: session where
  "sample_session = sr_sessions (StartServer 0 sample_server) ! 0"

theorem unconfirmed_epoch_stays_witness:
  "\<exists>s s1 s2. se_pending s = Some 1 \<and> index_epoch 3 3 (sample_epoch 3) s = Some (2, s1) \<and>
    confirm_epoch 4 2 s1 = Some s2 \<and> se_txEpoch s2 = Some 2 \<and> lookupEpoch 2 (snd (pruneEpochs 1000000000000 s2)) = Some 1"
proof -
  have ok0: "epochs_ok sample_session" "lookupEpoch rx sample_session = None" for rx
    using index_ok_nth [OF StartServer_index, of 0 0 sample_server]
    by (simp_all add: sample_session_def) (simp_all add: StartServer_def sample_server_def add_peer_def Let_def newSession_def lookupEpoch_def)
  have h0: "se_heap sample_session = []" "se_txEpoch sample_session = None"
    by (simp_all add: sample_session_def StartServer_def sample_server_def add_peer_def Let_def newSession_def)
  obtain t0 where t0: "index_epoch 1 1 (sample_epoch 1) sample_session = Some (0, t0)" "se_txEpoch t0 = Some 0"
    using h0 by (simp add: index_epoch_def alloc_epoch_def registerEpoch_def get_epoch_def)
  note f0 = index_epoch_facts [OF ok0(1) ok0(2) _ t0(1)]
  have l0: "lookupEpoch 2 t0 = None" "se_heap t0 = [sample_epoch 1]" "epochs_ok t0"
    using f0 ok0(2) h0 by (simp_all add: sample_epoch_def)
  obtain s where s: "index_epoch 2 2 (sample_epoch 2) t0 = Some (1, s)" "se_txEpoch s = Some 0" "se_pending s = Some 1"
    using t0(2) l0(2) by (simp add: index_epoch_def alloc_epoch_def)
  note f = index_epoch_facts [OF l0(3) l0(1) _ s(1)]
  have l: "lookupEpoch 3 s = None" "se_heap s = [sample_epoch 1, sample_epoch 2]" "epochs_ok s"
    using f f0 l0(2) ok0(2) by (simp_all add: sample_epoch_def)
  obtain s1 where s1: "index_epoch 3 3 (sample_epoch 3) s = Some (2, s1)"
    using s(2) l(2) by (simp add: index_epoch_def alloc_epoch_def)
  have "epochs_ok s1" using index_epoch_facts(1) [OF l(3,1) _ s1] by (simp add: sample_epoch_def)
  moreover have "2 < length (se_heap s1)" using index_epoch_facts(5) [OF l(3,1) _ s1] l(2) by (simp add: sample_epoch_def)
  ultimately have "\<exists>s2. confirm_epoch 4 2 s1 = Some s2"
    using registerEpoch_total [of "s1\<lparr>se_pending := None\<rparr>" 2 4]
    by (simp add: confirm_epoch_def epochs_ok_def current_def)
  then obtain s2 where s2: "confirm_epoch 4 2 s1 = Some s2" by blast
  show ?thesis using unconfirmed_epoch_stays [OF l(3) s(3,2) _ _ s1 _ l(1) s2, of 2] l(2) s(3) s1 s2
    by (auto simp: sample_epoch_def)
qed

end
