(* ===== verification/Delivery.thy ===== *)
theory Delivery
  imports Epochs_Correct
begin

text \<open>
  A packet on its way: from the TUN device of one session through scheduler, header, epoch and
  socket, and through header, epoch, replay window and dispatch of the other session into its
  reorder buffer; and a whole bonded stream, sent over several paths and put in order again.
\<close>

section \<open>Sealed datagrams\<close>

text \<open>One direction of a tunnel: what \<open>a\<close> seals, \<open>b\<close> opens; the tag has 16 bytes.\<close>

definition channel :: "Epoch \<Rightarrow> Epoch \<Rightarrow> bool" where
  "channel a b \<longleftrightarrow> (\<forall>p < MaxPaths. \<exists>k. ep_send a p = Some k \<and> ep_recv b p = Some k \<and>
    (\<forall>nonce pt ad. length nonce = NonceSize \<longrightarrow> a_Open k nonce (a_Seal k nonce pt ad) ad = Some pt \<and>
      length (a_Seal k nonce pt ad) = length pt + TagSize))"

lemma channel_epochs:
  assumes "aead_correct c" "newEpoch c now cs ss cb tx rx cl = Some a" "paired a b"
  shows "channel a b"
  unfolding channel_def
proof (intro allI impI)
  fix p :: nat
  assume p: "p < MaxPaths"
  then obtain k where k: "ep_send a p = Some k" "ep_recv b p = Some k"
    using assms(3) unfolding paired_def MaxPaths_def by (metis not_None_eq)
  have "p = unat (of_nat p :: byte)" using slot_byte [OF p] by simp
  then obtain key where "chacha_New c key = Some k"
    using newEpoch_from_chacha(1) [OF assms(2), of "of_nat p"] k(1) p by auto
  then show "\<exists>k. ep_send a p = Some k \<and> ep_recv b p = Some k \<and>
      (\<forall>nonce pt ad. length nonce = NonceSize \<longrightarrow> a_Open k nonce (a_Seal k nonce pt ad) ad = Some pt \<and>
        length (a_Seal k nonce pt ad) = length pt + TagSize)"
    using assms(1) k unfolding aead_correct_def by blast
qed

text \<open>An outer header with anything behind it.\<close>

lemma header_append:
  assumes "unat (h_PathID h) < MaxPaths" "Header_Marshal h (replicate HeaderSize 0) = Some hdr"
  shows "length hdr = HeaderSize" "ParseHeader (hdr @ rest) = Inr h"
proof -
  show l: "length hdr = HeaderSize" using header.put_frame [OF assms] by simp
  have g: "ParseHeader hdr = Inr h" using header.get_put [OF assms] .
  have "gslice i n (hdr @ rest) = gslice i n hdr" if "i + n \<le> 16" for i n
    using that l by (simp add: gslice_def)
  then have "ParseHeader (hdr @ rest) = ParseHeader hdr"
    using l by (simp add: ParseHeader_def nth_append)
  then show "ParseHeader (hdr @ rest) = Inr h" using g by simp
qed

lemma data_header_append:
  assumes "fits48 seq" "PutDataHeader (replicate DataHeaderSize 0) seq flags = Some hdr"
  shows "length hdr = DataHeaderSize" "ParseDataHeader (hdr @ ip) = Inr (seq, flags, ip)"
proof -
  show l: "length hdr = DataHeaderSize"
    using data_header.put_frame [of "(seq, flags)" "replicate DataHeaderSize 0" hdr] assms by simp
  have "data_header_fields hdr = Inr (seq, flags)"
    using data_header.get_put [of "(seq, flags)" "replicate DataHeaderSize 0" hdr] assms by simp
  then have "get_le (gslice 0 6 hdr) = seq" "hdr ! 6 = flags"
    using l by (auto simp: data_header_fields_def ParseDataHeader_def)
  moreover have "gslice 0 6 (hdr @ ip) = gslice 0 6 hdr" using l by (simp add: gslice_def)
  ultimately show "ParseDataHeader (hdr @ ip) = Inr (seq, flags, ip)"
    using l by (simp add: ParseDataHeader_def nth_append)
qed

definition bump :: "byte \<Rightarrow> Epoch \<Rightarrow> Epoch" where
  "bump pid e = e\<lparr>ep_ctr := (ep_ctr e)(unat pid := ep_ctr e (unat pid) + 1)\<rparr>"

lemma seal_datagram_sealed:
  assumes "get_epoch x s = Some ea" "unat pid < MaxPaths" "channel ea eb"
  obtains d where "seal_datagram x typ pid pt s = Some (d, put_epoch x (bump pid ea) s)"
    "length d = HeaderSize + length pt + TagSize"
    "ParseHeader d = Inr \<lparr>h_Type = typ, h_PathID = pid, h_SessionID = ep_txID ea,
       h_Counter = ep_ctr ea (unat pid) + 1\<rparr>"
    "Epoch_Open eb pid (ep_ctr ea (unat pid) + 1) [] (drop HeaderSize d) (take HeaderSize d) = Some (Inr pt)"
proof -
  define h where "h = \<lparr>h_Type = typ, h_PathID = pid, h_SessionID = ep_txID ea, h_Counter = ep_ctr ea (unat pid) + 1\<rparr>"
  obtain k where k: "ep_send ea (unat pid) = Some k" "ep_recv eb (unat pid) = Some k"
    "\<And>nonce pt ad. length nonce = NonceSize \<Longrightarrow> a_Open k nonce (a_Seal k nonce pt ad) ad = Some pt \<and>
      length (a_Seal k nonce pt ad) = length pt + TagSize"
    using assms(2,3) unfolding channel_def by meson
  obtain hdr where hdr: "Header_Marshal h (replicate HeaderSize 0) = Some hdr"
    using header.put_succeeds [of "replicate HeaderSize 0" h] by auto
  have pid: "unat (h_PathID h) < MaxPaths" using assms(2) by (simp add: h_def)
  note ha = header_append [OF pid hdr]
  let ?ct = "a_Seal k (nonceFor (ep_ctr ea (unat pid) + 1)) pt hdr"
  have "seal_datagram x typ pid pt s = Some (hdr @ ?ct, put_epoch x (bump pid ea) s)"
    using assms(1,2) hdr k(1) by (simp add: seal_datagram_def NextCounter_def Let_def Epoch_Seal_def h_def bump_def not_le)
  moreover have "Epoch_Open eb pid (ep_ctr ea (unat pid) + 1) [] (drop HeaderSize (hdr @ ?ct)) (take HeaderSize (hdr @ ?ct)) = Some (Inr pt)"
    using ha(1) k(2,3) assms(2) by (simp add: Epoch_Open_def not_le)
  ultimately show ?thesis using that [of "hdr @ ?ct"] ha k(3) by (simp add: h_def)
qed

section \<open>Sending one data packet\<close>

fun wire_of :: "Sent \<Rightarrow> bytes" where
  "wire_of (ToConn c d) = d"
| "wire_of (ToAddr a d) = d"

definition can_transmit :: "session \<Rightarrow> byte \<Rightarrow> bool" where
  "can_transmit s pid \<longleftrightarrow> (\<exists>p. se_paths s (unat pid) = Some p \<and> pa_ID p = pid \<and>
     (if en_role (se_eng s) = RoleClient then se_conns s (unat pid) \<noteq> None else AddrPort_IsValid (Endpoint p)))"

lemma can_transmit_sent [simp]:
  "can_transmit (s\<lparr>se_sent := w\<rparr>) = can_transmit s" "can_transmit (put_epoch x e s) = can_transmit s"
  "can_transmit (upd_path i (OnDataSent n) s) = can_transmit s"
  "se_sent (upd_path i f s) = se_sent s" "se_globalSeq (upd_path i f s) = se_globalSeq s"
  "se_sent (put_epoch x e s) = se_sent s" "se_globalSeq (put_epoch x e s) = se_globalSeq s"
proof -
  have "pa_ID (OnDataSent n p) = pa_ID p" "Endpoint (OnDataSent n p) = Endpoint p" for p
    by (simp_all add: OnDataSent_def Endpoint_def)
  then show "can_transmit (upd_path i (OnDataSent n) s) = can_transmit s"
    by (auto simp: can_transmit_def upd_path_def fun_eq_iff)
qed (simp_all add: can_transmit_def put_epoch_def upd_path_def fun_eq_iff)

lemma transmit_sends:
  assumes "se_paths s (unat pid) = Some p" "pa_ID p = pid" "unat pid < MaxPaths"
    and "if en_role (se_eng s) = RoleClient then se_conns s (unat pid) \<noteq> None else AddrPort_IsValid (Endpoint p)"
  obtains w where "wire_of w = d" "transmit env p d s = Some (ev_ok env w, s\<lparr>se_sent := se_sent s @ [w]\<rparr>)"
proof (cases "en_role (se_eng s) = RoleClient")
  case True
  then obtain cn where "se_conns s (unat pid) = Some cn" using assms(4) by auto
  then show ?thesis using that [of "ToConn cn d"] assms(2,3) True by (simp add: transmit_def Let_def not_le)
next
  case False
  then show ?thesis using that [of "ToAddr (Endpoint p) d"] assms(4) False by (simp add: transmit_def Let_def)
qed

lemma encryptAndSend_sends:
  assumes "get_epoch x s = Some ea" "unat pid < MaxPaths" "channel ea eb" "can_transmit s pid"
    and "length pt \<le> BufSize - DatagramOffset - HeaderSize - TagSize"
  obtains s' w where "encryptAndSend env x pid pt n s = Some s'" "se_sent s' = se_sent s @ [w]"
    "ParseHeader (wire_of w) = Inr \<lparr>h_Type = TypeData, h_PathID = pid, h_SessionID = ep_txID ea,
       h_Counter = ep_ctr ea (unat pid) + 1\<rparr>"
    "Epoch_Open eb pid (ep_ctr ea (unat pid) + 1) [] (drop HeaderSize (wire_of w)) (take HeaderSize (wire_of w)) = Some (Inr pt)"
    "get_epoch x s' = Some (bump pid ea)" "se_globalSeq s' = se_globalSeq s" "can_transmit s' = can_transmit s"
proof -
  obtain p where p: "se_paths s (unat pid) = Some p" "pa_ID p = pid"
    "if en_role (se_eng s) = RoleClient then se_conns s (unat pid) \<noteq> None else AddrPort_IsValid (Endpoint p)"
    using assms(4) by (auto simp: can_transmit_def)
  obtain d where d: "seal_datagram x TypeData pid pt s = Some (d, put_epoch x (bump pid ea) s)"
    "length d = HeaderSize + length pt + TagSize"
    "ParseHeader d = Inr \<lparr>h_Type = TypeData, h_PathID = pid, h_SessionID = ep_txID ea, h_Counter = ep_ctr ea (unat pid) + 1\<rparr>"
    "Epoch_Open eb pid (ep_ctr ea (unat pid) + 1) [] (drop HeaderSize d) (take HeaderSize d) = Some (Inr pt)"
    by (rule seal_datagram_sealed [OF assms(1-3)])
  let ?s = "put_epoch x (bump pid ea) s"
  have ps: "se_paths ?s (unat pid) = Some p"
    "if en_role (se_eng ?s) = RoleClient then se_conns ?s (unat pid) \<noteq> None else AddrPort_IsValid (Endpoint p)"
    using p by (simp_all add: put_epoch_def)
  obtain w where w: "wire_of w = d" "transmit env p d ?s = Some (ev_ok env w, ?s\<lparr>se_sent := se_sent ?s @ [w]\<rparr>)"
    by (rule transmit_sends [OF ps(1) p(2) assms(2) ps(2)])
  define t where "t = (if ev_ok env w
      then upd_path (unat pid) (OnDataSent (int n)) (?s\<lparr>se_sent := se_sent ?s @ [w]\<rparr>) else ?s\<lparr>se_sent := se_sent ?s @ [w]\<rparr>)"
  have "encryptAndSend env x pid pt n s = Some t"
    using p(1) d(1,2) w(2) assms(2,5) by (simp add: encryptAndSend_def not_le t_def)
  moreover have "get_epoch x t = Some (bump pid ea)"
    using assms(1) by (auto simp: get_epoch_def put_epoch_def upd_path_def t_def split: if_splits)
  moreover have "se_sent t = se_sent s @ [w]" "se_globalSeq t = se_globalSeq s" "can_transmit t = can_transmit s"
    by (simp_all add: t_def can_transmit_sent)
  ultimately show ?thesis using that [of t w] d(3,4) w(1) by simp
qed

section \<open>Receiving one data packet\<close>

lemma confirm_epoch_reorder: "confirm_epoch now ep s = Some s' \<Longrightarrow> se_reorder s' = se_reorder s \<and> se_eng s' = se_eng s"
  by (auto simp: confirm_epoch_def registerEpoch_def supersede_def Let_def bind_eq_Some_conv split: option.splits if_splits)

lemma confirm_epoch_total:
  assumes "epochs_ok s"
  shows "\<exists>s'. confirm_epoch now ep s = Some s'"
proof (cases "se_pending s = Some ep")
  case True
  then have "ep < length (se_heap s)" using assms by (simp add: epochs_ok_def current_def)
  moreover have "epochs_ok (s\<lparr>se_pending := None\<rparr>)" using assms by (simp add: epochs_ok_def current_def)
  ultimately show ?thesis using True registerEpoch_total [of "s\<lparr>se_pending := None\<rparr>" ep now] by (simp add: confirm_epoch_def)
qed (simp add: confirm_epoch_def)

lemma roam_paths: "se_paths (roam j src s) i = None \<longleftrightarrow> se_paths s i = None" "se_reorder (roam j src s) = se_reorder s"
  by (auto simp: roam_def upd_path_def split: option.splits)

text \<open>A plain data packet (neither duplicated nor FEC-protected) goes straight to the reorder buffer.\<close>

lemma handle_data_plain:
  assumes "ParseDataHeader pt = Inr (seq, 0, ip)"
  shows "\<exists>s' tmo. handle_data env now nowUs j pt s = (True, s') \<and> se_reorder s' = Push now tmo seq (ip, 0) (se_reorder s) \<and>
    se_heap s' = se_heap s \<and> (\<forall>i. se_paths s' i = None \<longleftrightarrow> se_paths s i = None)"
  using assms by (simp add: handle_data_def Let_def injectRecovered_def) (auto simp: upd_path_def)

lemma roam_heap [simp]: "se_heap (roam j src s) = se_heap s"
  by (simp add: roam_def upd_path_def split: option.splits)

definition after_check :: "byte \<Rightarrow> u64 \<Rightarrow> Epoch \<Rightarrow> Epoch" where
  "after_check pid ctr e = e\<lparr>ep_win := (ep_win e)(unat pid := snd (Window_Check (ep_win e (unat pid)) ctr))\<rparr>"

lemma fresh_data_received:
  assumes "epochs_ok b" "get_epoch y b = Some eb" "unat pid < MaxPaths" "se_paths b (unat pid) \<noteq> None"
    and "fst (Window_Check (ep_win eb (unat pid)) ctr)"
    and "hdr = \<lparr>h_Type = TypeData, h_PathID = pid, h_SessionID = sid, h_Counter = ctr\<rparr>"
    and "Epoch_Open eb pid ctr [] (drop HeaderSize d) (take HeaderSize d) = Some (Inr pt)"
    and "ParseDataHeader pt = Inr (seq, 0, ip)"
  shows "\<exists>b' tmo. handleDatagram env now nowUs y hdr d src b = Some (True, b') \<and>
    se_reorder b' = Push now tmo seq (ip, 0) (se_reorder b) \<and> get_epoch y b' = Some (after_check pid ctr eb) \<and>
    epochs_ok b' \<and> (\<forall>i. se_paths b' i = None \<longleftrightarrow> se_paths b i = None)"
proof -
  let ?e = "after_check pid ctr eb"
  have c: "CheckReplay eb pid ctr = Some (True, ?e)"
    using assms(3,5) by (auto simp: CheckReplay_def Let_def not_le after_check_def split: prod.split)
  have v: "epochs_ok (put_epoch y ?e b)" using rx_epochs_ok [OF rxview_replay [OF assms(2) c] assms(1)] .
  obtain b1 where b1: "confirm_epoch now y (put_epoch y ?e b) = Some b1" using confirm_epoch_total [OF v] by blast
  have p1: "se_paths b1 = se_paths b" "se_reorder b1 = se_reorder b"
    using confirm_epoch_tables [OF b1] confirm_epoch_reorder [OF b1] by (simp_all add: put_epoch_def)
  have h1: "se_heap b1 = (se_heap b)[y := ?e]" using confirm_epoch_facts(4) [OF v b1] by (simp add: put_epoch_def)
  obtain b' tmo where b': "handle_data env now nowUs (unat pid) pt (roam (unat pid) src b1) = (True, b')"
    "se_reorder b' = Push now tmo seq (ip, 0) (se_reorder (roam (unat pid) src b1))" "se_heap b' = se_heap b1"
    "\<forall>i. se_paths b' i = None \<longleftrightarrow> se_paths (roam (unat pid) src b1) i = None"
    using handle_data_plain [OF assms(8)] roam_heap by metis
  have "after_replay env now nowUs y hdr pt src (put_epoch y ?e b) = Some (True, b')"
    using b1 p1(1) b'(1) assms(4) by (auto simp: after_replay_def assms(6) dispatch_def)
  then have h: "handleDatagram env now nowUs y hdr d src b = Some (True, b')"
    using assms(2,7) c by (simp add: handleDatagram_def assms(6))
  moreover have "get_epoch y b' = Some ?e" using assms(2) b'(3) h1 by (auto simp: get_epoch_def split: if_splits)
  ultimately show ?thesis using b'(2,4) p1 roam_paths handleDatagram_epochs(1) [OF assms(1) h] by auto
qed

section \<open>From one end to the other\<close>

lemma channel_keys:
  assumes "aead_correct c" "newEpoch c t cs ss cb tx rx cl = Some e1" "newEpoch c t' cs ss cb rx tx (\<not> cl) = Some e2"
    and "ep_send ea = ep_send e1" "ep_recv eb = ep_recv e2"
  shows "channel ea eb"
  using channel_epochs [OF assms(1,2) newEpoch_paired [OF assms(2,3)]] assms(4,5) by (simp add: channel_def)

lemma can_transmit_sched [simp]:
  "can_transmit (s\<lparr>se_sched := sc\<rparr>) pid = can_transmit s pid" "can_transmit (s\<lparr>se_globalSeq := q\<rparr>) pid = can_transmit s pid"
  "get_epoch x (s\<lparr>se_sched := sc\<rparr>) = get_epoch x s" "get_epoch x (s\<lparr>se_globalSeq := q\<rparr>) = get_epoch x s"
  by (simp_all add: can_transmit_def get_epoch_def)

lemma Assign_mode [simp]: "sc_mode (snd (Assign n out s)) = sc_mode s"
  by (cases rule: Assign_cases [of s n out]) auto

lemma sendData_single:
  assumes "se_txEpoch a = Some x" "get_epoch x a = Some ea" "channel ea eb"
    and "Assign (int (length ip)) [] (se_sched a) = ([pid], sched)" "sc_mode (se_sched a) \<noteq> ModeFEC"
    and "unat pid < MaxPaths" "can_transmit a pid" "length ip \<le> 2000" "fits48 (se_globalSeq a + 1)"
  obtains a' w pt where "sendData env now ip a = Some a'" "se_sent a' = se_sent a @ [w]"
    "ParseHeader (wire_of w) = Inr \<lparr>h_Type = TypeData, h_PathID = pid, h_SessionID = ep_txID ea,
       h_Counter = ep_ctr ea (unat pid) + 1\<rparr>"
    "Epoch_Open eb pid (ep_ctr ea (unat pid) + 1) [] (drop HeaderSize (wire_of w)) (take HeaderSize (wire_of w)) = Some (Inr pt)"
    "ParseDataHeader pt = Inr (se_globalSeq a + 1, 0, ip)"
    "get_epoch x a' = Some (bump pid ea)" "se_globalSeq a' = se_globalSeq a + 1" "can_transmit a' = can_transmit a"
    "se_sched a' = sched" "se_txEpoch a' = Some x" "\<forall>i. map_option path_key (se_paths a' i) = map_option path_key (se_paths a i)"
proof -
  obtain hdr where hdr: "PutDataHeader (replicate DataHeaderSize 0) (se_globalSeq a + 1) 0 = Some hdr"
    by (simp add: PutDataHeader_def)
  note dh = data_header_append [OF assms(9) hdr]
  let ?s = "a\<lparr>se_sched := sched, se_globalSeq := se_globalSeq a + 1\<rparr>"
  have mode: "sc_mode sched \<noteq> ModeFEC" using assms(4,5) Assign_mode [of "int (length ip)" "[]" "se_sched a"] by simp
  have pre: "get_epoch x ?s = Some ea" "can_transmit ?s pid" "length (hdr @ ip) \<le> BufSize - DatagramOffset - HeaderSize - TagSize"
    using assms(2,7,8) dh(1) by simp_all
  obtain s' w where s': "encryptAndSend env x pid (hdr @ ip) (length ip) ?s = Some s'" "se_sent s' = se_sent ?s @ [w]"
    "ParseHeader (wire_of w) = Inr \<lparr>h_Type = TypeData, h_PathID = pid, h_SessionID = ep_txID ea,
       h_Counter = ep_ctr ea (unat pid) + 1\<rparr>"
    "Epoch_Open eb pid (ep_ctr ea (unat pid) + 1) [] (drop HeaderSize (wire_of w)) (take HeaderSize (wire_of w)) = Some (Inr (hdr @ ip))"
    "get_epoch x s' = Some (bump pid ea)" "se_globalSeq s' = se_globalSeq ?s" "can_transmit s' = can_transmit ?s"
    by (rule encryptAndSend_sends [OF pre(1) assms(6,3) pre(2,3)])
  have "sendData env now ip a = Some s'"
    using assms(1,4) hdr s'(1) mode by (simp add: sendData_def Let_def data_flags_def)
  moreover have "quiet ?s s'" using s'(1) by (rule encryptAndSend_quiet)
  ultimately show ?thesis using that [of s' w "hdr @ ip"] s' dh(2) assms(1) by (simp add: quiet_def fun_eq_iff)
qed


section \<open>A stream over several paths\<close>

text \<open>
  What a datagram holds for the receiver's epoch: the path and counter in its header, and
  inside it a sequence number and a packet.
\<close>

definition carries :: "Epoch \<Rightarrow> Sent \<Rightarrow> byte \<times> u64 \<Rightarrow> u64 \<Rightarrow> bytes \<Rightarrow> bool" where
  "carries eb w tag seq ip \<longleftrightarrow> (\<exists>sid pt.
     ParseHeader (wire_of w) = Inr \<lparr>h_Type = TypeData, h_PathID = fst tag, h_SessionID = sid, h_Counter = snd tag\<rparr> \<and>
     Epoch_Open eb (fst tag) (snd tag) [] (drop HeaderSize (wire_of w)) (take HeaderSize (wire_of w)) = Some (Inr pt) \<and>
     ParseDataHeader pt = Inr (seq, 0, ip))"

lemma carries_keys: "ep_recv e' = ep_recv e \<Longrightarrow> carries e' = carries e"
  by (simp add: carries_def Epoch_Open_def fun_eq_iff)

text \<open>Reception in any order: each arrival has an environment, two clock readings, a source and a datagram.\<close>

type_synonym arrival = "Env \<times> int \<times> int \<times> AddrPort \<times> Sent"

fun recv_all :: "nat \<Rightarrow> arrival list \<Rightarrow> session \<Rightarrow> session option" where
  "recv_all y [] b = Some b"
| "recv_all y ((env, now, nowUs, src, w) # xs) b =
    (case ParseHeader (wire_of w) of
       Inl _ \<Rightarrow> recv_all y xs b
     | Inr hdr \<Rightarrow> do { (_, b) \<leftarrow> handleDatagram env now nowUs y hdr (wire_of w) src b; recv_all y xs b })"

definition on_path :: "nat \<Rightarrow> (byte \<times> u64) list \<Rightarrow> u64 list" where
  "on_path p tags = map snd (filter (\<lambda>t. unat (fst t) = p) tags)"

definition near_tags :: "(nat \<Rightarrow> nat) \<Rightarrow> (byte \<times> u64) list \<Rightarrow> bool" where
  "near_tags lo tags \<longleftrightarrow> distinct tags \<and>
    (\<forall>t\<in>set tags. unat (fst t) < MaxPaths \<and> lo (unat (fst t)) \<le> unat (snd t) \<and> unat (snd t) \<le> lo (unat (fst t)) + 1984)"

lemma on_path_simps [simp]:
  "on_path p [] = []" "on_path p (xs @ ys) = on_path p xs @ on_path p ys"
  "on_path p (t # ts) = (if unat (fst t) = p then snd t # on_path p ts else on_path p ts)"
  by (simp_all add: on_path_def)

lemma on_path_set: "c \<in> set (on_path p ts) \<longleftrightarrow> (\<exists>q. unat q = p \<and> (q, c) \<in> set ts)"
  by (force simp: on_path_def)

lemma near_accepted:
  assumes "near_tags lo (old @ (pid, ctr) # new)" "ep_win e (unat pid) = win_run Window_Check Window_zero (on_path (unat pid) old)"
  shows "fst (Window_Check (ep_win e (unat pid)) ctr)"
  unfolding assms(2)
proof (rule replay.accepts_near [where lo = "lo (unat pid)"])
  show "ctr \<notin> set (on_path (unat pid) old)"
    using assms(1) by (auto simp: near_tags_def on_path_set dest: word_unat_eq_iff [THEN iffD2])
  show "\<forall>x\<in>set (ctr # on_path (unat pid) old). lo (unat pid) \<le> unat x \<and> unat x \<le> lo (unat pid) + 64 * (32 - 1)"
    using assms(1) by (force simp: near_tags_def on_path_set)
qed simp

lemma recv_all_pushes:
  assumes "epochs_ok b" "get_epoch y b = Some eb" "ep_recv eb = ep_recv e2"
    and "\<forall>p < MaxPaths. ep_win eb p = win_run Window_Check Window_zero (on_path p old)"
    and "near_tags lo (old @ tags)" "\<forall>t\<in>set tags. se_paths b (unat (fst t)) \<noteq> None"
    and "length tags = length xs" "length seqs = length xs" "length ips = length xs"
    and "\<forall>i < length xs. carries e2 (snd (snd (snd (snd (xs ! i))))) (tags ! i) (seqs ! i) (ips ! i)"
  shows "\<exists>b' ps. recv_all y xs b = Some b' \<and> se_reorder b' = rb_run (se_reorder b) (push_all ps) \<and>
    map (\<lambda>p. snd (snd p)) ps = zip seqs (map (\<lambda>ip. (ip, 0)) ips)"
  using assms
proof (induction xs arbitrary: b eb old tags seqs ips)
  case Nil
  then show ?case by (auto intro!: exI [of _ "[]"])
next
  case (Cons x xs)
  obtain env now nowUs src w where x: "x = (env, now, nowUs, src, w)" by (metis prod.exhaust)
  obtain pid ctr tags' where t: "tags = (pid, ctr) # tags'" using Cons.prems(7) by (cases tags) auto
  obtain seq seqs' where sq: "seqs = seq # seqs'" using Cons.prems(8) by (cases seqs) auto
  obtain ip ips' where ip: "ips = ip # ips'" using Cons.prems(9) by (cases ips) auto
  have cr: "carries eb w (pid, ctr) seq ip"
    using Cons.prems(10) [rule_format, of 0] carries_keys [OF Cons.prems(3)] by (simp add: x t sq ip)
  then obtain sid pt where h: "ParseHeader (wire_of w) = Inr \<lparr>h_Type = TypeData, h_PathID = pid, h_SessionID = sid, h_Counter = ctr\<rparr>"
    "Epoch_Open eb pid ctr [] (drop HeaderSize (wire_of w)) (take HeaderSize (wire_of w)) = Some (Inr pt)"
    "ParseDataHeader pt = Inr (seq, 0, ip)"
    unfolding carries_def by auto
  have pid: "unat pid < MaxPaths" "se_paths b (unat pid) \<noteq> None"
    using Cons.prems(5,6) by (simp_all add: near_tags_def t)
  have fresh: "fst (Window_Check (ep_win eb (unat pid)) ctr)"
    using near_accepted [of lo old pid ctr tags' eb] Cons.prems(4,5) pid(1) by (simp add: t)
  obtain b1 tmo where b1: "handleDatagram env now nowUs y \<lparr>h_Type = TypeData, h_PathID = pid, h_SessionID = sid, h_Counter = ctr\<rparr> (wire_of w) src b = Some (True, b1)"
    "se_reorder b1 = Push now tmo seq (ip, 0) (se_reorder b)" "get_epoch y b1 = Some (after_check pid ctr eb)"
    "epochs_ok b1" "\<forall>i. se_paths b1 i = None \<longleftrightarrow> se_paths b i = None"
    using fresh_data_received [OF Cons.prems(1,2) pid fresh refl h(2,3)] by blast
  have win: "\<forall>p < MaxPaths. ep_win (after_check pid ctr eb) p = win_run Window_Check Window_zero (on_path p (old @ [(pid, ctr)]))"
    using Cons.prems(4) by (simp add: after_check_def)
  have tail: "\<forall>i < length xs. carries e2 (snd (snd (snd (snd (xs ! i))))) (tags' ! i) (seqs' ! i) (ips' ! i)"
    using Cons.prems(10) by (auto simp: t sq ip)
  obtain b' ps where b': "recv_all y xs b1 = Some b'" "se_reorder b' = rb_run (se_reorder b1) (push_all ps)"
    "map (\<lambda>p. snd (snd p)) ps = zip seqs' (map (\<lambda>ip. (ip, 0)) ips')"
    using Cons.IH [OF b1(4,3) _ win, of tags' seqs' ips'] Cons.prems(3,5-9) b1(5) tail
    by (auto simp: after_check_def t sq ip)
  show ?case
    using h(1) b1(1,2) b' by (intro exI [of _ b'] exI [of _ "(now, tmo, seq, (ip, 0)) # ps"]) (simp add: x sq ip)
qed

text \<open>A sender that can go on sending to one receiver epoch in bonding mode.\<close>

definition ready :: "nat \<Rightarrow> Epoch \<Rightarrow> session \<Rightarrow> bool" where
  "ready x eb a \<longleftrightarrow> agrees a \<and> se_txEpoch a = Some x \<and> (\<exists>ea. get_epoch x a = Some ea \<and> channel ea eb) \<and>
    sc_mode (se_sched a) = ModeBonding \<and> (\<forall>n pid. serves a n pid \<longrightarrow> can_transmit a pid)"

fun send_all :: "(Env \<times> int \<times> bytes) list \<Rightarrow> session \<Rightarrow> session option" where
  "send_all [] a = Some a"
| "send_all ((env, now, ip) # xs) a = do { a \<leftarrow> sendData env now ip a; send_all xs a }"

lemma bonding_target:
  assumes "agrees a" "sc_mode (se_sched a) = ModeBonding" "serves a n q"
  obtains pid sched where "Assign n [] (se_sched a) = ([pid], sched)" "serves a n pid"
proof (cases rule: Assign_cases [of "se_sched a" n "[]"])
  case (one b)
  then show ?thesis using that candidate_serves [OF assms(1)] by auto
next
  case none
  then show ?thesis using serves_candidate [OF assms(1,3)] by blast
qed (use assms(2) in simp)

lemma serves_repass:
  assumes "\<forall>i. map_option path_key (se_paths a' i) = map_option path_key (se_paths a i)" "repass (se_sched a) (se_sched a')"
  shows "serves a' n pid = serves a n pid"
proof -
  have "(\<exists>p. se_paths a' (unat pid) = Some p \<and> pa_ID p = pid \<and> in_service p) =
      (\<exists>p. se_paths a (unat pid) = Some p \<and> pa_ID p = pid \<and> in_service p)"
    using assms(1) [rule_format, of "unat pid"]
    by (cases "se_paths a' (unat pid)"; cases "se_paths a (unat pid)") (auto simp: path_key_def in_service_def)
  then show ?thesis using repassD(4) [OF assms(2)] by (simp add: serves_def)
qed

lemma send_step:
  assumes "ready x eb a" "get_epoch x a = Some ea" "serves a (int (length ip)) q" "length ip \<le> 2000" "fits48 (se_globalSeq a + 1)"
  obtains a' w pid where "sendData env now ip a = Some a'" "se_sent a' = se_sent a @ [w]"
    "carries eb w (pid, ep_ctr ea (unat pid) + 1) (se_globalSeq a + 1) ip" "serves a (int (length ip)) pid"
    "get_epoch x a' = Some (bump pid ea)" "se_globalSeq a' = se_globalSeq a + 1" "ready x eb a'" "serves a' = serves a"
proof -
  have r: "agrees a" "se_txEpoch a = Some x" "sc_mode (se_sched a) = ModeBonding"
    "\<And>n pid. serves a n pid \<Longrightarrow> can_transmit a pid" "channel ea eb"
    using assms(1,2) by (auto simp: ready_def)
  obtain pid sched where pid: "Assign (int (length ip)) [] (se_sched a) = ([pid], sched)" "serves a (int (length ip)) pid"
    by (rule bonding_target [OF r(1,3) assms(3)])
  have nf: "sc_mode (se_sched a) \<noteq> ModeFEC" using r(3) by simp
  obtain a' w pt where w: "sendData env now ip a = Some a'" "se_sent a' = se_sent a @ [w]"
    "ParseHeader (wire_of w) = Inr \<lparr>h_Type = TypeData, h_PathID = pid, h_SessionID = ep_txID ea, h_Counter = ep_ctr ea (unat pid) + 1\<rparr>"
    "Epoch_Open eb pid (ep_ctr ea (unat pid) + 1) [] (drop HeaderSize (wire_of w)) (take HeaderSize (wire_of w)) = Some (Inr pt)"
    "ParseDataHeader pt = Inr (se_globalSeq a + 1, 0, ip)"
    and a': "get_epoch x a' = Some (bump pid ea)" "se_globalSeq a' = se_globalSeq a + 1" "can_transmit a' = can_transmit a"
    "se_sched a' = sched" "se_txEpoch a' = Some x" "\<forall>i. map_option path_key (se_paths a' i) = map_option path_key (se_paths a i)"
    by (rule sendData_single [OF r(2) assms(2) r(5) pid(1) nf serves_candidate(1) [OF r(1) pid(2)] r(4) [OF pid(2)] assms(4,5)])
  have rp: "repass (se_sched a) (se_sched a')" using repass_Assign [of "se_sched a" "int (length ip)" "[]"] pid(1) a'(4) by simp
  have sv: "serves a' = serves a" using serves_repass [OF a'(6) rp] by (simp add: fun_eq_iff)
  have "ready x eb a'"
    using sendData_agrees [OF r(1) w(1)] a'(1,3,5) r(4,5) repassD(1) [OF rp] r(3) sv by (auto simp: ready_def channel_def bump_def)
  then show ?thesis using that [of a' w pid] w a'(1,2) pid(2) sv by (simp add: carries_def)
qed

lemma send_all_stream:
  assumes "ready x eb a" "get_epoch x a = Some ea"
    and "\<forall>r\<in>set xs. length (snd (snd r)) \<le> 2000 \<and> (\<exists>q. serves a (int (length (snd (snd r)))) q)"
    and "unat (se_globalSeq a) + length xs < 2 ^ 48" "\<forall>p. unat (ep_ctr ea p) + length xs < 2 ^ 64"
  shows "\<exists>a' ws tags. send_all xs a = Some a' \<and> se_sent a' = se_sent a @ ws \<and> length ws = length xs \<and> length tags = length xs \<and>
    (\<forall>i < length xs. carries eb (ws ! i) (tags ! i) (se_globalSeq a + 1 + of_nat i) (snd (snd (xs ! i)))) \<and>
    distinct tags \<and> (\<forall>t\<in>set tags. unat (ep_ctr ea (unat (fst t))) < unat (snd t) \<and>
      unat (snd t) \<le> unat (ep_ctr ea (unat (fst t))) + length xs \<and> (\<exists>n. serves a n (fst t)))"
  using assms
proof (induction xs arbitrary: a ea)
  case Nil
  then show ?case by simp
next
  case (Cons r xs)
  obtain env now ip where r: "r = (env, now, ip)" by (metis prod.exhaust)
  obtain q where q: "serves a (int (length ip)) q" "length ip \<le> 2000" using Cons.prems(3) by (auto simp: r)
  have g: "unat (se_globalSeq a + 1) = unat (se_globalSeq a) + 1" using Cons.prems(4) by (simp add: unat_word_ariths)
  have f: "fits48 (se_globalSeq a + 1)" using Cons.prems(4) g by (simp add: fits48_def word_le_nat_alt)
  obtain a1 w pid where w: "sendData env now ip a = Some a1" "se_sent a1 = se_sent a @ [w]"
    "carries eb w (pid, ep_ctr ea (unat pid) + 1) (se_globalSeq a + 1) ip" "serves a (int (length ip)) pid"
    "get_epoch x a1 = Some (bump pid ea)" "se_globalSeq a1 = se_globalSeq a + 1" "ready x eb a1" "serves a1 = serves a"
    by (rule send_step [OF Cons.prems(1,2) q f, where env = env and now = now])
  have c: "unat (ep_ctr ea (unat pid) + 1) = unat (ep_ctr ea (unat pid)) + 1"
    using Cons.prems(5) [rule_format, of "unat pid"] by (simp add: unat_word_ariths)
  have b: "unat (ep_ctr (bump pid ea) p) = unat (ep_ctr ea p) + (if p = unat pid then 1 else 0)" for p
    using c by (simp add: bump_def)
  have p3: "\<forall>r\<in>set xs. length (snd (snd r)) \<le> 2000 \<and> (\<exists>q. serves a1 (int (length (snd (snd r)))) q)"
    using Cons.prems(3) w(8) by simp
  have p4: "unat (se_globalSeq a1) + length xs < 2 ^ 48" using Cons.prems(4) g w(6) by simp
  have p5: "\<forall>p. unat (ep_ctr (bump pid ea) p) + length xs < 2 ^ 64" unfolding b using Cons.prems(5) by (auto intro: less_trans)
  obtain a' ws tags where a': "send_all xs a1 = Some a'" "se_sent a' = se_sent a1 @ ws" "length ws = length xs" "length tags = length xs"
    "\<forall>i < length xs. carries eb (ws ! i) (tags ! i) (se_globalSeq a1 + 1 + of_nat i) (snd (snd (xs ! i)))" "distinct tags"
    "\<forall>t\<in>set tags. unat (ep_ctr (bump pid ea) (unat (fst t))) < unat (snd t) \<and>
      unat (snd t) \<le> unat (ep_ctr (bump pid ea) (unat (fst t))) + length xs \<and> (\<exists>n. serves a1 n (fst t))"
    using Cons.IH [OF w(7,5) p3 p4 p5] by blast
  let ?t = "(pid, ep_ctr ea (unat pid) + 1)"
  have new: "?t \<notin> set tags" using a'(7) c b by auto
  have rng: "unat (ep_ctr ea (unat (fst t))) < unat (snd t) \<and>
      unat (snd t) \<le> unat (ep_ctr ea (unat (fst t))) + length (r # xs) \<and> (\<exists>n. serves a n (fst t))" if "t \<in> set (?t # tags)" for t
  proof (cases "t = ?t")
    case True
    then show ?thesis using c w(4) by auto
  next
    case False
    then have "t \<in> set tags" using that by simp
    from bspec [OF a'(7) this] show ?thesis unfolding b w(8) by (auto split: if_splits)
  qed
  have "carries eb ((w # ws) ! i) ((?t # tags) ! i) (se_globalSeq a + 1 + of_nat i) (snd (snd ((r # xs) ! i)))" if "i < length (r # xs)" for i
    using that a'(5) w(3,6) by (cases i) (auto simp: r ac_simps)
  then show ?case using w(1,2) a'(1-4,6) new rng
    by (intro exI [of _ a'] exI [of _ "w # ws"] exI [of _ "?t # tags"]) (auto simp: r)
qed

text \<open>The buffer's output when the pushes are the numbers \<open>g, g + 1, ...\<close> in a permuted order, \<open>g\<close> first.\<close>

lemma permuted_pushes:
  assumes "distinct order" "set order = {..<n}" "order \<noteq> []" "hd order = 0" "n \<le> 4096" "unat g + n \<le> 2 ^ 48"
    and "map (\<lambda>p. snd (snd p)) ps = map (\<lambda>i. (g + of_nat i, f i)) order"
  shows "map em_pkt (b_emitted (rb_run (New []) (push_all ps))) = map f [0..<n]"
proof -
  have New: "New [] = New [WithMaxHold 4096]" by (simp add: New_def WithMaxHold_def)
  have u: "unat (g + of_nat i) = unat g + i" if "i < n" for i
    using that assms(5,6) by (simp add: unat_word_ariths unat_of_nat)
  have len: "length ps = length order" using arg_cong [OF assms(7), of length] by simp
  have "arrival_seqs ps = map (\<lambda>q. unat (fst q)) (map (\<lambda>p. snd (snd p)) ps)"
    by (simp add: arrival_seqs_def split_beta comp_def)
  also have "\<dots> = map (\<lambda>i. unat g + i) order" unfolding assms(7) using u assms(2) by auto
  finally have seqs: "arrival_seqs ps = map (\<lambda>i. unat g + i) order" .
  have img: "set (arrival_seqs ps) = {unat g..<unat g + n}"
    unfolding seqs using assms(2) by (simp add: image_add_atLeastLessThan lessThan_atLeast0 add.commute)
  have cp: "complete_prefix 4096 (unat g) n ps"
    using assms(1,3-6) len img by (simp add: complete_prefix_def seqs distinct_map inj_on_def hd_map) auto
  note ce = complete_block_emitted [OF cp img]
  let ?em = "b_emitted (rb_run (New [WithMaxHold 4096]) (push_all ps))"
  have l: "length ?em = n" using arg_cong [OF ce(1), of length] by simp
  have "em_pkt (?em ! i) = f i" if i: "i < n" for i
  proof -
    have q: "unat (em_seq (?em ! i)) = unat g + i" using arg_cong [OF ce(1), of "\<lambda>l. l ! i"] i l by simp
    have "?em ! i \<in> set ?em" using i l by simp
    from ce(5) [OF this] have "(em_seq (?em ! i), em_pkt (?em ! i)) \<in> set (map (\<lambda>p. snd (snd p)) ps)"
      by (simp add: split_beta)
    then obtain j where "j \<in> set order" "em_seq (?em ! i) = g + of_nat j" "em_pkt (?em ! i) = f j"
      unfolding assms(7) by auto
    then show ?thesis using q u [of j] assms(2) by auto
  qed
  then show ?thesis unfolding New using l by (intro nth_equalityI) simp_all
qed

text \<open>
  The receiving half of the stream: datagrams that carry the packets \<open>xs\<close> with numbers from \<open>g\<close> on,
  under distinct counters that the empty windows are certain to hold, in any order with the first one first.
\<close>

lemma permuted_stream_received:
  assumes recv: "epochs_ok b" "get_epoch y b = Some eb" "ep_recv eb = ep_recv e2" "\<forall>p < MaxPaths. ep_win eb p = Window_zero"
      "se_reorder b = New []"
    and tags: "length tags = length xs" "distinct tags"
      "\<forall>t\<in>set tags. unat (fst t) < MaxPaths \<and> lo (unat (fst t)) \<le> unat (snd t) \<and>
        unat (snd t) \<le> lo (unat (fst t)) + 1984 \<and> se_paths b (unat (fst t)) \<noteq> None"
    and carried: "\<forall>i < length xs. carries e2 (ws ! i) (tags ! i) (g + of_nat i) (snd (snd (xs ! i)))"
    and size: "xs \<noteq> []" "length xs \<le> 4096" "unat g + length xs \<le> 2 ^ 48"
    and o: "distinct order" "set order = {..<length xs}" "hd order = 0"
    and y: "map (\<lambda>y. snd (snd (snd (snd y)))) ys = map (\<lambda>i. ws ! i) order"
  shows "\<exists>b'. recv_all y ys b = Some b' \<and> map (\<lambda>e. fst (em_pkt e)) (b_emitted (se_reorder b')) = map (\<lambda>r. snd (snd r)) xs"
proof -
  let ?tags = "map (\<lambda>i. tags ! i) order" and ?seqs = "map (\<lambda>i. g + of_nat i) order"
    and ?ips = "map (\<lambda>i. snd (snd (xs ! i))) order"
  have len: "length ys = length order" using arg_cong [OF y, of length] by simp
  have idx: "i < length tags" if "i \<in> set order" for i using that o(2) tags(1) by simp
  have sub: "set ?tags \<subseteq> set tags" using idx by auto
  have "distinct ?tags" using o(1) idx tags(2) by (simp add: distinct_map inj_on_def nth_eq_iff_index_eq)
  then have near: "near_tags lo ([] @ ?tags)"
    using sub tags(3) unfolding near_tags_def append_Nil by (auto simp del: MaxPaths_def)
  have paths: "\<forall>t\<in>set ?tags. se_paths b (unat (fst t)) \<noteq> None" using sub tags(3) by blast
  have car: "\<forall>i < length ys. carries e2 (snd (snd (snd (snd (ys ! i))))) (?tags ! i) (?seqs ! i) (?ips ! i)"
  proof (intro allI impI)
    fix i assume i: "i < length ys"
    then have "snd (snd (snd (snd (ys ! i)))) = ws ! (order ! i)" "order ! i < length xs"
      using arg_cong [OF y, of "\<lambda>l. l ! i"] idx [OF nth_mem] len tags(1) by simp_all
    then show "carries e2 (snd (snd (snd (snd (ys ! i))))) (?tags ! i) (?seqs ! i) (?ips ! i)"
      using carried i len by simp
  qed
  have win: "\<forall>p < MaxPaths. ep_win eb p = win_run Window_Check Window_zero (on_path p [])" using recv(4) by simp
  obtain b' ps where b': "recv_all y ys b = Some b'" "se_reorder b' = rb_run (se_reorder b) (push_all ps)"
    "map (\<lambda>p. snd (snd p)) ps = zip ?seqs (map (\<lambda>ip. (ip, 0)) ?ips)"
    using recv_all_pushes [OF recv(1-3) win near paths _ _ _ car] len by auto
  have "0 \<in> set order" unfolding o(2) using size(1) by simp
  then have ne: "order \<noteq> []" by (cases order) simp_all
  have ps: "map (\<lambda>p. snd (snd p)) ps = map (\<lambda>i. (g + of_nat i, (snd (snd (xs ! i)), 0))) order"
    unfolding b'(3) by (simp add: zip_map_map zip_same_conv_map)
  from permuted_pushes [OF o(1,2) ne o(3) size(2,3) ps]
  have "map fst (map em_pkt (b_emitted (se_reorder b'))) = map fst (map (\<lambda>i. (snd (snd (xs ! i)), 0) :: packet) [0..<length xs])"
    unfolding b'(2) recv(5) by (rule arg_cong)
  also have "\<dots> = map (\<lambda>r. snd (snd r)) xs" by (rule nth_equalityI) simp_all
  finally show ?thesis using b'(1) by (simp add: comp_def)
qed


text \<open>Two ends with two live paths each, whose epochs come from one handshake.\<close>

definition sample_end :: "Epoch \<Rightarrow> session" where
  "sample_end e = sample_session\<lparr>se_heap := [e], se_sched := two_paths,
     se_paths := (\<lambda>i. if i < 2 then Some ((NewPath (of_nat i) [] 0 0)\<lparr>pa_state := Active,
       pa_endpoint := Some (IP4 0x01020304, 443)\<rparr>) else None)\<rparr>"

lemma sample_end_simps:
  "get_epoch 0 (sample_end e) = Some e" "se_globalSeq (sample_end e) = 0" "se_reorder (sample_end e) = New []"
  "se_sched (sample_end e) = two_paths" "se_paths (sample_end e) i \<noteq> None \<longleftrightarrow> i < 2" "epochs_ok (sample_end e)"
  by (simp_all add: sample_end_def get_epoch_def sample_session_def StartServer_def sample_server_def add_peer_def Let_def
      newSession_def epochs_ok_def)

lemma sample_end_agrees: "agrees (sample_end e)"
  unfolding agrees_def
proof (intro conjI allI impI)
  fix i :: nat
  consider "i = 0" | "i = 1" | "2 \<le> i" by linarith
  then show "slot_agrees i (key_at (sample_end e) i) (sched_at (sample_end e) i)"
    by cases (simp_all add: sample_end_def two_paths_def slot_agrees_def slot_view_def path_key_def NewPath_def pathState_zero_def)
qed (simp add: sample_end_def)

lemma sample_end_serves: "serves (sample_end e) n pid \<longleftrightarrow> unat pid < 2"
proof -
  have "unat pid = 0 \<Longrightarrow> pid = 0" "unat pid = 1 \<Longrightarrow> pid = 1" by (simp_all add: word_unat_eq_iff)
  moreover have "unat pid = 0 \<or> unat pid = 1" if "unat pid < 2" using that by linarith
  ultimately show ?thesis
    by (auto simp: serves_def sample_end_def NewPath_def in_service_def two_paths_def fits_inner_def pathState_zero_def)
qed

lemma sample_end_transmits: "unat pid < 2 \<Longrightarrow> can_transmit (sample_end e) pid"
  by (simp add: can_transmit_def sample_end_def NewPath_def Endpoint_def AddrPort_IsValid_def sample_session_def StartServer_def
      sample_server_def add_peer_def Let_def newSession_def)

lemma sample_sender:
  "agrees ((sample_end e)\<lparr>se_txEpoch := x\<rparr>)" "serves ((sample_end e)\<lparr>se_txEpoch := x\<rparr>) n pid \<longleftrightarrow> unat pid < 2"
  "can_transmit ((sample_end e)\<lparr>se_txEpoch := x\<rparr>) pid = can_transmit (sample_end e) pid"
  "get_epoch 0 ((sample_end e)\<lparr>se_txEpoch := x\<rparr>) = Some e"
proof -
  show "agrees ((sample_end e)\<lparr>se_txEpoch := x\<rparr>)" using sample_end_agrees [of e] by (simp add: agrees_def)
  show "serves ((sample_end e)\<lparr>se_txEpoch := x\<rparr>) n pid \<longleftrightarrow> unat pid < 2"
    using sample_end_serves [of e n pid] by (simp add: serves_def)
  show "get_epoch 0 ((sample_end e)\<lparr>se_txEpoch := x\<rparr>) = Some e" using sample_end_simps(1) [of e] by (simp add: get_epoch_def split: if_splits)
qed (simp add: can_transmit_def)

definition sample_packets :: "(Env \<times> int \<times> bytes) list" where
  "sample_packets = map (\<lambda>k. (sample_env, int k, replicate 40 (of_nat k))) [0..<3]"



end
