(* ===== verification/Replay_Correct.thy ===== *)
theory Replay_Correct
  imports Delivery
begin

text \<open>
  Anti-replay at the level of the engines. The receive windows of the epochs evolve only by
  checks, whatever else the engines do, and an epoch starts with empty windows; so a datagram
  that was accepted once is dropped whenever it comes again, for as long as the window covers it.
\<close>

section \<open>Windows evolve by checks\<close>

definition win_before :: "session \<Rightarrow> nat \<Rightarrow> nat \<Rightarrow> Window" where
  "win_before s a p = (if a < length (se_heap s) then ep_win (se_heap s ! a) p else Window_zero)"

definition grows :: "session \<Rightarrow> session \<Rightarrow> bool" where
  "grows s s' \<longleftrightarrow> length (se_heap s) \<le> length (se_heap s') \<and>
    (\<forall>a < length (se_heap s). ep_recv (se_heap s' ! a) = ep_recv (se_heap s ! a)) \<and>
    (\<forall>a p. \<exists>cs. win_before s' a p = win_run Window_Check (win_before s a p) cs)"

lemma unchanged_window: "\<exists>cs. w = win_run Window_Check w cs"
  by (rule exI [of _ "[]"]) simp

lemma grows_refl [simp, intro]: "grows s s"
  by (simp add: grows_def unchanged_window)

lemma grows_trans:
  assumes "grows s t" "grows t u"
  shows "grows s u"
proof -
  have "\<exists>cs. win_before u a p = win_run Window_Check (win_before s a p) cs" for a p
    using assms unfolding grows_def by (metis win_run_simps(3))
  then show ?thesis using assms by (auto simp: grows_def)
qed

definition rx_of_epoch :: "Epoch \<Rightarrow> AEAD option garray \<times> Window garray" where
  "rx_of_epoch e = (ep_recv e, ep_win e)"

lemma grows_same:
  assumes "map rx_of_epoch (se_heap s') = map rx_of_epoch (se_heap s)"
  shows "grows s s'"
proof -
  have l: "length (se_heap s') = length (se_heap s)" using assms by (rule map_eq_imp_length_eq)
  have "rx_of_epoch (se_heap s' ! a) = rx_of_epoch (se_heap s ! a)" if "a < length (se_heap s)" for a
    using assms l that by (metis nth_map)
  then show ?thesis using l by (auto simp: grows_def win_before_def rx_of_epoch_def unchanged_window)
qed

lemma grows_epview:
  assumes "epview s' = epview s"
  shows "grows s s'"
proof (rule grows_same)
  have "map rx_of_epoch (map frozen (se_heap s')) = map rx_of_epoch (map frozen (se_heap s))"
    using assms by (simp add: epview_def)
  moreover have "rx_of_epoch \<circ> frozen = rx_of_epoch" by (simp add: rx_of_epoch_def frozen_def fun_eq_iff)
  ultimately show "map rx_of_epoch (se_heap s') = map rx_of_epoch (se_heap s)" by simp
qed

lemma grows_append:
  assumes "se_heap s' = se_heap s @ [e]" "ep_win e = (\<lambda>_. Window_zero)"
  shows "grows s s'"
  using assms by (auto simp: grows_def win_before_def nth_append less_Suc_eq unchanged_window)

lemma CheckReplay_window:
  assumes "CheckReplay e pid n = Some (x, e')"
  shows "ep_win e' = (ep_win e)(unat pid := snd (Window_Check (ep_win e (unat pid)) n))" "ep_recv e' = ep_recv e"
    "x = fst (Window_Check (ep_win e (unat pid)) n)"
  using assms by (auto simp: CheckReplay_def Let_def split: if_splits prod.splits)

lemma grows_check:
  assumes "get_epoch ep s = Some e" "CheckReplay e p n = Some (x, e')"
  shows "grows s (put_epoch ep e' s)"
proof -
  have e: "ep < length (se_heap s)" "e = se_heap s ! ep" using assms(1) by (auto simp: get_epoch_def split: if_splits)
  have "\<exists>cs. ep_win e' q = win_run Window_Check (ep_win e q) cs" for q
  proof (cases "q = unat p")
    case True
    then show ?thesis unfolding CheckReplay_window(1) [OF assms(2)] by (intro exI [of _ "[n]"]) simp
  qed (simp add: CheckReplay_window(1) [OF assms(2)] unchanged_window)
  then show ?thesis using e CheckReplay_window(2) [OF assms(2)]
    by (auto simp: grows_def win_before_def put_epoch_def nth_list_update unchanged_window)
qed

lemma handleDatagram_grows:
  assumes "epochs_ok s" "handleDatagram env now nowUs ep hdr d src s = Some (b, s')"
  shows "grows s s'"
  using assms(2)
proof (cases rule: handleDatagram_cases)
  case (fresh e pt e')
  obtain s1 where c: "confirm_epoch now ep (put_epoch ep e' s) = Some s1" and v: "epview s' = epview s1"
    by (rule after_replay_epochs [OF fresh(4)])
  have "se_heap s1 = se_heap (put_epoch ep e' s)"
    using confirm_epoch_facts(4) [OF rx_epochs_ok [OF rxview_replay [OF fresh(1,3)] assms(1)] c] .
  then have "grows (put_epoch ep e' s) s1" by (intro grows_same) simp_all
  then show ?thesis using grows_check [OF fresh(1,3)] grows_epview [OF v] grows_trans by blast
qed (auto intro: grows_check)

lemma prober_tick_grows:
  assumes "prober_tick env now nowUs (v, s) = Some (ids, v', s')"
  shows "grows s s'"
proof -
  obtain s1 where v: "epview s1 = epview s" and p: "(ids, s') = pruneEpochs now s1 \<or> ids = [] \<and> s' = s1"
    by (rule prober_tick_epochs [OF assms])
  have "grows s1 s'" using p by (auto simp: pruneEpochs_def intro!: grows_same)
  then show ?thesis using grows_epview [OF v] grows_trans by blast
qed

section \<open>The client\<close>

lemma registerEpoch_heap: "registerEpoch now ep m s = Some s' \<Longrightarrow> se_heap s' = se_heap s"
  by (auto simp: registerEpoch_def supersede_def bind_eq_Some_conv Let_def split: option.splits if_splits)

lemma Finish_windows: "fst (Finish c ns now ch m) = Inr ep \<Longrightarrow> ep_win ep = (\<lambda>_. Window_zero)"
  by (auto simp: Finish_def split: option.splits prod.splits sum.splits dest!: newEpoch_fields(5))

lemma hs_response_grows:
  assumes "hs_response c ns env now nowUs rxID ch resp s = Some (Inr s')"
  shows "grows s s'"
proof -
  obtain epoch s1 where f: "fst (Finish c ns now ch (snd resp)) = Inr epoch"
    and r: "registerEpoch now (length (se_heap s)) True (s\<lparr>se_heap := se_heap s @ [epoch]\<rparr>) = Some s1"
    and a: "announce_all env nowUs (length (se_heap s)) [0..<MaxPaths] s1 = Some s'"
    using assms by (auto simp: hs_response_def alloc_epoch_def bind_eq_Some_conv simp del: MaxPaths_def
        split: if_splits sum.splits)
  have "grows s s1" by (rule grows_append [OF _ Finish_windows [OF f]]) (use registerEpoch_heap [OF r] in simp)
  then show ?thesis using grows_epview [OF epview_announce_all [OF a]] grows_trans by blast
qed

lemma client_step_grows: "client_step c ns e e' \<Longrightarrow> client_epochs (ce_sess e) \<Longrightarrow> grows (ce_sess e) (ce_sess e')"
proof (induction rule: client_step.induct)
  case (tun env now ip e e')
  then show ?case using epview_sendData grows_epview
    by (auto simp: client_tun_packet_def bind_eq_Some_conv split: if_splits)
next
  case (datagram env now nowUs d e e')
  then show ?case using handleDatagram_grows
    by (auto simp: path_datagram_def bind_eq_Some_conv client_epochs_def split: if_splits sum.splits option.splits)
next
  case (init env rands seed rnd ts e rxID ch e')
  then show ?case using grows_epview hs_start_epview by blast
next
  case (response e r rs env now nowUs rxID ch s)
  then show ?case using hs_response_grows by simp
next
  case (links env pf nowUs e e')
  then show ?case using grows_epview epview_setupLinks by blast
next
  case (add env pf nowUs ifname mbps e e')
  then show ?case using grows_epview epview_control by blast
next
  case (remove ifname e e')
  then show ?case using grows_epview epview_control by blast
next
  case (mode m e e')
  then show ?case using grows_epview epview_control by blast
next
  case (flush env now e s)
  then show ?case using grows_epview epview_flusher_tick by fastforce
next
  case (probe env now nowUs v e ids v' s)
  then show ?case by (simp add: prober_tick_grows)
next
  case (stop env nowUs e e')
  then have "epview (ce_sess e') = epview (ce_sess e)"
    by (auto simp: Engine_Stop_def closeConns_def bind_eq_Some_conv dest!: sendCloseAll_quiet epview_quiet)
  then show ?case using grows_epview by blast
qed simp

interpretation client_windows: evolving_machine "client_step c ns" "\<lambda>e. client_epochs (ce_sess e)"
  "\<lambda>e e'. grows (ce_sess e) (ce_sess e')" for c ns
  by unfold_locales (use grows_refl grows_trans client_step_grows in blast)+

lemma client_run_grows:
  assumes "(client_step c ns)\<^sup>*\<^sup>* e e'" "client_epochs (ce_sess e)"
  shows "grows (ce_sess e) (ce_sess e') \<and> client_epochs (ce_sess e')"
  using client_windows.run_rel client_keys.reachable_inv assms by blast

section \<open>The server\<close>

lemma Respond_windows: "Respond c ns now seed rnd h psk rxID txID = Some (msg, ep) \<Longrightarrow> ep_win ep = (\<lambda>_. Window_zero)"
  by (auto simp: Respond_def split: option.splits if_splits dest: newEpoch_fields)

definition all_grow :: "ServerEng \<Rightarrow> ServerEng \<Rightarrow> bool" where
  "all_grow e e' \<longleftrightarrow> length (sr_sessions e') = length (sr_sessions e) \<and>
    (\<forall>i < length (sr_sessions e). grows (sr_sessions e ! i) (sr_sessions e' ! i))"

lemma all_grow_refl [simp, intro]: "all_grow e e"
  by (simp add: all_grow_def)

lemma all_grow_trans: "all_grow e f \<Longrightarrow> all_grow f g \<Longrightarrow> all_grow e g"
  unfolding all_grow_def by (metis grows_trans)

lemma all_grow_put:
  "grows (sr_sessions e ! i) s \<Longrightarrow> sr_sessions f = sr_sessions e \<Longrightarrow> all_grow e (put_session i s f)"
  unfolding all_grow_def put_session_fields length_list_update
  by (metis grows_refl nth_list_update_eq nth_list_update_neq)

lemma accept_init_grows:
  assumes "index_ok e" "i < length (sr_sessions e)"
    and "accept_init c ns env now nowUs seed rnd rands hdr src sh i e = Some e'"
  shows "all_grow e e'"
  using assms(3)
proof (cases rule: accept_init_cases)
  case (accepted rxID rest msg epoch a s t pkt)
  have "map_of (sr_byRxID e) rxID = None" using accepted(1) by (rule allocRxID_fresh)
  then have no: "lookupEpoch rxID (sr_sessions e ! i) = None"
    using assms(1,2) unfolding index_ok_def by (metis not_None_eq option.distinct(1))
  have rx: "ep_rxID epoch = rxID" "ep_win epoch = (\<lambda>_. Window_zero)"
    using Respond_ids [OF accepted(2)] Respond_windows [OF accepted(2)] by simp_all
  have "grows (sr_sessions e ! i) s"
    using index_epoch_facts(5) [OF index_ok_nth [OF assms(1,2)] no rx(1) accepted(3)] rx(2) grows_append by blast
  moreover have "epview t = epview s" using accepted(4) by (rule handshake_path_epview)
  ultimately have "grows (sr_sessions e ! i) t" using grows_epview grows_trans by blast
  then have "grows (sr_sessions e ! i) (if ev_ok env (ToAddr src pkt) then t\<lparr>se_started := True\<rparr> else t)"
    using grows_epview [of "t\<lparr>se_started := True\<rparr>" t] grows_trans by auto
  then show ?thesis unfolding accepted(5) by (rule all_grow_put) simp
qed simp

lemma server_step_grows:
  assumes "server_step c ns e e'" "index_ok e" "tables_ok e"
  shows "all_grow e e'"
  using assms
proof (induction rule: server_step.induct)
  case (listen env now nowUs seed rnd rands d src e e')
  from listen(1) show ?case
  proof (cases rule: listen_datagram_cases)
    case (handshake hdr)
    from handshake(3) show ?thesis
    proof (cases rule: handleHandshakeInit_cases)
      case (ignored gate)
      then show ?thesis by (simp add: all_grow_def)
    next
      case (advanced gate sh i)
      note i = tables_okD(1) [OF listen(3) advanced(3)]
      let ?e = "put_session i ((sr_sessions e ! i)\<lparr>se_lastHsTs := ip_TimestampNs (sh_payload sh)\<rparr>) (e\<lparr>sr_hsGate := gate\<rparr>)"
      have "all_grow e ?e" by (rule all_grow_put) (simp_all add: grows_same)
      moreover have "all_grow ?e e'"
        by (rule accept_init_grows [OF stamped_index [OF listen(2) i] _ advanced(5)]) (simp add: i)
      ultimately show ?thesis using all_grow_trans by blast
    qed
  next
    case (received hdr i ep b s)
    have "epochs_ok (sr_sessions e ! i)" using index_ok_nth listen tables_okD(3) received(2) by blast
    then show ?thesis unfolding received(4) using handleDatagram_grows [OF _ received(3)] by (intro all_grow_put) simp_all
  qed simp
next
  case (tun env now ip e e')
  from tun(1) show ?case
  proof (cases rule: server_tun_packet_cases)
    case (sent i s lm)
    have "epview s = epview (sr_sessions e ! i)" using epview_sendData [OF sent(2)] by (simp add: with_limiter_def)
    then show ?thesis unfolding sent(3) by (intro all_grow_put grows_epview) simp_all
  qed simp
next
  case (flush i e env now s)
  show ?case using grows_epview [OF epview_flusher_tick [OF flush(2)]] by (intro all_grow_put) simp_all
next
  case (probe i e env now nowUs v v' e')
  then obtain ids s where t: "prober_tick env now nowUs (v, sr_sessions e ! i) = Some (ids, v', s)"
    and e': "e' = unindexRxIDs ids (put_session i s e)"
    by (auto simp: server_prober_tick_def bind_eq_Some_conv)
  have "all_grow e (put_session i s e)" by (rule all_grow_put [OF prober_tick_grows [OF t]]) simp
  then show ?case by (simp add: e' all_grow_def unindexRxIDs_def)
qed

interpretation server_windows: evolving_machine "server_step c ns" "\<lambda>e. index_ok e \<and> tables_ok e" all_grow for c ns
  by unfold_locales (use all_grow_refl all_grow_trans server_step_grows in blast)+

lemma server_run_grows:
  assumes "(server_step c ns)\<^sup>*\<^sup>* e e'" "index_ok e" "tables_ok e"
  shows "all_grow e e' \<and> index_ok e' \<and> tables_ok e'"
  using server_windows.run_rel server_index.reachable_inv assms by blast

section \<open>Replayed datagrams\<close>

text \<open>
  A session whose windows are runs of checks: what it accepted under a path and a counter, it
  refuses later under the same path and counter.
\<close>

definition windows_sound :: "session \<Rightarrow> bool" where
  "windows_sound s \<longleftrightarrow> (\<forall>a p. win_before s a p = Window_zero \<or> w_started (win_before s a p))"

lemma windows_sound_grows: "windows_sound s \<Longrightarrow> grows s s' \<Longrightarrow> windows_sound s'"
  unfolding windows_sound_def grows_def by (metis replay.run_pristine replay.run_started)

lemma windows_sound_empty: "se_heap s = [] \<Longrightarrow> windows_sound s"
  by (simp add: windows_sound_def win_before_def)

lemma accepted_counter_blocked:
  assumes "windows_sound s" "epochs_ok s" "handleDatagram env now nowUs ep hdr d src s = Some (True, s1)" "grows s1 s2"
    and "unat (w_highest (win_before s2 ep (unat (h_PathID hdr)))) \<le> unat (h_Counter hdr) + 1984"
    and "h_PathID hdr' = h_PathID hdr" "h_Counter hdr' = h_Counter hdr"
  shows "\<exists>h. handleDatagram env' now' nowUs' ep hdr' d' src' s2 = Some (False, s2\<lparr>se_heap := h\<rparr>)"
  using assms(3)
proof (cases rule: handleDatagram_cases)
  case (fresh e pt e')
  let ?p = "unat (h_PathID hdr)" and ?c = "h_Counter hdr"
  have e: "ep < length (se_heap s)" "e = se_heap s ! ep" using fresh(1) by (auto simp: get_epoch_def split: if_splits)
  have ok: "fst (Window_Check (win_before s ep ?p) ?c)"
    using CheckReplay_window(3) [OF fresh(3)] e by (simp add: win_before_def)
  obtain t where c: "confirm_epoch now ep (put_epoch ep e' s) = Some t" and v: "epview s1 = epview t"
    by (rule after_replay_epochs [OF fresh(4)])
  have "se_heap t = se_heap (put_epoch ep e' s)"
    using confirm_epoch_facts(4) [OF rx_epochs_ok [OF rxview_replay [OF fresh(1,3)] assms(2)] c] .
  then have t: "grows (put_epoch ep e' s) t" by (intro grows_same) simp
  then have g: "grows (put_epoch ep e' s) s2" using grows_epview [OF v] assms(4) grows_trans by blast
  have w: "win_before (put_epoch ep e' s) ep ?p = snd (Window_Check (win_before s ep ?p) ?c)"
    using e CheckReplay_window(1) [OF fresh(3)] by (simp add: win_before_def put_epoch_def)
  obtain cs where cs: "win_before s2 ep ?p = win_run Window_Check (snd (Window_Check (win_before s ep ?p) ?c)) cs"
    using g w unfolding grows_def by metis
  have "\<not> fst (Window_Check (win_run Window_Check (win_before s ep ?p) (?c # cs)) ?c)"
    using assms(1,5) ok cs by (intro replay.no_second_acceptance replay.near_blocks) (simp_all add: windows_sound_def)
  then have no: "\<not> fst (Window_Check (win_before s2 ep ?p) ?c)" using cs by simp
  have l: "ep < length (se_heap s2)" "ep_recv (se_heap s2 ! ep) = ep_recv e'"
    using g e(1) by (auto simp: grows_def put_epoch_def)
  have pid: "unat (h_PathID hdr) < MaxPaths" "ep_recv e ?p \<noteq> None"
    using fresh(2) by (auto simp: Epoch_Open_def split: if_splits option.splits)
  then have "\<exists>r. Epoch_Open (se_heap s2 ! ep) (h_PathID hdr) ?c [] (drop HeaderSize d') (take HeaderSize d') = Some r"
    using l(2) CheckReplay_window(2) [OF fresh(3)] by (auto simp: Epoch_Open_def split: option.split)
  then obtain r where r: "Epoch_Open (se_heap s2 ! ep) (h_PathID hdr) ?c [] (drop HeaderSize d') (take HeaderSize d') = Some r" ..
  have cr: "CheckReplay (se_heap s2 ! ep) (h_PathID hdr) ?c = Some (False, (se_heap s2 ! ep)\<lparr>ep_win :=
      (ep_win (se_heap s2 ! ep))(?p := snd (Window_Check (win_before s2 ep ?p) ?c))\<rparr>)"
    using no pid(1) l(1) by (auto simp: CheckReplay_def Let_def win_before_def split: prod.split)
  show ?thesis
  proof (cases r)
    case (Inl err)
    then have "handleDatagram env' now' nowUs' ep hdr' d' src' s2 = Some (False, s2\<lparr>se_heap := se_heap s2\<rparr>)"
      using r l(1) assms(6,7) by (simp add: handleDatagram_def get_epoch_def)
    then show ?thesis by blast
  next
    case (Inr pt')
    then show ?thesis using r l(1) cr assms(6,7) by (simp add: handleDatagram_def get_epoch_def put_epoch_def) blast
  qed
qed simp_all

lemma StartServer_sound:
  assumes "i < length (sr_sessions (StartServer t0 cfg))"
  shows "windows_sound (sr_sessions (StartServer t0 cfg) ! i)"
proof -
  have "\<forall>s \<in> set (sr_sessions (add_peer p e)). se_heap s = []" if "\<forall>s \<in> set (sr_sessions e). se_heap s = []" for p e
    using that by (simp add: add_peer_def Let_def newSession_def)
  then have "\<forall>s \<in> set (sr_sessions e). se_heap s = [] \<Longrightarrow> \<forall>s \<in> set (sr_sessions (fold add_peer ps e)). se_heap s = []" for ps e
    by (induction ps arbitrary: e) (simp, metis fold_simps(2))
  from this have "\<forall>s \<in> set (sr_sessions (StartServer t0 cfg)). se_heap s = []" unfolding StartServer_def Let_def by this simp
  then show ?thesis using assms nth_mem windows_sound_empty by blast
qed

lemma StartClient_sound: "StartClient env pf nowUs srv tunName cfg = Some e \<Longrightarrow> windows_sound (ce_sess e)"
proof -
  have n: "windows_sound (newSession conf nm k psk m)" for conf nm k psk m by (rule windows_sound_empty) (simp add: newSession_def)
  have k: "windows_sound t" if "epview t = epview (newSession conf nm k psk m)" for t conf nm k psk m
    using windows_sound_grows [OF n grows_epview [OF that]] .
  assume "StartClient env pf nowUs srv tunName cfg = Some e"
  then show "windows_sound (ce_sess e)"
    by (auto simp: StartClient_def bind_eq_Some_conv Let_def dest!: epview_setupLinks intro: k)
qed


text \<open>A data packet for the epoch of the sample handshake.\<close>

definition sample_data :: bytes where
  "sample_data = [TypeData, 0, 0, 0, 1, 0, 0, 0, 5, 0, 0, 0, 0, 0, 0, 0] @ [1, 0, 0, 0, 0, 0, 0, 0] @ replicate 16 0"

lemma sample_data_parses:
  "ParseHeader sample_data = Inr \<lparr>h_Type = TypeData, h_PathID = 0, h_SessionID = 1, h_Counter = 5\<rparr>"
  "a_Open (plain_aead 0) nonce (drop HeaderSize sample_data) ad = Some [1, 0, 0, 0, 0, 0, 0, 0]"
  "ParseDataHeader [1, 0, 0, 0, 0, 0, 0, 0] = Inr (1, 0, [])"
proof -
  show "ParseHeader sample_data = Inr \<lparr>h_Type = TypeData, h_PathID = 0, h_SessionID = 1, h_Counter = 5\<rparr>" by code_simp
  show "ParseDataHeader [1, 0, 0, 0, 0, 0, 0, 0] = Inr (1, 0, [])" by code_simp
  have "drop HeaderSize sample_data = [1, 0, 0, 0, 0, 0, 0, 0] @ replicate 16 0" by code_simp
  then show "a_Open (plain_aead 0) nonce (drop HeaderSize sample_data) ad = Some [1, 0, 0, 0, 0, 0, 0, 0]"
    by (simp add: plain_aead_def)
qed


text \<open>
  The client drops replays in the same way, from \<open>StartClient\<close> on.
\<close>

theorem client_drops_replays:
  assumes "StartClient env0 pf us srv tunName cfg = Some e0" "(client_step c ns)\<^sup>*\<^sup>* e0 e"
    and "handleDatagram env now nowUs ep hdr d src (ce_sess e) = Some (True, s1)"
    and "(client_step c ns)\<^sup>*\<^sup>* (e\<lparr>ce_sess := s1\<rparr>) e2" "s2 = ce_sess e2"
    and "unat (w_highest (win_before s2 ep (unat (h_PathID hdr)))) \<le> unat (h_Counter hdr) + 1984"
    and "h_PathID hdr' = h_PathID hdr" "h_Counter hdr' = h_Counter hdr"
  shows "\<exists>h. handleDatagram env' now' nowUs' ep hdr' d' src' s2 = Some (False, s2\<lparr>se_heap := h\<rparr>)"
proof -
  note g = client_run_grows [OF assms(2) StartClient_epochs [OF assms(1)]]
  have s: "windows_sound (ce_sess e)" using g StartClient_sound [OF assms(1)] windows_sound_grows by blast
  have ok: "epochs_ok (ce_sess e)" "client_epochs s1"
    using g client_epochs_rx [OF _ handleDatagram_settled [OF _ assms(3)]] by (simp_all add: client_epochs_def)
  then have "grows s1 s2" using client_run_grows [OF assms(4)] assms(5) by simp
  then show ?thesis by (rule accepted_counter_blocked [OF s ok(1) assms(3) _ assms(6-8)])
qed

end
