(* ===== verification/Buffer_Limits.thy ===== *)
theory Buffer_Limits
  imports Delivery
begin

text \<open>
  Which sizes the pooled buffers of \<open>pktbuf.go\<close> really hold. A data packet is sealed in place
  behind 24 bytes of room and an 8-byte header, and the tag is appended: beyond 2000 bytes
  the sealed datagram no longer fits and slicing it out of the buffer panics, although the
  configuration admits tunnel MTUs up to 9000 and the TUN device delivers up to 2016 bytes. The
  size check of \<open>sendMTUProbe\<close> admits 8 bytes more than the buffer holds.
\<close>

lemma sealed_length:
  assumes "get_epoch x s = Some ea" "unat pid < MaxPaths" "channel ea eb"
  shows "\<exists>d. seal_datagram x typ pid pt s = Some (d, put_epoch x (bump pid ea) s) \<and> length d = HeaderSize + length pt + TagSize"
  by (rule seal_datagram_sealed [OF assms]) blast

lemma encryptAndSend_overruns:
  assumes "get_epoch x s = Some ea" "unat pid < MaxPaths" "channel ea eb" "se_paths s (unat pid) \<noteq> None"
    and "BufSize - DatagramOffset - HeaderSize - TagSize < length pt"
  shows "encryptAndSend env x pid pt n s = None"
proof -
  obtain d where "seal_datagram x TypeData pid pt s = Some (d, put_epoch x (bump pid ea) s)"
    "length d = HeaderSize + length pt + TagSize" using sealed_length [OF assms(1-3)] by blast
  then show ?thesis using assms(2,4,5) by (auto simp: encryptAndSend_def not_le)
qed

lemma sendData_overruns:
  assumes "se_txEpoch a = Some x" "get_epoch x a = Some ea" "channel ea eb"
    and "Assign (int (length ip)) [] (se_sched a) = ([pid], sched)" "sc_mode (se_sched a) \<noteq> ModeFEC"
    and "unat pid < MaxPaths" "se_paths a (unat pid) \<noteq> None" "2000 < length ip"
  shows "sendData env now ip a = None"
proof -
  obtain hdr where hdr: "PutDataHeader (replicate DataHeaderSize 0) (se_globalSeq a + 1) 0 = Some hdr" "length hdr = DataHeaderSize"
    by (simp add: PutDataHeader_def)
  let ?s = "a\<lparr>se_sched := sched, se_globalSeq := se_globalSeq a + 1\<rparr>"
  have mode: "sc_mode sched \<noteq> ModeFEC" using assms(4,5) Assign_mode [of "int (length ip)" "[]" "se_sched a"] by simp
  have pre: "get_epoch x ?s = Some ea" "se_paths ?s (unat pid) \<noteq> None" using assms(2,7) by simp_all
  have "encryptAndSend env x pid (hdr @ ip) (length ip) ?s = None"
    by (rule encryptAndSend_overruns [OF pre(1) assms(6,3) pre(2)]) (use assms(8) hdr(2) in simp)
  then show ?thesis using assms(1,4) hdr(1) mode by (simp add: sendData_def Let_def data_flags_def)
qed

text \<open>
  Property C37. Oversized packets panic. In bonding mode a packet of more than 2000 bytes for which the
  scheduler finds a path makes \<open>sendData\<close> slice beyond its buffer: the process panics.
\<close>

theorem oversized_packet_panics:
  assumes "aead_correct c" "newEpoch c t cs ss cb tx rx cl = Some e1"
    and "agrees a" "se_txEpoch a = Some x" "get_epoch x a = Some ea" "ep_send ea = ep_send e1"
    and "sc_mode (se_sched a) = ModeBonding" "serves a (int (length ip)) q" "2000 < length ip"
  shows "sendData env now ip a = None"
proof -
  obtain eb :: Epoch where "ep_recv eb = ep_send e1" by (metis Epoch.select_convs(5))
  moreover have k: "\<exists>key k. chacha_New c key = Some k \<and> ep_send e1 p = Some k" if "p < MaxPaths" for p
    using newEpoch_keys(3) [OF assms(2), of p] newEpoch_from_chacha(1) [OF assms(2), of p] that by (metis MaxPaths_def not_None_eq)
  ultimately have ch: "channel ea eb"
    using assms(1,6) unfolding channel_def aead_correct_def by metis
  obtain pid sched where pid: "Assign (int (length ip)) [] (se_sched a) = ([pid], sched)" "serves a (int (length ip)) pid"
    by (rule bonding_target [OF assms(3,7,8)])
  have "sc_mode (se_sched a) \<noteq> ModeFEC" "se_paths a (unat pid) \<noteq> None" using assms(7) pid(2) by (auto simp: serves_def)
  then show ?thesis using sendData_overruns [OF assms(4,5) ch pid(1) _ serves_candidate(1) [OF assms(3) pid(2)] _ assms(9)] by blast
qed

theorem oversized_packet_panics_witness:
  "\<exists>a :: session. sc_mode (se_sched a) = ModeBonding \<and> sendData sample_env 0 (replicate 2001 0) a = None"
proof -
  obtain e1 where e: "newEpoch plain_crypto 0 [] [] [] 1 2 True = Some e1" using plain_newEpoch by meson
  let ?a = "(sample_end e1)\<lparr>se_txEpoch := Some 0\<rparr>"
  have m: "sc_mode (se_sched ?a) = ModeBonding" by (simp add: sample_end_simps two_paths_def)
  have "serves ?a (int (length (replicate 2001 (0 :: byte)))) 0" by (simp add: sample_sender(2))
  from oversized_packet_panics [OF plain_aead_correct e sample_sender(1) _ sample_sender(4) refl m this]
  have "sendData sample_env 0 (replicate 2001 0) ?a = None" by simp
  then show ?thesis using m by blast
qed

text \<open>
  The size check of \<open>sendMTUProbe\<close> is 8 bytes too wide: a probe of 2009 to 2016 plaintext
  bytes passes it and overruns the buffer.
\<close>

theorem oversized_probe_panics:
  assumes "get_epoch x s = Some ea" "channel ea eb" "se_paths s slot = Some p" "unat (pa_ID p) < MaxPaths"
    and "2008 < ProbePlaintextLen wireMTU (endpoint_v4 p)" "ProbePlaintextLen wireMTU (endpoint_v4 p) \<le> 2016"
  shows "sendMTUProbe env x slot probe_id wireMTU s = None"
proof -
  let ?n = "nat (ProbePlaintextLen wireMTU (endpoint_v4 p))"
  have n: "\<not> ?n < 6" using assms(5) by simp
  then obtain pt where pt: "PutMTUPayload (replicate ?n 0) probe_id (of_int wireMTU) = Some pt" "length pt = ?n"
    by (simp add: PutMTUPayload_def)
  obtain d where "seal_datagram x TypeMTUProbe (pa_ID p) pt s = Some (d, put_epoch x (bump (pa_ID p) ea) s)"
    "length d = HeaderSize + length pt + TagSize" using sealed_length [OF assms(1,4,2)] by blast
  moreover have "2008 < ?n" using assms(5) by linarith
  ultimately show ?thesis using assms(3,5,6) pt by (simp add: sendMTUProbe_def Let_def)
qed

end
