(* ===== verification/Resequencer.thy ===== *)
theory Resequencer
  imports Reorder_Correct
begin

text \<open>
  What the resequencing buffer of \<open>internal/reorder/buffer.go\<close> promises, as a program on a sorted
  list, and the proof that the ring implements it. The abstract resequencer knows nothing of slots,
  masks, scans or counters: it keeps the packets that wait, oldest first, and emits by taking from the
  front. The abstraction \<open>resequencer_of\<close> reads the ring in the order of the sequence numbers, so the
  refinement is functional: abstracting after an operation of the code is the abstract operation
  after abstracting.
\<close>

section \<open>The abstract resequencer\<close>

record Resequencer =
  rq_started :: bool
  rq_next :: nat
  rq_held :: "(nat \<times> packet) list"
  rq_cap :: int
  rq_due :: "int option"
  rq_out :: "(bool \<times> nat \<times> packet) list"

text \<open>The packets at the front of the queue that continue the stream from \<open>n\<close> on.\<close>

fun consecutive :: "nat \<Rightarrow> (nat \<times> packet) list \<Rightarrow> (nat \<times> packet) list" where
  "consecutive n [] = []"
| "consecutive n ((k, p) # hs) = (if k = n then (k, p) # consecutive (Suc n) hs else [])"

definition rq_drain :: "Resequencer \<Rightarrow> Resequencer" where
  "rq_drain a =
    (let es = consecutive (rq_next a) (rq_held a)
     in a\<lparr>rq_next := rq_next a + length es, rq_held := drop (length es) (rq_held a),
          rq_out := rq_out a @ map (Pair False) es\<rparr>)"

text \<open>There is a deadline exactly while something waits; it is kept once it is set.\<close>

definition rq_arm :: "int \<Rightarrow> int \<Rightarrow> Resequencer \<Rightarrow> Resequencer" where
  "rq_arm now tmo a =
    a\<lparr>rq_due := (if rq_held a = [] then None
       else case rq_due a of None \<Rightarrow> Some (now + tmo) | Some d \<Rightarrow> Some d)\<rparr>"

text \<open>Giving up on the gap in front of the oldest packet, with a new deadline for the next gap.\<close>

definition rq_skip :: "int \<Rightarrow> int \<Rightarrow> Resequencer \<Rightarrow> Resequencer" where
  "rq_skip now tmo a =
    (case rq_held a of
       [] \<Rightarrow> a\<lparr>rq_due := None\<rparr>
     | (k, _) # _ \<Rightarrow> rq_arm now tmo (rq_drain (a\<lparr>rq_next := k, rq_due := None\<rparr>)))"

text \<open>A packet takes its place in the queue; one that waits under the same number gives way to it.\<close>

definition replace_key :: "nat \<Rightarrow> packet \<Rightarrow> (nat \<times> packet) list \<Rightarrow> (nat \<times> packet) list" where
  "replace_key n p hs = insort_key fst (n, p) (filter (\<lambda>h. fst h \<noteq> n) hs)"

text \<open>Giving up on every gap, when a packet arrives a whole ring ahead.\<close>

definition rq_jump :: "nat \<Rightarrow> Resequencer \<Rightarrow> Resequencer" where
  "rq_jump n a =
    a\<lparr>rq_next := n, rq_held := [], rq_due := None, rq_out := rq_out a @ map (Pair False) (rq_held a)\<rparr>"

definition rq_accept :: "int \<Rightarrow> int \<Rightarrow> nat \<Rightarrow> packet \<Rightarrow> Resequencer \<Rightarrow> Resequencer" where
  "rq_accept now tmo n p a =
    (if n = rq_next a then
       rq_arm now tmo (rq_drain (a\<lparr>rq_next := Suc n, rq_out := rq_out a @ [(False, n, p)]\<rparr>))
     else if n < rq_next a then a\<lparr>rq_out := rq_out a @ [(True, n, p)]\<rparr>
     else let a = rq_arm now tmo (a\<lparr>rq_held := replace_key n p (rq_held a)\<rparr>)
          in if rq_cap a < int (length (rq_held a)) then rq_skip now tmo a else a)"

definition rq_push :: "int \<Rightarrow> int \<Rightarrow> nat \<Rightarrow> packet \<Rightarrow> Resequencer \<Rightarrow> Resequencer" where
  "rq_push now tmo n p a =
    (let a = (if rq_started a then a else a\<lparr>rq_started := True, rq_next := n\<rparr>)
     in rq_accept now tmo n p (if rq_next a + 8192 \<le> n then rq_jump n a else a))"

definition rq_tick :: "int \<Rightarrow> int \<Rightarrow> Resequencer \<Rightarrow> Resequencer" where
  "rq_tick now tmo a =
    (case rq_due a of None \<Rightarrow> a | Some d \<Rightarrow> if now < d then a else rq_skip now tmo a)"

fun rq_step :: "rb_op \<Rightarrow> Resequencer \<Rightarrow> Resequencer" where
  "rq_step (PushOp now tmo q p) a = rq_push now tmo (unat q) p a"
| "rq_step (FlushOp now tmo) a = rq_tick now tmo a"

section \<open>The abstraction\<close>

definition entry :: "Buffer \<Rightarrow> nat \<Rightarrow> nat \<times> packet" where
  "entry b i = (unat (s_seq (b_ring b i)), s_pkt (b_ring b i))"

definition held_list :: "Buffer \<Rightarrow> (nat \<times> packet) list" where
  "held_list b = sort_key fst (map (entry b) (filter (\<lambda>i. s_used (b_ring b i)) [0..<ringSize]))"

definition out_list :: "Buffer \<Rightarrow> (bool \<times> nat \<times> packet) list" where
  "out_list b = map (\<lambda>e. (em_late e, unat (em_seq e), em_pkt e)) (b_emitted b)"

definition resequencer_of :: "Buffer \<Rightarrow> Resequencer" where
  "resequencer_of b = \<lparr>rq_started = b_started b, rq_next = unat (b_nextSeq b), rq_held = held_list b,
     rq_cap = b_maxHold b, rq_due = b_deadline b, rq_out = out_list b\<rparr>"

lemma resequencer_of_fields [simp]:
  "rq_started (resequencer_of b) = b_started b" "rq_next (resequencer_of b) = unat (b_nextSeq b)"
  "rq_held (resequencer_of b) = held_list b" "rq_cap (resequencer_of b) = b_maxHold b"
  "rq_due (resequencer_of b) = b_deadline b" "rq_out (resequencer_of b) = out_list b"
  by (simp_all add: resequencer_of_def)

lemma set_held_list: "set (held_list b) = entry b ` used_slots b"
  by (auto simp: held_list_def used_slots_def)

lemma held_list_cong: "b_ring b' = b_ring b \<Longrightarrow> held_list b' = held_list b"
  by (simp add: held_list_def entry_def [abs_def])

lemma out_list_cong: "b_emitted b' = b_emitted b \<Longrightarrow> out_list b' = out_list b"
  by (simp add: out_list_def)

lemma entry_inj: "ring_ok lo b \<Longrightarrow> inj_on (\<lambda>i. fst (entry b i)) (used_slots b)"
  by (auto simp: inj_on_def entry_def word_unat_eq_iff [symmetric] dest: seq_inj)

lemma sorted_held_list: "ring_ok lo b \<Longrightarrow> sorted_wrt (<) (map fst (held_list b))"
proof -
  assume ok: "ring_ok lo b"
  let ?is = "filter (\<lambda>i. s_used (b_ring b i)) [0..<ringSize]"
  have "set ?is = used_slots b" by (auto simp: used_slots_def)
  then have "distinct (map fst (map (entry b) ?is))"
    using entry_inj [OF ok] by (simp add: distinct_map o_def)
  then have "distinct (map fst (held_list b))"
    unfolding held_list_def by (metis distinct_map distinct_sort set_sort)
  then show ?thesis by (simp add: held_list_def strict_sorted_iff)
qed

text \<open>The ring determines the list: any sorted list of the entries is the abstraction.\<close>

lemma held_list_unique:
  assumes "ring_ok lo b" and "sorted_wrt (<) (map fst xs)" and "set xs = entry b ` used_slots b"
  shows "held_list b = xs"
proof (rule map_sorted_distinct_set_unique [of fst])
  show "set (held_list b) = set xs" by (simp add: set_held_list assms(3))
  show "inj_on fst (set (held_list b) \<union> set xs)"
    using assms(2) by (simp add: set_held_list assms(3)[symmetric] strict_sorted_iff distinct_map)
  show "sorted (map fst (held_list b))" "distinct (map fst (held_list b))"
    using sorted_held_list [OF assms(1)] by (simp_all add: strict_sorted_iff)
  show "sorted (map fst xs)" "distinct (map fst xs)" using assms(2) by (simp_all add: strict_sorted_iff)
qed

lemma held_list_empty: "used_slots b = {} \<Longrightarrow> held_list b = []"
  using set_held_list [of b] by simp

lemma length_held_list: "ring_ok lo b \<Longrightarrow> int (length (held_list b)) = b_held b"
proof -
  assume ok: "ring_ok lo b"
  have "length (held_list b) = card (set (map fst (held_list b)))"
    using distinct_card [of "map fst (held_list b)"] sorted_held_list [OF ok]
    by (simp add: strict_sorted_iff)
  also have "set (map fst (held_list b)) = (\<lambda>i. fst (entry b i)) ` used_slots b"
    by (simp add: set_held_list image_image)
  also have "card \<dots> = card (used_slots b)" by (rule card_image [OF entry_inj [OF ok]])
  finally show ?thesis using ok by (simp add: ring_ok_def)
qed

text \<open>Emitting the oldest held packet takes the head of the list.\<close>

lemma held_list_oldest:
  assumes ok: "ring_ok lo b" and i: "i \<in> used_slots b"
    and least: "\<And>j. j \<in> used_slots b \<Longrightarrow> s_seq (b_ring b i) \<le> s_seq (b_ring b j)"
  shows "held_list b = entry b i # held_list (emit_slot i b)"
proof (rule held_list_unique [OF ok])
  have rest: "entry (emit_slot i b) ` (used_slots b - {i}) = entry b ` (used_slots b - {i})"
    by (rule image_cong) (auto simp: entry_def)
  have "unat (s_seq (b_ring b i)) < unat (s_seq (b_ring b j))" if "j \<in> used_slots b" "j \<noteq> i" for j
    using least [OF that(1)] seq_inj [OF ok i that(1)] that(2)
    by (metis order_le_less word_less_nat_alt)
  then show "sorted_wrt (<) (map fst (entry b i # held_list (emit_slot i b)))"
    using sorted_held_list [OF ring_ok_emit_slot [OF ok i]]
    by (auto simp: set_held_list used_slots_emit_slot rest) (auto simp: entry_def)
  show "set (entry b i # held_list (emit_slot i b)) = entry b ` used_slots b"
    using i by (auto simp: set_held_list used_slots_emit_slot rest)
qed

lemma out_list_emit_slot: "out_list (emit_slot i b) = out_list b @ [(False, entry b i)]"
  by (simp add: out_list_def entry_def)

lemma held_list_next:
  assumes "ring_ok (unat (b_nextSeq b)) b" and "s_used (b_ring b i)" and "i = ring_index (b_nextSeq b)"
    and "s_seq (b_ring b i) = b_nextSeq b"
  shows "held_list b = (unat (b_nextSeq b), s_pkt (b_ring b i)) # held_list (emit_slot i b)"
  using held_list_oldest [OF assms(1), of i] ring_okD(2) [OF assms(1)] assms(2-4)
  by (simp add: entry_def word_le_nat_alt used_slots_def)

section \<open>The loops\<close>

lemma consecutive_strict:
  "sorted_wrt (<) (map fst hs) \<Longrightarrow> \<forall>k\<in>set (map fst hs). n < k \<Longrightarrow> consecutive n hs = []"
  by (cases hs) auto

lemma drain_loop_refines:
  "loop_ok b \<Longrightarrow> resequencer_of (drain_loop b) = rq_drain (resequencer_of b)"
proof (induction b rule: drain_loop.induct)
  case (1 b)
  let ?i = "ring_index (b_nextSeq b)"
  let ?c = "(emit_slot ?i b)\<lparr>b_nextSeq := b_nextSeq b + 1\<rparr>"
  have ring: "ring_ok (unat (b_nextSeq b)) b" using "1.prems" by (simp add: loop_ok_def)
  show ?case
  proof (cases "0 < b_held b \<and> s_used (b_ring b ?i) \<and> s_seq (b_ring b ?i) = b_nextSeq b")
    case True
    have ok: "loop_ok ?c" using True by (intro loop_ok_emit_next [OF "1.prems"]) simp_all
    have "unat (b_nextSeq b) < 2 ^ 48"
      using ring_okD(4) [OF ring ring_index_used] True by metis
    then have suc: "unat (b_nextSeq b + 1) = Suc (unat (b_nextSeq b))"
      by (intro unat_Suc_below [where t = "2 ^ 48"]) simp
    have c: "resequencer_of ?c = (resequencer_of b)\<lparr>rq_next := Suc (unat (b_nextSeq b)),
        rq_held := held_list (emit_slot ?i b), rq_out := out_list b @ [(False, entry b ?i)]\<rparr>"
      by (simp add: resequencer_of_def suc held_list_cong [of ?c "emit_slot ?i b"]
          out_list_cong [of ?c "emit_slot ?i b"] out_list_emit_slot)
    have "drain_loop b = drain_loop ?c" using True by (subst drain_loop.simps) (simp add: Let_def)
    then have "resequencer_of (drain_loop b) = rq_drain (resequencer_of ?c)"
      using "1.IH" ok True by (simp add: Let_def)
    also have "\<dots> = rq_drain (resequencer_of b)"
      using held_list_next [OF ring, of ?i] True
      unfolding c by (simp add: rq_drain_def Let_def entry_def)
    finally show ?thesis .
  next
    case False
    then have stop: "drain_loop b = b" by (subst drain_loop.simps) (auto simp: Let_def)
    have "ring_ok (Suc (unat (b_nextSeq b))) b" using loop_ok_drain_loop [OF "1.prems"] by (simp add: stop)
    then have "\<forall>k\<in>set (map fst (held_list b)). unat (b_nextSeq b) < k"
      using ring_okD(2) by (fastforce simp: set_held_list entry_def)
    then have "consecutive (unat (b_nextSeq b)) (held_list b) = []"
      using consecutive_strict [OF sorted_held_list [OF ring]] by blast
    then show ?thesis by (simp add: stop rq_drain_def Let_def)
  qed
qed

lemma drainLocked_refines:
  assumes "loop_ok b"
  shows "resequencer_of (drainLocked now tmo b) = rq_arm now tmo (rq_drain (resequencer_of b))"
proof -
  have "ring_ok (unat (b_nextSeq (drain_loop b))) (drain_loop b)"
    using loop_ok_drain_loop [OF assms] by (simp add: loop_ok_def)
  then have "b_held (drain_loop b) = 0 \<longleftrightarrow> held_list (drain_loop b) = []"
    using length_held_list by force
  moreover have "resequencer_of (c\<lparr>b_deadline := d\<rparr>) = (resequencer_of c)\<lparr>rq_due := d\<rparr>"
    "resequencer_of (arm_deadline now tmo c) = (resequencer_of c)\<lparr>rq_due := Some (now + tmo)\<rparr>" for c d
    by (simp_all add: resequencer_of_def arm_deadline_def held_list_def entry_def [abs_def] out_list_def)
  moreover have "(resequencer_of c)\<lparr>rq_due := Some d\<rparr> = resequencer_of c"
    if "b_deadline c = Some d" for c d
    using that by (simp add: resequencer_of_def)
  ultimately show ?thesis
    by (auto simp: drainLocked_def rq_arm_def Let_def drain_loop_refines [OF assms, symmetric])
qed

lemma skipGapLocked_refines:
  assumes "ring_ok lo b" and "lo \<ge> unat (b_nextSeq b)" and "order_ok b" and "used_slots b \<noteq> {}"
  shows "resequencer_of (skipGapLocked now tmo b) = rq_skip now tmo (resequencer_of b)"
proof -
  obtain i where i: "i \<in> used_slots b"
    "\<And>j. j \<in> used_slots b \<Longrightarrow> s_seq (b_ring b i) \<le> s_seq (b_ring b j)"
    and skip: "skipGapLocked now tmo b =
      drainLocked now tmo (b\<lparr>b_nextSeq := s_seq (b_ring b i), b_deadline := None\<rparr>)"
    and ok: "loop_ok (b\<lparr>b_nextSeq := s_seq (b_ring b i), b_deadline := None\<rparr>)"
    using skipGapLocked_oldest [OF assms] by metis
  let ?c = "b\<lparr>b_nextSeq := s_seq (b_ring b i), b_deadline := None\<rparr>"
  have "resequencer_of ?c =
      (resequencer_of b)\<lparr>rq_next := unat (s_seq (b_ring b i)), rq_due := None\<rparr>"
    by (simp add: resequencer_of_def held_list_cong [of ?c b] out_list_cong [of ?c b])
  then show ?thesis
    using held_list_oldest [OF assms(1) i]
    by (simp add: skip drainLocked_refines [OF ok] rq_skip_def entry_def)
qed

text \<open>Both loops of \<open>advanceTo\<close> only move packets from the front of the queue to the output.\<close>

definition line_up :: "Buffer \<Rightarrow> (bool \<times> nat \<times> packet) list" where
  "line_up b = out_list b @ map (Pair False) (held_list b)"

lemma line_up_emit_slot:
  assumes "ring_ok lo b" and "i \<in> used_slots b"
    and "\<And>j. j \<in> used_slots b \<Longrightarrow> s_seq (b_ring b i) \<le> s_seq (b_ring b j)"
  shows "line_up (emit_slot i b) = line_up b"
  using held_list_oldest [OF assms] by (simp add: line_up_def out_list_emit_slot)

lemma line_up_cong: "b_ring b' = b_ring b \<Longrightarrow> b_emitted b' = b_emitted b \<Longrightarrow> line_up b' = line_up b"
  by (simp add: line_up_def held_list_cong [of b' b] out_list_cong [of b' b])

lemma line_up_select_loop:
  assumes "ring_ok lo b" and "\<forall>i\<in>used_slots b. s_seq (b_ring b i) < target"
  shows "line_up (select_loop target b) = line_up b"
  using assms
proof (induction target b rule: select_loop.induct)
  case (1 target b)
  let ?scan = "scan_min (\<lambda>i. s_used (b_ring b i) \<and> s_seq (b_ring b i) < target)
      (\<lambda>i. s_seq (b_ring b i)) [0..<ringSize]"
  show ?case
  proof (cases ?scan)
    case None
    then show ?thesis by (subst select_loop.simps) simp
  next
    case (Some i)
    then have i: "i \<in> used_slots b"
      and least: "\<And>j. j \<in> used_slots b \<Longrightarrow> s_seq (b_ring b i) \<le> s_seq (b_ring b j)"
      using scan_min_Some [OF Some] "1.prems"(2) by (auto simp: used_slots_def)
    have "\<forall>j\<in>used_slots (emit_slot i b). s_seq (b_ring (emit_slot i b) j) < target"
      using "1.prems"(2) by (auto simp: used_slots_emit_slot)
    then show ?thesis
      using "1.IH" [OF Some ring_ok_emit_slot [OF "1.prems"(1) i]] Some
        line_up_emit_slot [OF "1.prems"(1) i least]
      by (subst select_loop.simps) simp
  qed
qed

lemma line_up_walk_loop:
  assumes "loop_ok b" and "unat target \<le> 2 ^ 48"
  shows "line_up (walk_loop target b) = line_up b"
  using assms
proof (induction target b rule: walk_loop.induct)
  case (1 target b)
  let ?i = "ring_index (b_nextSeq b)"
  let ?hit = "s_used (b_ring b ?i) \<and> s_seq (b_ring b ?i) = b_nextSeq b"
  let ?c = "(if ?hit then emit_slot ?i b else b)\<lparr>b_nextSeq := b_nextSeq b + 1\<rparr>"
  have ring: "ring_ok (unat (b_nextSeq b)) b" using "1.prems"(1) by (simp add: loop_ok_def)
  show ?case
  proof (cases "b_nextSeq b < target")
    case False
    then show ?thesis by (subst walk_loop.simps) simp
  next
    case True
    have "loop_ok ?c" by (rule loop_ok_walk_step [OF "1.prems"(1) True "1.prems"(2)])
    moreover have "line_up ?c = line_up b"
    proof (cases ?hit)
      case True
      have "line_up (emit_slot ?i b) = line_up b"
        using True ring_okD(2) [OF ring] 
        by (intro line_up_emit_slot [OF ring ring_index_used]) (auto simp: word_le_nat_alt)
      then show ?thesis using True line_up_cong [of ?c "emit_slot ?i b"] by simp
    next
      case False
      then show ?thesis by (intro line_up_cong) auto
    qed
    moreover have "walk_loop target b = walk_loop target ?c"
      using True by (subst walk_loop.simps) (simp add: Let_def)
    ultimately show ?thesis using "1.IH" [OF True] "1.prems"(2) by (simp add: Let_def)
  qed
qed

lemma advanceTo_refines:
  assumes ok: "loop_ok b" and far: "unat (b_nextSeq b) + 8192 \<le> unat target" "unat target < 2 ^ 48"
  shows "resequencer_of (advanceTo target b) = rq_jump (unat target) (resequencer_of b)"
proof -
  have ring: "ring_ok (unat (b_nextSeq b)) b" using ok by (simp add: loop_ok_def)
  have "\<forall>i\<in>used_slots b. s_seq (b_ring b i) < target"
    using ring_okD(3) [OF ring] far(1) by (fastforce simp: word_less_nat_alt)
  then have "line_up (select_loop target b) = line_up b" by (rule line_up_select_loop [OF ring])
  moreover have "line_up (walk_loop target b) = line_up b"
    using far(2) by (intro line_up_walk_loop [OF ok]) simp
  ultimately have "line_up (advanceTo target b) = line_up b"
    by (simp add: advanceTo_def Let_def line_up_cong [of "_\<lparr>b_nextSeq := target\<rparr>"]
        line_up_cong [of "_\<lparr>b_deadline := None\<rparr>"]
        line_up_cong [of "_\<lparr>b_nextSeq := target, b_deadline := None\<rparr>" "select_loop target b"])
  moreover note adv = advanceTo_ok [OF assms]
  moreover have empty: "held_list (advanceTo target b) = []" by (rule held_list_empty [OF adv(3)])
  ultimately have "out_list (advanceTo target b) = out_list b @ map (Pair False) (held_list b)"
    by (simp add: line_up_def)
  then show ?thesis using adv empty by (simp add: resequencer_of_def rq_jump_def)
qed

section \<open>The operations\<close>

lemma resequencer_of_count [simp]: "resequencer_of (count_stat f b) = resequencer_of b"
  by (simp add: resequencer_of_def held_list_cong [of "count_stat f b" b]
      out_list_cong [of "count_stat f b" b])

lemma sorted_replace_key:
  "sorted_wrt (<) (map fst hs) \<Longrightarrow> sorted_wrt (<) (map fst (replace_key n p hs))"
  by (simp add: replace_key_def strict_sorted_iff sorted_insort_key distinct_insort_key sorted_filter
      distinct_map_filter image_iff)

lemma held_list_fill:
  assumes "ring_ok (Suc (unat (b_nextSeq b))) b" and "b_nextSeq b < q"
    "unat q < unat (b_nextSeq b) + 8192" "unat q < 2 ^ 48"
  shows "held_list (fill_slot (ring_index q) q p (evict_slot (ring_index q) b)) =
    replace_key (unat q) p (held_list b)"
proof (rule held_list_unique)
  let ?i = "ring_index q" and ?c = "fill_slot (ring_index q) q p (evict_slot (ring_index q) b)"
  show "ring_ok (Suc (unat (b_nextSeq b))) ?c"
    using assms by (intro ring_ok_fill) (simp_all add: word_less_nat_alt Suc_le_eq)
  show "sorted_wrt (<) (map fst (replace_key (unat q) p (held_list b)))"
    by (intro sorted_replace_key sorted_held_list [OF assms(1)])
  have used: "used_slots ?c = insert ?i (used_slots b - {?i})"
    using ring_index_less [of q] by (auto simp: used_slots_def simp del: ring_index_less)
  have other: "fst (entry b j) \<noteq> unat q \<longleftrightarrow> j \<noteq> ?i" if "j \<in> used_slots b" for j
  proof -
    have "ring_index (s_seq (b_ring b j)) = j" by (rule ring_okD(1) [OF assms(1) that])
    moreover have "s_seq (b_ring b j) = q" if "j = ?i"
      using same_slot [OF assms(1) _ assms(2,3)] that \<open>j \<in> used_slots b\<close> by blast
    ultimately show ?thesis by (auto simp: entry_def word_unat_eq_iff [symmetric])
  qed
  have "{h \<in> entry b ` used_slots b. fst h \<noteq> unat q} = entry ?c ` (used_slots b - {?i})"
    using other by (auto simp: entry_def image_iff)
  then show "set (replace_key (unat q) p (held_list b)) = entry ?c ` used_slots ?c"
    by (simp add: used replace_key_def set_insort_key set_held_list del: insert_Diff_single)
      (simp add: entry_def)
qed

lemma resequencer_of_due:
  "resequencer_of (b\<lparr>b_deadline := d\<rparr>) = (resequencer_of b)\<lparr>rq_due := d\<rparr>"
  "resequencer_of (arm_deadline now tmo b) = (resequencer_of b)\<lparr>rq_due := Some (now + tmo)\<rparr>"
  by (simp_all add: resequencer_of_def arm_deadline_def held_list_def entry_def [abs_def] out_list_def)

lemma push_gap_refines:
  assumes inv: "rb_inv b"
    and q: "b_nextSeq b < q" "unat q < unat (b_nextSeq b) + 8192" "unat q < 2 ^ 48"
  shows "resequencer_of (push_gap now tmo q p b) = rq_accept now tmo (unat q) p (resequencer_of b)"
proof -
  let ?f = "fill_slot (ring_index q) q p (evict_slot (ring_index q) b)"
  let ?d = "if b_deadline ?f = None then arm_deadline now tmo (count_stat inc_Reordered ?f)
    else count_stat inc_Reordered ?f"
  have lo: "Suc (unat (b_nextSeq b)) \<le> unat q" using q(1) by (simp add: word_less_nat_alt Suc_le_eq)
  have ring0: "ring_ok (Suc (unat (b_nextSeq b))) b" using inv by (simp add: rb_inv_def)
  have "ring_ok (Suc (unat (b_nextSeq b))) ?f" by (rule ring_ok_fill [OF ring0 lo q(2,3)])
  moreover have "ring_ok lo ?d = ring_ok lo ?f" for lo
    by (rule ring_ok_cong) (simp_all add: arm_deadline_def)
  ultimately have ring: "ring_ok (Suc (unat (b_nextSeq ?d))) ?d" by (simp add: arm_deadline_def)
  have "order_ok ?f" using inv q(1) by (intro order_ok_fill) (simp_all add: rb_inv_def)
  moreover have "order_ok ?d = order_ok ?f"
    by (rule order_ok_cong) (simp_all add: arm_deadline_def)
  ultimately have ord: "order_ok ?d" by blast
  have "s_used (b_ring ?d (ring_index q))" by (simp add: arm_deadline_def)
  then have used: "used_slots ?d \<noteq> {}" using ring_index_used by blast
  let ?a = "rq_arm now tmo ((resequencer_of b)\<lparr>rq_held := replace_key (unat q) p (held_list b)\<rparr>)"
  have "replace_key (unat q) p (held_list b) \<noteq> []" by (simp add: replace_key_def)
  moreover have "out_list ?f = out_list b" by (simp add: out_list_def)
  ultimately have d: "resequencer_of ?d = ?a"
    by (auto simp: resequencer_of_due rq_arm_def split: option.split)
      (simp_all add: resequencer_of_def held_list_fill [OF ring0 q])
  have "b_maxHold ?d < b_held ?d \<longleftrightarrow> rq_cap ?a < int (length (rq_held ?a))"
    using length_held_list [OF ring] unfolding d [symmetric] by simp
  moreover have "resequencer_of (skipGapLocked now tmo (count_stat inc_TimeoutFlush ?d)) =
      rq_skip now tmo (resequencer_of ?d)"
    using ring ord used skipGapLocked_refines
      [of "Suc (unat (b_nextSeq ?d))" "count_stat inc_TimeoutFlush ?d" now tmo]
    by (simp add: ring_ok_count order_ok_count used_slots_count)
  moreover have "\<not> unat q < unat (b_nextSeq b)" "unat q \<noteq> unat (b_nextSeq b)" using lo by simp_all
  ultimately show ?thesis using d by (simp add: push_gap_def rq_accept_def Let_def)
qed

lemma push_next_refines:
  assumes inv: "rb_inv b" and q: "unat (b_nextSeq b) < 2 ^ 48"
  shows "resequencer_of (push_next now tmo (b_nextSeq b) p b) =
    rq_accept now tmo (unat (b_nextSeq b)) p (resequencer_of b)"
proof -
  let ?e = "emitLocked False (b_nextSeq b) p b"
  let ?c = "?e\<lparr>b_nextSeq := b_nextSeq ?e + 1\<rparr>"
  have "unat (b_nextSeq b + 1) = Suc (unat (b_nextSeq b))"
    using q by (intro unat_Suc_below [where t = "2 ^ 48"]) simp
  moreover have "held_list (?e\<lparr>b_nextSeq := n\<rparr>) = held_list b" for n by (rule held_list_cong) simp
  ultimately have "resequencer_of ?c = (resequencer_of b)\<lparr>rq_next := Suc (unat (b_nextSeq b)),
      rq_out := out_list b @ [(False, unat (b_nextSeq b), p)]\<rparr>"
    by (simp add: resequencer_of_def) (simp add: out_list_def)
  then show ?thesis
    using drainLocked_refines [OF loop_ok_push_next [OF assms], of now tmo p]
    by (simp add: push_next_def rq_accept_def Let_def)
qed

lemma push_late_refines:
  assumes "q < b_nextSeq b"
  shows "resequencer_of (push_late q p b) = rq_accept now tmo (unat q) p (resequencer_of b)"
proof -
  have "held_list (push_late q p b) = held_list b" by (rule held_list_cong) (simp add: push_late_def)
  then show ?thesis
    using assms
    by (simp add: resequencer_of_def rq_accept_def word_less_nat_alt)
      (simp add: push_late_def out_list_def)
qed

lemma push_switch_refines:
  assumes "rb_inv b" "unat q < unat (b_nextSeq b) + 8192" "unat q < 2 ^ 48"
  shows "resequencer_of (if q = b_nextSeq b then push_next now tmo q p b
      else if q < b_nextSeq b then push_late q p b else push_gap now tmo q p b) =
    rq_accept now tmo (unat q) p (resequencer_of b)"
proof -
  consider "q = b_nextSeq b" | "q < b_nextSeq b" | "b_nextSeq b < q" by (rule linorder_cases) auto
  then show ?thesis
  proof cases
    case 1
    then show ?thesis using push_next_refines [OF assms(1)] assms(3) by simp
  next
    case 2
    then show ?thesis by (simp add: push_late_refines)
  next
    case 3
    then show ?thesis using push_gap_refines [OF assms(1) _ assms(2,3)] by auto
  qed
qed

lemma push_fresh_refines:
  assumes "rb_inv b" and q: "unat q < 2 ^ 48"
  shows "resequencer_of (push_fresh now tmo q p b) = rq_push now tmo (unat q) p (resequencer_of b)"
proof -
  define b1 where "b1 = (if \<not> b_started b then b\<lparr>b_started := True, b_nextSeq := q\<rparr> else b)"
  let ?o = "count_stat inc_OverflowSkip b1"
  define b2 where "b2 = (if b_nextSeq b1 < q \<and> 8192 \<le> q - b_nextSeq b1 then advanceTo q ?o else b1)"
  have 1: "rb_inv b1" "b_started b1"
    using assms rb_inv_start unfolding b1_def by auto
  have o: "rb_inv ?o" "loop_ok ?o" using 1 rb_inv_loop_ok by simp_all
  have 2: "rb_inv b2" "unat q < unat (b_nextSeq b2) + 8192"
    using 1 o advanceTo_ok(2) [OF o(2), of q] rb_inv_advanceTo [OF o(1), of q] q
    unfolding b2_def overflow_distance by simp_all
  let ?a1 = "if b_started b then resequencer_of b
    else (resequencer_of b)\<lparr>rq_started := True, rq_next := unat q\<rparr>"
  have a1: "resequencer_of b1 = ?a1"
    by (simp add: b1_def resequencer_of_def held_list_cong [of "b\<lparr>b_started := True, b_nextSeq := q\<rparr>" b]
        out_list_cong [of "b\<lparr>b_started := True, b_nextSeq := q\<rparr>" b])
  have "resequencer_of b2 =
      (if rq_next ?a1 + 8192 \<le> unat q then rq_jump (unat q) ?a1 else ?a1)"
    using advanceTo_refines [OF o(2), of q] q
    unfolding b2_def overflow_distance a1 [symmetric] by simp
  moreover have "push_fresh now tmo q p b = (if q = b_nextSeq b2 then push_next now tmo q p b2
      else if q < b_nextSeq b2 then push_late q p b2 else push_gap now tmo q p b2)"
    unfolding push_fresh_def Let_def b1_def b2_def ..
  ultimately show ?thesis
    using push_switch_refines [OF 2 q] by (simp add: rq_push_def Let_def)
qed

lemma Push_refines:
  assumes "rb_inv b" and "unat q < 2 ^ 48"
  shows "resequencer_of (Push now tmo q p b) =
    (if fst (markSeen b q) then resequencer_of b else rq_push now tmo (unat q) p (resequencer_of b))"
proof -
  have same: "resequencer_of (snd (markSeen b q)) = resequencer_of b"
    by (simp add: resequencer_of_def held_list_cong [of "snd (markSeen b q)" b]
        out_list_cong [of "snd (markSeen b q)" b])
  have "resequencer_of (release q p c) = resequencer_of c" for c
    by (simp add: resequencer_of_def release_def held_list_def entry_def [abs_def] out_list_def)
  then show ?thesis
    using push_fresh_refines [of "snd (markSeen b q)" q now tmo p] assms
    by (simp add: Push_def split_beta same)
qed

lemma FlushExpired_refines:
  assumes "rb_inv b"
  shows "resequencer_of (snd (FlushExpired now tmo b)) = rq_tick now tmo (resequencer_of b)"
proof (cases "b_deadline b")
  case None
  then show ?thesis by (simp add: FlushExpired_def rq_tick_def)
next
  case (Some d)
  let ?c = "count_stat inc_TimeoutFlush b"
  have "b_held b \<noteq> 0" using assms Some by (simp add: rb_inv_def)
  then have "used_slots ?c \<noteq> {}"
    using assms ring_ok_held_zero [of "Suc (unat (b_nextSeq b))" b]
    by (simp add: rb_inv_def used_slots_count)
  moreover have "ring_ok (Suc (unat (b_nextSeq ?c))) ?c" "order_ok ?c"
    using assms by (simp_all add: rb_inv_def ring_ok_count order_ok_count)
  ultimately show ?thesis
    using skipGapLocked_refines [of "Suc (unat (b_nextSeq ?c))" ?c now tmo] Some
    by (simp add: FlushExpired_def rq_tick_def Let_def)
qed

section \<open>Simulation\<close>

text \<open>
  The contract between a component and its specification: an operation of the component is the
  abstract operation, or, where \<open>skips\<close> says so, invisible. What follows for histories is proved once.
\<close>

primrec visible :: "('s \<Rightarrow> 'x \<Rightarrow> bool) \<Rightarrow> ('x \<Rightarrow> 's \<Rightarrow> 's) \<Rightarrow> 's \<Rightarrow> 'x list \<Rightarrow> 'x list" where
  "visible skips step s [] = []"
| "visible skips step s (x # xs) =
    (if skips s x then visible skips step (step x s) xs else x # visible skips step (step x s) xs)"

locale simulation =
  fixes inv :: "'s \<Rightarrow> bool" and ok :: "'x \<Rightarrow> bool" and step :: "'x \<Rightarrow> 's \<Rightarrow> 's"
    and skips :: "'s \<Rightarrow> 'x \<Rightarrow> bool" and abs :: "'s \<Rightarrow> 'a" and astep :: "'x \<Rightarrow> 'a \<Rightarrow> 'a"
  assumes inv_step: "inv s \<Longrightarrow> ok x \<Longrightarrow> inv (step x s)"
    and simulates: "inv s \<Longrightarrow> ok x \<Longrightarrow> abs (step x s) = (if skips s x then abs s else astep x (abs s))"
begin

lemma run_simulates:
  "inv s \<Longrightarrow> list_all ok xs \<Longrightarrow>
    abs (foldl (\<lambda>c x. step x c) s xs) = foldl (\<lambda>a x. astep x a) (abs s) (visible skips step s xs)"
  by (induction xs arbitrary: s) (simp_all add: inv_step simulates)

end

fun wire_op :: "rb_op \<Rightarrow> bool" where
  "wire_op (PushOp now tmo q p) \<longleftrightarrow> unat q < 2 ^ 48"
| "wire_op (FlushOp now tmo) \<longleftrightarrow> True"

text \<open>A push is invisible when the duplicate filter has seen its number.\<close>

fun dup_op :: "Buffer \<Rightarrow> rb_op \<Rightarrow> bool" where
  "dup_op b (PushOp now tmo q p) \<longleftrightarrow> fst (markSeen b q)"
| "dup_op b (FlushOp now tmo) \<longleftrightarrow> False"

interpretation reseq: simulation rb_inv wire_op rb_step dup_op resequencer_of rq_step
proof
  fix b x
  assume "rb_inv b" and "wire_op x"
  then show "rb_inv (rb_step x b)"
    and "resequencer_of (rb_step x b) =
      (if dup_op b x then resequencer_of b else rq_step x (resequencer_of b))"
    by (cases x; simp add: Push_inv FlushExpired_inv Push_refines FlushExpired_refines)+
qed

definition rq_new :: "int \<Rightarrow> Resequencer" where
  "rq_new m = \<lparr>rq_started = False, rq_next = 0, rq_held = [], rq_cap = m, rq_due = None, rq_out = []\<rparr>"

lemma resequencer_of_New: "resequencer_of (New [WithMaxHold m]) = rq_new m"
  using held_list_empty [OF New_used [of m]]
  by (simp add: resequencer_of_def rq_new_def out_list_def New_def WithMaxHold_def)

text \<open>
  Property C14. The resequencing buffer implements the abstract resequencer: after every history of
  pushes and timer ticks, with sequence numbers as the wire carries them, the stream position, the
  waiting packets in order, the deadline and everything emitted so far, late passes included, are those
  of the program on a sorted list, run on the history without the pushes the duplicate filter rejects.
\<close>

theorem reorder_refines_resequencer:
  assumes "0 \<le> m" and "list_all wire_op ops"
  shows "resequencer_of (rb_run (New [WithMaxHold m]) ops) =
    foldl (\<lambda>a x. rq_step x a) (rq_new m) (visible dup_op rb_step (New [WithMaxHold m]) ops)"
  using reseq.run_simulates [OF rb_inv_New [OF assms(1)] assms(2)]
  by (simp add: rb_run_def resequencer_of_New)

theorem reorder_refines_resequencer_witness:
  "rq_out (resequencer_of (rb_run (New [WithMaxHold 4])
      [PushOp 0 5 7 ([1], 1), PushOp 1 5 9 ([3], 2), PushOp 2 5 9 ([3], 3), FlushOp 3 5,
       PushOp 4 5 8 ([2], 4)])) =
    [(False, 7, [1], 1), (False, 8, [2], 4), (False, 9, [3], 2)]"
proof -
  let ?ops = "[PushOp 0 5 7 ([1], 1), PushOp 1 5 9 ([3], 2), PushOp 2 5 9 ([3], 3), FlushOp 3 5,
       PushOp 4 5 8 ([2], 4)]"
  have "list_all wire_op ?ops" by simp
  moreover have "visible dup_op rb_step (New [WithMaxHold 4]) ?ops =
      [PushOp 0 5 7 ([1], 1), PushOp 1 5 9 ([3], 2), FlushOp 3 5, PushOp 4 5 8 ([2], 4)]"
    by code_simp
  moreover have "rq_out (foldl (\<lambda>a x. rq_step x a) (rq_new 4)
      [PushOp 0 5 7 ([1], 1), PushOp 1 5 9 ([3], 2), FlushOp 3 5, PushOp 4 5 8 ([2], 4)]) =
    [(False, 7, [1], 1), (False, 8, [2], 4), (False, 9, [3], 2)]" by code_simp
  ultimately show ?thesis using reorder_refines_resequencer [of 4 ?ops] by simp
qed

end
