(* ===== verification/Tunio.thy ===== *)
theory Tunio
  imports Engine "HOL-Library.Sublist"
begin

text \<open>
  The two goroutines at the TUN device (\<open>engine.go\<close>): \<open>tunReader\<close>, which hands the packets of one
  read to their sessions, and \<open>tunWriter\<close>, which drains the channel \<open>tunOut\<close> in batches while the
  sessions go on filling it.
\<close>

section \<open>Reading\<close>

text \<open>The packets of one \<open>Read\<close>, in order; empty ones are skipped by the steps themselves.\<close>

fun tunReader_client :: "Env \<Rightarrow> int \<Rightarrow> bytes list \<Rightarrow> ClientEng \<Rightarrow> ClientEng option" where
  "tunReader_client env now [] e = Some e"
| "tunReader_client env now (ip # ips) e = do { e \<leftarrow> client_tun_packet env now ip e; tunReader_client env now ips e }"

fun tunReader_server :: "Env \<Rightarrow> int \<Rightarrow> bytes list \<Rightarrow> ServerEng \<Rightarrow> ServerEng option" where
  "tunReader_server env now [] e = Some e"
| "tunReader_server env now (ip # ips) e = do { e \<leftarrow> server_tun_packet env now ip e; tunReader_server env now ips e }"

section \<open>Writing\<close>

definition tunOutCap :: nat where [simp]: "tunOutCap = 4096"

text \<open>
  \<open>tn_batch\<close> is what the writer has received and not yet written, \<open>tn_written\<close> the batches given
  to the device, with its answer; \<open>tn_dropped\<close> counts what the sessions could not put in.
\<close>

record TunIO =
  tn_tunOut :: "bytes list"
  tn_batch :: "bytes list"
  tn_written :: "(bool \<times> bytes list) list"
  tn_dropped :: nat

definition TunIO_zero :: TunIO where
  "TunIO_zero = \<lparr>tn_tunOut = [], tn_batch = [], tn_written = [], tn_dropped = 0\<rparr>"

text \<open>The callback \<open>emit\<close> of the reorder buffer: a full channel drops the packet.\<close>

definition tun_emit :: "bytes \<Rightarrow> TunIO \<Rightarrow> TunIO" where
  "tun_emit pkt t =
    (if length (tn_tunOut t) < tunOutCap then t\<lparr>tn_tunOut := tn_tunOut t @ [pkt]\<rparr>
     else t\<lparr>tn_dropped := tn_dropped t + 1\<rparr>)"

text \<open>
  The writer blocks for the first packet, receives further ones as long as the batch is not
  full and the channel not empty, then writes. \<open>None\<close> when the step is not its next one.
\<close>

definition tunWriter_recv :: "nat \<Rightarrow> TunIO \<Rightarrow> TunIO option" where
  "tunWriter_recv batch t =
    (case tn_tunOut t of
       [] \<Rightarrow> None
     | p # q \<Rightarrow>
         if tn_batch t = [] \<or> length (tn_batch t) < batch
         then Some (t\<lparr>tn_tunOut := q, tn_batch := tn_batch t @ [p]\<rparr>) else None)"

definition tunWriter_write :: "nat \<Rightarrow> bool \<Rightarrow> TunIO \<Rightarrow> TunIO option" where
  "tunWriter_write batch ok t =
    (if tn_batch t \<noteq> [] \<and> (batch \<le> length (tn_batch t) \<or> tn_tunOut t = [])
     then Some (t\<lparr>tn_written := tn_written t @ [(ok, tn_batch t)], tn_batch := []\<rparr>) else None)"

datatype tun_event = Emit bytes | Recv | WriteOut bool

fun tun_step :: "nat \<Rightarrow> tun_event \<Rightarrow> TunIO \<Rightarrow> TunIO option" where
  "tun_step batch (Emit p) t = Some (tun_emit p t)"
| "tun_step batch Recv t = tunWriter_recv batch t"
| "tun_step batch (WriteOut ok) t = tunWriter_write batch ok t"

fun tun_run :: "nat \<Rightarrow> tun_event list \<Rightarrow> TunIO \<Rightarrow> TunIO option" where
  "tun_run batch [] t = Some t"
| "tun_run batch (ev # evs) t = do { t \<leftarrow> tun_step batch ev t; tun_run batch evs t }"

definition emits :: "tun_event list \<Rightarrow> bytes list" where
  "emits evs = concat (map (\<lambda>ev. case ev of Emit p \<Rightarrow> [p] | _ \<Rightarrow> []) evs)"

definition on_the_way :: "TunIO \<Rightarrow> bytes list" where
  "on_the_way t = concat (map snd (tn_written t)) @ tn_batch t @ tn_tunOut t"

definition batches_ok :: "nat \<Rightarrow> TunIO \<Rightarrow> bool" where
  "batches_ok batch t \<longleftrightarrow> length (tn_batch t) \<le> max 1 batch \<and>
    (\<forall>(ok, b) \<in> set (tn_written t). b \<noteq> [] \<and> length b \<le> max 1 batch)"

lemma emits_simps [simp]: "emits [] = []" "emits (Emit p # evs) = p # emits evs" "emits (Recv # evs) = emits evs"
  "emits (WriteOut ok # evs) = emits evs"
  by (simp_all add: emits_def)

lemma tun_step_flow:
  assumes "tun_step batch ev t = Some t'"
  shows "on_the_way t' = on_the_way t @ (if tn_dropped t' = tn_dropped t then emits [ev] else [])"
    "length (emits [ev]) + length (on_the_way t) + tn_dropped t = length (on_the_way t') + tn_dropped t'"
    "tn_dropped t \<le> tn_dropped t'" "tn_dropped t < tn_dropped t' \<Longrightarrow> tunOutCap \<le> length (on_the_way t)"
    "batches_ok batch t \<Longrightarrow> batches_ok batch t'"
  using assms
  by (cases ev; auto simp: on_the_way_def tun_emit_def tunWriter_recv_def tunWriter_write_def batches_ok_def
      split: if_splits list.splits)+

lemma tun_run_flow:
  assumes "tun_run batch evs t = Some t'"
  shows "(\<exists>xs. on_the_way t' = on_the_way t @ xs \<and> subseq xs (emits evs) \<and>
      length (emits evs) + tn_dropped t = length xs + tn_dropped t') \<and>
    (batches_ok batch t \<longrightarrow> batches_ok batch t') \<and>
    (length (on_the_way t) + length (emits evs) \<le> tunOutCap \<longrightarrow> tn_dropped t' = tn_dropped t)"
  using assms
proof (induction evs arbitrary: t)
  case (Cons ev evs)
  then obtain t1 where 1: "tun_step batch ev t = Some t1" "tun_run batch evs t1 = Some t'" by (auto simp: bind_eq_Some_conv)
  note f = tun_step_flow [OF 1(1)]
  obtain xs where xs: "on_the_way t' = on_the_way t1 @ xs" "subseq xs (emits evs)"
    "length (emits evs) + tn_dropped t1 = length xs + tn_dropped t'" using Cons.IH [OF 1(2)] by blast
  have e: "emits (ev # evs) = emits [ev] @ emits evs" by (cases ev) simp_all
  let ?ys = "(if tn_dropped t1 = tn_dropped t then emits [ev] else []) @ xs"
  have "on_the_way t' = on_the_way t @ ?ys" using xs(1) f(1) by simp
  moreover have "subseq ?ys (emits (ev # evs))" unfolding e using xs(2) by (auto intro: list_emb_append_mono)
  moreover have "length (emits (ev # evs)) + tn_dropped t = length ?ys + tn_dropped t'"
    using xs(3) f(2) f(1) unfolding e by (auto split: if_splits)
  moreover have "tn_dropped t' = tn_dropped t" if "length (on_the_way t) + length (emits (ev # evs)) \<le> tunOutCap"
  proof -
    have "tn_dropped t1 = tn_dropped t"
    proof (rule ccontr)
      assume "tn_dropped t1 \<noteq> tn_dropped t"
      then have "tn_dropped t < tn_dropped t1" "on_the_way t1 = on_the_way t" using f(1,3) by simp_all
      then show False using f(2,4) that unfolding e by simp
    qed
    then show ?thesis using that Cons.IH [OF 1(2)] f(2) unfolding e by simp
  qed
  ultimately show ?case using f(5) Cons.IH [OF 1(2)] by blast
qed simp



end
