(* ===== verification/Pktbuf.thy ===== *)
theory Pktbuf
  imports Resequencer Tunio Delivery
begin

text \<open>
  The packet buffers of \<open>internal/pktbuf\<close> and who owns them. A buffer is a number: the pool hands it
  out, a reader fills it, the resequencing buffer of a session holds it, the channel \<open>tunOut\<close> carries
  it to the TUN writer, which puts it back. Every use of \<open>pktbuf.Get\<close> and \<open>pktbuf.Put\<close> in the engine is
  an operation here; which buffer \<open>Get\<close> returns, or that it makes a new one, is an input, as
  \<open>sync.Pool\<close> leaves it open.
\<close>

section \<open>The pool\<close>

record rxPkt =
  rx_buf :: nat
  rx_pkt :: bytes

text \<open>
  \<open>pb_made\<close> counts the buffers made so far; \<open>pb_gone\<close> are those nobody refers to any more. \<open>pb_readers\<close>
  has the variable \<open>buf\<close> of each running \<open>pathReader\<close> or \<open>listenReader\<close>, \<open>pb_tunReader\<close> the buffers of
  \<open>tunReader\<close> (its scratch buffer first), \<open>pb_batch\<close> the \<open>owners\<close> of \<open>tunWriter\<close>.
\<close>

record Buffers =
  pb_made :: nat
  pb_pool :: "nat list"
  pb_gone :: "nat list"
  pb_readers :: "nat list"
  pb_reorder :: "Buffer list"
  pb_tunOut :: "rxPkt list"
  pb_batch :: "nat list"
  pb_tunReader :: "nat list"

definition Buffers_zero :: Buffers where
  "Buffers_zero = \<lparr>pb_made = 0, pb_pool = [], pb_gone = [], pb_readers = [], pb_reorder = [],
     pb_tunOut = [], pb_batch = [], pb_tunReader = []\<rparr>"

definition remove_nth :: "nat \<Rightarrow> 'a list \<Rightarrow> 'a list" where
  "remove_nth i xs = take i xs @ drop (Suc i) xs"

text \<open>\<open>Get\<close> takes the buffer at index \<open>i\<close> of the pool, or makes one.\<close>

definition Get :: "nat option \<Rightarrow> Buffers \<Rightarrow> nat \<times> Buffers" where
  "Get pick s =
    (case pick of
       Some i \<Rightarrow>
         if i < length (pb_pool s) then (pb_pool s ! i, s\<lparr>pb_pool := remove_nth i (pb_pool s)\<rparr>)
         else (pb_made s, s\<lparr>pb_made := Suc (pb_made s)\<rparr>)
     | None \<Rightarrow> (pb_made s, s\<lparr>pb_made := Suc (pb_made s)\<rparr>))"

definition Put :: "nat \<Rightarrow> Buffers \<Rightarrow> Buffers" where
  "Put b s = s\<lparr>pb_pool := b # pb_pool s\<rparr>"

section \<open>The callbacks of the resequencing buffer\<close>

definition enqueue :: "bytes \<Rightarrow> nat \<Rightarrow> Buffers \<Rightarrow> Buffers" where
  "enqueue pkt b s =
    (if length (pb_tunOut s) < tunOutCap then s\<lparr>pb_tunOut := pb_tunOut s @ [\<lparr>rx_buf = b, rx_pkt = pkt\<rparr>]\<rparr>
     else Put b s)"

text \<open>
  What an operation of session \<open>j\<close>'s resequencing buffer does outside it: the calls of \<open>emit\<close> and
  \<open>release\<close> it has made are what its logs have gained.
\<close>

definition run_callbacks :: "Buffer \<Rightarrow> Buffer \<Rightarrow> Buffers \<Rightarrow> Buffers" where
  "run_callbacks b b' s =
    fold (\<lambda>r. Put (snd (snd r))) (drop (length (b_released b)) (b_released b'))
      (fold (\<lambda>e. enqueue (fst (em_pkt e)) (snd (em_pkt e))) (drop (length (b_emitted b)) (b_emitted b')) s)"

definition on_reorder :: "nat \<Rightarrow> (Buffer \<Rightarrow> Buffer) \<Rightarrow> Buffers \<Rightarrow> Buffers" where
  "on_reorder j f s =
    (let b = pb_reorder s ! j; b' = f b
     in run_callbacks b b' (s\<lparr>pb_reorder := (pb_reorder s)[j := b']\<rparr>))"

section \<open>Uses\<close>

text \<open>\<open>injectRecovered\<close>: a buffer for each recovered packet that fits.\<close>

fun inject_buffers :: "nat \<Rightarrow> int \<Rightarrow> int \<Rightarrow> (nat option \<times> Recovered) list \<Rightarrow> Buffers \<Rightarrow> Buffers" where
  "inject_buffers j now tmo [] s = s"
| "inject_buffers j now tmo ((pick, r) # rs) s =
    (if BufSize - RxIPOffset < length (rv_Pkt r) then inject_buffers j now tmo rs s
     else case Get pick s of
       (b, s) \<Rightarrow> inject_buffers j now tmo rs (on_reorder j (Push now tmo (rv_Seq r) (rv_Pkt r, b)) s))"

text \<open>
  One datagram in a reader: \<open>handleDatagram\<close> gives the reader's buffer away when it is a data packet
  (\<open>data\<close> is its sequence number and inner packet) and the reader gets another one; every other
  datagram leaves it the buffer. Either kind may complete a repair group.
\<close>

definition reader_datagram :: "nat \<Rightarrow> nat \<Rightarrow> int \<Rightarrow> int \<Rightarrow> (u64 \<times> bytes) option \<Rightarrow>
    (nat option \<times> Recovered) list \<Rightarrow> nat option \<Rightarrow> Buffers \<Rightarrow> Buffers" where
  "reader_datagram i j now tmo data recs pick s =
    (case data of
       None \<Rightarrow> inject_buffers j now tmo recs s
     | Some (seq, pkt) \<Rightarrow>
         let s = on_reorder j (Push now tmo seq (pkt, pb_readers s ! i)) s;
             s = inject_buffers j now tmo recs s
         in case Get pick s of (b, s) \<Rightarrow> s\<lparr>pb_readers := (pb_readers s)[i := b]\<rparr>)"

definition reader_start :: "nat option \<Rightarrow> Buffers \<Rightarrow> Buffers" where
  "reader_start pick s = (case Get pick s of (b, s) \<Rightarrow> s\<lparr>pb_readers := pb_readers s @ [b]\<rparr>)"

definition reader_exit :: "nat \<Rightarrow> Buffers \<Rightarrow> Buffers" where
  "reader_exit i s = Put (pb_readers s ! i) (s\<lparr>pb_readers := remove_nth i (pb_readers s)\<rparr>)"

text \<open>The buffer of \<open>sendPTB\<close>; \<open>built\<close> is the packet \<open>BuildPTB\<close> made in it.\<close>

definition ptb_buffer :: "nat option \<Rightarrow> bytes option \<Rightarrow> Buffers \<Rightarrow> Buffers" where
  "ptb_buffer pick built s =
    (case Get pick s of (b, s) \<Rightarrow> case built of None \<Rightarrow> Put b s | Some pkt \<Rightarrow> enqueue pkt b s)"

text \<open>The buffers that \<open>sendParity\<close> and \<open>sendMTUProbe\<close> use and put back before they return.\<close>

definition borrowed_buffer :: "nat option \<Rightarrow> Buffers \<Rightarrow> Buffers" where
  "borrowed_buffer pick s = (case Get pick s of (b, s) \<Rightarrow> Put b s)"

fun get_all :: "nat option list \<Rightarrow> Buffers \<Rightarrow> nat list \<times> Buffers" where
  "get_all [] s = ([], s)"
| "get_all (pick # picks) s = (case Get pick s of (b, s) \<Rightarrow> case get_all picks s of (bs, s) \<Rightarrow> (b # bs, s))"

text \<open>\<open>tunReader\<close> puts back its scratch buffer, not the buffers it reads into.\<close>

definition tunReader_start :: "nat option list \<Rightarrow> Buffers \<Rightarrow> Buffers" where
  "tunReader_start picks s = (case get_all picks s of (bs, s) \<Rightarrow> s\<lparr>pb_tunReader := rev bs\<rparr>)"

definition tunReader_exit :: "Buffers \<Rightarrow> Buffers" where
  "tunReader_exit s =
    (case pb_tunReader s of
       [] \<Rightarrow> s
     | scratch # owners \<Rightarrow> Put scratch (s\<lparr>pb_tunReader := [], pb_gone := owners @ pb_gone s\<rparr>))"

definition writer_recv :: "nat \<Rightarrow> Buffers \<Rightarrow> Buffers" where
  "writer_recv batch s =
    (case pb_tunOut s of
       [] \<Rightarrow> s
     | p # q \<Rightarrow>
         if pb_batch s = [] \<or> length (pb_batch s) < batch
         then s\<lparr>pb_tunOut := q, pb_batch := pb_batch s @ [rx_buf p]\<rparr> else s)"

definition writer_put :: "Buffers \<Rightarrow> Buffers" where
  "writer_put s = fold Put (pb_batch s) (s\<lparr>pb_batch := []\<rparr>)"

text \<open>The garbage collector may empty the pool.\<close>

definition pool_drop :: "nat \<Rightarrow> Buffers \<Rightarrow> Buffers" where
  "pool_drop n s = s\<lparr>pb_pool := drop n (pb_pool s), pb_gone := take n (pb_pool s) @ pb_gone s\<rparr>"

inductive buffers_step :: "nat \<Rightarrow> Buffers \<Rightarrow> Buffers \<Rightarrow> bool" for batch where
  new_session: "buffers_step batch s (s\<lparr>pb_reorder := pb_reorder s @ [New []]\<rparr>)"
| reader_start: "buffers_step batch s (reader_start pick s)"
| reader_datagram: "i < length (pb_readers s) \<Longrightarrow> j < length (pb_reorder s) \<Longrightarrow>
    buffers_step batch s (reader_datagram i j now tmo data recs pick s)"
| reader_exit: "i < length (pb_readers s) \<Longrightarrow> buffers_step batch s (reader_exit i s)"
| flusher: "j < length (pb_reorder s) \<Longrightarrow>
    buffers_step batch s (on_reorder j (\<lambda>b. snd (FlushExpired now tmo b)) s)"
| ptb: "buffers_step batch s (ptb_buffer pick built s)"
| borrowed: "buffers_step batch s (borrowed_buffer pick s)"
| tunReader_start: "pb_tunReader s = [] \<Longrightarrow> length picks = Suc batch \<Longrightarrow>
    buffers_step batch s (tunReader_start picks s)"
| tunReader_exit: "buffers_step batch s (tunReader_exit s)"
| writer_recv: "buffers_step batch s (writer_recv batch s)"
| writer_put: "buffers_step batch s (writer_put s)"
| pool_drop: "buffers_step batch s (pool_drop n s)"

section \<open>Ownership\<close>

definition held_buffers :: "Buffer \<Rightarrow> nat multiset" where
  "held_buffers b = image_mset (\<lambda>h. snd (snd h)) (held_packets b)"

text \<open>Where the buffers are. Each occurrence of a buffer is a reference to it.\<close>

definition references :: "Buffers \<Rightarrow> nat multiset" where
  "references s = mset (pb_pool s) + mset (pb_gone s) + mset (pb_readers s) +
     (\<Sum>b\<leftarrow>pb_reorder s. held_buffers b) + mset (map rx_buf (pb_tunOut s)) + mset (pb_batch s) +
     mset (pb_tunReader s)"

definition owned_once :: "Buffers \<Rightarrow> bool" where
  "owned_once s \<longleftrightarrow> references s = mset [0..<pb_made s]"

lemma mset_remove_nth: "i < length xs \<Longrightarrow> mset xs = add_mset (xs ! i) (mset (remove_nth i xs))"
  by (subst id_take_nth_drop [of i xs]) (simp_all add: remove_nth_def)

text \<open>How \<open>Get\<close>, \<open>Put\<close> and \<open>enqueue\<close> move references.\<close>

lemma Get_fields [simp]:
  "pb_readers (snd (Get pick s)) = pb_readers s" "pb_reorder (snd (Get pick s)) = pb_reorder s"
  "pb_tunReader (snd (Get pick s)) = pb_tunReader s"
  by (simp_all add: Get_def split: option.split)

lemma Get_balance:
  assumes "taken + references s = extra + mset [0..<pb_made s]"
  shows "add_mset (fst (Get pick s)) (taken + references (snd (Get pick s))) =
    extra + mset [0..<pb_made (snd (Get pick s))]"
proof (cases "\<exists>i. pick = Some i \<and> i < length (pb_pool s)")
  case True
  then obtain i where i: "pick = Some i" "i < length (pb_pool s)" by blast
  then have "references s = add_mset (pb_pool s ! i) (references (s\<lparr>pb_pool := remove_nth i (pb_pool s)\<rparr>))"
    by (simp add: references_def mset_remove_nth [OF i(2)])
  then show ?thesis using i assms by (simp add: Get_def)
next
  case False
  then have "Get pick s = (pb_made s, s\<lparr>pb_made := Suc (pb_made s)\<rparr>)"
    by (auto simp: Get_def split: option.split)
  then show ?thesis using assms by (simp add: references_def)
qed

lemma Put_fields [simp]: "pb_made (Put b s) = pb_made s" "pb_readers (Put b s) = pb_readers s"
  "pb_reorder (Put b s) = pb_reorder s" "references (Put b s) = add_mset b (references s)"
  by (simp_all add: Put_def references_def)

lemma enqueue_fields [simp]: "pb_made (enqueue pkt b s) = pb_made s"
  "pb_readers (enqueue pkt b s) = pb_readers s" "pb_reorder (enqueue pkt b s) = pb_reorder s"
  "references (enqueue pkt b s) = add_mset b (references s)"
  by (simp_all add: enqueue_def) (simp add: references_def)

lemma fold_Put_fields [simp]:
  "pb_made (fold (\<lambda>r. Put (f r)) rs s) = pb_made s"
  "pb_readers (fold (\<lambda>r. Put (f r)) rs s) = pb_readers s"
  "pb_reorder (fold (\<lambda>r. Put (f r)) rs s) = pb_reorder s"
  "references (fold (\<lambda>r. Put (f r)) rs s) = mset (map f rs) + references s"
  by (induction rs arbitrary: s) simp_all

lemma fold_enqueue_fields [simp]:
  "pb_made (fold (\<lambda>e. enqueue (g e) (f e)) es s) = pb_made s"
  "pb_readers (fold (\<lambda>e. enqueue (g e) (f e)) es s) = pb_readers s"
  "pb_reorder (fold (\<lambda>e. enqueue (g e) (f e)) es s) = pb_reorder s"
  "references (fold (\<lambda>e. enqueue (g e) (f e)) es s) = mset (map f es) + references s"
  by (induction es arbitrary: s) simp_all

section \<open>The logs only grow\<close>

definition extends :: "Buffer \<Rightarrow> Buffer \<Rightarrow> bool" where
  "extends b b' \<longleftrightarrow> (\<exists>es rs. b_emitted b' = b_emitted b @ es \<and> b_released b' = b_released b @ rs)"

lemma extends_refl [simp]: "extends b b"
  by (simp add: extends_def)

lemma extends_trans [trans]: "extends b c \<Longrightarrow> extends c d \<Longrightarrow> extends b d"
  by (auto simp: extends_def)

lemma extendsI: "b_emitted b' = b_emitted b @ es \<Longrightarrow> b_released b' = b_released b @ rs \<Longrightarrow> extends b b'"
  by (auto simp: extends_def)

lemma extends_same: "b_emitted b' = b_emitted b \<Longrightarrow> b_released b' = b_released b \<Longrightarrow> extends b b'"
  by (rule extendsI [of _ _ "[]" "[]"]) simp_all

lemma extends_drainLocked: "extends b (drainLocked now tmo b)"
  using drain_loop_emits [of b] by (auto simp: extends_def)

lemma extends_skipGapLocked: "extends b (skipGapLocked now tmo b)"
proof (cases "scan_min (\<lambda>i. s_used (b_ring b i)) (\<lambda>i. s_seq (b_ring b i)) [0..<ringSize]")
  case None
  then show ?thesis by (intro extends_same) (simp_all add: skipGapLocked_def)
next
  case (Some i)
  let ?c = "b\<lparr>b_nextSeq := s_seq (b_ring b i), b_deadline := None\<rparr>"
  have "extends b ?c" by (rule extends_same) simp_all
  then have "extends b (drainLocked now tmo ?c)" using extends_drainLocked extends_trans by blast
  moreover have "extends b (b\<lparr>b_deadline := None\<rparr>)" by (rule extends_same) simp_all
  ultimately show ?thesis using Some by (simp add: skipGapLocked_def)
qed

lemma select_loop_emits: "\<exists>es. b_emitted (select_loop t b) = b_emitted b @ es"
  by (induction t b rule: select_loop.induct) (subst select_loop.simps, auto split: option.split)

lemma walk_loop_emits: "\<exists>es. b_emitted (walk_loop t b) = b_emitted b @ es"
proof (induction t b rule: walk_loop.induct)
  case (1 t b)
  let ?i = "ring_index (b_nextSeq b)"
  let ?c = "(if s_used (b_ring b ?i) \<and> s_seq (b_ring b ?i) = b_nextSeq b then emit_slot ?i b else b)
      \<lparr>b_nextSeq := b_nextSeq b + 1\<rparr>"
  show ?case
  proof (cases "b_nextSeq b < t")
    case True
    then have "walk_loop t b = walk_loop t ?c" by (subst walk_loop.simps) (simp add: Let_def)
    moreover obtain es where "b_emitted (walk_loop t ?c) = b_emitted ?c @ es"
      using "1.IH" [OF True refl refl refl] by blast
    ultimately show ?thesis by (auto split: if_splits)
  next
    case False
    then show ?thesis by (subst walk_loop.simps) simp
  qed
qed

lemma extends_advanceTo: "extends b (advanceTo t b)"
  using select_loop_emits [of t b] walk_loop_emits [of t b]
  by (auto simp: extends_def advanceTo_def Let_def)

lemma extends_push_gap: "extends b (push_gap now tmo q p b)"
proof -
  let ?f = "fill_slot (ring_index q) q p (evict_slot (ring_index q) b)"
  let ?d = "if b_deadline ?f = None then arm_deadline now tmo (count_stat inc_Reordered ?f)
    else count_stat inc_Reordered ?f"
  have "extends b ?f"
    by (auto simp: extends_def fill_slot_def evict_slot_def release_def Let_def)
  also have "extends ?f ?d" by (rule extends_same) (simp_all add: arm_deadline_def)
  finally have d: "extends b ?d" .
  also have "extends ?d (count_stat inc_TimeoutFlush ?d)" by (rule extends_same) simp_all
  also have "extends (count_stat inc_TimeoutFlush ?d) (skipGapLocked now tmo (count_stat inc_TimeoutFlush ?d))"
    by (rule extends_skipGapLocked)
  finally show ?thesis using d by (simp add: push_gap_def Let_def)
qed

lemma extends_push_next: "extends b (push_next now tmo q p b)"
proof -
  let ?e = "emitLocked False q p b"
  let ?c = "?e\<lparr>b_nextSeq := b_nextSeq ?e + 1\<rparr>"
  have "extends b ?c" by (rule extendsI [of _ _ _ "[]"]) simp_all
  also have "extends ?c (drainLocked now tmo ?c)" by (rule extends_drainLocked)
  finally show ?thesis by (simp add: push_next_def Let_def)
qed

lemma extends_push_late: "extends b (push_late q p b)"
  by (rule extendsI [of _ _ _ "[]"]) (simp_all add: push_late_def)

lemma extends_push_fresh: "extends b (push_fresh now tmo q p b)"
proof -
  define b1 where "b1 = (if \<not> b_started b then b\<lparr>b_started := True, b_nextSeq := q\<rparr> else b)"
  define b2 where "b2 = (if b_nextSeq b1 < q \<and> 8192 \<le> q - b_nextSeq b1
      then advanceTo q (count_stat inc_OverflowSkip b1) else b1)"
  have "extends b b1" by (rule extends_same) (simp_all add: b1_def)
  also have "extends b1 (count_stat inc_OverflowSkip b1)" by (rule extends_same) simp_all
  also have "extends (count_stat inc_OverflowSkip b1) (advanceTo q (count_stat inc_OverflowSkip b1))"
    by (rule extends_advanceTo)
  finally have "extends b b2" using \<open>extends b b1\<close> by (simp add: b2_def)
  moreover have "push_fresh now tmo q p b = (if q = b_nextSeq b2 then push_next now tmo q p b2
      else if q < b_nextSeq b2 then push_late q p b2 else push_gap now tmo q p b2)"
    unfolding push_fresh_def Let_def b1_def b2_def ..
  ultimately show ?thesis
    using extends_trans extends_push_next extends_push_late extends_push_gap by (metis (full_types))
qed

lemma extends_Push: "extends b (Push now tmo q p b)"
proof -
  let ?m = "snd (markSeen b q)"
  have m: "extends b ?m" by (rule extends_same) simp_all
  moreover have "extends ?m (release q p (count_stat inc_DupDrop ?m))"
    by (rule extendsI [of _ _ "[]"]) (simp_all add: release_def)
  ultimately show ?thesis
    using extends_push_fresh [of ?m now tmo q p] extends_trans by (auto simp: Push_def split_beta)
qed

lemma extends_FlushExpired: "extends b (snd (FlushExpired now tmo b))"
proof -
  let ?c = "count_stat inc_TimeoutFlush b"
  have "extends b ?c" by (rule extends_same) simp_all
  then have "extends b (skipGapLocked now tmo ?c)" using extends_skipGapLocked extends_trans by blast
  then show ?thesis by (simp add: FlushExpired_def Let_def split: option.split)
qed

section \<open>Operations on the resequencing buffers\<close>

lemma sum_list_upd:
  fixes f :: "'a \<Rightarrow> 'b multiset"
  assumes "j < length xs"
  shows "(\<Sum>x\<leftarrow>xs[j := y]. f x) + f (xs ! j) = (\<Sum>x\<leftarrow>xs. f x) + f y"
  using assms by (induction xs arbitrary: j) (auto split: nat.split simp: nth_Cons ac_simps)

lemma member_sum_list:
  fixes f :: "'a \<Rightarrow> 'b multiset"
  shows "x \<in> set xs \<Longrightarrow> b \<in># f x \<Longrightarrow> b \<in># (\<Sum>x\<leftarrow>xs. f x)"
  by (induction xs) auto

text \<open>What an operation emits, releases and still holds is what it held and \<open>new\<close>.\<close>

lemma run_callbacks_balance:
  assumes "extends b b'" and "accounted b' = new + accounted b"
  shows "references (run_callbacks b b' s) + held_buffers b' =
    references s + image_mset (\<lambda>h. snd (snd h)) new + held_buffers b"
proof -
  obtain es rs where es: "b_emitted b' = b_emitted b @ es" and rs: "b_released b' = b_released b @ rs"
    using assms(1) by (auto simp: extends_def)
  have "mset (map (\<lambda>e. (em_seq e, em_pkt e)) es) + mset rs + held_packets b' = new + held_packets b"
    using assms(2) by (simp add: accounted_def es rs add.assoc)
  then have "image_mset (\<lambda>h. snd (snd h)) (mset (map (\<lambda>e. (em_seq e, em_pkt e)) es) + mset rs + held_packets b') =
      image_mset (\<lambda>h. snd (snd h)) (new + held_packets b)" by simp
  then have "mset (map (\<lambda>e. snd (em_pkt e)) es) + mset (map (\<lambda>r. snd (snd r)) rs) + held_buffers b' =
      image_mset (\<lambda>h. snd (snd h)) new + held_buffers b"
    by (simp add: held_buffers_def image_mset.compositionality o_def)
  then show ?thesis by (simp add: run_callbacks_def es rs add_ac)
qed

lemma on_reorder_fields [simp]:
  "pb_made (on_reorder j f s) = pb_made s" "pb_readers (on_reorder j f s) = pb_readers s"
  "length (pb_reorder (on_reorder j f s)) = length (pb_reorder s)"
  by (simp_all add: on_reorder_def run_callbacks_def Let_def)

lemma on_reorder_references:
  assumes "j < length (pb_reorder s)" and "\<And>b. extends b (f b)" and "\<And>b. accounted (f b) = new + accounted b"
  shows "references (on_reorder j f s) = references s + image_mset (\<lambda>h. snd (snd h)) new"
proof -
  let ?b = "pb_reorder s ! j" and ?s = "s\<lparr>pb_reorder := (pb_reorder s)[j := f (pb_reorder s ! j)]\<rparr>"
  have "references (run_callbacks ?b (f ?b) ?s) + held_buffers (f ?b) =
      (references ?s + held_buffers ?b) + image_mset (\<lambda>h. snd (snd h)) new"
    using run_callbacks_balance [OF assms(2,3), of ?b ?s] by (simp add: add_ac)
  also have "references ?s + held_buffers ?b = references s + held_buffers (f ?b)"
    using sum_list_upd [OF assms(1), of held_buffers "f ?b"] by (simp add: references_def)
  also have "references s + held_buffers (f ?b) + image_mset (\<lambda>h. snd (snd h)) new =
      (references s + image_mset (\<lambda>h. snd (snd h)) new) + held_buffers (f ?b)" by (simp add: add_ac)
  finally show ?thesis by (simp add: on_reorder_def Let_def)
qed

lemma push_references:
  "j < length (pb_reorder s) \<Longrightarrow>
    references (on_reorder j (Push now tmo q (pkt, b)) s) = add_mset b (references s)"
  using on_reorder_references [of j s "Push now tmo q (pkt, b)" "{#(q, pkt, b)#}"]
  by (simp add: extends_Push accounted_Push)

lemma flush_references:
  "j < length (pb_reorder s) \<Longrightarrow>
    references (on_reorder j (\<lambda>b. snd (FlushExpired now tmo b)) s) = references s"
  using on_reorder_references [of j s "\<lambda>b. snd (FlushExpired now tmo b)" "{#}"]
  by (simp add: extends_FlushExpired accounted_FlushExpired)

lemma inject_balance:
  assumes "references s = extra + mset [0..<pb_made s]" and "j < length (pb_reorder s)"
  shows "references (inject_buffers j now tmo recs s) = extra + mset [0..<pb_made (inject_buffers j now tmo recs s)] \<and>
    pb_readers (inject_buffers j now tmo recs s) = pb_readers s"
  using assms
proof (induction j now tmo recs s rule: inject_buffers.induct)
  case (2 j now tmo pick r rs s)
  let ?g = "Get pick s"
  let ?s = "on_reorder j (Push now tmo (rv_Seq r) (rv_Pkt r, fst ?g)) (snd ?g)"
  have "references ?s = extra + mset [0..<pb_made ?s]"
    using Get_balance [of "{#}" s extra pick] "2.prems" by (simp add: push_references)
  moreover have "j < length (pb_reorder ?s)" using "2.prems"(2) by simp
  ultimately show ?case
    using "2.IH"(1) "2.IH"(2) [of "fst ?g" "snd ?g"] "2.prems" by (simp add: split_beta)
qed simp_all

lemma readers_upd:
  assumes "i < length (pb_readers s)"
  shows "add_mset (pb_readers s ! i) (references (s\<lparr>pb_readers := (pb_readers s)[i := b]\<rparr>)) =
    add_mset b (references s)"
  using assms mset_update [OF assms, of b] nth_mem_mset [OF assms] by (simp add: references_def)

lemma owned_reader_datagram:
  assumes "owned_once s" and i: "i < length (pb_readers s)" and j: "j < length (pb_reorder s)"
  shows "owned_once (reader_datagram i j now tmo data recs pick s)"
proof (cases data)
  case None
  then show ?thesis
    using inject_balance [of s "{#}" j] assms by (simp add: reader_datagram_def owned_once_def)
next
  case (Some d)
  obtain seq pkt where d: "d = (seq, pkt)" by (cases d)
  let ?b = "pb_readers s ! i"
  let ?p = "on_reorder j (Push now tmo seq (pkt, ?b)) s"
  let ?q = "inject_buffers j now tmo recs ?p"
  let ?g = "Get pick ?q"
  have "references ?p = {#?b#} + mset [0..<pb_made ?p]"
    using assms by (simp add: push_references owned_once_def)
  then have "references ?q = {#?b#} + mset [0..<pb_made ?q]" and readers: "pb_readers ?q = pb_readers s"
    using inject_balance [of ?p "{#?b#}" j] j by simp_all
  then have "add_mset (fst ?g) (references (snd ?g)) = add_mset ?b (mset [0..<pb_made (snd ?g)])"
    using Get_balance [of "{#}" ?q "{#?b#}" pick] by simp
  then have "references ((snd ?g)\<lparr>pb_readers := (pb_readers (snd ?g))[i := fst ?g]\<rparr>) = mset [0..<pb_made (snd ?g)]"
    using readers_upd [of i "snd ?g" "fst ?g"] i readers by simp
  then show ?thesis by (simp add: reader_datagram_def Some d Let_def split_beta owned_once_def)
qed

lemma get_all_balance:
  "taken + references s = mset [0..<pb_made s] \<Longrightarrow>
    mset (fst (get_all picks s)) + (taken + references (snd (get_all picks s))) =
      mset [0..<pb_made (snd (get_all picks s))]"
proof (induction picks arbitrary: s taken)
  case (Cons pick picks)
  let ?g = "Get pick s"
  have "add_mset (fst ?g) taken + references (snd ?g) = mset [0..<pb_made (snd ?g)]"
    using Get_balance [of taken s "{#}" pick] Cons.prems by simp
  then show ?case using Cons.IH [of "add_mset (fst ?g) taken" "snd ?g"] by (simp add: split_beta)
qed simp

lemma get_all_tunReader: "pb_tunReader (snd (get_all picks s)) = pb_tunReader s"
  by (induction picks arbitrary: s) (simp_all add: split_beta)

lemma buffers_step_owned:
  assumes "buffers_step batch s s'" and "owned_once s"
  shows "owned_once s'"
  using assms(1)
proof cases
  case new_session
  then show ?thesis
    using assms(2) New_used [of 4096]
    by (simp add: owned_once_def references_def held_buffers_def held_packets_def) (simp add: New_def used_slots_def slot_zero_def)
next
  case (reader_start pick)
  then show ?thesis
    using Get_balance [of "{#}" s "{#}" pick] assms(2)
    by (simp add: owned_once_def reader_start_def split_beta) (simp add: references_def)
next
  case (reader_datagram i j now tmo data recs pick)
  then show ?thesis using owned_reader_datagram [OF assms(2)] by simp
next
  case (reader_exit i)
  then show ?thesis
    using assms(2) by (simp add: owned_once_def reader_exit_def) (simp add: references_def mset_remove_nth)
next
  case (flusher j now tmo)
  then show ?thesis using assms(2) by (simp add: owned_once_def flush_references)
next
  case (ptb pick built)
  then show ?thesis
    using Get_balance [of "{#}" s "{#}" pick] assms(2)
    by (simp add: owned_once_def ptb_buffer_def split_beta split: option.split)
next
  case (borrowed pick)
  then show ?thesis
    using Get_balance [of "{#}" s "{#}" pick] assms(2)
    by (simp add: owned_once_def borrowed_buffer_def split_beta)
next
  case (tunReader_start picks)
  then show ?thesis
    using get_all_balance [of "{#}" s picks] get_all_tunReader [of picks s] assms(2)
    by (simp add: owned_once_def tunReader_start_def split_beta) (simp add: references_def add_ac)
next
  case tunReader_exit
  then show ?thesis
    using assms(2)
    by (cases "pb_tunReader s") (simp_all add: owned_once_def tunReader_exit_def references_def Put_def add_ac)
next
  case writer_recv
  then show ?thesis
    using assms(2) by (cases "pb_tunOut s") (simp_all add: owned_once_def writer_recv_def references_def)
next
  case writer_put
  then show ?thesis
    using assms(2) fold_Put_fields [of "\<lambda>b. b" "pb_batch s" "s\<lparr>pb_batch := []\<rparr>"]
    by (simp add: owned_once_def writer_put_def) (simp add: references_def add_ac)
next
  case (pool_drop n)
  moreover have "mset (take n (pb_pool s)) + mset (drop n (pb_pool s)) = mset (pb_pool s)"
    by (metis append_take_drop_id mset_append)
  ultimately show ?thesis
    using assms(2) by (simp add: owned_once_def pool_drop_def references_def add_ac)
qed

interpretation ownership: machine "buffers_step batch" owned_once for batch
  by unfold_locales (rule buffers_step_owned)

section \<open>The receiver hands over as the readers assume\<close>

text \<open>
  The pushes of one datagram: the data packet, if it carries one, and the recovered packets that fit a
  buffer. The session model does not track buffers and pushes under number 0.
\<close>

definition datagram_pushes :: "int \<Rightarrow> (int \<times> u64 \<times> bytes) option \<Rightarrow> (int \<times> Recovered) list \<Rightarrow> rb_op list" where
  "datagram_pushes now data recs =
    (case data of None \<Rightarrow> [] | Some (tmo, seq, pkt) \<Rightarrow> [PushOp now tmo seq (pkt, 0)]) @
    map (\<lambda>(tmo, r). PushOp now tmo (rv_Seq r) (rv_Pkt r, 0))
      (filter (\<lambda>(tmo, r). length (rv_Pkt r) \<le> BufSize - RxIPOffset) recs)"

lemma injectRecovered_pushes:
  "\<exists>rs. se_reorder (injectRecovered now recs s) = rb_run (se_reorder s) (datagram_pushes now None rs)"
proof (induction recs arbitrary: s)
  case Nil
  then show ?case by (intro exI [of _ "[]"]) (simp add: injectRecovered_def datagram_pushes_def)
next
  case (Cons r recs)
  let ?s = "s\<lparr>se_reorder := Push now (reorderTimeout s) (rv_Seq r) (rv_Pkt r, 0) (se_reorder s)\<rparr>"
  have inj: "injectRecovered now (r # recs) s =
      injectRecovered now recs (if BufSize - RxIPOffset < length (rv_Pkt r) then s else ?s)"
    by (simp add: injectRecovered_def)
  show ?case
  proof (cases "BufSize - RxIPOffset < length (rv_Pkt r)")
    case True
    then show ?thesis using Cons.IH [of s] by (simp only: inj if_True)
  next
    case False
    obtain rs where rs: "se_reorder (injectRecovered now recs ?s) = rb_run (se_reorder ?s) (datagram_pushes now None rs)"
      using Cons.IH by blast
    have "se_reorder (injectRecovered now (r # recs) s) =
        rb_run (se_reorder s) (datagram_pushes now None ((reorderTimeout s, r) # rs))"
      using False rs unfolding inj by (simp add: datagram_pushes_def)
    then show ?thesis by blast
  qed
qed

lemma handle_data_pushes:
  "\<exists>data rs. (fst (handle_data env now nowUs j pt s) \<longleftrightarrow> data \<noteq> None) \<and>
    se_reorder (snd (handle_data env now nowUs j pt s)) = rb_run (se_reorder s) (datagram_pushes now data rs)"
proof (cases "ParseDataHeader pt")
  case (Inl e)
  then show ?thesis by (intro exI [of _ None] exI [of _ "[]"]) (simp add: handle_data_def datagram_pushes_def)
next
  case (Inr x)
  then obtain seq flags pkt where p: "ParseDataHeader pt = Inr (seq, flags, pkt)" by (cases x) auto
  obtain recs s1 where m: "mirrored env nowUs seq flags pkt s = (recs, s1)"
    and h: "handle_data env now nowUs j pt s = (True, injectRecovered now recs
      ((upd_path j (OnDataReceived (int (length pkt)) nowUs) s1)\<lparr>se_reorder :=
        Push now (reorderTimeout (upd_path j (OnDataReceived (int (length pkt)) nowUs) s1)) seq (pkt, 0)
          (se_reorder (upd_path j (OnDataReceived (int (length pkt)) nowUs) s1))\<rparr>))"
    by (rule handle_data_split [OF p])
  let ?u = "upd_path j (OnDataReceived (int (length pkt)) nowUs) s1"
  have "se_reorder s1 = se_reorder s"
    using m by (auto simp: mirrored_def mirror_mode_def Let_def split: if_splits prod.splits)
  then have u: "se_reorder ?u = se_reorder s" by (simp add: upd_path_def)
  obtain rs where "se_reorder (snd (handle_data env now nowUs j pt s)) =
      rb_run (Push now (reorderTimeout ?u) seq (pkt, 0) (se_reorder s)) (datagram_pushes now None rs)"
    using injectRecovered_pushes [of now recs "?u\<lparr>se_reorder := Push now (reorderTimeout ?u) seq (pkt, 0) (se_reorder ?u)\<rparr>"]
    by (auto simp: h u)
  then have "se_reorder (snd (handle_data env now nowUs j pt s)) =
      rb_run (se_reorder s) (datagram_pushes now (Some (reorderTimeout ?u, seq, pkt)) rs)"
    by (simp add: datagram_pushes_def)
  then show ?thesis using h by auto
qed

lemma handle_fec_pushes:
  assumes "handle_fec env now nowUs j pt s = Some s'"
  shows "\<exists>rs. se_reorder s' = rb_run (se_reorder s) (datagram_pushes now None rs)"
proof (cases "ParseFECHeader pt")
  case (Inl e)
  then show ?thesis using assms by (intro exI [of _ "[]"]) (simp add: handle_fec_def datagram_pushes_def)
next
  case (Inr x)
  obtain fh shard where "x = (fh, shard)" by (cases x)
  then obtain recs dec where "s' = injectRecovered now recs
      ((upd_path j (OnDataReceived (int (length pt)) nowUs) s)\<lparr>se_fecDec := dec\<rparr>)"
    using assms Inr by (auto simp: handle_fec_def Let_def bind_eq_Some_conv)
  then show ?thesis
    using injectRecovered_pushes [of now recs "(upd_path j (OnDataReceived (int (length pt)) nowUs) s)\<lparr>se_fecDec := dec\<rparr>"]
    by (simp add: upd_path_def)
qed

lemma admitPath_reorder: "admitPath j b s = Some s' \<Longrightarrow> se_reorder s' = se_reorder s"
  by (auto simp: admitPath_def bind_eq_Some_conv upd_path_def split: option.splits)

lemma control_reorder:
  "handle_probe nowUs j pt s = Some s' \<Longrightarrow> se_reorder s' = se_reorder s"
  "handle_path_ack nowUs j pt s = Some s' \<Longrightarrow> se_reorder s' = se_reorder s"
  "se_reorder (handle_mtu_ack nowUs j pt s) = se_reorder s" "se_reorder (handle_close s) = se_reorder s"
  by (auto simp: handle_probe_def handle_path_ack_def handle_mtu_ack_def handle_close_def revivePath_def Let_def
      upd_path_def split: sum.splits option.splits prod.splits if_splits dest!: admitPath_reorder)

lemma handle_mtu_probe_reorder:
  "handle_mtu_probe env nowUs pid pt s = Some s' \<Longrightarrow> se_reorder s' = se_reorder s"
  by (auto simp: handle_mtu_probe_def Let_def upd_path_def split: sum.splits option.splits
      dest!: sendMTUAck_quiet simp: quiet_def)

lemma handle_path_init_reorder:
  assumes "handle_path_init env nowUs pid pt s = Some s'"
  shows "se_reorder s' = se_reorder s"
proof -
  let ?u = "upd_path (unat pid) (OnControlReceived nowUs) s"
  consider "s' = s" | t where "admitPath (unat pid) False ?u = Some t \<or> t = ?u" "quiet t s'"
    using assms
    by (auto simp: handle_path_init_def Let_def bind_eq_Some_conv split: if_splits option.splits dest: sendControl_quiet)
  then show ?thesis
  proof cases
    case (2 t)
    then have "se_reorder t = se_reorder ?u" using admitPath_reorder by blast
    then show ?thesis using 2(2) by (simp add: quiet_def upd_path_def)
  qed simp
qed

lemma dispatch_pushes:
  assumes "dispatch env now nowUs hdr pt s = Some (taken, s')"
  shows "\<exists>data rs. (taken \<longleftrightarrow> data \<noteq> None) \<and> se_reorder s' = rb_run (se_reorder s) (datagram_pushes now data rs)"
proof -
  have same: ?thesis if "\<not> taken" "se_reorder s' = se_reorder s"
    using that by (intro exI [of _ None] exI [of _ "[]"]) (simp add: datagram_pushes_def)
  consider (data) "handle_data env now nowUs (unat (h_PathID hdr)) pt s = (taken, s')"
    | (fec) "\<not> taken" "handle_fec env now nowUs (unat (h_PathID hdr)) pt s = Some s'"
    | (other) "\<not> taken" "se_reorder s' = se_reorder s"
    using assms
    by (auto simp: dispatch_def Let_def control_reorder handle_mtu_probe_reorder handle_path_init_reorder split: if_splits)
  then show ?thesis
  proof cases
    case data
    then show ?thesis using handle_data_pushes [of env now nowUs "unat (h_PathID hdr)" pt s] by simp
  next
    case fec
    then show ?thesis using handle_fec_pushes [OF fec(2)] by blast
  qed (rule same)
qed

lemma after_replay_pushes:
  assumes "after_replay env now nowUs ep hdr pt src s = Some (taken, s')"
  shows "\<exists>data rs. (taken \<longleftrightarrow> data \<noteq> None) \<and> se_reorder s' = rb_run (se_reorder s) (datagram_pushes now data rs)"
proof -
  obtain t where t: "confirm_epoch now ep s = Some t" using assms by (auto simp: after_replay_def bind_eq_Some_conv)
  have r: "se_reorder t = se_reorder s" using confirm_epoch_reorder [OF t] by simp
  let ?j = "unat (h_PathID hdr)"
  have go: "\<exists>u. se_reorder u = se_reorder t \<and> dispatch env now nowUs hdr pt u = Some (taken, s') \<or> \<not> taken \<and> s' = t"
  proof (cases "se_paths t ?j")
    case None
    show ?thesis
    proof (cases "h_Type hdr = TypePathInit \<and> en_role (se_eng t) = RoleServer")
      case True
      then obtain u where "addServerPath nowUs (h_PathID hdr) src t = Some u"
        "dispatch env now nowUs hdr pt (roam ?j src u) = Some (taken, s')"
        using assms t None by (auto simp: after_replay_def bind_eq_Some_conv)
      then show ?thesis
        by (intro exI [of _ "roam ?j src u"]) (auto simp: roam_paths addServerPath_def split: if_splits)
    qed (use assms t None in \<open>auto simp: after_replay_def\<close>)
  next
    case (Some x)
    then show ?thesis
      using assms t by (intro exI [of _ "roam ?j src t"]) (simp add: after_replay_def roam_paths)
  qed
  then consider (go) u where "se_reorder u = se_reorder t" "dispatch env now nowUs hdr pt u = Some (taken, s')"
    | (drop) "\<not> taken" "s' = t" by blast
  then show ?thesis
  proof cases
    case go
    then show ?thesis using dispatch_pushes [OF go(2)] r by simp
  next
    case drop
    then show ?thesis using r by (intro exI [of _ None] exI [of _ "[]"]) (simp add: datagram_pushes_def)
  qed
qed

text \<open>
  What \<open>handleDatagram\<close> returns tells the reader the truth: it answers \<open>true\<close> exactly when the reader's
  packet has been pushed, and besides that it pushes only recovered packets that fit a buffer. This is
  what \<open>reader_datagram\<close> assumes of it.
\<close>

theorem handleDatagram_hands_over:
  assumes "handleDatagram env now nowUs ep hdr datagram src s = Some (taken, s')"
  shows "\<exists>data rs. (taken \<longleftrightarrow> data \<noteq> None) \<and> se_reorder s' = rb_run (se_reorder s) (datagram_pushes now data rs)"
proof -
  obtain e r where e: "get_epoch ep s = Some e" and r: "Epoch_Open e (h_PathID hdr) (h_Counter hdr) []
      (drop HeaderSize datagram) (take HeaderSize datagram) = Some r"
    using assms by (auto simp: handleDatagram_def bind_eq_Some_conv)
  have "(\<not> taken \<and> se_reorder s' = se_reorder s) \<or>
      (\<exists>u pt. se_reorder u = se_reorder s \<and> after_replay env now nowUs ep hdr pt src u = Some (taken, s'))"
  proof (cases r)
    case (Inl err)
    then show ?thesis using assms e r by (simp add: handleDatagram_def)
  next
    case (Inr pt)
    then obtain fresh e' where "CheckReplay e (h_PathID hdr) (h_Counter hdr) = Some (fresh, e')"
      "(if \<not> fresh then Some (False, put_epoch ep e' s)
        else after_replay env now nowUs ep hdr pt src (put_epoch ep e' s)) = Some (taken, s')"
      using assms e r by (auto simp: handleDatagram_def bind_eq_Some_conv Let_def)
    moreover have "se_reorder (put_epoch ep e' s) = se_reorder s" by (simp add: put_epoch_def)
    ultimately show ?thesis by (auto split: if_splits)
  qed
  then consider (drop) "\<not> taken" "se_reorder s' = se_reorder s"
    | (go) u pt where "se_reorder u = se_reorder s" "after_replay env now nowUs ep hdr pt src u = Some (taken, s')" by blast
  then show ?thesis
  proof cases
    case drop
    then show ?thesis by (intro exI [of _ None] exI [of _ "[]"]) (simp add: datagram_pushes_def)
  next
    case go
    then show ?thesis using after_replay_pushes [OF go(2)] by simp
  qed
qed

section \<open>The property\<close>

text \<open>
  Property C15. Every packet buffer has exactly one owner. In every interleaving of the readers, the
  sessions' resequencing buffers and timers, the repair decoder, the senders of oversize replies and the
  TUN loops, each buffer made so far is in exactly one place: in the pool, with one reader, in one
  slot of one resequencing buffer, once in the channel to the TUN writer or in its batch, with the TUN
  reader, or dropped. So none is lost or put back twice; and a buffer that waits to be written is not
  one that a reader is overwriting.
\<close>

theorem buffers_owned_once:
  assumes "(buffers_step batch)\<^sup>*\<^sup>* Buffers_zero s"
  shows "references s = mset [0..<pb_made s] \<and>
    distinct (pb_pool s @ pb_readers s @ map rx_buf (pb_tunOut s) @ pb_batch s @ pb_tunReader s) \<and>
    (\<forall>r\<in>set (pb_reorder s). \<forall>b\<in>#held_buffers r. b \<notin> set (pb_pool s) \<and> b \<notin> set (pb_readers s))"
proof -
  have "owned_once Buffers_zero" by (simp add: owned_once_def references_def Buffers_zero_def)
  then have once: "references s = mset [0..<pb_made s]"
    using ownership.reachable_inv [OF assms] by (simp add: owned_once_def)
  have le: "count (references s) b \<le> 1" for b
    unfolding once using distinct_count_atmost_1 [THEN iffD1, OF distinct_upt, of 0 "pb_made s"] by simp
  let ?l = "pb_pool s @ pb_readers s @ map rx_buf (pb_tunOut s) @ pb_batch s @ pb_tunReader s"
  have "count (mset ?l) b \<le> 1" for b
    using le [of b] by (simp add: references_def)
  then have "distinct ?l"
    unfolding distinct_count_atmost_1 by (metis count_mset_0_iff le_antisym less_one not_le)
  moreover have "b \<notin> set (pb_pool s) \<and> b \<notin> set (pb_readers s)"
    if "r \<in> set (pb_reorder s)" "b \<in># held_buffers r" for r b
  proof -
    have pos: "0 < count (\<Sum>r\<leftarrow>pb_reorder s. held_buffers r) b"
      using that member_sum_list [of r "pb_reorder s" b held_buffers] by simp
    have "count (mset (pb_pool s)) b + count (mset (pb_readers s)) b +
        count (\<Sum>r\<leftarrow>pb_reorder s. held_buffers r) b \<le> count (references s) b"
      by (simp add: references_def)
    then have "count (mset (pb_pool s)) b = 0" "count (mset (pb_readers s)) b = 0"
      using pos le [of b] by linarith+
    then show ?thesis by (simp add: count_mset_0_iff)
  qed
  ultimately show ?thesis using once by blast
qed

theorem buffers_owned_once_witness:
  "\<exists>s. (buffers_step 1)\<^sup>*\<^sup>* Buffers_zero s \<and> pb_tunOut s = [\<lparr>rx_buf = 0, rx_pkt = [7]\<rparr>] \<and> pb_readers s = [1] \<and>
    references s = mset [0..<2]"
proof -
  let ?s1 = "Buffers_zero\<lparr>pb_reorder := [New []]\<rparr>"
  let ?s2 = "reader_start None ?s1"
  let ?s3 = "reader_datagram 0 0 0 5 (Some (9, [7])) [] None ?s2"
  have "buffers_step 1 Buffers_zero ?s1"
    using buffers_step.new_session [of 1 Buffers_zero] by (simp add: Buffers_zero_def)
  moreover have "buffers_step 1 ?s1 ?s2" by (rule buffers_step.reader_start)
  moreover have "buffers_step 1 ?s2 ?s3"
    by (rule buffers_step.reader_datagram) (simp_all add: reader_start_def Get_def Buffers_zero_def)
  ultimately have r: "(buffers_step 1)\<^sup>*\<^sup>* Buffers_zero ?s3" by (meson converse_rtranclp_into_rtranclp rtranclp.rtrancl_refl)
  moreover have "pb_tunOut ?s3 = [\<lparr>rx_buf = 0, rx_pkt = [7]\<rparr>] \<and> pb_readers ?s3 = [1] \<and> pb_made ?s3 = 2"
    by code_simp
  ultimately show ?thesis using buffers_owned_once [OF r] by (intro exI [of _ ?s3]) simp
qed

end
