(* ===== verification/Interfaces.thy ===== *)
theory Interfaces
  imports Netip
begin

text \<open>
  The decisions of \<open>platform/ifmonitor.go\<close>, \<open>platform/route_linux.go\<close> and \<open>udp/udp.go\<close>: which interfaces qualify as links, which local address a path is bound to, how a
  server address is normalised and how default routes are split. What the kernel answers (the
  interfaces with their addresses, name resolution, dialling) is an argument.
\<close>

section \<open>What the standard library contributes\<close>

text \<open>\<open>utf8.DecodeRuneInString\<close>: the first rune and its width; an invalid byte is \<open>RuneError\<close> of width 1.\<close>

definition cont_in :: "int \<Rightarrow> int \<Rightarrow> char \<Rightarrow> bool" where
  "cont_in lo hi c \<longleftrightarrow> lo \<le> (of_char c :: int) \<and> (of_char c :: int) \<le> hi"

definition low6 :: "char \<Rightarrow> int" where
  "low6 c = (of_char c :: int) mod 64"

definition RuneError :: int where "RuneError = 65533"

definition decode_tail :: "int \<Rightarrow> string \<Rightarrow> int \<times> nat" where
  "decode_tail b0 cs =
    (if 194 \<le> b0 \<and> b0 \<le> 223 then
       (case cs of c1 # _ \<Rightarrow> if cont_in 128 191 c1 then (b0 mod 32 * 64 + low6 c1, 2) else (RuneError, 1) | [] \<Rightarrow> (RuneError, 1))
     else if 224 \<le> b0 \<and> b0 \<le> 239 then
       (case cs of c1 # c2 # _ \<Rightarrow>
          if cont_in (if b0 = 224 then 160 else 128) (if b0 = 237 then 159 else 191) c1 \<and> cont_in 128 191 c2
          then (b0 mod 16 * 4096 + low6 c1 * 64 + low6 c2, 3) else (RuneError, 1) | _ \<Rightarrow> (RuneError, 1))
     else if 240 \<le> b0 \<and> b0 \<le> 244 then
       (case cs of c1 # c2 # c3 # _ \<Rightarrow>
          if cont_in (if b0 = 240 then 144 else 128) (if b0 = 244 then 143 else 191) c1 \<and> cont_in 128 191 c2 \<and> cont_in 128 191 c3
          then (b0 mod 8 * 262144 + low6 c1 * 4096 + low6 c2 * 64 + low6 c3, 4) else (RuneError, 1) | _ \<Rightarrow> (RuneError, 1))
     else (RuneError, 1))"

fun decode_rune :: "string \<Rightarrow> int \<times> nat" where
  "decode_rune [] = (RuneError, 0)"
| "decode_rune (c # cs) = (let b0 = (of_char c :: int) in if b0 < 128 then (b0, 1) else decode_tail b0 cs)"

lemma decode_rune_width: "s \<noteq> [] \<Longrightarrow> 0 < snd (decode_rune s)"
  by (cases s) (auto simp: decode_tail_def Let_def split: list.split)

text \<open>\<open>getEsc\<close> and the ranges of a character class of \<open>path.Match\<close>; \<open>None\<close> is a malformed pattern.\<close>

definition unescape :: "string \<Rightarrow> string option" where
  "unescape p =
    (if p = [] \<or> hd p = CHR ''-'' \<or> hd p = CHR '']'' then None
     else if hd p = CHR 0x5C then (if tl p = [] then None else Some (tl p)) else Some p)"

definition get_esc :: "string \<Rightarrow> (int \<times> string) option" where
  "get_esc p =
    (case unescape p of
       None \<Rightarrow> None
     | Some q \<Rightarrow>
         (let (r, n) = decode_rune q
          in if r = RuneError \<and> n = 1 \<or> drop n q = [] then None else Some (r, drop n q)))"

lemma get_esc_shorter: "get_esc p = Some (r, q) \<Longrightarrow> length q < length p"
  using decode_rune_width [of p] decode_rune_width [of "tl p"]
  by (cases p) (auto simp: get_esc_def unescape_def Let_def split: if_splits prod.splits)

definition get_range :: "string \<Rightarrow> (int \<times> int \<times> string) option" where
  "get_range p =
    (case get_esc p of
       None \<Rightarrow> None
     | Some (lo, q) \<Rightarrow>
         if hd q = CHR ''-'' then map_option (\<lambda>(hi, q). (lo, hi, q)) (get_esc (tl q)) else Some (lo, lo, q))"

lemma get_range_shorter: "get_range p = Some (lo, hi, q) \<Longrightarrow> length q < length p"
  by (auto simp: get_range_def split: option.splits if_splits dest!: get_esc_shorter) 

function class_ranges :: "int \<Rightarrow> bool \<Rightarrow> bool \<Rightarrow> string \<Rightarrow> (bool \<times> string) option" where
  "class_ranges r some m [] = None"
| "class_ranges r some m (c # cs) =
    (if c = CHR '']'' \<and> some then Some (m, cs)
     else case get_range (c # cs) of
         None \<Rightarrow> None
       | Some (lo, hi, q) \<Rightarrow> class_ranges r True (m \<or> lo \<le> r \<and> r \<le> hi) q)"
  by pat_completeness auto
termination
  by (relation "measure (\<lambda>(r, some, m, p). length p)") (auto dest: get_range_shorter)

lemma class_ranges_shorter: "class_ranges r some m p = Some (x, q) \<Longrightarrow> length q < length p"
proof (induction r some m p rule: class_ranges.induct)
  case (2 r some m c cs)
  show ?case
  proof (cases "c = CHR '']'' \<and> some")
    case True
    then show ?thesis using 2(2) by simp
  next
    case False
    then obtain lo hi q' where g: "get_range (c # cs) = Some (lo, hi, q')" and k: "class_ranges r True (m \<or> lo \<le> r \<and> r \<le> hi) q' = Some (x, q)"
      using 2(2) by (auto split: option.splits if_splits)
    show ?thesis using 2(1) [OF False g refl refl k] get_range_shorter [OF g] by simp
  qed
qed simp

text \<open>
  \<open>path.Match\<close>, without the report of malformed patterns, which \<open>matchesAny\<close> ignores. A star
  matches any run of characters other than a slash.
\<close>

function path_Match :: "string \<Rightarrow> string \<Rightarrow> bool" where
  "path_Match [] name = (name = [])"
| "path_Match (c # p) name =
    (if c = CHR ''*'' then
       (if path_Match p name then True
        else if name = [] \<or> hd name = CHR ''/'' then False else path_Match (c # p) (tl name))
     else if name = [] then False
     else if c = CHR ''?'' then
       (if hd name = CHR ''/'' then False else path_Match p (drop (snd (decode_rune name)) name))
     else if c = CHR ''['' then
       (let neg = (p \<noteq> [] \<and> hd p = CHR 0x5E); q = (if neg then tl p else p)
        in case class_ranges (fst (decode_rune name)) False False q of
             None \<Rightarrow> False
           | Some (m, rest) \<Rightarrow> if m = neg then False else path_Match rest (drop (snd (decode_rune name)) name))
     else if c = CHR 0x5C then
       (if p = [] then False else if hd p = hd name then path_Match (tl p) (tl name) else False)
     else if c = hd name then path_Match p (tl name) else False)"
  by pat_completeness auto
termination
  by (relation "measures [\<lambda>(pat, name). length pat, \<lambda>(pat, name). length name]")
    (auto dest!: class_ranges_shorter split: if_splits)

declare path_Match.simps [simp del]

lemma path_Match_examples:
  "path_Match ''utun*'' ''utun4''" "\<not> path_Match ''utun*'' ''eth0''" "path_Match ''eth[0-3]'' ''eth2''"
  "\<not> path_Match ''eth[^0-3]'' ''eth2''" "path_Match ''?an*'' ''wan0''" "\<not> path_Match ''a[b'' ''ab''"
  by code_simp+

text \<open>\<open>netip.Addr.IsLoopback\<close>, \<open>IsPrivate\<close> and \<open>IsGlobalUnicast\<close>.\<close>

fun IsLoopback :: "Addr \<Rightarrow> bool" where
  "IsLoopback (IP4 a) = (drop_bit 24 a = 127)"
| "IsLoopback (IP6 a z) = (if drop_bit 32 a = 0xffff then drop_bit 24 (ucast a :: 32 word) = 127 else a = 1)"
| "IsLoopback AddrZero = False"

fun private4 :: "32 word \<Rightarrow> bool" where
  "private4 a \<longleftrightarrow> drop_bit 24 a = 10 \<or> drop_bit 20 a = 0xac1 \<or> drop_bit 16 a = 0xc0a8"

fun IsPrivate :: "Addr \<Rightarrow> bool" where
  "IsPrivate (IP4 a) = private4 a"
| "IsPrivate (IP6 a z) = (if drop_bit 32 a = 0xffff then private4 (ucast a) else drop_bit 121 a = 0x7e)"
| "IsPrivate AddrZero = False"

definition IsGlobalUnicast :: "Addr \<Rightarrow> bool" where
  "IsGlobalUnicast a \<longleftrightarrow> IsValid a \<and> a \<noteq> IP4 0 \<and> a \<noteq> IP4 0xffffffff \<and> a \<noteq> IP6 0 [] \<and>
     \<not> IsLoopback a \<and> \<not> IsMulticast a \<and> \<not> IsLinkLocalUnicast a"

section \<open>Interfaces\<close>

text \<open>
  An interface as \<open>net.Interfaces\<close> reports it. \<open>if_Addrs\<close> is \<open>None\<close> when \<open>Addrs()\<close> fails;
  an entry is \<open>None\<close> when it is no \<open>*net.IPNet\<close> or holds no address.
\<close>

record Iface =
  if_Name :: string
  if_Up :: bool
  if_Loopback :: bool
  if_PointToPoint :: bool
  if_Addrs :: "Addr option list option"

definition matchesAny :: "string \<Rightarrow> string list \<Rightarrow> bool" where
  "matchesAny name globs = list_ex (\<lambda>g. path_Match g name) globs"

definition usable_addr :: "Addr option \<Rightarrow> bool" where
  "usable_addr x =
    (case x of
       None \<Rightarrow> False
     | Some a \<Rightarrow> let a = Unmap a in Is4 a \<and> (IsGlobalUnicast a \<or> IsPrivate a) \<and> \<not> IsLinkLocalUnicast a)"

fun usable_names :: "string list \<Rightarrow> Iface list \<Rightarrow> string list" where
  "usable_names exclude [] = []"
| "usable_names exclude (i # is) =
    (if \<not> if_Up i \<or> if_Loopback i \<or> if_PointToPoint i then usable_names exclude is
     else if matchesAny (if_Name i) exclude then usable_names exclude is
     else case if_Addrs i of
         None \<Rightarrow> usable_names exclude is
       | Some addrs \<Rightarrow> if list_ex usable_addr addrs then if_Name i # usable_names exclude is else usable_names exclude is)"

definition UsableInterfaces :: "Iface list option \<Rightarrow> string list \<Rightarrow> string list option" where
  "UsableInterfaces ifs exclude = map_option (usable_names exclude) ifs"

definition HasUsableAddr :: "Iface list option \<Rightarrow> string \<Rightarrow> bool" where
  "HasUsableAddr ifs ifname = (case UsableInterfaces ifs [] of None \<Rightarrow> False | Some names \<Rightarrow> ifname \<in> set names)"

section \<open>Sockets\<close>

datatype udp_error = ErrResolve | ErrNoInterface | ErrAddrs | ErrNoUsable string string | ErrDial string

text \<open>\<open>Resolve\<close>: IPv4 first, then any family, then normalised.\<close>

definition Resolve :: "(string \<Rightarrow> string \<Rightarrow> AddrPort option) \<Rightarrow> string \<Rightarrow> udp_error + AddrPort" where
  "Resolve resolveUDPAddr hostport =
    (case (case resolveUDPAddr ''udp4'' hostport of
             Some ua \<Rightarrow> Some ua
           | None \<Rightarrow> resolveUDPAddr ''udp'' hostport) of
       None \<Rightarrow> Inl ErrResolve
     | Some (a, port) \<Rightarrow> Inr (Unmap a, port))"

definition family :: "Addr \<Rightarrow> string" where
  "family a = (if Is4 a then ''IPv4'' else ''IPv6'')"

fun first_addr :: "Addr \<Rightarrow> Addr option list \<Rightarrow> Addr option" where
  "first_addr remote [] = None"
| "first_addr remote (None # as) = first_addr remote as"
| "first_addr remote (Some a # as) =
    (let addr = Unmap a
     in if Is4 addr \<noteq> Is4 remote then first_addr remote as
        else if IsGlobalUnicast addr \<or> IsPrivate addr then Some addr else first_addr remote as)"

definition InterfaceAddr :: "(string \<Rightarrow> Iface option) \<Rightarrow> string \<Rightarrow> Addr \<Rightarrow> udp_error + Addr" where
  "InterfaceAddr byName ifname remote =
    (case byName ifname of
       None \<Rightarrow> Inl ErrNoInterface
     | Some ifi \<Rightarrow>
         (case if_Addrs ifi of
            None \<Rightarrow> Inl ErrAddrs
          | Some addrs \<Rightarrow>
              (case first_addr remote addrs of
                 None \<Rightarrow> Inl (ErrNoUsable (family remote) ifname)
               | Some a \<Rightarrow> Inr a)))"

text \<open>
  \<open>DialBound\<close>: what is handed to the operating system. \<open>dial\<close> gets the network, the interface,
  the local address and the remote one, and answers with a socket.
\<close>

definition DialBound ::
  "(string \<Rightarrow> Iface option) \<Rightarrow> (string \<Rightarrow> string \<Rightarrow> AddrPort \<Rightarrow> AddrPort \<Rightarrow> int \<Rightarrow> 'conn option) \<Rightarrow>
    string \<Rightarrow> AddrPort \<Rightarrow> int \<Rightarrow> udp_error + 'conn \<times> Addr" where
  "DialBound byName dial ifname remote dscp =
    (case InterfaceAddr byName ifname (fst remote) of
       Inl err \<Rightarrow> Inl err
     | Inr local \<Rightarrow>
         (let network = (if \<not> Is4 (fst remote) then ''udp6'' else ''udp4'')
          in case dial network ifname (local, 0) remote dscp of
               None \<Rightarrow> Inl (ErrDial ifname)
             | Some conn \<Rightarrow> Inr (conn, local)))"

section \<open>Routes\<close>

text \<open>\<open>Prefix.Bits\<close> is \<open>-1\<close> for the invalid prefix.\<close>

definition Prefix_Bits :: "Prefix \<Rightarrow> int" where
  "Prefix_Bits p = (if IsValid (px_Addr p) then int (px_Bits p) else - 1)"

fun splitDefaults :: "Prefix list \<Rightarrow> Prefix list" where
  "splitDefaults [] = []"
| "splitDefaults (p # ps) =
    (if Prefix_Bits p = 0 then
       (if Is4 (px_Addr p)
        then [\<lparr>px_Addr = IP4 0, px_Bits = 1\<rparr>, \<lparr>px_Addr = IP4 0x80000000, px_Bits = 1\<rparr>]
        else [\<lparr>px_Addr = IP6 0 [], px_Bits = 1\<rparr>, \<lparr>px_Addr = IP6 (push_bit 127 1) [], px_Bits = 1\<rparr>]) @ splitDefaults ps
     else p # splitDefaults ps)"

section \<open>Properties\<close>

lemma top_bit_32: "drop_bit 31 (a :: 32 word) = 0 \<or> drop_bit 31 a = 1"
proof -
  have "unat a < 2 * 2 ^ 31" using unsigned_less [of a, where ?'a = nat] by simp
  then have "unat (drop_bit 31 a) < 2" by (simp add: unat_drop_bit less_mult_imp_div_less)
  then have "unat (drop_bit 31 a) = 0 \<or> unat (drop_bit 31 a) = 1" by linarith
  then show ?thesis by (simp add: word_unat_eq_iff)
qed

lemma top_bit_128: "drop_bit 127 (a :: 128 word) = 0 \<or> drop_bit 127 a = 1"
proof -
  have "unat a < 2 * 2 ^ 127" using unsigned_less [of a, where ?'a = nat] by simp
  then have "unat (drop_bit 127 a) < 2" by (simp add: unat_drop_bit less_mult_imp_div_less)
  then have "unat (drop_bit 127 a) = 0 \<or> unat (drop_bit 127 a) = 1" by linarith
  then show ?thesis by (simp add: word_unat_eq_iff)
qed

lemma halves_cover:
  "Prefix_Contains \<lparr>px_Addr = IP4 0, px_Bits = 1\<rparr> a \<or> Prefix_Contains \<lparr>px_Addr = IP4 0x80000000, px_Bits = 1\<rparr> a \<longleftrightarrow> Is4 a"
  "Prefix_Contains \<lparr>px_Addr = IP6 0 [], px_Bits = 1\<rparr> a \<or> Prefix_Contains \<lparr>px_Addr = IP6 (push_bit 127 1) [], px_Bits = 1\<rparr> a \<longleftrightarrow>
    (\<exists>x. a = IP6 x [])"
proof -
  have "drop_bit 31 (0x80000000 :: 32 word) = 1" by code_simp
  then show "Prefix_Contains \<lparr>px_Addr = IP4 0, px_Bits = 1\<rparr> a \<or> Prefix_Contains \<lparr>px_Addr = IP4 0x80000000, px_Bits = 1\<rparr> a \<longleftrightarrow> Is4 a"
    using top_bit_32 by (cases a) (auto simp: Prefix_Contains_def)
  have "drop_bit 127 (push_bit 127 1 :: 128 word) = 1" by code_simp
  then show "Prefix_Contains \<lparr>px_Addr = IP6 0 [], px_Bits = 1\<rparr> a \<or> Prefix_Contains \<lparr>px_Addr = IP6 (push_bit 127 1) [], px_Bits = 1\<rparr> a \<longleftrightarrow>
    (\<exists>x. a = IP6 x [])"
    using top_bit_128 by (cases a) (auto simp: Prefix_Contains_def)
qed

definition routed :: "Prefix list \<Rightarrow> Addr \<Rightarrow> bool" where
  "routed ps a \<longleftrightarrow> list_ex (\<lambda>p. Prefix_Contains p a) ps"

lemma routed_simps [simp]: "\<not> routed [] a" "routed (p # ps) a \<longleftrightarrow> Prefix_Contains p a \<or> routed ps a"
  "routed (ps @ qs) a \<longleftrightarrow> routed ps a \<or> routed qs a"
  by (simp_all add: routed_def)

lemma default_covers:
  assumes "Prefix_Bits p = 0"
  shows "Prefix_Contains p a \<longleftrightarrow> (if Is4 (px_Addr p) then Is4 a else \<exists>x. a = IP6 x [])"
proof -
  have "drop_bit 32 (x :: 32 word) = 0" "drop_bit 128 (y :: 128 word) = 0" for x y by simp_all
  then show ?thesis using assms
    by (cases "(px_Addr p, px_Bits p, a)" rule: addr_in.cases) (auto simp: Prefix_Contains_def Prefix_Bits_def split: if_splits)
qed

text \<open>
  Property C32. Splitting default routes is invisible: the split list routes exactly the addresses the
  configured list routes, of either family, and holds no default route, so the existing
  default route of the host is never replaced.
\<close>

theorem splitDefaults_equivalent:
  "routed (splitDefaults ps) a = routed ps a \<and> 0 \<notin> Prefix_Bits ` set (splitDefaults ps)"
proof (induction ps)
  case (Cons p ps)
  show ?case
  proof (cases "Prefix_Bits p = 0")
    case True
    show ?thesis
    proof (cases "Is4 (px_Addr p)")
      case v4: True
      show ?thesis using Cons True v4 halves_cover(1) [of a] default_covers [OF True, of a] by (auto simp: Prefix_Bits_def)
    next
      case v6: False
      show ?thesis using Cons True v6 halves_cover(2) [of a] default_covers [OF True, of a] by (auto simp: Prefix_Bits_def)
    qed
  qed (use Cons in simp)
qed simp

lemma usable_names_iff:
  "n \<in> set (usable_names ex is) \<longleftrightarrow> (\<exists>i \<in> set is. if_Name i = n \<and> if_Up i \<and> \<not> if_Loopback i \<and> \<not> if_PointToPoint i \<and>
     \<not> matchesAny n ex \<and> (\<exists>as. if_Addrs i = Some as \<and> (\<exists>x \<in> set as. usable_addr x)))"
proof (induction "is")
  case (Cons i "is")
  then show ?case by (cases "if_Addrs i") (auto simp: list_ex_iff)
qed simp

lemma first_addr_some:
  "first_addr remote as = Some a \<Longrightarrow> Is4 a = Is4 remote \<and> (IsGlobalUnicast a \<or> IsPrivate a) \<and> (\<exists>x. Some x \<in> set as \<and> a = Unmap x)"
  by (induction remote as rule: first_addr.induct) (auto simp: Let_def split: if_splits)

lemma first_addr_total:
  "usable_addr x \<Longrightarrow> x \<in> set as \<Longrightarrow> Is4 remote \<Longrightarrow> \<exists>a. first_addr remote as = Some a"
  by (induction remote as rule: first_addr.induct) (auto simp: Let_def usable_addr_def)

text \<open>
  Automatic links work: every interface \<open>UsableInterfaces\<close> selects is up, neither loopback nor
  point-to-point nor excluded, and for an IPv4 server \<open>DialBound\<close> finds a local address on
  it, of the server's family, global or private and one of the interface's own, so only the operating
  system's own refusal can make dialling fail.
\<close>

theorem usable_interface_dials:
  assumes "UsableInterfaces (Some ifs) exclude = Some names" "n \<in> set names" "Is4 (fst remote)"
    and "\<forall>i \<in> set ifs. byName (if_Name i) = Some i"
  shows "\<exists>i local. byName n = Some i \<and> if_Up i \<and> \<not> if_Loopback i \<and> \<not> if_PointToPoint i \<and> \<not> matchesAny n exclude \<and>
    Is4 local \<and> (IsGlobalUnicast local \<or> IsPrivate local) \<and>
    (\<exists>as x. if_Addrs i = Some as \<and> Some x \<in> set as \<and> local = Unmap x) \<and>
    DialBound byName dial n remote dscp =
      (case dial ''udp4'' n (local, 0) remote dscp of None \<Rightarrow> Inl (ErrDial n) | Some conn \<Rightarrow> Inr (conn, local))"
proof -
  obtain i as x where i: "i \<in> set ifs" "if_Name i = n" "if_Up i" "\<not> if_Loopback i" "\<not> if_PointToPoint i" "\<not> matchesAny n exclude"
    "if_Addrs i = Some as" "x \<in> set as" "usable_addr x"
    using assms(1,2) by (auto simp: UsableInterfaces_def usable_names_iff)
  obtain a where a: "first_addr (fst remote) as = Some a" using first_addr_total [OF i(9,8) assms(3)] by blast
  have b: "byName n = Some i" using assms(4) i(1,2) by auto
  have "DialBound byName dial n remote dscp =
      (case dial ''udp4'' n (a, 0) remote dscp of None \<Rightarrow> Inl (ErrDial n) | Some conn \<Rightarrow> Inr (conn, a))"
    using a b i(7) assms(3) by (simp add: DialBound_def InterfaceAddr_def)
  then show ?thesis using b i(3-7) first_addr_some [OF a] assms(3) by (intro exI [of _ i] exI [of _ a]) blast
qed

definition sample_ifs :: "Iface list" where
  "sample_ifs = [\<lparr>if_Name = ''lo'', if_Up = True, if_Loopback = True, if_PointToPoint = False, if_Addrs = Some [Some (IP4 0x7f000001)]\<rparr>,
    \<lparr>if_Name = ''eth0'', if_Up = True, if_Loopback = False, if_PointToPoint = False, if_Addrs = Some [None, Some (IP4 0xc0a80002)]\<rparr>,
    \<lparr>if_Name = ''docker0'', if_Up = True, if_Loopback = False, if_PointToPoint = False, if_Addrs = Some [Some (IP4 0xac110001)]\<rparr>]"

theorem usable_interface_dials_witness:
  "UsableInterfaces (Some sample_ifs) [''docker*''] = Some [''eth0''] \<and>
    (\<exists>local. DialBound (\<lambda>n. find (\<lambda>i. if_Name i = n) sample_ifs) (\<lambda>net i l r q. Some l) ''eth0'' (IP4 0x01020304, 443) 0 =
      Inr ((local, 0), local))"
proof -
  have u: "UsableInterfaces (Some sample_ifs) [''docker*''] = Some [''eth0'']" by code_simp
  have "\<forall>i \<in> set sample_ifs. find (\<lambda>j. if_Name j = if_Name i) sample_ifs = Some i" by (simp add: sample_ifs_def)
  from usable_interface_dials [OF u _ _ this, of "''eth0''" "(IP4 0x01020304, 443)" "\<lambda>net i l r q. Some l" 0] u show ?thesis by auto
qed

end
