(* ===== verification/Control.thy ===== *)
theory Control
  imports Epochs_Correct Interfaces "HOL-Library.List_Lexorder"
begin

text \<open>
  The control side of the daemon: the status report (\<open>engine/status.go\<close> with the records of
  \<open>ctl/ctl.go\<close>), the handlers of the control socket over decoded requests, the client's half of
  the exchange and the public-address lookups of \<open>engine/waninfo.go\<close> and \<open>ipinfo/ipinfo.go\<close>. HTTP and
  JSON are the standard library's: a request arrives decoded (\<open>None\<close> when decoding failed) and
  a response is a status code with its body.
\<close>

section \<open>Text forms of addresses\<close>

text \<open>Numbers in decimal and hexadecimal (\<open>strconv.Itoa\<close> and the digits of \<open>netip\<close>).\<close>

definition digit_char :: "int \<Rightarrow> char" where
  "digit_char d = ''0123456789abcdef'' ! nat d"

function digits_of :: "int \<Rightarrow> int \<Rightarrow> string" where
  "digits_of b n = (if b \<le> 1 \<or> n < b then [digit_char n] else digits_of b (n div b) @ [digit_char (n mod b)])"
  by pat_completeness auto
termination
proof (relation "measure (\<lambda>(b, n). nat n)")
  fix b n :: int
  assume "\<not> (b \<le> 1 \<or> n < b)"
  then have "0 \<le> n div b" "n div b < n" by (simp_all add: pos_imp_zdiv_nonneg_iff int_div_less_self)
  then show "((b, n div b), b, n) \<in> measure (\<lambda>(b, n). nat n)" by simp
qed simp

declare digits_of.simps [simp del]

definition Itoa :: "int \<Rightarrow> string" where
  "Itoa n = (if n < 0 then CHR ''-'' # digits_of 10 (- n) else digits_of 10 n)"

definition v4_string :: "32 word \<Rightarrow> string" where
  "v4_string a = concat (map (\<lambda>i. (if i = 0 then [] else ''.'') @ digits_of 10 (uint (drop_bit (24 - 8 * i) a AND 255))) [0..<4])"

definition v6_group :: "128 word \<Rightarrow> nat \<Rightarrow> int" where
  "v6_group a i = uint (drop_bit (112 - 16 * i) a AND 0xffff)"

text \<open>The first longest run of at least two zero groups, as \<open>appendTo6\<close> finds it.\<close>

fun zero_len :: "int list \<Rightarrow> nat" where
  "zero_len [] = 0"
| "zero_len (g # gs) = (if g = 0 then Suc (zero_len gs) else 0)"

fun longest_run :: "nat \<Rightarrow> int list \<Rightarrow> nat \<times> nat \<Rightarrow> nat \<times> nat" where
  "longest_run i [] best = best"
| "longest_run i (g # gs) (st, n) =
    (let l = zero_len (g # gs) in longest_run (Suc i) gs (if 2 \<le> l \<and> n < l then (i, l) else (st, n)))"

fun group_strings :: "nat \<Rightarrow> nat \<Rightarrow> nat \<Rightarrow> int list \<Rightarrow> string" where
  "group_strings i st n [] = []"
| "group_strings i st n (g # gs) =
    (if 0 < n \<and> i = st then ''::'' @ group_strings (Suc i) st n gs
     else if st < i \<and> i < st + n then group_strings (Suc i) st n gs
     else (if i = 0 \<or> (0 < n \<and> i = st + n) then [] else '':'') @ digits_of 16 g @ group_strings (Suc i) st n gs)"

definition v6_string :: "128 word \<Rightarrow> string" where
  "v6_string a = (let gs = map (v6_group a) [0..<8]; (st, n) = longest_run 0 gs (0, 0) in group_strings 0 st n gs)"

fun Addr_String :: "Addr \<Rightarrow> string" where
  "Addr_String AddrZero = ''invalid IP''"
| "Addr_String (IP4 a) = v4_string a"
| "Addr_String (IP6 a z) =
    (if drop_bit 32 a = 0xffff then ''::ffff:'' @ v4_string (ucast a) else v6_string a) @ (if z = [] then [] else CHR ''%'' # z)"

fun AddrPort_String :: "AddrPort \<Rightarrow> string" where
  "AddrPort_String (AddrZero, p) = ''invalid AddrPort''"
| "AddrPort_String (IP4 a, p) = v4_string a @ '':'' @ digits_of 10 (uint p)"
| "AddrPort_String (IP6 a z, p) = ''['' @ Addr_String (IP6 a z) @ '']:'' @ digits_of 10 (uint p)"

lemma addr_string_examples:
  "AddrPort_String (IP4 0xc0a80001, 443) = ''192.168.0.1:443''"
  "Addr_String (IP6 0x20010db8000000000000000000000001 []) = ''2001:db8::1''"
  "Addr_String (IP6 1 []) = ''::1''" "Addr_String (IP6 0 []) = ''::''"
  "Addr_String (IP6 0xffff01020304 ''eth0'') = ''::ffff:1.2.3.4%eth0''"
  "Addr_String (IP6 0x00010000000000020000000000000000 []) = ''1:0:0:2::''"
  by (simp_all add: v4_string_def v6_string_def v6_group_def digits_of.simps digit_char_def Let_def upt_rec)

section \<open>The status report\<close>

record PathStatus =
  ps_ID :: byte
  ps_IfName :: string
  ps_Endpoint :: string
  ps_State :: string
  ps_MTU :: int
  ps_SRTTMs :: real
  ps_LossPct :: real
  ps_TxBps :: real
  ps_RxBps :: real
  ps_Weight :: real
  ps_WANIP :: string
  ps_ASN :: int
  ps_ASOrg :: string
  ps_Country :: string

record ReorderStatus =
  rs_TimeoutFlush :: u64
  rs_LatePass :: u64
  rs_DupDrop :: u64
  rs_Held :: int
  rs_HeldOldestMs :: int

record FECStatus =
  fs_ParitySent :: u64
  fs_Recovered :: u64
  fs_Failed :: u64

record SessionStatus =
  ss_Name :: string
  ss_State :: string
  ss_Mode :: string
  ss_EpochAgeSec :: real
  ss_Endpoint :: string
  ss_Paths :: "PathStatus list"
  ss_Reorder :: ReorderStatus
  ss_FEC :: FECStatus
  ss_DropNoPath :: u64
  ss_IcmpPtbSent :: u64

record Status =
  st_Role :: string
  st_TunName :: string
  st_Sessions :: "SessionStatus list"

text \<open>
  One path of a session. \<open>Duration.Microseconds\<close> truncates toward zero. \<open>None\<close> is the panic of
  \<open>PathWeight\<close> on a path id out of range.
\<close>

definition microseconds :: "int \<Rightarrow> int" where
  "microseconds d = (if 0 \<le> d then d div 1000 else - (- d div 1000))"

definition path_status :: "Scheduler \<Rightarrow> Path \<Rightarrow> PathStatus option" where
  "path_status sched p = do {
     let m = Path_Metrics p;
     w \<leftarrow> PathWeight (pa_ID p) sched;
     let ps = \<lparr>ps_ID = pa_ID p, ps_IfName = pa_IfName p, ps_Endpoint = [], ps_State = State_String (pa_state p),
       ps_MTU = pa_discoveredMTU p, ps_SRTTMs = of_int (microseconds (m_SRTT m)) / 1000, ps_LossPct = m_Loss m * 100,
       ps_TxBps = pa_rateTxBps p, ps_RxBps = pa_rateRxBps p, ps_Weight = w,
       ps_WANIP = [], ps_ASN = 0, ps_ASOrg = [], ps_Country = []\<rparr>;
     let ps = (if AddrPort_IsValid (Endpoint p) then ps\<lparr>ps_Endpoint := AddrPort_String (Endpoint p)\<rparr> else ps);
     Some (case pa_wanInfo p of
             None \<Rightarrow> ps
           | Some w \<Rightarrow> ps\<lparr>ps_WANIP := wi_IP w, ps_ASN := wi_ASN w, ps_ASOrg := wi_ASOrg w, ps_Country := wi_Country w\<rparr>)
   }"

fun path_statuses :: "session \<Rightarrow> nat list \<Rightarrow> PathStatus list option" where
  "path_statuses s [] = Some []"
| "path_statuses s (i # is) =
    (case se_paths s i of
       None \<Rightarrow> path_statuses s is
     | Some p \<Rightarrow> do { ps \<leftarrow> path_status (se_sched s) p; rest \<leftarrow> path_statuses s is; Some (ps # rest) })"

definition session_status :: "int \<Rightarrow> AddrPort \<Rightarrow> session \<Rightarrow> SessionStatus option" where
  "session_status now serverAddr s = do {
     (state, age) \<leftarrow> (case se_txEpoch s of
         None \<Rightarrow> Some (''connecting'', 0)
       | Some a \<Rightarrow> do { ep \<leftarrow> get_epoch a s; Some (''up'', of_int (now - ep_createdAt ep) / 1000000000) });
     let rs = Snapshot now (se_reorder s);
     let es = e_stats (se_fecEnc s);
     let ds = d_stats (se_fecDec s);
     paths \<leftarrow> path_statuses s [0..<MaxPaths];
     Some \<lparr>ss_Name = se_name s, ss_State = state, ss_Mode = Mode_String (sc_mode (se_sched s)), ss_EpochAgeSec = age,
       ss_Endpoint = (if en_role (se_eng s) = RoleClient then AddrPort_String serverAddr else []), ss_Paths = paths,
       ss_Reorder = \<lparr>rs_TimeoutFlush = st_TimeoutFlush rs, rs_LatePass = st_LatePass rs, rs_DupDrop = st_DupDrop rs,
         rs_Held = st_Held rs, rs_HeldOldestMs = st_HeldOldestMs rs\<rparr>,
       ss_FEC = \<lparr>fs_ParitySent = es_ParitySent es, fs_Recovered = ds_Recovered ds, fs_Failed = ds_Failed ds\<rparr>,
       ss_DropNoPath = se_dropNoPath s + se_dropNoEpoch s, ss_IcmpPtbSent = se_icmpPTBSent s\<rparr>
   }"

fun session_statuses :: "int \<Rightarrow> session list \<Rightarrow> SessionStatus list option" where
  "session_statuses now [] = Some []"
| "session_statuses now (s # ss) = do {
     st \<leftarrow> session_status now (AddrZero, 0) s;
     rest \<leftarrow> session_statuses now ss;
     Some (st # rest)
   }"

definition client_Status :: "int \<Rightarrow> ClientEng \<Rightarrow> Status option" where
  "client_Status now e = do {
     st \<leftarrow> session_status now (ce_serverAddr e) (ce_sess e);
     Some \<lparr>st_Role = ''client'', st_TunName = ce_tunName e, st_Sessions = [st]\<rparr>
   }"

text \<open>
  On the server \<open>order\<close> is the order in which Go walks the map of peers; \<open>sort.Slice\<close> then
  sorts by name. The model sorts with a stable sort; \<open>order\<close> decides between equal names, as the
  unstable sort may.
\<close>

definition str_key :: "string \<Rightarrow> nat list" where
  "str_key s = map of_char s"

definition server_Status :: "int \<Rightarrow> string \<Rightarrow> nat list \<Rightarrow> ServerEng \<Rightarrow> Status option" where
  "server_Status now tunName order e = do {
     sts \<leftarrow> session_statuses now (sort_key (\<lambda>s. str_key (se_name s)) (map (\<lambda>i. sr_sessions e ! i) order));
     Some \<lparr>st_Role = ''server'', st_TunName = tunName, st_Sessions = sts\<rparr>
   }"

section \<open>The control socket\<close>

record LinkRequest =
  lr_Interface :: string
  lr_InitialMbps :: real

record ModeRequest =
  mr_Mode :: string

text \<open>The requests the mux of \<open>Serve\<close> routes, with their bodies decoded, and the responses.\<close>

datatype CtlRequest =
    GetStatus
  | PostLinks "LinkRequest option"
  | DeleteLink string
  | PostMode "ModeRequest option"

datatype CtlBody = StatusBody Status | BadRequest | ErrorBody ctl_error | NoContent

type_synonym CtlResponse = "int \<times> CtlBody"

text \<open>
  What \<open>Serve\<close> needs of an engine (the interface \<open>Daemon\<close>). \<open>None\<close> is a panic inside the operation.
\<close>

record 'e Daemon =
  dm_Status :: "'e \<Rightarrow> Status option"
  dm_AddLink :: "string \<Rightarrow> real \<Rightarrow> 'e \<Rightarrow> (ctl_error + 'e) option"
  dm_RemoveLink :: "string \<Rightarrow> 'e \<Rightarrow> (ctl_error + 'e) option"
  dm_SetMode :: "string \<Rightarrow> 'e \<Rightarrow> ctl_error + 'e"

definition answer :: "int \<Rightarrow> ctl_error + 'e \<Rightarrow> 'e \<Rightarrow> CtlResponse \<times> 'e" where
  "answer code r e = (case r of Inl err \<Rightarrow> ((code, ErrorBody err), e) | Inr e' \<Rightarrow> ((204, NoContent), e'))"

definition serve_status :: "'e Daemon \<Rightarrow> 'e \<Rightarrow> (CtlResponse \<times> 'e) option" where
  "serve_status d e = do { st \<leftarrow> dm_Status d e; Some ((200, StatusBody st), e) }"

definition serve_add :: "'e Daemon \<Rightarrow> LinkRequest option \<Rightarrow> 'e \<Rightarrow> (CtlResponse \<times> 'e) option" where
  "serve_add d req e =
    (case req of
       None \<Rightarrow> Some ((400, BadRequest), e)
     | Some req \<Rightarrow>
         if lr_Interface req = [] then Some ((400, BadRequest), e)
         else do { r \<leftarrow> dm_AddLink d (lr_Interface req) (lr_InitialMbps req) e; Some (answer 409 r e) })"

definition serve_remove :: "'e Daemon \<Rightarrow> string \<Rightarrow> 'e \<Rightarrow> (CtlResponse \<times> 'e) option" where
  "serve_remove d ifname e = do { r \<leftarrow> dm_RemoveLink d ifname e; Some (answer 404 r e) }"

definition serve_mode :: "'e Daemon \<Rightarrow> ModeRequest option \<Rightarrow> 'e \<Rightarrow> CtlResponse \<times> 'e" where
  "serve_mode d req e =
    (case req of
       None \<Rightarrow> ((400, BadRequest), e)
     | Some req \<Rightarrow> answer 400 (dm_SetMode d (mr_Mode req) e) e)"

definition Serve :: "'e Daemon \<Rightarrow> CtlRequest \<Rightarrow> 'e \<Rightarrow> (CtlResponse \<times> 'e) option" where
  "Serve d req e =
    (case req of
       GetStatus \<Rightarrow> serve_status d e
     | PostLinks r \<Rightarrow> serve_add d r e
     | DeleteLink ifname \<Rightarrow> serve_remove d ifname e
     | PostMode r \<Rightarrow> Some (serve_mode d r e))"

text \<open>The two engines as daemons; on a server links and mode cannot be changed.\<close>

definition client_daemon :: "Env \<Rightarrow> Platform \<Rightarrow> int \<Rightarrow> int \<Rightarrow> ClientEng Daemon" where
  "client_daemon env pf now nowUs =
    \<lparr>dm_Status = client_Status now, dm_AddLink = AddLink env pf nowUs, dm_RemoveLink = RemoveLink, dm_SetMode = Engine_SetMode\<rparr>"

definition server_daemon :: "int \<Rightarrow> string \<Rightarrow> nat list \<Rightarrow> ServerEng Daemon" where
  "server_daemon now tunName order =
    \<lparr>dm_Status = server_Status now tunName order, dm_AddLink = (\<lambda>_ _ _. Some (Inl ErrNotClient)),
     dm_RemoveLink = (\<lambda>_ _. Some (Inl ErrNotClient)), dm_SetMode = (\<lambda>_ _. Inl ErrNotClient)\<rparr>"

text \<open>The client's half: the request it sends and how it reads the answer (\<open>checkResp\<close>).\<close>

definition checkResp :: "CtlResponse \<Rightarrow> (int \<times> CtlBody) option" where
  "checkResp resp = (if 300 \<le> fst resp then Some resp else None)"

definition Client_AddLink :: "string \<Rightarrow> real \<Rightarrow> CtlRequest" where
  "Client_AddLink ifname mbps = PostLinks (Some \<lparr>lr_Interface = ifname, lr_InitialMbps = mbps\<rparr>)"

definition Client_RemoveLink :: "string \<Rightarrow> CtlRequest" where
  "Client_RemoveLink ifname = DeleteLink ifname"

definition Client_SetMode :: "string \<Rightarrow> CtlRequest" where
  "Client_SetMode mode = PostMode (Some \<lparr>mr_Mode = mode\<rparr>)"

section \<open>Public addresses of the paths\<close>

text \<open>\<open>ipinfo.Lookup\<close> from the response on: the status code, and the decoded reply of at most 64 KiB.\<close>

record ip_response =
  ir_IP :: string
  ir_ASN :: int
  ir_ASOrganization :: string
  ir_Country :: string

datatype ipinfo_error = ErrGet | ErrStatus int | ErrBody | ErrJSON | ErrNoIP

definition Lookup_result :: "(bytes \<Rightarrow> ip_response option) \<Rightarrow> int \<Rightarrow> (int \<times> bytes option) option \<Rightarrow> ipinfo_error + WanInfo" where
  "Lookup_result unmarshal now reply =
    (case reply of
       None \<Rightarrow> Inl ErrGet
     | Some (code, body) \<Rightarrow>
         if code div 100 \<noteq> 2 then Inl (ErrStatus code)
         else case body of
             None \<Rightarrow> Inl ErrBody
           | Some b \<Rightarrow>
               (case unmarshal (take (64 * 1024) b) of
                  None \<Rightarrow> Inl ErrJSON
                | Some r \<Rightarrow>
                    if ir_IP r = [] then Inl ErrNoIP
                    else Inr \<lparr>wi_IP = ir_IP r, wi_ASN = ir_ASN r, wi_ASOrg = ir_ASOrganization r,
                      wi_Country = ir_Country r, wi_FetchedAt = now\<rparr>))"

text \<open>
  One sweep of \<open>wanInfoLoop\<close>: the paths for which a lookup starts, and the set of lookups in
  flight, keyed by path id. \<open>wan_done\<close> is the end of one lookup.
\<close>

definition needs_lookup :: "byte list \<Rightarrow> Path \<Rightarrow> bool" where
  "needs_lookup inflight p \<longleftrightarrow> pa_state p \<noteq> Removed \<and> pa_state p \<noteq> Down \<and> pa_wanInfo p = None \<and> pa_ID p \<notin> set inflight"

fun wan_sweep :: "session \<Rightarrow> nat list \<Rightarrow> byte list \<Rightarrow> (nat \<times> string) list \<times> byte list" where
  "wan_sweep s [] inflight = ([], inflight)"
| "wan_sweep s (i # is) inflight =
    (case se_paths s i of
       None \<Rightarrow> wan_sweep s is inflight
     | Some p \<Rightarrow>
         if needs_lookup inflight p
         then (let (ls, fl) = wan_sweep s is (pa_ID p # inflight) in ((i, pa_IfName p) # ls, fl))
         else wan_sweep s is inflight)"

definition wan_done :: "nat \<Rightarrow> byte \<Rightarrow> ipinfo_error + WanInfo \<Rightarrow> session \<times> byte list \<Rightarrow> session \<times> byte list" where
  "wan_done slot pid res x =
    (case x of (s, inflight) \<Rightarrow>
       (case res of Inl _ \<Rightarrow> s | Inr info \<Rightarrow> upd_path slot (SetWANInfo (Some info)) s, filter (\<lambda>q. q \<noteq> pid) inflight))"

section \<open>The report is total and consistent\<close>

lemma path_status_some:
  assumes "unat (pa_ID p) < MaxPaths"
  shows "\<exists>ps. path_status sched p = Some ps \<and> ps_ID ps = pa_ID p \<and> ps_State ps = State_String (pa_state p) \<and>
    ps_IfName ps = pa_IfName p \<and> PathWeight (pa_ID p) sched = Some (ps_Weight ps)"
  using assms by (auto simp: path_status_def PathWeight_def Let_def split: option.split)

definition listed :: "session \<Rightarrow> nat list \<Rightarrow> nat list" where
  "listed s is = filter (\<lambda>i. se_paths s i \<noteq> None) is"

lemma path_statuses_some:
  assumes "agrees s"
  shows "\<exists>l. path_statuses s is = Some l \<and> map (\<lambda>q. unat (ps_ID q)) l = listed s is \<and>
    map ps_Weight l = map (\<lambda>i. the (PathWeight (of_nat i) (se_sched s))) (listed s is)"
proof (induction "is")
  case (Cons i "is")
  then obtain l where l: "path_statuses s is = Some l" "map (\<lambda>q. unat (ps_ID q)) l = listed s is"
    "map ps_Weight l = map (\<lambda>i. the (PathWeight (of_nat i) (se_sched s))) (listed s is)" by blast
  show ?case
  proof (cases "se_paths s i")
    case (Some p)
    have i: "i < MaxPaths" "unat (pa_ID p) = i" using agrees_slot(1,2) [OF assms Some] by simp_all
    obtain ps where "path_status (se_sched s) p = Some ps" "ps_ID ps = pa_ID p" "PathWeight (pa_ID p) (se_sched s) = Some (ps_Weight ps)"
      using path_status_some [of p "se_sched s"] i by auto
    moreover have "of_nat i = pa_ID p" using i(2) by auto
    ultimately show ?thesis using Some l i(2) by (auto simp: listed_def)
  qed (use l in \<open>simp add: listed_def\<close>)
qed (simp add: listed_def)

lemma weights_sum:
  assumes "agrees s" "i < MaxPaths" "usable (sched_at s i)"
  shows "sum_list (map (\<lambda>i. the (PathWeight (of_nat i) (se_sched s))) (listed s [0..<MaxPaths])) = 1"
proof -
  let ?f = "\<lambda>i. the (PathWeight (of_nat i) (se_sched s))" and ?U = "{i. i < MaxPaths \<and> usable (sched_at s i)}"
  have sub: "?U \<subseteq> set (listed s [0..<MaxPaths])" using in_service_usable [OF assms(1)] by (auto simp: listed_def)
  have zero: "?f i = 0" if "i \<in> set (listed s [0..<MaxPaths]) - ?U" for i
    using that by (auto simp: listed_def PathWeight_def Let_def unat_of_nat)
  have "sum_list (map ?f (listed s [0..<MaxPaths])) = sum ?f (set (listed s [0..<MaxPaths]))"
    by (rule sum_list_distinct_conv_sum_set) (simp add: listed_def)
  also have "\<dots> = sum ?f ?U" by (rule sum.mono_neutral_right) (use sub zero in auto)
  also have "\<dots> = 1" using PathWeight_shares [of "se_sched s"] assms(2,3) by blast
  finally show ?thesis .
qed

lemma session_status_some:
  assumes "agrees s" "epochs_ok s"
  shows "\<exists>ss. session_status now srv s = Some ss \<and> (ss_State ss = ''up'' \<longleftrightarrow> se_txEpoch s \<noteq> None) \<and>
    map (\<lambda>q. unat (ps_ID q)) (ss_Paths ss) = listed s [0..<MaxPaths] \<and>
    map ps_Weight (ss_Paths ss) = map (\<lambda>i. the (PathWeight (of_nat i) (se_sched s))) (listed s [0..<MaxPaths])"
proof -
  obtain l where l: "path_statuses s [0..<MaxPaths] = Some l" "map (\<lambda>q. unat (ps_ID q)) l = listed s [0..<MaxPaths]"
    "map ps_Weight l = map (\<lambda>i. the (PathWeight (of_nat i) (se_sched s))) (listed s [0..<MaxPaths])"
    using path_statuses_some [OF assms(1)] by blast
  have "\<exists>ep. get_epoch a s = Some ep" if "se_txEpoch s = Some a" for a
    using assms(2) that by (auto simp: epochs_ok_def current_def get_epoch_def)
  then show ?thesis using l by (cases "se_txEpoch s") (auto simp: session_status_def Let_def simp del: MaxPaths_def)
qed


lemma StartClient_connecting: "StartClient env pf nowUs srv tunName cfg = Some e \<Longrightarrow> se_txEpoch (ce_sess e) = None"
proof -
  have k: "se_txEpoch t = None" if "epview t = epview (newSession conf nm k psk m)" for t conf nm k psk m
    using epview_eqD(2) [OF that] by (simp add: newSession_def)
  assume "StartClient env pf nowUs srv tunName cfg = Some e"
  then show "se_txEpoch (ce_sess e) = None"
    by (auto simp: StartClient_def bind_eq_Some_conv Let_def dest!: epview_setupLinks intro: k)
qed


section \<open>Control requests\<close>

text \<open>
  The contract of a daemon: each operation that succeeds is a run of steps of its engine. What
  \<open>Serve\<close> does then follows for every daemon.
\<close>

locale daemon =
  fixes d :: "'e Daemon" and step :: "'e \<Rightarrow> 'e \<Rightarrow> bool"
  assumes add_step: "dm_AddLink d n mbps e = Some (Inr e') \<Longrightarrow> step\<^sup>*\<^sup>* e e'"
    and remove_step: "dm_RemoveLink d n e = Some (Inr e') \<Longrightarrow> step\<^sup>*\<^sup>* e e'"
    and mode_step: "dm_SetMode d m e = Inr e' \<Longrightarrow> step\<^sup>*\<^sup>* e e'"
begin

definition fine :: "int \<Rightarrow> 'e \<Rightarrow> 'e \<Rightarrow> bool" where
  "fine code e e' \<longleftrightarrow> (300 \<le> code \<longrightarrow> e' = e) \<and> (code < 300 \<longrightarrow> step\<^sup>*\<^sup>* e e') \<and> code \<in> {200, 204, 400, 404, 409}"

lemma answer_fine:
  assumes "code \<in> {400, 404, 409}" "\<And>f. r = Inr f \<Longrightarrow> step\<^sup>*\<^sup>* e f" "answer code r e = ((k, body), e')"
  shows "fine k e e'"
  using assms by (cases r) (auto simp: answer_def fine_def)

lemma Serve_fine:
  assumes "Serve d req e = Some ((code, body), e')"
  shows "fine code e e'"
proof (cases req)
  case GetStatus
  then show ?thesis using assms by (auto simp: Serve_def serve_status_def bind_eq_Some_conv fine_def)
next
  case (PostLinks r)
  show ?thesis
  proof (cases "r = None \<or> lr_Interface (the r) = []")
    case True
    then show ?thesis using assms PostLinks by (auto simp: Serve_def serve_add_def fine_def split: option.splits)
  next
    case False
    then obtain l :: LinkRequest and x where x: "dm_AddLink d (lr_Interface l) (lr_InitialMbps l) e = Some x" "answer 409 x e = ((code, body), e')"
      using assms PostLinks by (auto simp: Serve_def serve_add_def bind_eq_Some_conv)
    show ?thesis by (rule answer_fine [OF _ _ x(2)]) (use x(1) add_step in auto)
  qed
next
  case (DeleteLink n)
  then obtain x where x: "dm_RemoveLink d n e = Some x" "answer 404 x e = ((code, body), e')"
    using assms by (auto simp: Serve_def serve_remove_def bind_eq_Some_conv)
  show ?thesis by (rule answer_fine [OF _ _ x(2)]) (use x(1) remove_step in auto)
next
  case (PostMode r)
  show ?thesis
  proof (cases r)
    case None
    then show ?thesis using assms PostMode by (auto simp: Serve_def serve_mode_def fine_def)
  next
    case (Some m)
    then have x: "answer 400 (dm_SetMode d (mr_Mode m) e) e = ((code, body), e')"
      using assms PostMode by (simp add: Serve_def serve_mode_def)
    show ?thesis by (rule answer_fine [OF _ _ x]) (use mode_step in auto)
  qed
qed

end

interpretation client: daemon "client_daemon env pf now nowUs" "client_step c ns"
  by unfold_locales (auto simp: client_daemon_def intro: client_step.add client_step.remove client_step.mode)

interpretation server: daemon "server_daemon now tunName order" "server_step c ns"
  by unfold_locales (simp_all add: server_daemon_def)



text \<open>On a server no control request changes anything.\<close>

theorem server_control_readonly:
  "Serve (server_daemon now tunName order) req e = Some (resp, e') \<Longrightarrow> e' = e"
  by (cases req) (auto simp: Serve_def serve_status_def serve_add_def serve_remove_def serve_mode_def answer_def
      server_daemon_def bind_eq_Some_conv split: option.splits if_splits)

section \<open>Lookups\<close>

lemma wan_sweep_exact:
  assumes "agrees s" "distinct is"
    and "\<forall>i \<in> set is. \<forall>p. se_paths s i = Some p \<longrightarrow> (pa_ID p \<in> set now_in \<longleftrightarrow> pa_ID p \<in> set inflight)"
  shows "((i, n) \<in> set (fst (wan_sweep s is now_in)) \<longleftrightarrow>
      i \<in> set is \<and> (\<exists>p. se_paths s i = Some p \<and> pa_IfName p = n \<and> needs_lookup inflight p)) \<and>
    distinct (map fst (fst (wan_sweep s is now_in)))"
  using assms(2,3)
proof (induction "is" arbitrary: now_in)
  case (Cons j "is")
  show ?case
  proof (cases "se_paths s j")
    case None
    then show ?thesis using Cons by auto
  next
    case (Some p)
    have nl: "needs_lookup now_in p \<longleftrightarrow> needs_lookup inflight p" using Cons.prems(2) Some by (auto simp: needs_lookup_def)
    have other: "pa_ID q \<noteq> pa_ID p" if "k \<in> set is" "se_paths s k = Some q" for k q
      using agrees_slot(2) [OF assms(1) Some] agrees_slot(2) [OF assms(1) that(2)] that(1) Cons.prems(1) by auto
    have pre: "\<forall>i \<in> set is. \<forall>q. se_paths s i = Some q \<longrightarrow> (pa_ID q \<in> set (pa_ID p # now_in) \<longleftrightarrow> pa_ID q \<in> set inflight)"
      "\<forall>i \<in> set is. \<forall>q. se_paths s i = Some q \<longrightarrow> (pa_ID q \<in> set now_in \<longleftrightarrow> pa_ID q \<in> set inflight)"
      using Cons.prems(2) other by auto
    note ih = Cons.IH [OF _ pre(1)] Cons.IH [OF _ pre(2)]
    have dom: "fst x \<in> set is" if "x \<in> set (fst (wan_sweep s is fl))" for x fl
      using that by (induction s "is" fl arbitrary: x rule: wan_sweep.induct) (auto split: option.splits if_splits prod.splits)
    show ?thesis using ih Cons.prems(1) Some nl dom [of _ "pa_ID p # now_in"]
      by (auto simp: split_beta)
  qed
qed simp

text \<open>
  One lookup per path. A sweep over the slots of a session starts a lookup exactly for
  the paths that are neither removed nor down, have no information and no lookup in flight, one each.
\<close>

theorem wan_sweep_starts:
  assumes "agrees s"
  shows "((i, n) \<in> set (fst (wan_sweep s [0..<MaxPaths] inflight)) \<longleftrightarrow>
      (\<exists>p. se_paths s i = Some p \<and> pa_IfName p = n \<and> needs_lookup inflight p)) \<and>
    distinct (map fst (fst (wan_sweep s [0..<MaxPaths] inflight)))"
  using wan_sweep_exact [OF assms, of "[0..<MaxPaths]" inflight inflight i n] agrees_slot(1) [OF assms, of i] by auto

theorem wan_sweep_starts_witness:
  "\<exists>e. StartClient sample_env sample_platform 1 (IP4 0x01020304, 443) ''tun0'' sample_client = Some e \<and>
    distinct (map fst (fst (wan_sweep (ce_sess e) [0..<MaxPaths] [])))"
proof -
  obtain e where e: "StartClient sample_env sample_platform 1 (IP4 0x01020304, 443) ''tun0'' sample_client = Some e"
    using sample_client_starts by blast
  then show ?thesis using wan_sweep_starts [OF StartClient_agrees [OF e], of 0 "[]" "[]"] by blast
qed

text \<open>
  A lookup that is in flight while the link is rebound brings back the information that
  \<open>MTURestart\<close> has just dropped: the path keeps the information of the old network, and no sweep asks again.
\<close>

theorem wan_info_stale:
  assumes "se_paths s i = Some p" "wan_done i (pa_ID p) (Inr info) (upd_path i MTURestart s, inflight) = (s', fl)"
  shows "\<exists>q. se_paths s' i = Some q \<and> pa_wanInfo q = Some info \<and> \<not> needs_lookup fl q"
  using assms by (auto simp: wan_done_def upd_path_def SetWANInfo_def needs_lookup_def)

end
