(* ===== verification/Startup.thy ===== *)
theory Startup
  imports Control "HOL-Library.State_Monad"
begin

text \<open>
  Starting and stopping a daemon: the calls that \<open>StartServer\<close>, \<open>StartClient\<close> and \<open>Stop\<close> make of
  the operating system, through \<open>tundev\<close>, \<open>platform\<close> and \<open>udp\<close>, in their order and with their
  error paths. The operating system is a parameter that answers each call, knowing the calls
  before it; the state is the log of the calls.
\<close>

section \<open>Calls of the operating system\<close>

datatype SockOpt =
    SO_BINDTODEVICE | IP_MTU_DISCOVER | IPV6_MTU_DISCOVER | IP_TOS | IPV6_TCLASS
  | IP_DONTFRAG | IPV6_DONTFRAG | IP_BOUND_IF | IPV6_BOUND_IF

datatype OsCall =
    CreateTUN string int | DeviceName | CloseTUN
  | LinkByName string | NlParseAddr string | AddrAdd string string | LinkSetMTU string int | LinkSetUp string
  | RouteAdd string Prefix
  | Command "string list"
  | InterfaceByName string
  | OpenSocket string | RawControl | SetsockoptInt SockOpt int | SetsockoptString SockOpt string
  | BindSocket string | CloseConn
  | WriteFile string string | NftLoad string | NftDelete string

record Os =
  os_ok :: "OsCall list \<Rightarrow> OsCall \<Rightarrow> bool"
  os_tunName :: string
  os_ifIndex :: "string \<Rightarrow> int"

datatype boot_error =
    ErrResolveServer | ErrCreateTUN | ErrTunName | ErrTunLink string | ErrParseAddr | ErrAddrAdd | ErrSetMTU | ErrLinkUp
  | ErrIfconfig | ErrRouteLink | ErrRouteAdd Prefix | ErrSocket | ErrSockControl | ErrSockBind
  | ErrListen boot_error | ErrForward | ErrNft | ErrNATUnsupported | ErrNAT boot_error

type_synonym 'a os = "(OsCall list, 'a) state"

definition sys :: "Os \<Rightarrow> OsCall \<Rightarrow> bool os" where
  "sys os c = State (\<lambda>lg. (os_ok os lg c, lg @ [c]))"

text \<open>Calls in turn up to the first that fails, which gives the error.\<close>

fun attempt :: "Os \<Rightarrow> (OsCall \<times> boot_error) list \<Rightarrow> boot_error option os" where
  "attempt os [] = State_Monad.return None"
| "attempt os ((c, err) # cs) = do { ok \<leftarrow> sys os c; if ok then attempt os cs else State_Monad.return (Some err) }"

section \<open>The TUN device and its routes\<close>

definition tundev_Open :: "Os \<Rightarrow> string \<Rightarrow> int \<Rightarrow> (boot_error + string) os" where
  "tundev_Open os name mtu = do {
     ok \<leftarrow> sys os (CreateTUN name mtu);
     if \<not> ok then State_Monad.return (Inl ErrCreateTUN)
     else do {
       ok \<leftarrow> sys os DeviceName;
       if ok then State_Monad.return (Inr (os_tunName os))
       else do { _ \<leftarrow> sys os CloseTUN; State_Monad.return (Inl ErrTunName) }
     }
   }"

definition Prefix_String :: "Prefix \<Rightarrow> string" where
  "Prefix_String p =
    (if IsValid (px_Addr p) then Addr_String (px_Addr p) @ ''/'' @ Itoa (int (px_Bits p)) else ''invalid Prefix'')"

fun mask_addr :: "nat \<Rightarrow> Addr \<Rightarrow> Addr" where
  "mask_addr n (IP4 a) = IP4 (push_bit (32 - n) (drop_bit (32 - n) a))"
| "mask_addr n (IP6 a z) = IP6 (push_bit (128 - n) (drop_bit (128 - n) a)) []"
| "mask_addr n AddrZero = AddrZero"

definition Masked :: "Prefix \<Rightarrow> Prefix" where
  "Masked p = p\<lparr>px_Addr := mask_addr (px_Bits p) (px_Addr p)\<rparr>"

definition ConfigureTUN :: "Os \<Rightarrow> string \<Rightarrow> Prefix \<Rightarrow> int \<Rightarrow> boot_error option os" where
  "ConfigureTUN os ifname addr mtu = attempt os
    [(LinkByName ifname, ErrTunLink ifname), (NlParseAddr (Prefix_String addr), ErrParseAddr),
     (AddrAdd ifname (Prefix_String addr), ErrAddrAdd), (LinkSetMTU ifname mtu, ErrSetMTU),
     (LinkSetUp ifname, ErrLinkUp)]"

definition AddRoutes :: "Os \<Rightarrow> string \<Rightarrow> Prefix list \<Rightarrow> boot_error option os" where
  "AddRoutes os ifname routes =
    attempt os ((LinkByName ifname, ErrRouteLink) # map (\<lambda>p. (RouteAdd ifname p, ErrRouteAdd p)) (splitDefaults routes))"

text \<open>On macOS the same is done by commands.\<close>

definition ConfigureTUN_darwin :: "Os \<Rightarrow> string \<Rightarrow> Prefix \<Rightarrow> int \<Rightarrow> boot_error option os" where
  "ConfigureTUN_darwin os ifname addr mtu =
    (let a = Addr_String (px_Addr addr); subnet = Prefix_String (Masked addr)
     in attempt os
       [(Command [''ifconfig'', ifname, ''inet'', a, a, ''mtu'', Itoa mtu, ''up''], ErrIfconfig),
        (Command [''route'', ''-q'', ''-n'', ''add'', ''-inet'', subnet, ''-interface'', ifname], ErrRouteAdd (Masked addr))])"

fun splitDefaultsDarwin :: "Prefix list \<Rightarrow> Prefix list" where
  "splitDefaultsDarwin [] = []"
| "splitDefaultsDarwin (p # ps) =
    (if Prefix_Bits p = 0 then
       (if Is4 (px_Addr p)
        then [\<lparr>px_Addr = IP4 0, px_Bits = 1\<rparr>, \<lparr>px_Addr = IP4 0x80000000, px_Bits = 1\<rparr>]
        else [\<lparr>px_Addr = IP6 0 [], px_Bits = 1\<rparr>, \<lparr>px_Addr = IP6 (push_bit 127 1) [], px_Bits = 1\<rparr>]) @ splitDefaultsDarwin ps
     else p # splitDefaultsDarwin ps)"

definition route_command :: "string \<Rightarrow> Prefix \<Rightarrow> OsCall" where
  "route_command ifname p =
    (let inet = (if \<not> Is4 (px_Addr p) then ''-inet6'' else ''-inet'')
     in Command [''route'', ''-q'', ''-n'', ''add'', inet, Prefix_String p, ''-interface'', ifname])"

definition AddRoutes_darwin :: "Os \<Rightarrow> string \<Rightarrow> Prefix list \<Rightarrow> boot_error option os" where
  "AddRoutes_darwin os ifname routes =
    attempt os (map (\<lambda>p. (route_command ifname p, ErrRouteAdd p)) (splitDefaultsDarwin routes))"

section \<open>Socket options\<close>

text \<open>\<open>SO_BINDTODEVICE\<close> on Linux, the index of the interface on macOS.\<close>

definition bindToInterface :: "Os \<Rightarrow> string \<Rightarrow> boot_error option os" where
  "bindToInterface os ifname =
    attempt os [(RawControl, ErrSockControl), (SetsockoptString SO_BINDTODEVICE ifname, ErrSockControl)]"

definition bindToInterface_darwin :: "Os \<Rightarrow> string \<Rightarrow> bool \<Rightarrow> boot_error option os" where
  "bindToInterface_darwin os ifname v4 =
    attempt os [(InterfaceByName ifname, ErrSockControl), (RawControl, ErrSockControl),
      (SetsockoptInt (if v4 then IP_BOUND_IF else IPV6_BOUND_IF) (os_ifIndex os ifname), ErrSockControl)]"

text \<open>Options whose result is ignored.\<close>

definition best_effort :: "Os \<Rightarrow> (SockOpt \<times> int) list \<Rightarrow> boot_error option os" where
  "best_effort os opts = do {
     ok \<leftarrow> sys os RawControl;
     if \<not> ok then State_Monad.return (Some ErrSockControl)
     else fold (\<lambda>(opt, v) m. do { _ \<leftarrow> m; _ \<leftarrow> sys os (SetsockoptInt opt v); State_Monad.return None }) opts
            (State_Monad.return None)
   }"

definition IP_PMTUDISC_PROBE :: int where [simp]: "IP_PMTUDISC_PROBE = 3"

definition setDontFragment :: "Os \<Rightarrow> boot_error option os" where
  "setDontFragment os = best_effort os [(IP_MTU_DISCOVER, IP_PMTUDISC_PROBE), (IPV6_MTU_DISCOVER, IP_PMTUDISC_PROBE)]"

definition setDontFragment_darwin :: "Os \<Rightarrow> boot_error option os" where
  "setDontFragment_darwin os = best_effort os [(IP_DONTFRAG, 1), (IPV6_DONTFRAG, 1)]"

definition setDSCP :: "Os \<Rightarrow> int \<Rightarrow> boot_error option os" where
  "setDSCP os dscp =
    (if dscp \<le> 0 then State_Monad.return None
     else let tos = push_bit 2 dscp in best_effort os [(IP_TOS, tos), (IPV6_TCLASS, tos)])"

text \<open>The \<open>Control\<close> function of \<open>Listen\<close>; a socket for which it fails is closed again.\<close>

definition listen_control :: "Os \<Rightarrow> int \<Rightarrow> boot_error option os" where
  "listen_control os dscp = do {
     err \<leftarrow> setDontFragment os;
     case err of Some _ \<Rightarrow> State_Monad.return err | None \<Rightarrow> setDSCP os dscp
   }"

definition Listen :: "Os \<Rightarrow> string \<Rightarrow> int \<Rightarrow> boot_error option os" where
  "Listen os addr dscp = do {
     ok \<leftarrow> sys os (OpenSocket addr);
     if \<not> ok then State_Monad.return (Some ErrSocket)
     else do {
       err \<leftarrow> listen_control os dscp;
       err \<leftarrow> (case err of None \<Rightarrow> attempt os [(BindSocket addr, ErrSockBind)] | Some _ \<Rightarrow> State_Monad.return err);
       case err of
         None \<Rightarrow> State_Monad.return None
       | Some _ \<Rightarrow> do { _ \<leftarrow> sys os CloseConn; State_Monad.return err }
     }
   }"

text \<open>The \<open>Control\<close> function of \<open>DialBound\<close>.\<close>

definition dial_control :: "Os \<Rightarrow> string \<Rightarrow> int \<Rightarrow> boot_error option os" where
  "dial_control os ifname dscp = do {
     err \<leftarrow> bindToInterface os ifname;
     case err of
       Some _ \<Rightarrow> State_Monad.return err
     | None \<Rightarrow> do { err \<leftarrow> setDontFragment os; case err of Some _ \<Rightarrow> State_Monad.return err | None \<Rightarrow> setDSCP os dscp }
   }"

section \<open>Address translation\<close>

definition natTable :: string where "natTable = ''amane''"

definition hex_byte :: "int \<Rightarrow> string" where
  "hex_byte v = [digit_char (v div 16), digit_char (v mod 16)]"

text \<open>
  The verb \<open>%q\<close>: quotes, backslashes and control characters are escaped; bytes above 126 are
  copied, which is right for the bytes of printable characters.
\<close>

definition quote_char :: "char \<Rightarrow> string" where
  "quote_char c =
    (let v = (of_char c :: int)
     in if v = 34 \<or> v = 92 then [CHR 0x5C, c]
        else if v = 7 then [CHR 0x5C, CHR ''a''] else if v = 8 then [CHR 0x5C, CHR ''b'']
        else if v = 9 then [CHR 0x5C, CHR ''t''] else if v = 10 then [CHR 0x5C, CHR ''n'']
        else if v = 11 then [CHR 0x5C, CHR ''v''] else if v = 12 then [CHR 0x5C, CHR ''f'']
        else if v = 13 then [CHR 0x5C, CHR ''r'']
        else if v < 32 \<or> v = 127 then [CHR 0x5C, CHR ''x''] @ hex_byte v
        else [c])"

definition go_quote :: "string \<Rightarrow> string" where
  "go_quote s = [CHR 0x22] @ concat (map quote_char s) @ [CHR 0x22]"

definition nat_line :: "string \<Rightarrow> string" where
  "nat_line s = s @ [CHR 0x0A]"

definition tab_line :: "nat \<Rightarrow> string \<Rightarrow> string" where
  "tab_line n s = replicate n (CHR 0x09) @ nat_line s"

definition ruleset :: "Prefix \<Rightarrow> string \<Rightarrow> string" where
  "ruleset tunnelNet outIface =
    nat_line (''table inet '' @ natTable) @
    nat_line (''delete table inet '' @ natTable) @
    nat_line (''table inet '' @ natTable @ '' {'') @
    tab_line 1 ''chain postrouting {'' @
    tab_line 2 ''type nat hook postrouting priority srcnat; policy accept;'' @
    tab_line 2 (''oifname '' @ go_quote outIface @ '' ip saddr '' @ Prefix_String (Masked tunnelNet) @ '' masquerade'') @
    tab_line 1 ''}'' @
    tab_line 1 ''chain forward {'' @
    tab_line 2 ''type filter hook forward priority mangle; policy accept;'' @
    tab_line 2 ''tcp flags syn tcp option maxseg size set rt mtu'' @
    tab_line 1 ''}'' @
    nat_line ''}''"

text \<open>\<open>EnableNAT\<close> returns the call that its cleanup makes.\<close>

definition EnableNAT :: "Os \<Rightarrow> Prefix \<Rightarrow> string \<Rightarrow> (boot_error + OsCall) os" where
  "EnableNAT os tunnelNet outIface = do {
     err \<leftarrow> attempt os [(WriteFile ''/proc/sys/net/ipv4/ip_forward'' ''1'', ErrForward), (NftLoad (ruleset tunnelNet outIface), ErrNft)];
     State_Monad.return (case err of Some e \<Rightarrow> Inl e | None \<Rightarrow> Inr (NftDelete natTable))
   }"

definition EnableNAT_darwin :: "Os \<Rightarrow> Prefix \<Rightarrow> string \<Rightarrow> (boot_error + OsCall) os" where
  "EnableNAT_darwin os tunnelNet outIface = State_Monad.return (Inl ErrNATUnsupported)"

definition NATInstructions :: "Prefix \<Rightarrow> string \<Rightarrow> string" where
  "NATInstructions tunnelNet outIface =
    (let out = (if outIface = [] then ''<wan-interface>'' else outIface); q = [CHR 0x27]
     in nat_line ''sysctl -w net.ipv4.ip_forward=1'' @
        nat_line (''nft add table inet '' @ natTable) @
        nat_line (''nft '' @ q @ ''add chain inet '' @ natTable @
          '' postrouting { type nat hook postrouting priority srcnat; }'' @ q) @
        ''nft '' @ q @ ''add rule inet '' @ natTable @ '' postrouting oifname '' @ go_quote out @
          '' ip saddr '' @ Prefix_String (Masked tunnelNet) @ '' masquerade'' @ q)"

section \<open>Starting and stopping\<close>

text \<open>\<open>StartServer\<close>, with the cleanups it registers.\<close>

definition server_boot :: "Os \<Rightarrow> int \<Rightarrow> Server \<Rightarrow> (boot_error + ServerEng \<times> OsCall list) os" where
  "server_boot os now cfg = do {
     r \<leftarrow> tundev_Open os (ss_TunName (sv_Server cfg)) (ss_MTU (sv_Server cfg));
     case r of
       Inl err \<Rightarrow> State_Monad.return (Inl err)
     | Inr tun \<Rightarrow> do {
         err \<leftarrow> ConfigureTUN os tun (sv_TunnelAddr cfg) (ss_MTU (sv_Server cfg));
         case err of
           Some err \<Rightarrow> do { _ \<leftarrow> sys os CloseTUN; State_Monad.return (Inl err) }
         | None \<Rightarrow> do {
             err \<leftarrow> Listen os (ss_Listen (sv_Server cfg)) (sv_DSCPValue cfg);
             case err of
               Some err \<Rightarrow> do { _ \<leftarrow> sys os CloseTUN; State_Monad.return (Inl (ErrListen err)) }
             | None \<Rightarrow>
                 if ss_NATEnabled (sv_Server cfg) then do {
                   r \<leftarrow> EnableNAT os (sv_TunnelAddr cfg) (ss_NATOutInterface (sv_Server cfg));
                   case r of
                     Inl err \<Rightarrow> do { _ \<leftarrow> sys os CloseConn; _ \<leftarrow> sys os CloseTUN; State_Monad.return (Inl (ErrNAT err)) }
                   | Inr cleanup \<Rightarrow> State_Monad.return (Inr (StartServer now cfg, [cleanup]))
                 } else State_Monad.return (Inr (StartServer now cfg, []))
           }
       }
   }"

text \<open>\<open>StartClient\<close>; the inner \<open>None\<close> is a panic while the first links are set up.\<close>

definition client_boot ::
  "Os \<Rightarrow> (string \<Rightarrow> string \<Rightarrow> AddrPort option) \<Rightarrow> Env \<Rightarrow> Platform \<Rightarrow> int \<Rightarrow> Client \<Rightarrow> (boot_error + ClientEng option) os" where
  "client_boot os resolve env pf nowUs cfg =
    (case Resolve resolve (cs_Server (cl_Client cfg)) of
       Inl _ \<Rightarrow> State_Monad.return (Inl ErrResolveServer)
     | Inr serverAddr \<Rightarrow> do {
         r \<leftarrow> tundev_Open os (cs_TunName (cl_Client cfg)) (cs_MTU (cl_Client cfg));
         case r of
           Inl err \<Rightarrow> State_Monad.return (Inl err)
         | Inr tun \<Rightarrow> do {
             err \<leftarrow> ConfigureTUN os tun (cl_TunnelAddr cfg) (cs_MTU (cl_Client cfg));
             case err of
               Some err \<Rightarrow> do { _ \<leftarrow> sys os CloseTUN; State_Monad.return (Inl err) }
             | None \<Rightarrow> do {
                 err \<leftarrow> AddRoutes os tun (cl_RoutePrefix cfg);
                 case err of
                   Some err \<Rightarrow> do { _ \<leftarrow> sys os CloseTUN; State_Monad.return (Inl err) }
                 | None \<Rightarrow> State_Monad.return (Inr (StartClient env pf nowUs serverAddr tun cfg))
               }
           }
       })"

text \<open>What \<open>Stop\<close> closes: the device, the listening socket of the server, then the cleanups in reverse.\<close>

fun run_cleanups :: "Os \<Rightarrow> OsCall list \<Rightarrow> unit os" where
  "run_cleanups os [] = State_Monad.return ()"
| "run_cleanups os (c # cs) = do { _ \<leftarrow> sys os c; run_cleanups os cs }"

definition server_Stop :: "Os \<Rightarrow> OsCall list \<Rightarrow> unit os" where
  "server_Stop os cleanups = do { _ \<leftarrow> sys os CloseTUN; _ \<leftarrow> sys os CloseConn; run_cleanups os (rev cleanups) }"

definition client_Stop :: "Os \<Rightarrow> Env \<Rightarrow> int \<Rightarrow> ClientEng \<Rightarrow> ClientEng option os" where
  "client_Stop os env nowUs e =
    (case sendCloseAll env nowUs (ce_sess e) of
       None \<Rightarrow> State_Monad.return None
     | Some s \<Rightarrow> do { _ \<leftarrow> sys os CloseTUN; State_Monad.return (Some (e\<lparr>ce_sess := closeConns s\<rparr>)) })"

section \<open>What a daemon holds\<close>

text \<open>
  What the calls of a log have acquired and not released. Addresses and routes of the TUN
  device disappear with it; a socket that could not be bound is released by \<open>CloseConn\<close> too;
  loading the ruleset is atomic. Nothing switches forwarding off again.
\<close>

datatype resource = TunDevice | UdpSocket | NatTable | IpForward

fun acquired :: "bool \<Rightarrow> OsCall \<Rightarrow> resource set \<Rightarrow> resource set" where
  "acquired ok (CreateTUN n m) S = (if ok then insert TunDevice S else S)"
| "acquired ok CloseTUN S = S - {TunDevice}"
| "acquired ok (OpenSocket a) S = (if ok then insert UdpSocket S else S)"
| "acquired ok CloseConn S = S - {UdpSocket}"
| "acquired ok (NftLoad r) S = (if ok then insert NatTable S else S)"
| "acquired ok (NftDelete t) S = (if ok then S - {NatTable} else S)"
| "acquired ok (WriteFile f c) S = (if ok then insert IpForward S else S)"
| "acquired ok c S = S"

fun held_rev :: "Os \<Rightarrow> OsCall list \<Rightarrow> resource set" where
  "held_rev os [] = {}"
| "held_rev os (c # rlog) = acquired (os_ok os (rev rlog) c) c (held_rev os rlog)"

definition held :: "Os \<Rightarrow> OsCall list \<Rightarrow> resource set" where
  "held os lg = held_rev os (rev lg)"

definition neutral :: "OsCall \<Rightarrow> bool" where
  "neutral c \<longleftrightarrow> (\<forall>ok S. acquired ok c S = S)"

lemma held_Nil [simp]: "held os [] = {}"
  by (simp add: held_def)

fun held_from :: "Os \<Rightarrow> OsCall list \<Rightarrow> resource set \<Rightarrow> OsCall list \<Rightarrow> resource set" where
  "held_from os lg S [] = S"
| "held_from os lg S (c # cs) = held_from os (lg @ [c]) (acquired (os_ok os lg c) c S) cs"

lemma held_snoc: "held os (lg @ [c]) = acquired (os_ok os lg c) c (held os lg)"
  by (simp add: held_def)

lemma held_append [simp]: "held os (lg @ c # cs) = held_from os lg (held os lg) (c # cs)"
proof -
  have "held os (lg @ cs) = held_from os lg (held os lg) cs" for lg cs
  proof (induction cs arbitrary: lg)
    case (Cons c cs)
    show ?case using Cons.IH [of "lg @ [c]"] held_snoc [of os lg c] by simp
  qed simp
  then show ?thesis .
qed

lemma run_sys [simp]: "run_state (sys os c) lg = (os_ok os lg c, lg @ [c])"
  by (simp add: sys_def)

lemma neutral_calls [simp]:
  "neutral (LinkByName n)" "neutral (NlParseAddr a)" "neutral (AddrAdd n a)" "neutral (LinkSetMTU n m)" "neutral (LinkSetUp n)"
  "neutral (RouteAdd n p)" "neutral RawControl" "neutral (SetsockoptInt opt v)" "neutral (BindSocket a)"
  by (simp_all add: neutral_def)

lemma neutral_held: "neutral c \<Longrightarrow> held os (lg @ [c]) = held os lg"
  by (simp add: neutral_def)

text \<open>A sequence of calls that acquire nothing.\<close>

definition harmless :: "Os \<Rightarrow> 'a os \<Rightarrow> bool" where
  "harmless os m \<longleftrightarrow> (\<forall>lg r lg'. run_state m lg = (r, lg') \<longrightarrow> held os lg' = held os lg)"

lemma harmlessD: "harmless os m \<Longrightarrow> run_state m lg = (r, lg') \<Longrightarrow> held os lg' = held os lg"
  by (simp add: harmless_def)

lemma harmless_return: "harmless os (State_Monad.return x)"
  by (simp add: harmless_def)

lemma harmless_sys: "neutral c \<Longrightarrow> harmless os (sys os c)"
  by (simp add: harmless_def neutral_def)

lemma harmless_bind: "harmless os m \<Longrightarrow> (\<And>x. harmless os (f x)) \<Longrightarrow> harmless os (State_Monad.bind m f)"
  unfolding harmless_def by (fastforce split: prod.splits)

lemma harmless_attempt: "\<forall>c \<in> set cs. neutral (fst c) \<Longrightarrow> harmless os (attempt os cs)"
proof (induction cs)
  case (Cons x cs)
  then show ?case by (cases x) (auto intro!: harmless_bind harmless_sys simp: harmless_return)
qed (simp add: harmless_return)

lemma harmless_best_effort: "harmless os (best_effort os opts)"
proof -
  have "harmless os m \<Longrightarrow> harmless os (fold (\<lambda>(opt, v) m. do { _ \<leftarrow> m; _ \<leftarrow> sys os (SetsockoptInt opt v); State_Monad.return None }) opts m)"
    for m :: "boot_error option os"
  proof (induction opts arbitrary: m)
    case (Cons x opts)
    have "harmless os (do { _ \<leftarrow> m; _ \<leftarrow> sys os (SetsockoptInt (fst x) (snd x)); State_Monad.return None })"
      by (intro harmless_bind harmless_return harmless_sys Cons.prems) simp
    then show ?case using Cons.IH by (simp add: case_prod_beta)
  qed simp
  then show ?thesis unfolding best_effort_def
    by (intro harmless_bind harmless_sys) (simp_all add: harmless_return)
qed

lemma harmless_setup:
  "harmless os (ConfigureTUN os n a m)" "harmless os (AddRoutes os n rs)" "harmless os (setDontFragment os)" "harmless os (setDSCP os v)"
proof -
  show "harmless os (ConfigureTUN os n a m)" unfolding ConfigureTUN_def by (rule harmless_attempt) simp
  show "harmless os (AddRoutes os n rs)" unfolding AddRoutes_def by (rule harmless_attempt) auto
  show "harmless os (setDontFragment os)" "harmless os (setDSCP os v)"
    by (simp_all add: setDontFragment_def setDSCP_def Let_def harmless_best_effort harmless_return)
qed

lemma tundev_Open_held:
  assumes "run_state (tundev_Open os n m) lg = (r, lg')" "TunDevice \<notin> held os lg"
  shows "r = Inr t \<Longrightarrow> held os lg' = insert TunDevice (held os lg) \<and> t = os_tunName os"
    and "r = Inl err \<Longrightarrow> held os lg' = held os lg"
  using assms by (auto simp: tundev_Open_def split: if_splits)

lemma Listen_held:
  assumes "run_state (Listen os a v) lg = (r, lg')" "UdpSocket \<notin> held os lg"
  shows "held os lg' = (if r = None then insert UdpSocket (held os lg) else held os lg)"
proof (cases "os_ok os lg (OpenSocket a)")
  case True
  let ?m = "listen_control os v"
  have h: "harmless os ?m" unfolding listen_control_def
    by (intro harmless_bind harmless_setup) (simp add: harmless_setup harmless_return split: option.split)
  obtain e1 l1 where 1: "run_state ?m (lg @ [OpenSocket a]) = (e1, l1)" by fastforce
  let ?b = "case e1 of None \<Rightarrow> attempt os [(BindSocket a, ErrSockBind)] | Some _ \<Rightarrow> State_Monad.return e1"
  have h': "harmless os ?b" by (cases e1) (auto intro!: harmless_bind harmless_sys simp: harmless_return)
  obtain e2 l2 where 2: "run_state ?b l1 = (e2, l2)" by fastforce
  have "held os l2 = insert UdpSocket (held os lg)"
    using harmlessD [OF h 1] harmlessD [OF h' 2] True by simp
  moreover have "(r, lg') = (e2, if e2 = None then l2 else l2 @ [CloseConn])"
    using assms(1) True 1 2 by (auto simp: Listen_def split: option.splits)
  ultimately show ?thesis using assms(2) by auto
qed (use assms in \<open>auto simp: Listen_def\<close>)

lemma EnableNAT_held:
  assumes "run_state (EnableNAT os p out) lg = (r, lg')"
  shows "r = Inr c \<Longrightarrow> c = NftDelete natTable \<and> held os lg' = {NatTable, IpForward} \<union> held os lg"
    and "r = Inl err \<Longrightarrow> held os lg \<subseteq> held os lg' \<and> held os lg' \<subseteq> insert IpForward (held os lg)"
  using assms by (auto simp: EnableNAT_def split: if_splits)

lemma attempt_log: "run_state (attempt os cs) lg = (None, lg') \<Longrightarrow> lg' = lg @ map fst cs"
proof (induction cs arbitrary: lg)
  case (Cons x cs)
  then show ?case using Cons.IH [of "lg @ [fst x]"] by (cases x) (auto split: if_splits)
qed simp



lemma client_Stop_releases:
  assumes "run_state (client_Stop os env nowUs e) lg = (Some e', lg')"
  shows "lg' = lg @ [CloseTUN]" "i < MaxPaths \<Longrightarrow> se_conns (ce_sess e') i = None"
proof -
  obtain s where s: "sendCloseAll env nowUs (ce_sess e) = Some s"
    using assms by (cases "sendCloseAll env nowUs (ce_sess e)") (simp_all add: client_Stop_def)
  then have "e' = e\<lparr>ce_sess := closeConns s\<rparr>" "lg' = lg @ [CloseTUN]" using assms by (simp_all add: client_Stop_def)
  then show "lg' = lg @ [CloseTUN]" "i < MaxPaths \<Longrightarrow> se_conns (ce_sess e') i = None" by (simp_all add: closeConns_def)
qed



text \<open>
  How the listening socket is marked: both families probe the path MTU, and a code point from
  1 to 63 becomes the upper six bits of the byte that IPv4 and IPv6 carry; 0 changes nothing.
\<close>

theorem Listen_options:
  assumes "run_state (Listen os a dscp) lg = (None, lg')"
  shows "lg' = lg @ [OpenSocket a, RawControl, SetsockoptInt IP_MTU_DISCOVER 3, SetsockoptInt IPV6_MTU_DISCOVER 3] @
    (if dscp \<le> 0 then [] else [RawControl, SetsockoptInt IP_TOS (4 * dscp), SetsockoptInt IPV6_TCLASS (4 * dscp)]) @ [BindSocket a]"
  using assms
  by (auto simp: Listen_def listen_control_def setDontFragment_def setDSCP_def best_effort_def Let_def push_bit_eq_mult
      split: if_splits)

theorem splitDefaults_platforms: "splitDefaultsDarwin ps = splitDefaults ps"
  by (induction ps) simp_all

end
