(* ===== verification/Supervisor.thy ===== *)
theory Supervisor
  imports Epochs_Correct
begin

text \<open>
  The goroutines of the client that wait: \<open>clientSupervisor\<close> with \<open>runHandshake\<close> and
  \<open>handshakeOnce\<close>, and \<open>linkManager\<close> (\<open>client.go\<close>). A goroutine is a state machine with one
  phase per point where it blocks; one step runs it from one blocking point to the next. The
  case that a \<open>select\<close> takes is an input of the step, admitted only when that case is ready,
  and so are the clock and the random bytes. Tickers are modelled by the time of their next
  tick (their channel holds one tick, further ones are dropped), one-shot timers by the time
  they are due.
\<close>

section \<open>The supervisor\<close>

definition second :: int where [simp]: "second = 1000000000"
definition handshakeTimeout :: int where [simp]: "handshakeTimeout = 2 * second"

text \<open>
  \<open>Attempting n b\<close> is the head of the loop of \<open>runHandshake\<close> at attempt \<open>n\<close> with backoff \<open>b\<close>;
  \<open>Awaiting n b t rxID ch\<close> the wait of \<open>handshakeOnce\<close> for the response, until \<open>t\<close>;
  \<open>BackingOff n b t\<close> the pause after a failed attempt; \<open>Pausing t\<close> the pause of
  \<open>clientSupervisor\<close> after \<open>runHandshake\<close> returned an error; \<open>Established\<close> its wait for
  a reason to rekey; \<open>Returned\<close> the end of the goroutine.
\<close>

datatype 'hs sup_phase =
    Attempting nat int
  | Awaiting nat int int u32 "'hs ClientHandshake"
  | BackingOff nat int int
  | Pausing int
  | Established
  | Returned

record 'hs Supervisor =
  su_phase :: "'hs sup_phase"
  su_stop :: bool
  su_rekeyAt :: int

datatype sup_event = GoOn | OnStop | OnTimer | OnResponse | OnTick | OnRekey

record SupIn =
  si_event :: sup_event
  si_env :: Env
  si_now :: int
  si_nowUs :: int
  si_rands :: "bytes list"
  si_seed :: "bytes option"
  si_rnd :: bytes
  si_ts :: u64

text \<open>\<open>time.NewTicker(d)\<close> panics unless \<open>d\<close> is positive.\<close>

definition NewTicker :: "int \<Rightarrow> int \<Rightarrow> int option" where
  "NewTicker d now = (if d \<le> 0 then None else Some (now + d))"

text \<open>A tick due at \<open>t\<close> is received at \<open>now\<close>; the ticks in between were dropped.\<close>

definition next_tick :: "int \<Rightarrow> int \<Rightarrow> int \<Rightarrow> int" where
  "next_tick d t now = t + d * ((now - t) div d + 1)"

definition clientSupervisor :: "int \<Rightarrow> ClientEng \<Rightarrow> 'hs Supervisor option" where
  "clientSupervisor now e =
    map_option (\<lambda>t. \<lparr>su_phase = Attempting 1 second, su_stop = False, su_rekeyAt = t\<rparr>)
      (NewTicker (RekeyInterval (en_tuning (se_eng (ce_sess e)))) now)"

text \<open>Which case of the select at a blocking point can be taken.\<close>

definition sup_ready :: "SupIn \<Rightarrow> 'hs Supervisor \<Rightarrow> ClientEng \<Rightarrow> bool" where
  "sup_ready i su e =
    (let ev = si_event i; now = si_now i; stop = (ev = OnStop \<and> su_stop su)
     in case su_phase su of
          Attempting n b \<Rightarrow> ev = GoOn
        | Awaiting n b t rxID ch \<Rightarrow>
            stop \<or> ev = OnTimer \<and> t \<le> now \<or> ev = OnResponse \<and> ce_hsRespCh e \<noteq> []
        | BackingOff n b t \<Rightarrow> stop \<or> ev = OnTimer \<and> t \<le> now
        | Pausing t \<Rightarrow> stop \<or> ev = OnTimer \<and> t \<le> now
        | Established \<Rightarrow>
            stop \<or> ev = OnTick \<and> su_rekeyAt su \<le> now \<or> ev = OnRekey \<and> en_rekeyNow (se_eng (ce_sess e))
        | Returned \<Rightarrow> False)"

definition goto :: "'hs sup_phase \<Rightarrow> 'hs Supervisor \<Rightarrow> 'hs Supervisor" where
  "goto p su = su\<lparr>su_phase := p\<rparr>"

text \<open>Taking the request to rekey out of its channel.\<close>

definition clear_rekey :: "ClientEng \<Rightarrow> ClientEng" where
  "clear_rekey e = e\<lparr>ce_sess := (ce_sess e)\<lparr>se_eng := (se_eng (ce_sess e))\<lparr>en_rekeyNow := False\<rparr>\<rparr>\<rparr>"

text \<open>The head of the loop of \<open>runHandshake\<close>, and \<open>handshakeOnce\<close> up to its wait.\<close>

definition run_attempt ::
  "'hs Noise \<Rightarrow> SupIn \<Rightarrow> nat \<Rightarrow> int \<Rightarrow> 'hs Supervisor \<times> ClientEng \<Rightarrow> 'hs Supervisor \<times> ClientEng" where
  "run_attempt ns i n b = (\<lambda>(su, e).
    if su_stop su then (goto (Pausing (si_now i + second)) su, e)
    else case hs_start ns (si_env i) (si_rands i) (si_seed i) (si_rnd i) (si_ts i) e of
        None \<Rightarrow> (goto (BackingOff n b (si_now i + b)) su, e)
      | Some (rxID, ch, e) \<Rightarrow> (goto (Awaiting n b (si_now i + handshakeTimeout) rxID ch) su, e))"

text \<open>A response taken from the channel by \<open>handshakeOnce\<close>; \<open>None\<close> is a panic.\<close>

definition take_response ::
  "Crypto \<Rightarrow> 'hs Noise \<Rightarrow> SupIn \<Rightarrow> nat \<Rightarrow> int \<Rightarrow> u32 \<Rightarrow> 'hs ClientHandshake \<Rightarrow> 'hs Supervisor \<times> ClientEng \<Rightarrow>
    ('hs Supervisor \<times> ClientEng) option" where
  "take_response c ns i n b rxID ch = (\<lambda>(su, e).
    case ce_hsRespCh e of
      [] \<Rightarrow> Some (su, e)
    | resp # rest \<Rightarrow>
        let e = e\<lparr>ce_hsRespCh := rest\<rparr>
        in case hs_response c ns (si_env i) (si_now i) (si_nowUs i) rxID ch resp (ce_sess e) of
             None \<Rightarrow> None
           | Some (Inl None) \<Rightarrow> Some (su, e)
           | Some (Inl (Some err)) \<Rightarrow> Some (goto (BackingOff n b (si_now i + b)) su, e)
           | Some (Inr s) \<Rightarrow> Some (goto Established su, e\<lparr>ce_sess := s\<rparr>))"

definition first_attempt :: "'hs sup_phase" where
  "first_attempt = Attempting 1 second"

definition sup_step ::
  "Crypto \<Rightarrow> 'hs Noise \<Rightarrow> SupIn \<Rightarrow> 'hs Supervisor \<times> ClientEng \<Rightarrow> ('hs Supervisor \<times> ClientEng) option" where
  "sup_step c ns i = (\<lambda>(su, e).
    let ev = si_event i; now = si_now i
    in case su_phase su of
         Attempting n b \<Rightarrow> Some (run_attempt ns i n b (su, e))
       | Awaiting n b t rxID ch \<Rightarrow>
           if ev = OnResponse then take_response c ns i n b rxID ch (su, e)
           else Some (goto (BackingOff n b (now + b)) su, e)
       | BackingOff n b t \<Rightarrow>
           if ev = OnStop then Some (goto (Pausing (now + second)) su, e)
           else Some (goto (Attempting (n + 1) (next_backoff b)) su, e)
       | Pausing t \<Rightarrow> Some (goto (if ev = OnStop then Returned else first_attempt) su, e)
       | Established \<Rightarrow>
           if ev = OnStop then Some (goto Returned su, e)
           else if ev = OnTick then
             Some (goto first_attempt
               (su\<lparr>su_rekeyAt := next_tick (RekeyInterval (en_tuning (se_eng (ce_sess e)))) (su_rekeyAt su) now\<rparr>), e)
           else Some (goto first_attempt su, clear_rekey e)
       | Returned \<Rightarrow> Some (su, e))"

text \<open>
  The supervisor among the other goroutines of the client: its own steps, every step of the
  engine, and \<open>Stop\<close>, which closes the channel the loops watch.
\<close>

inductive supervised ::
  "Crypto \<Rightarrow> 'hs Noise \<Rightarrow> 'hs Supervisor \<times> ClientEng \<Rightarrow> 'hs Supervisor \<times> ClientEng \<Rightarrow> bool"
  for c :: Crypto and ns :: "'hs Noise" where
  own: "sup_ready i su e \<Longrightarrow> sup_step c ns i (su, e) = Some st \<Longrightarrow> supervised c ns (su, e) st"
| other: "client_step c ns e e' \<Longrightarrow> supervised c ns (su, e) (su, e')"
| closed: "Engine_Stop env nowUs e = Some e' \<Longrightarrow> supervised c ns (su, e) (su\<lparr>su_stop := True\<rparr>, e')"

section \<open>What every interleaving keeps\<close>

text \<open>The pause after attempt \<open>n\<close>: one second doubled each time, at most five.\<close>

definition backoff_of :: "nat \<Rightarrow> int" where
  "backoff_of n = min (5 * second) (second * 2 ^ (n - 1))"

fun phase_ok :: "'hs sup_phase \<Rightarrow> bool" where
  "phase_ok (Attempting n b) \<longleftrightarrow> 0 < n \<and> b = backoff_of n"
| "phase_ok (Awaiting n b t rxID ch) \<longleftrightarrow> 0 < n \<and> b = backoff_of n \<and> ch_rxID ch = rxID"
| "phase_ok (BackingOff n b t) \<longleftrightarrow> 0 < n \<and> b = backoff_of n"
| "phase_ok p \<longleftrightarrow> True"

definition sup_inv :: "'hs Supervisor \<times> ClientEng \<Rightarrow> bool" where
  "sup_inv = (\<lambda>(su, e). phase_ok (su_phase su) \<and> agrees (ce_sess e) \<and> client_epochs (ce_sess e) \<and>
    length (ce_hsRespCh e) \<le> hsRespCap \<and> (su_phase su = Established \<longrightarrow> se_txEpoch (ce_sess e) \<noteq> None))"

lemma backoff_of_Suc: "0 < n \<Longrightarrow> next_backoff (backoff_of n) = backoff_of (Suc n)"
  by (cases n) (auto simp: next_backoff_def backoff_of_def Let_def min_def)

lemma backoff_of_1: "backoff_of (Suc 0) = second"
  by (simp add: backoff_of_def)

lemma goto_simps [simp]: "su_phase (goto p su) = p" "su_stop (goto p su) = su_stop su" "su_rekeyAt (goto p su) = su_rekeyAt su"
  by (simp_all add: goto_def)

lemma clear_rekey_simps [simp]:
  "epview (ce_sess (clear_rekey e)) = epview (ce_sess e)" "agrees (ce_sess (clear_rekey e)) = agrees (ce_sess e)"
  "ce_hsRespCh (clear_rekey e) = ce_hsRespCh e" "se_sent (ce_sess (clear_rekey e)) = se_sent (ce_sess e)"
  by (simp_all add: clear_rekey_def agrees_def)

lemma want_links_resp: "want_links env pf nowUs byIf ws e = Some e' \<Longrightarrow> ce_hsRespCh e' = ce_hsRespCh e"
proof (induction ws arbitrary: e)
  case (Cons w ws)
  from Cons.prems obtain e1 where 1: "want_link env pf nowUs byIf w e = Some e1" "want_links env pf nowUs byIf ws e1 = Some e'"
    by (auto simp: bind_eq_Some_conv)
  have "ce_hsRespCh e1 = ce_hsRespCh e" using 1(1)
    by (auto simp: want_link_def Let_def bind_eq_Some_conv split: prod.splits option.splits if_splits)
  then show ?case using Cons.IH [OF 1(2)] by simp
qed simp

lemma setupLinks_resp: "setupLinks env pf nowUs e = Some e' \<Longrightarrow> ce_hsRespCh e' = ce_hsRespCh e"
  by (auto simp: setupLinks_def Let_def bind_eq_Some_conv simp del: MaxPaths_def dest!: want_links_resp)

lemma hs_start_facts:
  assumes "hs_start ns env rands seed rnd ts e = Some (rxID, ch, e')"
  shows "ce_hsRespCh e' = ce_hsRespCh e" "ch_rxID ch = rxID"
  using assms by (auto simp: hs_start_def bind_eq_Some_conv Let_def NewClientHandshake_def InitMessage_def
      split: if_splits option.splits prod.splits)

lemma client_step_resp: "client_step c ns e e' \<Longrightarrow> length (ce_hsRespCh e) \<le> hsRespCap \<Longrightarrow> length (ce_hsRespCh e') \<le> hsRespCap"
proof (induction rule: client_step.induct)
  case (tun env now ip e e')
  then show ?case by (auto simp: client_tun_packet_def bind_eq_Some_conv split: if_splits)
next
  case (datagram env now nowUs d e e')
  then show ?case by (auto simp: path_datagram_def bind_eq_Some_conv split: if_splits sum.splits option.splits)
next
  case (init env rands seed rnd ts e rxID ch e')
  then show ?case using hs_start_facts(1) by fastforce
next
  case (links env pf nowUs e e')
  then show ?case using setupLinks_resp by fastforce
next
  case (add env pf nowUs ifname mbps e e')
  then show ?case by (auto simp: AddLink_def split: if_splits dest!: setupLinks_resp)
next
  case (remove ifname e e')
  then show ?case by (auto simp: RemoveLink_def Let_def bind_eq_Some_conv simp del: MaxPaths_def split: if_splits option.splits)
next
  case (mode m e e')
  then show ?case by (auto simp: Engine_SetMode_def Let_def split: if_splits prod.splits)
next
  case (stop env nowUs e e')
  then show ?case by (auto simp: Engine_Stop_def bind_eq_Some_conv)
qed simp_all

lemma hs_response_tx:
  assumes "hs_response c ns env now nowUs rxID ch resp s = Some (Inr s')" "client_epochs s"
  shows "se_txEpoch s' \<noteq> None"
proof -
  obtain epoch s1 where v: "epview s' = epview s1"
    and r: "registerEpoch now (length (se_heap s)) True (s\<lparr>se_heap := se_heap s @ [epoch]\<rparr>) = Some s1"
    by (rule hs_response_facts [OF assms])
  have "se_txEpoch s1 = Some (length (se_heap s))" using r
    by (auto simp: registerEpoch_def bind_eq_Some_conv Let_def)
  then show ?thesis using rxview_eqD(2) [OF rx_of [OF v]] by simp
qed

lemma client_step_tx:
  assumes "client_step c ns e e'" "client_epochs (ce_sess e)" "se_txEpoch (ce_sess e) \<noteq> None"
  shows "se_txEpoch (ce_sess e') \<noteq> None"
proof -
  have keep: "se_txEpoch t \<noteq> None" if "rxview t = rxview (ce_sess e)" for t
    using assms(3) rxview_eqD(2) [OF that] by simp
  have keep': "se_txEpoch t \<noteq> None" if "epview t = epview (ce_sess e)" for t
    using keep rx_of [OF that] by blast
  from assms(1) show ?thesis using assms(2)
  proof cases
    case (tun env now ip)
    then show ?thesis using keep' epview_sendData
      by (auto simp: client_tun_packet_def bind_eq_Some_conv split: if_splits)
  next
    case (datagram env now nowUs d)
    then have "rxview (ce_sess e') = rxview (ce_sess e)" using handleDatagram_settled assms(2)
      by (auto simp: path_datagram_def bind_eq_Some_conv client_epochs_def split: if_splits sum.splits option.splits)
    then show ?thesis by (rule keep)
  next
    case (init env rands seed rnd ts rxID ch)
    then show ?thesis using keep' hs_start_epview by blast
  next
    case (response r rs env now nowUs rxID ch s)
    then show ?thesis using hs_response_tx assms(2) by simp
  next
    case (links env pf nowUs)
    then show ?thesis using keep' epview_setupLinks by blast
  next
    case (add env pf nowUs ifname mbps)
    then show ?thesis using keep' epview_control by blast
  next
    case (remove ifname)
    then show ?thesis using keep' epview_control by blast
  next
    case (mode m)
    then show ?thesis using keep' epview_control by blast
  next
    case (flush env now s)
    then show ?thesis using keep' [of s] epview_flusher_tick by fastforce
  next
    case (probe env now nowUs v ids v' s)
    obtain s1 where "epview s1 = epview (ce_sess e)" "(ids, s) = pruneEpochs now s1 \<or> ids = [] \<and> s = s1"
      by (rule prober_tick_epochs [OF probe(2)])
    then show ?thesis using keep' [of s1] probe(1) by (auto simp: pruneEpochs_def)
  next
    case (stop env nowUs)
    then have "epview (ce_sess e') = epview (ce_sess e)"
      by (auto simp: Engine_Stop_def closeConns_def bind_eq_Some_conv dest!: sendCloseAll_quiet epview_quiet)
    then show ?thesis by (rule keep')
  qed (use assms(3) in simp)
qed

text \<open>An own step of the supervisor is a step of the engine, or changes the request to rekey only.\<close>

lemma sup_step_engine:
  assumes "sup_step c ns i (su, e) = Some (su', e')"
  shows "e' = e \<or> e' = clear_rekey e \<or> client_step c ns e e'"
proof (cases "su_phase su")
  case (Attempting n b)
  then show ?thesis using assms client_step.init [of ns _ _ _ _ _ e _ _ _ c]
    by (auto simp: sup_step_def Let_def run_attempt_def split: if_splits option.splits prod.splits)
next
  case (Awaiting n b t rxID ch)
  then show ?thesis using assms client_step.response [of e _ _ c ns] client_step.stale [of e _ _ c ns]
    by (auto simp: sup_step_def Let_def take_response_def split: if_splits option.splits prod.splits list.splits sum.splits)
qed (use assms in \<open>auto simp: sup_step_def Let_def split: if_splits\<close>)

lemma sup_step_phase:
  assumes "sup_step c ns i (su, e) = Some (su', e')" "phase_ok (su_phase su)"
  shows "phase_ok (su_phase su')"
proof (cases "su_phase su")
  case (Attempting n b)
  then show ?thesis using assms hs_start_facts(2)
    by (auto simp: sup_step_def Let_def run_attempt_def split: if_splits option.splits prod.splits)
next
  case (Awaiting n b t rxID ch)
  then show ?thesis using assms
    by (auto simp: sup_step_def Let_def take_response_def split: if_splits option.splits prod.splits list.splits sum.splits)
next
  case (BackingOff n b t)
  then show ?thesis using assms by (auto simp: sup_step_def Let_def backoff_of_Suc split: if_splits)
qed (use assms in \<open>auto simp: sup_step_def Let_def first_attempt_def backoff_of_1 split: if_splits\<close>)

lemma sup_step_established:
  assumes "sup_step c ns i (su, e) = Some (su', e')" "su_phase su' = Established" "client_epochs (ce_sess e)"
    and "sup_ready i su e"
  shows "se_txEpoch (ce_sess e') \<noteq> None"
proof (cases "su_phase su")
  case (Attempting n b)
  then show ?thesis using assms(1,2)
    by (auto simp: sup_step_def Let_def run_attempt_def split: if_splits option.splits prod.splits)
next
  case (Awaiting n b t rxID ch)
  then show ?thesis using assms hs_response_tx
    by (auto simp: sup_step_def Let_def take_response_def split: if_splits option.splits prod.splits list.splits sum.splits)
qed (use assms in \<open>auto simp: sup_step_def Let_def first_attempt_def sup_ready_def split: if_splits\<close>)

lemma engine_kept:
  assumes "e' = e \<or> e' = clear_rekey e \<or> client_step c ns e e'"
    and "agrees (ce_sess e)" "client_epochs (ce_sess e)" "length (ce_hsRespCh e) \<le> hsRespCap"
  shows "agrees (ce_sess e') \<and> client_epochs (ce_sess e') \<and> length (ce_hsRespCh e') \<le> hsRespCap"
  using assms(1)
proof (elim disjE)
  assume "e' = clear_rekey e"
  then show ?thesis using assms(2-4) client_epochs_frame [OF assms(3) clear_rekey_simps(1)] by simp
next
  assume "client_step c ns e e'"
  then show ?thesis using assms(2-4) client_step_agrees client_step_epochs client_step_resp by blast
qed (use assms(2-4) in simp)

lemma supervised_inv: "supervised c ns st st' \<Longrightarrow> sup_inv st \<Longrightarrow> sup_inv st'"
proof (induction rule: supervised.induct)
  case (own i su e st)
  obtain su' e' where st: "st = (su', e')" by (cases st)
  show ?case using own engine_kept [OF sup_step_engine [OF own(2) [unfolded st]]] sup_step_phase [OF own(2) [unfolded st]]
      sup_step_established [OF own(2) [unfolded st] _ _ own(1)]
    by (auto simp: sup_inv_def st)
next
  case (other e e' su)
  then show ?case using engine_kept [of e' e c ns] client_step_tx [OF other(1)] by (auto simp: sup_inv_def)
next
  case (closed env nowUs e e' su)
  have s: "client_step c ns e e'" by (rule client_step.stop [OF closed(1)])
  show ?case using closed(2) engine_kept [of e' e c ns] client_step_tx [OF s] s by (auto simp: sup_inv_def)
qed

lemma started_inv:
  assumes "StartClient env pf nowUs srv tunName cfg = Some e" "clientSupervisor now e = Some su"
  shows "sup_inv (su, e)"
proof -
  have "ce_hsRespCh e = []" using assms(1) by (auto simp: StartClient_def bind_eq_Some_conv Let_def dest!: setupLinks_resp)
  then show ?thesis using assms(2) StartClient_agrees [OF assms(1)] StartClient_epochs [OF assms(1)]
    by (auto simp: sup_inv_def clientSupervisor_def backoff_of_1)
qed

interpretation supervision: machine "supervised c ns" sup_inv for c ns
  by unfold_locales (rule supervised_inv)


text \<open>A client without any link, whose first attempt fails.\<close>

definition linkless :: Platform where
  "linkless = sample_platform\<lparr>pf_dial := (\<lambda>_. None)\<rparr>"

definition rekeying_client :: Client where
  "rekeying_client = sample_client\<lparr>cl_Tuning := (cl_Tuning sample_client)\<lparr>tu_RekeySeconds := 120\<rparr>\<rparr>"

definition sup_in :: "sup_event \<Rightarrow> int \<Rightarrow> SupIn" where
  "sup_in ev now = \<lparr>si_event = ev, si_env = sample_env, si_now = now, si_nowUs = 0, si_rands = [[7, 0, 0, 0]],
    si_seed = Some (replicate 32 5), si_rnd = [], si_ts = 1000\<rparr>"

lemma sup_in_simps [simp]: "si_event (sup_in ev now) = ev" "si_now (sup_in ev now) = now"
  by (simp_all add: sup_in_def)

lemma sample_supervisor:
  obtains e and su :: "(bytes \<times> bytes \<times> bytes) Supervisor"
  where "StartClient sample_env linkless 1 (IP4 0x01020304, 443) ''tun0'' rekeying_client = Some e"
    "clientSupervisor 0 e = Some su" "su = \<lparr>su_phase = Attempting 1 second, su_stop = False, su_rekeyAt = 120 * second\<rparr>"
    "hs_start plain_noise env rands seed rnd ts e = None"
proof -
  obtain e where e: "StartClient sample_env linkless 1 (IP4 0x01020304, 443) ''tun0'' rekeying_client = Some e"
    "se_paths (ce_sess e) = (\<lambda>_. None)" "tu_RekeySeconds (en_tuning (se_eng (ce_sess e))) = 120"
    by (simp add: linkless_def rekeying_client_def StartClient_def setupLinks_def desiredLinks_def sample_client_def
        sample_platform_def Let_def newSession_def paths_by_if_def want_link_def upt_rec)
  have none: "concat (map (\<lambda>i. [] :: (Path \<times> nat) list) xs) = []" for xs :: "nat list" by (induction xs) simp_all
  have "hs_start plain_noise env rands seed rnd ts e = None"
    using e(2) by (simp add: hs_start_def pickHandshakePath_def Let_def none)
  moreover have "clientSupervisor 0 e = Some \<lparr>su_phase = Attempting 1 second, su_stop = False, su_rekeyAt = 120 * second\<rparr>"
    using e(3) by (simp add: clientSupervisor_def NewTicker_def RekeyInterval_def wrap_int64_id)
  ultimately show ?thesis using that e(1) by blast
qed


section \<open>Stopping\<close>

text \<open>A run of the supervisor alone; \<open>None\<close> when a step is not ready or panics.\<close>

fun sup_run ::
  "Crypto \<Rightarrow> 'hs Noise \<Rightarrow> SupIn list \<Rightarrow> 'hs Supervisor \<times> ClientEng \<Rightarrow> ('hs Supervisor \<times> ClientEng) option" where
  "sup_run c ns [] st = Some st"
| "sup_run c ns (i # is) st =
    (if sup_ready i (fst st) (snd st) then do { st \<leftarrow> sup_step c ns i st; sup_run c ns is st } else None)"

text \<open>How many steps the supervisor can still take once it is told to stop.\<close>

fun steps_left :: "'hs Supervisor \<times> ClientEng \<Rightarrow> nat" where
  "steps_left (su, e) =
    (case su_phase su of
       Attempting n b \<Rightarrow> 2 | Awaiting n b t rxID ch \<Rightarrow> 4 + length (ce_hsRespCh e) | BackingOff n b t \<Rightarrow> 2
     | Pausing t \<Rightarrow> 1 | Established \<Rightarrow> 3 | Returned \<Rightarrow> 0)"

fun is_awaiting :: "'hs sup_phase \<Rightarrow> bool" where
  "is_awaiting (Awaiting n b t rxID ch) = True"
| "is_awaiting p = False"

lemma stopping_step:
  assumes "sup_ready i su e" "sup_step c ns i (su, e) = Some (su', e')" "su_stop su" "si_event i \<noteq> OnTimer"
  shows "steps_left (su', e') < steps_left (su, e) \<and> su_stop su' \<and>
    (\<not> is_awaiting (su_phase su) \<longrightarrow> se_sent (ce_sess e') = se_sent (ce_sess e) \<and> \<not> is_awaiting (su_phase su'))"
proof (cases "su_phase su")
  case (Attempting n b)
  then show ?thesis using assms by (auto simp: sup_step_def Let_def run_attempt_def)
next
  case (Awaiting n b t rxID ch)
  then show ?thesis using assms
    by (auto simp: sup_ready_def sup_step_def Let_def take_response_def
        split: if_splits option.splits prod.splits list.splits sum.splits)
qed (use assms in \<open>auto simp: sup_ready_def sup_step_def Let_def first_attempt_def split: if_splits\<close>)



section \<open>Retrying\<close>

text \<open>
  The steps of one attempt. The other goroutines may leave the engine in any state; a step of
  the supervisor comes at most \<open>d\<close> after its timer is due (the delay of the scheduler).
\<close>

datatype sup_move = Own SupIn | Others ClientEng

fun waiting_until :: "'hs sup_phase \<Rightarrow> int option" where
  "waiting_until (Awaiting n b t rxID ch) = Some t"
| "waiting_until (BackingOff n b t) = Some t"
| "waiting_until p = None"

fun attempt_moves ::
  "Crypto \<Rightarrow> 'hs Noise \<Rightarrow> int \<Rightarrow> sup_move list \<Rightarrow> 'hs Supervisor \<times> ClientEng \<Rightarrow> ('hs Supervisor \<times> ClientEng) option" where
  "attempt_moves c ns d [] st = Some st"
| "attempt_moves c ns d (Others e' # ms) st = attempt_moves c ns d ms (fst st, e')"
| "attempt_moves c ns d (Own i # ms) st =
    (case waiting_until (su_phase (fst st)) of
       None \<Rightarrow> None
     | Some t \<Rightarrow>
         if sup_ready i (fst st) (snd st) \<and> si_now i \<le> t + d
         then do { st \<leftarrow> sup_step c ns i st; attempt_moves c ns d ms st } else None)"

definition in_attempt :: "nat \<Rightarrow> int \<Rightarrow> int \<Rightarrow> 'hs Supervisor \<Rightarrow> bool" where
  "in_attempt n t0 d su \<longleftrightarrow> \<not> su_stop su \<and>
    (case su_phase su of
       Attempting m b \<Rightarrow> m = n + 1 \<and> b = backoff_of m
     | Awaiting m b t rxID ch \<Rightarrow> m = n \<and> b = backoff_of n \<and> t = t0 + handshakeTimeout
     | BackingOff m b t \<Rightarrow> m = n \<and> b = backoff_of n \<and> t \<le> t0 + handshakeTimeout + d + backoff_of n
     | Established \<Rightarrow> True
     | _ \<Rightarrow> False)"

lemma backoff_le: "backoff_of n \<le> 5 * second"
  by (simp add: backoff_of_def)

lemma attempt_step:
  assumes "in_attempt n t0 d su" "waiting_until (su_phase su) = Some t" "sup_ready i su e" "si_now i \<le> t + d"
    and "sup_step c ns i (su, e) = Some (su', e')" "0 < n"
  shows "in_attempt n t0 d su'"
proof (cases "su_phase su")
  case (Awaiting m b t rxID ch)
  then show ?thesis using assms
    by (auto simp: in_attempt_def sup_ready_def sup_step_def Let_def take_response_def
        split: if_splits option.splits prod.splits list.splits sum.splits)
next
  case (BackingOff m b t)
  then show ?thesis using assms
    by (auto simp: in_attempt_def sup_ready_def sup_step_def Let_def backoff_of_Suc split: if_splits)
qed (use assms in auto)

lemma attempt_due: "in_attempt n t0 d su \<Longrightarrow> waiting_until (su_phase su) = Some t \<Longrightarrow> 0 \<le> d \<Longrightarrow> t \<le> t0 + 7 * second + d"
  using backoff_le [of n] by (cases "su_phase su") (auto simp: in_attempt_def)

text \<open>
  Property C10. A failed handshake is retried. From the start of attempt \<open>n\<close> at time \<open>t0\<close>, whatever the
  other goroutines do to the engine meanwhile and whatever responses come in: with timers that
  are served at most \<open>d\<close> late, every step of the attempt happens within seven seconds and \<open>2d\<close>
  of \<open>t0\<close>; the attempt ends only with the session established or with attempt \<open>n + 1\<close>, whose
  pause is again the exponential one; and until then a timer is pending that ends it in time.
\<close>

theorem handshake_retried:
  assumes "su_phase su = Attempting n (backoff_of n)" "0 < n" "\<not> su_stop su" "0 \<le> d"
    and "sup_step c ns i0 (su, e) = Some st0" "attempt_moves c ns d ms st0 = Some (su', e')"
  shows "(\<forall>i. Own i \<in> set ms \<longrightarrow> si_now i \<le> si_now i0 + 7 * second + 2 * d) \<and>
    (su_phase su' = Established \<or> su_phase su' = Attempting (n + 1) (min (5 * second) (second * 2 ^ n)) \<or>
      (\<exists>t \<le> si_now i0 + 7 * second + d. waiting_until (su_phase su') = Some t))"
proof -
  let ?t0 = "si_now i0"
  obtain su0 e0 where st0: "st0 = (su0, e0)" by (cases st0)
  have "in_attempt n ?t0 d su0" using assms(1-5) st0
    by (auto simp: in_attempt_def sup_step_def run_attempt_def split: option.splits prod.splits)
  then have "in_attempt n ?t0 d su' \<and> (\<forall>i. Own i \<in> set ms \<longrightarrow> si_now i \<le> ?t0 + 7 * second + 2 * d)"
    using assms(6) unfolding st0
  proof (induction ms arbitrary: su0 e0)
    case (Cons m ms)
    show ?case
    proof (cases m)
      case (Own i)
      then obtain t su1 e1 where 1: "waiting_until (su_phase su0) = Some t" "sup_ready i su0 e0" "si_now i \<le> t + d"
        "sup_step c ns i (su0, e0) = Some (su1, e1)" "attempt_moves c ns d ms (su1, e1) = Some (su', e')"
        using Cons.prems(2) by (auto simp: bind_eq_Some_conv split: option.splits if_splits)
      have "si_now i \<le> ?t0 + 7 * second + 2 * d" using attempt_due [OF Cons.prems(1) 1(1) assms(4)] 1(3) by simp
      then show ?thesis using Cons.IH [OF attempt_step [OF Cons.prems(1) 1(1-4) assms(2)] 1(5)] Own by auto
    next
      case (Others e1)
      then show ?thesis using Cons by auto
    qed
  qed simp
  moreover from this have "su_phase su' = Established \<or> su_phase su' = Attempting (n + 1) (min (5 * second) (second * 2 ^ n)) \<or>
      (\<exists>t. waiting_until (su_phase su') = Some t)"
    by (cases "su_phase su'") (auto simp: in_attempt_def backoff_of_def)
  ultimately show ?thesis using attempt_due [of n ?t0 d su'] assms(4) by blast
qed

theorem handshake_retried_witness:
  "\<exists>su e st0 su'. sup_step plain_crypto plain_noise (sup_in GoOn 0) (su, e) = Some st0 \<and>
    attempt_moves plain_crypto plain_noise 0 [Own (sup_in OnTimer second)] st0 = Some (su', e) \<and>
    su_phase su' = Attempting 2 (2 * second) \<and> si_now (sup_in OnTimer second) \<le> 7 * second"
proof -
  obtain e and su :: "(bytes \<times> bytes \<times> bytes) Supervisor"
    where su: "su = \<lparr>su_phase = Attempting 1 second, su_stop = False, su_rekeyAt = 120 * second\<rparr>"
    and h: "hs_start plain_noise (si_env (sup_in GoOn 0)) (si_rands (sup_in GoOn 0)) (si_seed (sup_in GoOn 0))
      (si_rnd (sup_in GoOn 0)) (si_ts (sup_in GoOn 0)) e = None"
    by (rule sample_supervisor)
  let ?st0 = "(goto (BackingOff 1 second second) su, e)"
  have s: "sup_step plain_crypto plain_noise (sup_in GoOn 0) (su, e) = Some ?st0"
    using h by (simp add: sup_step_def run_attempt_def su)
  have m: "attempt_moves plain_crypto plain_noise 0 [Own (sup_in OnTimer second)] ?st0 =
      Some (goto (Attempting 2 (2 * second)) (fst ?st0), e)"
    by (simp add: sup_ready_def sup_step_def next_backoff_def)
  have ph: "su_phase su = Attempting 1 (backoff_of 1)" "\<not> su_stop su" by (simp_all add: su backoff_of_def)
  show ?thesis using s m handshake_retried [OF ph(1) _ ph(2) _ s m] by (intro exI conjI) auto
qed

section \<open>The link manager\<close>

text \<open>
  \<open>linkManager\<close>: a poll every five seconds and a debounce timer that every interface event
  restarts. Without a watcher the channel of events is nil and \<open>LmEvent\<close> does not occur.
\<close>

record LinkManager =
  lm_pollAt :: int
  lm_debounce :: "int option"
  lm_stopped :: bool

datatype lm_event = LmStop | LmEvent | LmPoll | LmDebounce

record LmIn =
  mi_event :: lm_event
  mi_env :: Env
  mi_pf :: Platform
  mi_now :: int
  mi_nowUs :: int

definition pollEvery :: int where [simp]: "pollEvery = 5 * second"
definition debounceFor :: int where [simp]: "debounceFor = 500000000"

definition linkManager :: "int \<Rightarrow> LinkManager" where
  "linkManager now = \<lparr>lm_pollAt = now + pollEvery, lm_debounce = None, lm_stopped = False\<rparr>"

definition lm_ready :: "LmIn \<Rightarrow> LinkManager \<Rightarrow> bool" where
  "lm_ready i m \<longleftrightarrow> \<not> lm_stopped m \<and>
    (case mi_event i of
       LmStop \<Rightarrow> True
     | LmEvent \<Rightarrow> True
     | LmPoll \<Rightarrow> lm_pollAt m \<le> mi_now i
     | LmDebounce \<Rightarrow> (case lm_debounce m of None \<Rightarrow> False | Some t \<Rightarrow> t \<le> mi_now i))"

definition lm_step :: "LmIn \<Rightarrow> LinkManager \<times> ClientEng \<Rightarrow> (LinkManager \<times> ClientEng) option" where
  "lm_step i = (\<lambda>(m, e).
    case mi_event i of
      LmStop \<Rightarrow> Some (m\<lparr>lm_stopped := True\<rparr>, e)
    | LmEvent \<Rightarrow> Some (m\<lparr>lm_debounce := Some (mi_now i + debounceFor)\<rparr>, e)
    | LmPoll \<Rightarrow> do {
        e \<leftarrow> setupLinks (mi_env i) (mi_pf i) (mi_nowUs i) e;
        Some (m\<lparr>lm_pollAt := next_tick pollEvery (lm_pollAt m) (mi_now i)\<rparr>, e)
      }
    | LmDebounce \<Rightarrow> do {
        e \<leftarrow> setupLinks (mi_env i) (mi_pf i) (mi_nowUs i) e;
        Some (m\<lparr>lm_debounce := None\<rparr>, e)
      })"

text \<open>
  Runs under a clock that does not go back, with timers served at most \<open>d\<close> late; between the
  steps the other goroutines leave the engine in any state.
\<close>

fun lm_run :: "int \<Rightarrow> int \<Rightarrow> (LmIn \<times> ClientEng) list \<Rightarrow> LinkManager \<Rightarrow> (int \<times> LinkManager) option" where
  "lm_run d t [] m = Some (t, m)"
| "lm_run d t ((i, e) # is) m =
    (if t \<le> mi_now i \<and> lm_ready i m \<and> mi_now i \<le> lm_pollAt m + d \<and>
        (case lm_debounce m of None \<Rightarrow> True | Some u \<Rightarrow> mi_now i \<le> u + d)
     then (case lm_step i (m, e) of None \<Rightarrow> None | Some (m, _) \<Rightarrow> lm_run d (mi_now i) is m)
     else None)"

lemma lm_run_append:
  "lm_run d t (xs @ ys) m = (case lm_run d t xs m of None \<Rightarrow> None | Some (t, m) \<Rightarrow> lm_run d t ys m)"
  by (induction d t xs m rule: lm_run.induct) (auto split: option.splits prod.splits)

lemma next_tick_bounds:
  assumes "0 < d" "t \<le> now"
  shows "now < next_tick d t now" "next_tick d t now \<le> now + d"
proof -
  let ?q = "(now - t) div d"
  have "d * ?q + (now - t) mod d = now - t" by simp
  moreover have "0 \<le> (now - t) mod d" "(now - t) mod d < d" using assms(1) by simp_all
  moreover have "next_tick d t now = t + d * ?q + d" by (simp add: next_tick_def algebra_simps)
  ultimately show "now < next_tick d t now" "next_tick d t now \<le> now + d" by linarith+
qed

lemma lm_run_ConsE:
  assumes "lm_run d t ((i, e) # is) m = Some (t', m')"
  obtains m1 e1 where "t \<le> mi_now i" "lm_ready i m" "mi_now i \<le> lm_pollAt m + d"
    "\<forall>u. lm_debounce m = Some u \<longrightarrow> mi_now i \<le> u + d" "lm_step i (m, e) = Some (m1, e1)"
    "lm_run d (mi_now i) is m1 = Some (t', m')"
  using assms by (auto split: if_splits option.splits prod.splits)

lemma lm_run_poll:
  "lm_run d t is m = Some (t', m') \<Longrightarrow> lm_pollAt m \<le> t + pollEvery \<Longrightarrow> t \<le> t' \<and> lm_pollAt m' \<le> t' + pollEvery"
proof (induction "is" arbitrary: t m)
  case (Cons x "is")
  obtain i e where x: "x = (i, e)" by (cases x)
  obtain m1 e1 where 1: "t \<le> mi_now i" "lm_ready i m" "lm_step i (m, e) = Some (m1, e1)"
    "lm_run d (mi_now i) is m1 = Some (t', m')"
    by (rule lm_run_ConsE [OF Cons.prems(1) [unfolded x]])
  have "lm_pollAt m1 \<le> mi_now i + pollEvery" using 1(1-3) Cons.prems(2) next_tick_bounds(2) [of pollEvery "lm_pollAt m" "mi_now i"]
    by (cases "mi_event i") (auto simp: lm_step_def lm_ready_def bind_eq_Some_conv)
  then show ?case using Cons.IH [OF 1(4)] 1(1) by simp
qed simp

text \<open>A run in which the links are not reconciled.\<close>

definition unreconciled :: "(LmIn \<times> ClientEng) list \<Rightarrow> bool" where
  "unreconciled is \<longleftrightarrow> LmPoll \<notin> (mi_event \<circ> fst) ` set is \<and> LmDebounce \<notin> (mi_event \<circ> fst) ` set is"

lemma unreconciled_Cons:
  "unreconciled ((i, e) # is) \<longleftrightarrow> mi_event i \<noteq> LmPoll \<and> mi_event i \<noteq> LmDebounce \<and> unreconciled is"
  by (auto simp: unreconciled_def)

lemma lm_unreconciled:
  assumes "lm_run d t is m = Some (t', m')" "unreconciled is" "t \<le> lm_pollAt m + d"
  shows "t' \<le> lm_pollAt m + d"
  using assms
proof (induction "is" arbitrary: t m)
  case (Cons x "is")
  obtain i e where x: "x = (i, e)" by (cases x)
  obtain m1 e1 where 1: "mi_now i \<le> lm_pollAt m + d" "lm_step i (m, e) = Some (m1, e1)"
    "lm_run d (mi_now i) is m1 = Some (t', m')"
    by (rule lm_run_ConsE [OF Cons.prems(1) [unfolded x]])
  have "lm_pollAt m1 = lm_pollAt m" using 1(2) Cons.prems(2)
    by (cases "mi_event i") (auto simp: lm_step_def x unreconciled_Cons)
  then show ?case using Cons.IH [OF 1(3)] 1(1) Cons.prems(2) by (simp add: x unreconciled_Cons)
qed simp

lemma lm_settled:
  assumes "lm_run d t is m = Some (t', m')" "unreconciled is" "LmEvent \<notin> (mi_event \<circ> fst) ` set is"
    and "lm_debounce m = Some u" "t \<le> u + d"
  shows "t' \<le> u + d"
  using assms
proof (induction "is" arbitrary: t m)
  case (Cons x "is")
  obtain i e where x: "x = (i, e)" by (cases x)
  obtain m1 e1 where 1: "\<forall>u. lm_debounce m = Some u \<longrightarrow> mi_now i \<le> u + d" "lm_step i (m, e) = Some (m1, e1)"
    "lm_run d (mi_now i) is m1 = Some (t', m')"
    by (rule lm_run_ConsE [OF Cons.prems(1) [unfolded x]])
  have "lm_debounce m1 = Some u" using 1(2) Cons.prems(2-4)
    by (cases "mi_event i") (auto simp: lm_step_def x unreconciled_Cons)
  then show ?case using Cons.IH [OF 1(3)] 1(1) Cons.prems(2-4) by (simp add: x unreconciled_Cons)
qed simp

text \<open>
  Hotplug is noticed in time. In any run of the link manager since it was started, after an
  interface event at time \<open>t\<close> (whatever happened before), as long as the links have not been
  reconciled again the clock has not passed \<open>t\<close> plus five seconds, nor \<open>t\<close> plus half a second
  when no further event restarted the debounce timer, up to the delay \<open>d\<close> with which timers are
  served; and the manager goes on to reconcile: the pending timer's step is ready once it is due.
\<close>

theorem hotplug_reconciled:
  assumes "lm_run d t0 (is @ [(i, e)] @ js) (linkManager t0) = Some (t', m')" "mi_event i = LmEvent" "unreconciled js" "0 \<le> d"
  shows "t' \<le> mi_now i + pollEvery + d \<and>
    (LmEvent \<notin> (mi_event \<circ> fst) ` set js \<longrightarrow> t' \<le> mi_now i + debounceFor + d) \<and>
    (lm_stopped m' \<or> (\<exists>t \<le> mi_now i + pollEvery. lm_ready (k\<lparr>mi_event := LmPoll, mi_now := t\<rparr>) m'))"
proof -
  obtain t1 m1 where r1: "lm_run d t0 is (linkManager t0) = Some (t1, m1)" and
    r2: "lm_run d t1 ((i, e) # js) m1 = Some (t', m')"
    using assms(1) by (auto simp: lm_run_append split: option.splits)
  have p1: "lm_pollAt m1 \<le> t1 + pollEvery" using lm_run_poll [OF r1] by (simp add: linkManager_def)
  obtain m2 e2 where s: "t1 \<le> mi_now i" "mi_now i \<le> lm_pollAt m1 + d" "lm_step i (m1, e) = Some (m2, e2)"
    "lm_run d (mi_now i) js m2 = Some (t', m')"
    by (rule lm_run_ConsE [OF r2])
  have m2: "lm_pollAt m2 = lm_pollAt m1" "lm_debounce m2 = Some (mi_now i + debounceFor)"
    using s(3) assms(2) by (auto simp: lm_step_def)
  have keep: "lm_pollAt m' = lm_pollAt m2" using s(4) assms(3)
  proof (induction js arbitrary: m2 i)
    case (Cons x js)
    obtain j f where x: "x = (j, f)" by (cases x)
    obtain m3 e3 where 1: "lm_step j (m2, f) = Some (m3, e3)" "lm_run d (mi_now j) js m3 = Some (t', m')"
      by (rule lm_run_ConsE [OF Cons.prems(1) [unfolded x]])
    have "lm_pollAt m3 = lm_pollAt m2" using 1(1) Cons.prems(2)
      by (cases "mi_event j") (auto simp: lm_step_def x unreconciled_Cons)
    then show ?case using Cons.IH [OF 1(2)] Cons.prems(2) by (simp add: x unreconciled_Cons)
  qed simp
  have "t' \<le> mi_now i + pollEvery + d" using lm_unreconciled [OF s(4) assms(3)] m2(1) p1 s(1,2) by simp
  moreover have "t' \<le> mi_now i + debounceFor + d" if "LmEvent \<notin> (mi_event \<circ> fst) ` set js"
    using lm_settled [OF s(4) assms(3) that m2(2)] assms(4) by simp
  moreover have "lm_stopped m' \<or> lm_ready (k\<lparr>mi_event := LmPoll, mi_now := lm_pollAt m'\<rparr>) m'" by (simp add: lm_ready_def)
  moreover have "lm_pollAt m' \<le> mi_now i + pollEvery" using keep m2(1) p1 s(1) by simp
  ultimately show ?thesis by blast
qed

theorem hotplug_reconciled_witness:
  "\<exists>i e t' m'. mi_event i = LmEvent \<and> mi_now i = 3 * second \<and>
    lm_run 0 0 ([] @ [(i, e)] @ [(i\<lparr>mi_now := 3 * second + 1\<rparr>, e)]) (linkManager 0) = Some (t', m') \<and>
    t' \<le> 3 * second + pollEvery"
proof -
  let ?i = "\<lparr>mi_event = LmEvent, mi_env = sample_env, mi_pf = sample_platform, mi_now = 3 * second, mi_nowUs = 0\<rparr>"
  obtain e where "StartClient sample_env sample_platform 1 (IP4 0x01020304, 443) ''tun0'' sample_client = Some e"
    using sample_client_starts by blast
  obtain t' m' where r: "lm_run 0 0 ([] @ [(?i, e)] @ [(?i\<lparr>mi_now := 3 * second + 1\<rparr>, e)]) (linkManager 0) = Some (t', m')"
    by (simp add: linkManager_def lm_ready_def lm_step_def)
  then have "t' \<le> 3 * second + pollEvery" using hotplug_reconciled [OF r] by (simp add: unreconciled_def)
  then show ?thesis using r by (intro exI [of _ ?i] exI [of _ e] exI [of _ t'] exI [of _ m']) simp
qed

end
