(* ===== verification/Watch.thy ===== *)
theory Watch
  imports Supervisor
begin

text \<open>
  The interface watchers of \<open>internal/platform\<close> (\<open>ifmonitor_linux.go\<close> on netlink, \<open>ifmonitor_darwin.go\<close>
  on a routing socket with a poll as fallback) and their client \<open>linkManager\<close>. Both deliver events on a
  channel that holds one and drop further ones; the contract \<open>watcher\<close> says what a client may rely on
  nevertheless: a change that was reported stays visible until the event for it has been received.
\<close>

section \<open>Linux\<close>

text \<open>
  \<open>wl_links\<close> and \<open>wl_addrs\<close> are the updates that netlink has delivered and the goroutine has not
  taken yet; \<open>wl_out\<close> says whether the channel of events is full, \<open>wl_done\<close> whether the goroutine has
  returned and closed \<open>done\<close>.
\<close>

record LinuxWatch =
  wl_links :: nat
  wl_addrs :: nat
  wl_out :: bool
  wl_done :: bool

text \<open>
  Starting it. The arguments are the answers of the two subscriptions; a failure carries whether
  \<open>done\<close> was closed, which ends a subscription made before.
\<close>

definition WatchInterfaces_linux :: "'e option \<Rightarrow> 'e option \<Rightarrow> 'e \<times> bool + LinuxWatch" where
  "WatchInterfaces_linux linkErr addrErr =
    (case linkErr of
       Some err \<Rightarrow> Inl (err, False)
     | None \<Rightarrow> case addrErr of
         Some err \<Rightarrow> Inl (err, True)
       | None \<Rightarrow> Inr \<lparr>wl_links = 0, wl_addrs = 0, wl_out = False, wl_done = False\<rparr>)"

datatype watch_case = OnStopClosed | OnLink | OnAddr

definition linux_ready :: "bool \<Rightarrow> watch_case \<Rightarrow> LinuxWatch \<Rightarrow> bool" where
  "linux_ready stop c w \<longleftrightarrow> \<not> wl_done w \<and>
    (case c of OnStopClosed \<Rightarrow> stop | OnLink \<Rightarrow> 0 < wl_links w | OnAddr \<Rightarrow> 0 < wl_addrs w)"

definition linux_watch :: "watch_case \<Rightarrow> LinuxWatch \<Rightarrow> LinuxWatch" where
  "linux_watch c w =
    (case c of
       OnStopClosed \<Rightarrow> w\<lparr>wl_done := True\<rparr>
     | OnLink \<Rightarrow> w\<lparr>wl_links := wl_links w - 1, wl_out := True\<rparr>
     | OnAddr \<Rightarrow> w\<lparr>wl_addrs := wl_addrs w - 1, wl_out := True\<rparr>)"

definition linux_take :: "LinuxWatch \<Rightarrow> LinuxWatch" where
  "linux_take w = w\<lparr>wl_out := False\<rparr>"

inductive linux_step :: "LinuxWatch \<Rightarrow> LinuxWatch \<Rightarrow> bool" where
  "linux_ready stop c w \<Longrightarrow> linux_step w (linux_watch c w)"

inductive linux_change :: "LinuxWatch \<Rightarrow> LinuxWatch \<Rightarrow> bool" where
  "linux_change w (w\<lparr>wl_links := Suc (wl_links w)\<rparr>)"
| "linux_change w (w\<lparr>wl_addrs := Suc (wl_addrs w)\<rparr>)"

section \<open>macOS\<close>

datatype route_msg = InterfaceMessage | InterfaceAddrMessage | OtherMessage

text \<open>What a read of the routing socket gives: an error, bytes that do not parse, or messages.\<close>

datatype route_read = ReadEINTR | ReadFailed | Unparsable | Messages "route_msg list"

record DarwinWatch =
  wd_socket :: "route_read list"
  wd_reader :: bool
  wd_poller :: bool
  wd_pollAt :: int
  wd_out :: bool

definition pollInterval :: int where [simp]: "pollInterval = 5 * second"

definition WatchInterfaces_darwin :: "'e option \<Rightarrow> int \<Rightarrow> 'e + DarwinWatch" where
  "WatchInterfaces_darwin sockErr now =
    (case sockErr of
       Some err \<Rightarrow> Inl err
     | None \<Rightarrow> Inr \<lparr>wd_socket = [], wd_reader = True, wd_poller = True, wd_pollAt = now + pollInterval,
         wd_out = False\<rparr>)"

definition notify :: "DarwinWatch \<Rightarrow> DarwinWatch" where
  "notify w = w\<lparr>wd_out := True\<rparr>"

definition notify_message :: "route_msg \<Rightarrow> DarwinWatch \<Rightarrow> DarwinWatch" where
  "notify_message m w = (case m of OtherMessage \<Rightarrow> w | _ \<Rightarrow> notify w)"

definition darwin_read :: "route_read \<Rightarrow> DarwinWatch \<Rightarrow> DarwinWatch" where
  "darwin_read r w =
    (case r of
       ReadEINTR \<Rightarrow> w
     | ReadFailed \<Rightarrow> w\<lparr>wd_reader := False\<rparr>
     | Unparsable \<Rightarrow> w
     | Messages ms \<Rightarrow> fold notify_message ms w)"

datatype poll_case = PollStop | PollTick int

definition darwin_poll :: "poll_case \<Rightarrow> DarwinWatch \<Rightarrow> DarwinWatch" where
  "darwin_poll c w =
    (case c of
       PollStop \<Rightarrow> w\<lparr>wd_poller := False\<rparr>
     | PollTick now \<Rightarrow> (notify w)\<lparr>wd_pollAt := next_tick pollInterval (wd_pollAt w) now\<rparr>)"

definition darwin_take :: "DarwinWatch \<Rightarrow> DarwinWatch" where
  "darwin_take w = w\<lparr>wd_out := False\<rparr>"

definition poll_ready :: "poll_case \<Rightarrow> DarwinWatch \<Rightarrow> bool" where
  "poll_ready c w \<longleftrightarrow> wd_poller w \<and> (case c of PollStop \<Rightarrow> True | PollTick now \<Rightarrow> wd_pollAt w \<le> now)"

inductive darwin_step :: "DarwinWatch \<Rightarrow> DarwinWatch \<Rightarrow> bool" where
  "wd_reader w \<Longrightarrow> wd_socket w = r # rs \<Longrightarrow> darwin_step w (darwin_read r (w\<lparr>wd_socket := rs\<rparr>))"
| "poll_ready c w \<Longrightarrow> darwin_step w (darwin_poll c w)"

definition reports_change :: "route_read \<Rightarrow> bool" where
  "reports_change r = (case r of Messages ms \<Rightarrow> InterfaceMessage \<in> set ms \<or> InterfaceAddrMessage \<in> set ms | _ \<Rightarrow> False)"

inductive darwin_change :: "DarwinWatch \<Rightarrow> DarwinWatch \<Rightarrow> bool" where
  "reports_change r \<Longrightarrow> darwin_change w (w\<lparr>wd_socket := wd_socket w @ [r]\<rparr>)"

section \<open>The contract\<close>

text \<open>
  \<open>step\<close> is what the watcher does on its own, \<open>change\<close> a report of the system, \<open>out\<close> says that an event is
  in the channel and \<open>take\<close> receives it. \<open>pending\<close> means that an event is there or will come.
\<close>

locale watcher =
  fixes step change :: "'w \<Rightarrow> 'w \<Rightarrow> bool" and out ended pending :: "'w \<Rightarrow> bool" and take :: "'w \<Rightarrow> 'w"
  assumes change_pending: "change w w' \<Longrightarrow> pending w'"
    and step_pending: "step w w' \<Longrightarrow> pending w \<Longrightarrow> pending w' \<or> ended w'"
    and ended_stays: "step w w' \<or> change w w' \<or> w' = take w \<Longrightarrow> ended w \<Longrightarrow> ended w'"
    and delivers: "pending w \<Longrightarrow> \<not> ended w \<Longrightarrow> out w \<or> (\<exists>w'. step w w' \<and> out w')"

text \<open>
  A watcher and \<open>linkManager\<close> together. The flag says that the interfaces have changed since they
  were last reconciled; \<open>setupLinks\<close> reads them afresh and lowers it. Between the steps of the manager
  the engine is in any state \<open>e\<close>.
\<close>

inductive hotplug :: "('w \<Rightarrow> 'w \<Rightarrow> bool) \<Rightarrow> ('w \<Rightarrow> 'w \<Rightarrow> bool) \<Rightarrow> ('w \<Rightarrow> bool) \<Rightarrow> ('w \<Rightarrow> 'w) \<Rightarrow>
    'w \<times> LinkManager \<times> bool \<Rightarrow> 'w \<times> LinkManager \<times> bool \<Rightarrow> bool" for step change out take where
  change: "change w w' \<Longrightarrow> hotplug step change out take (w, m, dirty) (w', m, True)"
| watch: "step w w' \<Longrightarrow> hotplug step change out take (w, m, dirty) (w', m, dirty)"
| event: "out w \<Longrightarrow> mi_event i = LmEvent \<Longrightarrow> lm_ready i m \<Longrightarrow> lm_step i (m, e) = Some (m', e') \<Longrightarrow>
    hotplug step change out take (w, m, dirty) (take w, m', dirty)"
| reconcile: "mi_event i \<in> {LmPoll, LmDebounce} \<Longrightarrow> lm_ready i m \<Longrightarrow> lm_step i (m, e) = Some (m', e') \<Longrightarrow>
    hotplug step change out take (w, m, dirty) (w, m', False)"
| stop: "mi_event i = LmStop \<Longrightarrow> lm_ready i m \<Longrightarrow> lm_step i (m, e) = Some (m', e') \<Longrightarrow>
    hotplug step change out take (w, m, dirty) (w, m', dirty)"

definition noticed :: "('w \<Rightarrow> bool) \<Rightarrow> ('w \<Rightarrow> bool) \<Rightarrow> 'w \<times> LinkManager \<times> bool \<Rightarrow> bool" where
  "noticed ended pending = (\<lambda>(w, m, dirty).
    dirty \<longrightarrow> lm_stopped m \<or> lm_debounce m \<noteq> None \<or> pending w \<or> ended w)"

lemma lm_step_event: "mi_event i = LmEvent \<Longrightarrow> lm_step i (m, e) = Some (m', e') \<Longrightarrow> lm_debounce m' \<noteq> None"
  by (auto simp: lm_step_def)

lemma lm_step_stop: "mi_event i = LmStop \<Longrightarrow> lm_step i (m, e) = Some (m', e') \<Longrightarrow> lm_stopped m'"
  by (auto simp: lm_step_def)

context watcher
begin

lemma hotplug_noticed:
  assumes "hotplug step change out take x y" and "noticed ended pending x"
  shows "noticed ended pending y"
  using assms
proof cases
  case (watch w w' m dirty)
  then show ?thesis using assms(2) step_pending ended_stays by (auto simp: noticed_def)
qed (auto simp: noticed_def dest: change_pending lm_step_event lm_step_stop)

lemma change_on_its_way:
  assumes "(hotplug step change out take)\<^sup>*\<^sup>* (w0, m0, False) (w, m, True)"
  shows "lm_stopped m \<or> ended w \<or> lm_debounce m \<noteq> None \<or> out w \<or> (\<exists>w'. step w w' \<and> out w')"
proof -
  have "noticed ended pending (w, m, True)" using assms
  proof (induction rule: rtranclp_induct)
    case base
    then show ?case by (simp add: noticed_def)
  qed (rule hotplug_noticed)
  then show ?thesis using delivers [of w] by (auto simp: noticed_def)
qed

end

section \<open>Both watchers fulfil it\<close>

definition linux_pending :: "LinuxWatch \<Rightarrow> bool" where
  "linux_pending w \<longleftrightarrow> 0 < wl_links w \<or> 0 < wl_addrs w \<or> wl_out w"

interpretation linux: watcher linux_step linux_change wl_out wl_done linux_pending linux_take
proof
  fix w w'
  show "linux_change w w' \<Longrightarrow> linux_pending w'" by (auto simp: linux_pending_def elim: linux_change.cases)
  show "linux_step w w' \<Longrightarrow> linux_pending w \<Longrightarrow> linux_pending w' \<or> wl_done w'"
    by (auto simp: linux_pending_def linux_watch_def elim!: linux_step.cases split: watch_case.split)
  show "linux_step w w' \<or> linux_change w w' \<or> w' = linux_take w \<Longrightarrow> wl_done w \<Longrightarrow> wl_done w'"
    by (auto simp: linux_ready_def linux_take_def elim!: linux_step.cases linux_change.cases)
  assume p: "linux_pending w" "\<not> wl_done w"
  have "linux_step w (linux_watch OnLink w)" if "0 < wl_links w"
    using that p linux_step.intros [of False OnLink w] by (simp add: linux_ready_def)
  moreover have "linux_step w (linux_watch OnAddr w)" if "0 < wl_addrs w"
    using that p linux_step.intros [of False OnAddr w] by (simp add: linux_ready_def)
  moreover have "wl_out (linux_watch OnLink w)" "wl_out (linux_watch OnAddr w)" by (simp_all add: linux_watch_def)
  ultimately show "wl_out w \<or> (\<exists>w'. linux_step w w' \<and> wl_out w')"
    using p(1) by (metis linux_pending_def)
qed

lemma fold_notify: "wd_out (fold notify_message ms w) \<longleftrightarrow> wd_out w \<or> reports_change (Messages ms)"
  by (induction ms arbitrary: w) (auto simp: notify_message_def notify_def reports_change_def split: route_msg.split)

lemma fold_notify_frame [simp]:
  "wd_reader (fold notify_message ms w) = wd_reader w" "wd_poller (fold notify_message ms w) = wd_poller w"
  "wd_socket (fold notify_message ms w) = wd_socket w"
  by (induction ms arbitrary: w; simp add: notify_message_def notify_def split: route_msg.split)+

lemma darwin_read_poller [simp]: "wd_poller (darwin_read r w) = wd_poller w"
  by (simp add: darwin_read_def split: route_read.split)

text \<open>On macOS the poll alone keeps the promise, also after the reader of the socket has died.\<close>

interpretation darwin: watcher darwin_step darwin_change wd_out "\<lambda>w. \<not> wd_poller w" "\<lambda>w. True" darwin_take
proof
  fix w w'
  show "darwin_step w w' \<or> darwin_change w w' \<or> w' = darwin_take w \<Longrightarrow> \<not> wd_poller w \<Longrightarrow> \<not> wd_poller w'"
    by (auto simp: darwin_take_def poll_ready_def elim!: darwin_step.cases darwin_change.cases)
  assume "\<not> \<not> wd_poller w"
  then have "darwin_step w (darwin_poll (PollTick (wd_pollAt w)) w)" by (intro darwin_step.intros(2)) (simp add: poll_ready_def)
  then show "wd_out w \<or> (\<exists>w'. darwin_step w w' \<and> wd_out w')"
    by (auto simp: darwin_poll_def notify_def)
qed simp_all

text \<open>A report that is read becomes an event at once.\<close>

lemma darwin_read_reports: "reports_change r \<Longrightarrow> wd_out (darwin_read r w)"
  by (cases r) (simp_all add: darwin_read_def fold_notify reports_change_def)

text \<open>
  Property C40. No change of the interfaces goes unnoticed. In every interleaving of the system's reports,
  the watcher and \<open>linkManager\<close>, although events are dropped while one is waiting: when the interfaces
  have changed since they were last reconciled and the engine is not stopping, then the debounce
  timer is running, or an event is in the channel, or the next step of the watcher puts one there.
\<close>

theorem interface_changes_noticed:
  assumes "(hotplug linux_step linux_change wl_out linux_take)\<^sup>*\<^sup>* (w0, m0, False) (w, m, True)"
  shows "lm_stopped m \<or> wl_done w \<or> lm_debounce m \<noteq> None \<or> wl_out w \<or> (\<exists>w'. linux_step w w' \<and> wl_out w')"
  by (rule linux.change_on_its_way [OF assms])

theorem interface_changes_noticed_witness:
  "\<exists>w0 w m. WatchInterfaces_linux (None :: string option) None = Inr w0 \<and>
    (hotplug linux_step linux_change wl_out linux_take)\<^sup>*\<^sup>* (w0, linkManager 0, False) (w, m, True) \<and>
    \<not> wl_out w \<and> \<not> wl_done w \<and> lm_debounce m = None \<and> (\<exists>w'. linux_step w w' \<and> wl_out w')"
proof -
  let ?v = "\<lparr>wl_links = 0, wl_addrs = 0, wl_out = False, wl_done = False\<rparr>"
  let ?w = "?v\<lparr>wl_links := Suc (wl_links ?v)\<rparr>" and ?m = "linkManager 0"
  have r: "(hotplug linux_step linux_change wl_out linux_take)\<^sup>*\<^sup>* (?v, ?m, False) (?w, ?m, True)"
  proof (rule r_into_rtranclp)
    have "linux_change ?v ?w" by (rule linux_change.intros)
    then show "hotplug linux_step linux_change wl_out linux_take (?v, ?m, False) (?w, ?m, True)"
      by (rule hotplug.change [where change = linux_change])
  qed
  have "lm_stopped ?m \<or> wl_done ?w \<or> lm_debounce ?m \<noteq> None \<or> wl_out ?w \<or> (\<exists>w'. linux_step ?w w' \<and> wl_out w')"
    by (rule interface_changes_noticed [OF r])
  then have "\<exists>w'. linux_step ?w w' \<and> wl_out w'" by (simp add: linkManager_def)
  then show ?thesis
    using r by (intro exI [of _ ?v] exI [of _ ?w] exI [of _ ?m]) (simp add: WatchInterfaces_linux_def linkManager_def)
qed

text \<open>The same of the routing socket with its poll.\<close>

theorem interface_changes_noticed_darwin:
  assumes "(hotplug darwin_step darwin_change wd_out darwin_take)\<^sup>*\<^sup>* (w0, m0, False) (w, m, True)"
  shows "lm_stopped m \<or> \<not> wd_poller w \<or> lm_debounce m \<noteq> None \<or> wd_out w \<or> (\<exists>w'. darwin_step w w' \<and> wd_out w')"
  by (rule darwin.change_on_its_way [OF assms])

text \<open>
  Stopping does not end the reader of the routing socket on macOS, although the comment says that the
  goroutine exits when \<open>stop\<close> is closed: only a failing read ends it.
\<close>

theorem darwin_reader_outlives_stop:
  assumes "darwin_step\<^sup>*\<^sup>* w w'" and "wd_reader w" and "ReadFailed \<notin> set (wd_socket w)"
  shows "wd_reader w' \<and> \<not> (\<exists>w''. darwin_step w' w'' \<and> \<not> wd_reader w'')"
proof -
  have keep: "wd_reader v \<and> ReadFailed \<notin> set (wd_socket v)"
    if "darwin_step u v" "wd_reader u \<and> ReadFailed \<notin> set (wd_socket u)" for u v
    using that by (cases rule: darwin_step.cases)
      (auto simp: darwin_read_def darwin_poll_def notify_def split: route_read.split poll_case.split)
  have "wd_reader w' \<and> ReadFailed \<notin> set (wd_socket w')" using assms(1)
    by (induction rule: rtranclp_induct) (use assms(2,3) keep in blast)+
  then show ?thesis using keep by blast
qed

end
