(* ===== verification/Commands.thy ===== *)
theory Commands
  imports Control
begin

text \<open>
  The commands of \<open>cmd/amane\<close>: the choice of the command, the requests of \<open>link\<close> and \<open>mode\<close>, the key
  tools, the start of a daemon from its configuration and the text of \<open>amane status\<close>. Flags are
  those of the \<open>flag\<close> package: the definitions start from the arguments that are left, and
  \<open>strconv.ParseFloat\<close> is an argument.
\<close>

section \<open>Choosing a command\<close>

datatype Command =
    RunServer "string list"
  | RunClient "string list"
  | RunGenkey
  | RunPubkey
  | RunStatus "string list"
  | RunLink "string list"
  | RunMode "string list"
  | PrintVersion
  | PrintUsage
  | UsageExit
  | UnknownExit string

definition main_command :: "string list \<Rightarrow> Command" where
  "main_command args =
    (if length args < 2 then UsageExit
     else let cmd = args ! 1; rest = drop 2 args
          in if cmd = ''server'' then RunServer rest
             else if cmd = ''client'' then RunClient rest
             else if cmd = ''genkey'' then RunGenkey
             else if cmd = ''pubkey'' then RunPubkey
             else if cmd = ''status'' then RunStatus rest
             else if cmd = ''link'' then RunLink rest
             else if cmd = ''mode'' then RunMode rest
             else if cmd = ''version'' \<or> cmd = ''--version'' \<or> cmd = ''-v'' then PrintVersion
             else if cmd = ''help'' \<or> cmd = ''--help'' \<or> cmd = ''-h'' then PrintUsage
             else UnknownExit cmd)"

datatype cmd_error = ErrUsage | ErrMbps string | ErrSubcommand string

definition runLink :: "(string \<Rightarrow> real option) \<Rightarrow> string list \<Rightarrow> cmd_error + CtlRequest" where
  "runLink parseFloat rest =
    (if length rest < 2 then Inl ErrUsage
     else if rest ! 0 = ''add'' then
       (if 3 \<le> length rest
        then case parseFloat (rest ! 2) of
            None \<Rightarrow> Inl (ErrMbps (rest ! 2))
          | Some v \<Rightarrow> Inr (Client_AddLink (rest ! 1) v)
        else Inr (Client_AddLink (rest ! 1) 0))
     else if rest ! 0 = ''remove'' then Inr (Client_RemoveLink (rest ! 1))
     else Inl (ErrSubcommand (rest ! 0)))"

definition runMode :: "string list \<Rightarrow> cmd_error + CtlRequest" where
  "runMode args = (if length args \<noteq> 1 then Inl ErrUsage else Inr (Client_SetMode (args ! 0)))"

section \<open>Key tools\<close>

definition runGenkey :: "bytes option \<Rightarrow> key_error + string" where
  "runGenkey rnd = (case GeneratePrivateKey rnd of Inl e \<Rightarrow> Inl e | Inr k \<Rightarrow> Inr (Key_String k @ [CHR 0x0A]))"

text \<open>\<open>stdin\<close> is what can be read, \<open>None\<close> a read error; \<open>io.LimitReader\<close> cuts it at 1024 bytes.\<close>

definition runPubkey :: "(bytes \<Rightarrow> bytes option) \<Rightarrow> string option \<Rightarrow> key_error + string" where
  "runPubkey x25519 stdin =
    (case stdin of
       None \<Rightarrow> Inl ErrReadFile
     | Some s \<Rightarrow>
         (case Key_Parse (take 1024 s) of Inl e \<Rightarrow> Inl e | Inr k \<Rightarrow> Inr (Key_String (PublicKey x25519 k) @ [CHR 0x0A])))"

section \<open>Starting a daemon\<close>

datatype daemon_error = ErrNoConfigFile | ErrConfig config_error | ErrServerAddr | ErrPanic

definition runDaemon_server ::
  "(string \<Rightarrow> (Server \<times> string list) option) \<Rightarrow> (string \<Rightarrow> string option) \<Rightarrow> int \<Rightarrow> string \<Rightarrow> daemon_error + string \<times> ServerEng" where
  "runDaemon_server decode readFile now cfgPath =
    (if cfgPath = [] then Inl ErrNoConfigFile
     else case LoadServer decode readFile cfgPath of
         Inl e \<Rightarrow> Inl (ErrConfig e)
       | Inr cfg \<Rightarrow> Inr (ss_ControlSocket (sv_Server cfg), StartServer now cfg))"

definition runDaemon_client ::
  "(string \<Rightarrow> (Client \<times> string list) option) \<Rightarrow> (string \<Rightarrow> string option) \<Rightarrow> (string \<Rightarrow> string \<Rightarrow> AddrPort option) \<Rightarrow>
    Env \<Rightarrow> Platform \<Rightarrow> int \<Rightarrow> string \<Rightarrow> string \<Rightarrow> daemon_error + string \<times> ClientEng" where
  "runDaemon_client decode readFile resolve env pf nowUs tunName cfgPath =
    (if cfgPath = [] then Inl ErrNoConfigFile
     else case LoadClient decode readFile cfgPath of
         Inl e \<Rightarrow> Inl (ErrConfig e)
       | Inr cfg \<Rightarrow>
           (case Resolve resolve (cs_Server (cl_Client cfg)) of
              Inl _ \<Rightarrow> Inl ErrServerAddr
            | Inr srv \<Rightarrow>
                (case StartClient env pf nowUs srv tunName cfg of
                   None \<Rightarrow> Inl ErrPanic
                 | Some e \<Rightarrow> Inr (cs_ControlSocket (cl_Client cfg), e))))"

section \<open>The status text\<close>

text \<open>\<open>%.kf\<close>: the decimal with \<open>k\<close> places nearest to the value, ties to the even one.\<close>

definition round_even :: "real \<Rightarrow> int" where
  "round_even x =
    (let f = \<lfloor>x\<rfloor>; d = x - of_int f
     in if d < 1 / 2 then f else if 1 / 2 < d then f + 1 else if even f then f else f + 1)"

definition zero_pad :: "nat \<Rightarrow> string \<Rightarrow> string" where
  "zero_pad n s = replicate (n - length s) CHR ''0'' @ s"

definition fmt_fixed :: "nat \<Rightarrow> real \<Rightarrow> string" where
  "fmt_fixed k x =
    (let r = round_even (\<bar>x\<bar> * 10 ^ k); ds = zero_pad (k + 1) (digits_of 10 r)
     in (if x < 0 then ''-'' else []) @ take (length ds - k) ds @
        (if k = 0 then [] else ''.'' @ drop (length ds - k) ds))"

text \<open>\<open>%-ns\<close> pads on the right by the number of runes.\<close>

function rune_count :: "string \<Rightarrow> nat" where
  "rune_count [] = 0"
| "rune_count (c # cs) = Suc (rune_count (drop (snd (decode_rune (c # cs))) (c # cs)))"
  by pat_completeness auto
termination
proof (relation "measure length")
  fix c and cs :: string
  show "(drop (snd (decode_rune (c # cs))) (c # cs), c # cs) \<in> measure length"
    using decode_rune_width [of "c # cs"] by (simp del: decode_rune.simps)
qed simp

definition pad_right :: "nat \<Rightarrow> string \<Rightarrow> string" where
  "pad_right n s = s @ replicate (n - rune_count s) CHR '' ''"

definition orDash :: "string \<Rightarrow> string" where
  "orDash s = (if s = [] then ''-'' else s)"

definition fmtMTU :: "int \<Rightarrow> string" where
  "fmtMTU v = (if v = 0 then ''-'' else if v < 0 then ''!'' else Itoa v)"

definition fmtRTT :: "real \<Rightarrow> string" where
  "fmtRTT ms = (if ms \<le> 0 then ''-'' else fmt_fixed 1 ms @ ''ms'')"

definition fmtPct :: "real \<Rightarrow> string" where
  "fmtPct p = (if p < 0 then ''-'' else fmt_fixed 1 p @ ''%'')"

definition fmtBps :: "real \<Rightarrow> string" where
  "fmtBps b =
    (if b \<le> 0 then ''-''
     else if 1000000000 \<le> b then fmt_fixed 2 (b / 1000000000) @ ''Gbps''
     else if 1000000 \<le> b then fmt_fixed 1 (b / 1000000) @ ''Mbps''
     else if 1000 \<le> b then fmt_fixed 0 (b / 1000) @ ''kbps''
     else fmt_fixed 0 b @ ''bps'')"

definition fmtWAN :: "string \<Rightarrow> int \<Rightarrow> string \<Rightarrow> string \<Rightarrow> string" where
  "fmtWAN ip asn org endpoint =
    (if ip = [] then orDash endpoint
     else let parts = ip;
              parts = (if 0 < asn then parts @ '' AS'' @ Itoa asn else parts)
          in if org \<noteq> [] then
               parts @ '' '' @ (if 22 < length org then take 21 org @ [CHR 0xE2, CHR 0x80, CHR 0xA6] else org)
             else parts)"

definition path_line :: "PathStatus \<Rightarrow> string" where
  "path_line p = pad_right 4 (Itoa (uint (ps_ID p))) @ '' '' @ pad_right 10 (orDash (ps_IfName p)) @ '' '' @
     pad_right 40 (fmtWAN (ps_WANIP p) (ps_ASN p) (ps_ASOrg p) (ps_Endpoint p)) @ '' '' @ pad_right 9 (ps_State p) @ '' '' @
     pad_right 5 (fmtMTU (ps_MTU p)) @ '' '' @ pad_right 8 (fmtRTT (ps_SRTTMs p)) @ '' '' @ pad_right 6 (fmtPct (ps_LossPct p)) @ '' '' @
     pad_right 10 (fmtBps (ps_TxBps p)) @ '' '' @ pad_right 10 (fmtBps (ps_RxBps p)) @ '' '' @ fmt_fixed 0 (ps_Weight p * 100) @ ''%''"

definition header_line :: string where
  "header_line = pad_right 4 ''PATH'' @ '' '' @ pad_right 10 ''IF'' @ '' '' @ pad_right 40 ''WAN'' @ '' '' @ pad_right 9 ''STATE'' @ '' '' @
     pad_right 5 ''MTU'' @ '' '' @ pad_right 8 ''RTT'' @ '' '' @ pad_right 6 ''LOSS'' @ '' '' @ pad_right 10 ''TX'' @ '' '' @ pad_right 10 ''RX'' @ '' WEIGHT''"

definition fmt_u64 :: "u64 \<Rightarrow> string" where
  "fmt_u64 n = Itoa (uint n)"

definition session_lines :: "SessionStatus \<Rightarrow> string list" where
  "session_lines s =
    (let ep = (if ss_Endpoint s \<noteq> [] then [CHR '' '', CHR 0xE2, CHR 0x86, CHR 0x92, CHR '' ''] @ ss_Endpoint s else []);
         r = ss_Reorder s; f = ss_FEC s
     in [''SESSION  '' @ ss_Name s @ ep @ ''   state='' @ ss_State s @ ''  mode='' @ ss_Mode s @ ''  key_age='' @ fmt_fixed 0 (ss_EpochAgeSec s) @ ''s''] @
        (if ss_Paths s \<noteq> [] then header_line # map path_line (ss_Paths s) else []) @
        [''REORDER  timeout_flush='' @ fmt_u64 (rs_TimeoutFlush r) @ ''  late_pass='' @ fmt_u64 (rs_LatePass r) @ ''  dup_drop='' @ fmt_u64 (rs_DupDrop r) @
          ''  buffer='' @ Itoa (rs_Held r) @ ''pkt/'' @ Itoa (rs_HeldOldestMs r) @ ''ms  drop_no_path='' @ fmt_u64 (ss_DropNoPath s)] @
        (if ss_Mode s = ''fec'' \<or> 0 < fs_ParitySent f \<or> 0 < fs_Recovered f
         then [''FEC      parity_sent='' @ fmt_u64 (fs_ParitySent f) @ ''  recovered='' @ fmt_u64 (fs_Recovered f) @ ''  failed='' @ fmt_u64 (fs_Failed f)] else []) @
        [[]])"

definition printStatus :: "Status \<Rightarrow> string list" where
  "printStatus st = concat (map session_lines (st_Sessions st))"

section \<open>Properties\<close>

lemma Key_Parse_line: "length k = KeySize \<Longrightarrow> Key_Parse (Key_String k @ [CHR 0x0A]) = Inr k"
  using Key_Parse_padded [of k "[]" "[CHR 0x0A]"] by simp

lemma length_Key_String: "length k = KeySize \<Longrightarrow> length (Key_String k) \<le> 1023"
proof -
  have "length (EncodeToString bs) \<le> 4 * length bs" for bs
    by (induction bs rule: EncodeToString.induct) (auto simp: Let_def)
  from this [of k] show "length k = KeySize \<Longrightarrow> length (Key_String k) \<le> 1023" by (simp add: Key_String_def)
qed

text \<open>
  The key tools fit together: what \<open>genkey\<close> prints, \<open>pubkey\<close> reads, and what
  \<open>pubkey\<close> prints is accepted as the public key of a configuration and is the key the
  handshake uses for that private key.
\<close>

theorem genkey_pubkey:
  assumes "length r = 32"
  shows "\<exists>k out out'. GeneratePrivateKey (Some r) = Inr k \<and> runGenkey (Some r) = Inr out \<and> LoadFile (\<lambda>_. Some out) path = Inr k \<and>
    runPubkey x25519 (Some out) = Inr out' \<and> Key_Parse out' = Inr (PublicKey x25519 k)"
proof -
  obtain k where k: "GeneratePrivateKey (Some r) = Inr k" "length k = KeySize" 
    using GeneratePrivateKey_clamped [OF assms] by (elim exE conjE) (rule that)
  let ?out = "Key_String k @ [CHR 0x0A]" and ?out' = "Key_String (PublicKey x25519 k) @ [CHR 0x0A]"
  have t: "take 1024 ?out = ?out" by (rule take_all) (use length_Key_String [OF k(2)] in simp)
  have "runGenkey (Some r) = Inr ?out" by (simp only: runGenkey_def k(1) sum.case)
  moreover have "LoadFile (\<lambda>_. Some ?out) path = Inr k" by (simp only: LoadFile_def option.case Key_Parse_line [OF k(2)] sum.case)
  moreover have "runPubkey x25519 (Some ?out) = Inr ?out'" by (simp only: runPubkey_def option.case t Key_Parse_line [OF k(2)] sum.case)
  moreover have "Key_Parse ?out' = Inr (PublicKey x25519 k)" by (rule Key_Parse_line) simp
  ultimately show ?thesis using k(1) by blast
qed

text \<open>
  Every accepted command line of \<open>link\<close> and \<open>mode\<close> is a request the daemon's handlers
  know; a mode the scheduler does not know is answered with an error and changes nothing.
\<close>

theorem mode_command:
  assumes "runMode args = Inr req" "en_role (se_eng (ce_sess e)) = RoleClient"
  shows "\<exists>resp e'. Serve (client_daemon env pf now nowUs) req e = Some (resp, e') \<and>
    (checkResp resp = None \<longleftrightarrow> snd (ParseMode (hd args))) \<and> (checkResp resp \<noteq> None \<longrightarrow> e' = e)"
proof -
  have "args = [args ! 0]" and r: "req = Client_SetMode (args ! 0)"
    using assms(1) by (auto simp: runMode_def length_Suc_conv split: if_splits)
  then have h: "hd args = args ! 0" by (metis list.sel(1))
  show ?thesis using assms(2) unfolding r h
    by (cases "ParseMode (args ! 0)")
      (auto simp: Serve_def serve_mode_def answer_def client_daemon_def Client_SetMode_def Engine_SetMode_def Let_def checkResp_def)
qed

end
