(* ===== verification/Services.thy ===== *)
theory Services
  imports Startup Watch Commands
begin

text \<open>
  The long-running services beside the data path: the loop that looks up the public addresses of the
  links (\<open>engine/waninfo.go\<close> with \<open>ipinfo.Lookup\<close>), the life of the control socket (\<open>ctl.Serve\<close>) and the
  loop of \<open>amane status\<close>. What a single sweep, request or report does
  is in \<open>Control\<close> and \<open>Commands\<close>.
\<close>

section \<open>One lookup\<close>

text \<open>The request of \<open>ipinfo.Lookup\<close> as it leaves: the options of dialer, transport and client.\<close>

record LookupRequest =
  lq_url :: string
  lq_network :: string
  lq_bindTo :: string
  lq_userAgent :: "string option"
  lq_dialTimeout :: int
  lq_tlsTimeout :: int
  lq_headerTimeout :: int
  lq_timeout :: int

definition lookupURL :: string where "lookupURL = ''https://ip.alicey.dev''"

definition lookup_request :: "string \<Rightarrow> string \<Rightarrow> bool \<Rightarrow> LookupRequest" where
  "lookup_request ifname userAgent v4 =
    \<lparr>lq_url = lookupURL, lq_network = (if v4 then ''tcp4'' else ''tcp6''), lq_bindTo = ifname,
     lq_userAgent = (if userAgent = [] then None else Some userAgent), lq_dialTimeout = 3 * second,
     lq_tlsTimeout = 3 * second, lq_headerTimeout = 3 * second, lq_timeout = 5 * second\<rparr>"

text \<open>\<open>get\<close> is what the HTTP client makes of the request: no answer, or a code and the body.\<close>

definition Lookup :: "(LookupRequest \<Rightarrow> (int \<times> bytes option) option) \<Rightarrow> (bytes \<Rightarrow> ip_response option) \<Rightarrow> int \<Rightarrow>
    string \<Rightarrow> string \<Rightarrow> bool \<Rightarrow> ipinfo_error + WanInfo" where
  "Lookup get unmarshal now ifname userAgent v4 =
    Lookup_result unmarshal now (get (lookup_request ifname userAgent v4))"

text \<open>The option that ties the socket of the request to the link, on both systems.\<close>

definition ipinfo_bind_linux :: "Os \<Rightarrow> string \<Rightarrow> bool \<Rightarrow> boot_error option os" where
  "ipinfo_bind_linux os ifname v4 =
    attempt os [(RawControl, ErrSockControl), (SetsockoptString SO_BINDTODEVICE ifname, ErrSockControl)]"

definition ipinfo_bind_darwin :: "Os \<Rightarrow> string \<Rightarrow> bool \<Rightarrow> boot_error option os" where
  "ipinfo_bind_darwin os ifname v4 =
    attempt os [(InterfaceByName ifname, ErrSockControl), (RawControl, ErrSockControl),
      (SetsockoptInt (if v4 then IP_BOUND_IF else IPV6_BOUND_IF) (os_ifIndex os ifname), ErrSockControl)]"

text \<open>The lookup leaves by the link that the tunnel's own socket is bound to, in the same way.\<close>

theorem lookup_bound_like_tunnel:
  "ipinfo_bind_linux os ifname v4 = bindToInterface os ifname"
  "ipinfo_bind_darwin os ifname v4 = bindToInterface_darwin os ifname v4"
  by (simp_all add: ipinfo_bind_linux_def bindToInterface_def ipinfo_bind_darwin_def bindToInterface_darwin_def)

section \<open>The lookup loop\<close>

definition wanInfoSweep :: int where [simp]: "wanInfoSweep = 15 * second"
definition wanInfoTimeout :: int where [simp]: "wanInfoTimeout = 5 * second"

text \<open>
  \<open>wn_lookups\<close> are the goroutines that run a lookup, each with its slot, its path id and the deadline of
  its context; \<open>wn_inflight\<close> is the table they share with the loop. \<open>wn_stop\<close> says that \<open>stop\<close> is closed,
  \<open>wn_cancelled\<close> that the context of the lookups is cancelled, \<open>wn_returned\<close> that the loop has ended.
\<close>

record WanLoop =
  wn_sess :: session
  wn_inflight :: "byte list"
  wn_lookups :: "(nat \<times> byte \<times> int) list"
  wn_next :: int
  wn_stop :: bool
  wn_cancelled :: bool
  wn_returned :: bool

definition wan_do_sweep :: "int \<Rightarrow> WanLoop \<Rightarrow> WanLoop" where
  "wan_do_sweep now w =
    (case wan_sweep (wn_sess w) [0..<MaxPaths] (wn_inflight w) of
       (ls, fl) \<Rightarrow> w\<lparr>wn_inflight := fl,
         wn_lookups := wn_lookups w @ map (\<lambda>l. (fst l, pa_ID (the (se_paths (wn_sess w) (fst l))), now + wanInfoTimeout)) ls\<rparr>)"

definition wanInfoLoop :: "int \<Rightarrow> session \<Rightarrow> WanLoop" where
  "wanInfoLoop now s = wan_do_sweep now
     \<lparr>wn_sess = s, wn_inflight = [], wn_lookups = [], wn_next = now + wanInfoSweep, wn_stop = False,
      wn_cancelled = False, wn_returned = False\<rparr>"

definition wan_tick :: "int \<Rightarrow> WanLoop \<Rightarrow> WanLoop" where
  "wan_tick now w = (wan_do_sweep now w)\<lparr>wn_next := next_tick wanInfoSweep (wn_next w) now\<rparr>"

text \<open>The end of the goroutine at position \<open>k\<close> with result \<open>res\<close>.\<close>

definition wan_finish :: "nat \<Rightarrow> ipinfo_error + WanInfo \<Rightarrow> WanLoop \<Rightarrow> WanLoop" where
  "wan_finish k res w =
    (case wn_lookups w ! k of
       (slot, pid, _) \<Rightarrow>
         (case wan_done slot pid res (wn_sess w, wn_inflight w) of
            (s, fl) \<Rightarrow> w\<lparr>wn_sess := s, wn_inflight := fl,
              wn_lookups := take k (wn_lookups w) @ drop (Suc k) (wn_lookups w)\<rparr>))"

text \<open>
  The loop among the other goroutines. Those never remove a path object of a client; they may do
  anything else to the session (\<open>other\<close>).
\<close>

inductive wan_step :: "WanLoop \<Rightarrow> WanLoop \<Rightarrow> bool" where
  tick: "\<not> wn_returned w \<Longrightarrow> wn_next w \<le> now \<Longrightarrow> wan_step w (wan_tick now w)"
| finish: "k < length (wn_lookups w) \<Longrightarrow> wan_step w (wan_finish k res w)"
| other: "agrees s \<Longrightarrow> wan_step w (w\<lparr>wn_sess := s\<rparr>)"
| stop: "wan_step w (w\<lparr>wn_stop := True\<rparr>)"
| cancel: "wn_stop w \<Longrightarrow> wan_step w (w\<lparr>wn_cancelled := True\<rparr>)"
| return: "wn_stop w \<Longrightarrow> wan_step w (w\<lparr>wn_returned := True, wn_cancelled := True\<rparr>)"

definition wan_inv :: "WanLoop \<Rightarrow> bool" where
  "wan_inv w \<longleftrightarrow> agrees (wn_sess w) \<and> mset (map (\<lambda>l. fst (snd l)) (wn_lookups w)) = mset (wn_inflight w) \<and>
    distinct (wn_inflight w) \<and> (\<forall>(i, pid, t) \<in> set (wn_lookups w). i = unat pid) \<and>
    (wn_returned w \<longrightarrow> wn_stop w \<and> wn_cancelled w) \<and> (wn_cancelled w \<longrightarrow> wn_stop w)"

lemma wan_sweep_inflight:
  "mset (snd (wan_sweep s is fl)) = mset (map (\<lambda>l. pa_ID (the (se_paths s (fst l)))) (fst (wan_sweep s is fl))) + mset fl \<and>
    (distinct fl \<longrightarrow> distinct (snd (wan_sweep s is fl)))"
proof (induction s "is" fl rule: wan_sweep.induct)
  case (2 s i "is" fl)
  show ?case
  proof (cases "se_paths s i")
    case None
    then show ?thesis using "2.IH"(1) by simp
  next
    case (Some p)
    then show ?thesis
      using "2.IH"(2) [OF Some] "2.IH"(3) [OF Some]
      by (cases "needs_lookup fl p") (auto simp: split_beta needs_lookup_def)
  qed
qed simp

lemma wan_sweep_slots:
  "agrees s \<Longrightarrow> (i, n) \<in> set (fst (wan_sweep s is fl)) \<Longrightarrow> unat (pa_ID (the (se_paths s i))) = i"
  by (induction s "is" fl rule: wan_sweep.induct)
    (auto simp: split_beta dest: agrees_slot(2) split: option.splits if_splits)

lemma wan_do_sweep_inv: "wan_inv w \<Longrightarrow> wan_inv (wan_do_sweep now w)"
proof -
  assume inv: "wan_inv w"
  let ?r = "wan_sweep (wn_sess w) [0..<MaxPaths] (wn_inflight w)"
  have "agrees (wn_sess w)" using inv by (simp add: wan_inv_def)
  then have "\<forall>(i, n) \<in> set (fst ?r). i = unat (pa_ID (the (se_paths (wn_sess w) i)))"
    using wan_sweep_slots by fastforce
  then show ?thesis
    using inv wan_sweep_inflight [of "wn_sess w" "[0..<MaxPaths]" "wn_inflight w"]
    by (auto simp: wan_inv_def wan_do_sweep_def split_beta o_def simp del: MaxPaths_def)
qed

lemma wan_done_agrees: "agrees s \<Longrightarrow> agrees (fst (wan_done i pid res (s, fl)))"
  by (auto simp: wan_done_def agrees_upd_path path_key_def SetWANInfo_def split: sum.split)

lemma filter_eq_remove1: "distinct xs \<Longrightarrow> filter (\<lambda>y. y \<noteq> x) xs = remove1 x xs"
  by (induction xs) (auto simp: filter_id_conv)

lemma wan_finish_inv:
  assumes inv: "wan_inv w" and k: "k < length (wn_lookups w)"
  shows "wan_inv (wan_finish k res w)"
proof -
  obtain i pid t where l: "wn_lookups w ! k = (i, pid, t)" by (cases "wn_lookups w ! k")
  let ?rest = "take k (wn_lookups w) @ drop (Suc k) (wn_lookups w)"
  have ls: "wn_lookups w = take k (wn_lookups w) @ (i, pid, t) # drop (Suc k) (wn_lookups w)"
    using id_take_nth_drop [OF k] l by simp
  have fin: "wan_finish k res w = w\<lparr>wn_sess := fst (wan_done i pid res (wn_sess w, wn_inflight w)),
      wn_inflight := filter (\<lambda>q. q \<noteq> pid) (wn_inflight w), wn_lookups := ?rest\<rparr>"
    by (simp add: wan_finish_def l wan_done_def)
  have "add_mset pid (mset (map (\<lambda>l. fst (snd l)) ?rest)) = mset (wn_inflight w)"
    using inv arg_cong [OF ls, of "\<lambda>l. mset (map (\<lambda>l. fst (snd l)) l)"] by (simp add: wan_inv_def)
  then have "mset (map (\<lambda>l. fst (snd l)) ?rest) = mset (filter (\<lambda>q. q \<noteq> pid) (wn_inflight w))"
    using inv by (simp add: wan_inv_def filter_eq_remove1 flip: \<open>add_mset pid _ = _\<close>)
  moreover have "set ?rest \<subseteq> set (wn_lookups w)" using arg_cong [OF ls, of set] by auto
  ultimately show ?thesis
    using inv wan_done_agrees [of "wn_sess w" i pid res "wn_inflight w"]
    unfolding fin by (auto simp: wan_inv_def)
qed

lemma wan_step_inv: "wan_step w w' \<Longrightarrow> wan_inv w \<Longrightarrow> wan_inv w'"
proof (induction rule: wan_step.induct)
  case (tick w now)
  then show ?case using wan_do_sweep_inv [of w now] by (simp add: wan_tick_def wan_inv_def)
next
  case (finish k w res)
  then show ?case using wan_finish_inv by blast
qed (simp_all add: wan_inv_def)

interpretation lookups: machine wan_step wan_inv
  by unfold_locales (rule wan_step_inv)

text \<open>
  The lookups of public addresses stay exclusive and end. Whatever the other goroutines do
  meanwhile, each path has at most one lookup running, the table of running lookups is exact, and each
  running lookup belongs to the slot of its path; once the loop has returned no step starts
  another lookup and the context of all of them is cancelled, so \<open>Stop\<close> waits for finitely many.
\<close>

theorem wan_lookups_exclusive:
  assumes "agrees s" and "wan_step\<^sup>*\<^sup>* (wanInfoLoop now s) w"
  shows "distinct (map (\<lambda>l. fst (snd l)) (wn_lookups w)) \<and>
    set (wn_inflight w) = (\<lambda>l. fst (snd l)) ` set (wn_lookups w) \<and>
    (\<forall>(i, pid, t) \<in> set (wn_lookups w). i = unat pid) \<and>
    (\<forall>w'. wn_returned w \<longrightarrow> wan_step w w' \<longrightarrow>
       wn_cancelled w' \<and> wn_returned w' \<and> set (wn_lookups w') \<subseteq> set (wn_lookups w) \<and>
       length (wn_lookups w') \<le> length (wn_lookups w))"
proof -
  have "wan_inv (wanInfoLoop now s)"
    unfolding wanInfoLoop_def using assms(1) by (intro wan_do_sweep_inv) (simp add: wan_inv_def)
  then have inv: "wan_inv w" using lookups.reachable_inv [OF assms(2)] by blast
  then have m: "mset (map (\<lambda>l. fst (snd l)) (wn_lookups w)) = mset (wn_inflight w)" "distinct (wn_inflight w)"
    by (simp_all add: wan_inv_def)
  have "wn_cancelled w' \<and> wn_returned w' \<and> set (wn_lookups w') \<subseteq> set (wn_lookups w) \<and>
      length (wn_lookups w') \<le> length (wn_lookups w)" if "wn_returned w" "wan_step w w'" for w'
    using that(2)
  proof cases
    case (finish k res)
    obtain i pid t where "wn_lookups w ! k = (i, pid, t)" by (cases "wn_lookups w ! k")
    then show ?thesis
      using finish that(1) inv set_take_subset [of k "wn_lookups w"] set_drop_subset [of "Suc k" "wn_lookups w"]
      by (auto simp: wan_finish_def wan_done_def wan_inv_def)
  qed (use that(1) inv in \<open>simp_all add: wan_inv_def\<close>)
  then show ?thesis
    using m inv mset_eq_imp_distinct_iff [OF m(1)] mset_eq_setD [OF m(1)] by (simp add: wan_inv_def)
qed

theorem wan_lookups_exclusive_witness:
  "\<exists>e. StartClient sample_env sample_platform 1 (IP4 0x01020304, 443) ''tun0'' sample_client = Some e \<and>
    distinct (map (\<lambda>l. fst (snd l)) (wn_lookups (wanInfoLoop 0 (ce_sess e))))"
proof -
  obtain e where e: "StartClient sample_env sample_platform 1 (IP4 0x01020304, 443) ''tun0'' sample_client = Some e"
    using sample_client_starts by blast
  then show ?thesis
    using wan_lookups_exclusive [OF StartClient_agrees [OF e] rtranclp.rtrancl_refl, of 0] by blast
qed

section \<open>The control socket\<close>

text \<open>
  \<open>ctl.Serve\<close> and the goroutine it starts. The socket file exists from \<open>Listen\<close> until someone removes
  it; \<open>cv_accept\<close> says whether the listener is open. The closing goroutine waits for the context, then
  closes the server, then removes the file.
\<close>

datatype closer = AwaitsContext | Removes | Finished

record 'err CtlServer =
  cv_socket :: bool
  cv_accept :: bool
  cv_ctxDone :: bool
  cv_closer :: closer
  cv_result :: "'err option option"

text \<open>\<open>Remove\<close>, \<open>Listen\<close>, \<open>Chmod\<close>: a stale file is removed first; \<open>listenErr\<close> is the answer of \<open>Listen\<close>.\<close>

definition Serve_start :: "'err option \<Rightarrow> bool \<Rightarrow> 'err CtlServer" where
  "Serve_start listenErr ctxDone =
    (case listenErr of
       Some err \<Rightarrow> \<lparr>cv_socket = False, cv_accept = False, cv_ctxDone = ctxDone, cv_closer = Finished, cv_result = Some (Some err)\<rparr>
     | None \<Rightarrow> \<lparr>cv_socket = True, cv_accept = True, cv_ctxDone = ctxDone, cv_closer = AwaitsContext, cv_result = None\<rparr>)"

definition Serve_return :: "'err \<Rightarrow> 'err CtlServer \<Rightarrow> 'err CtlServer" where
  "Serve_return err c = c\<lparr>cv_result := Some (if cv_ctxDone c then None else Some err)\<rparr>"

inductive ctl_step :: "'err CtlServer \<Rightarrow> 'err CtlServer \<Rightarrow> bool" where
  cancel: "ctl_step c (c\<lparr>cv_ctxDone := True\<rparr>)"
| close: "cv_closer c = AwaitsContext \<Longrightarrow> cv_ctxDone c \<Longrightarrow> ctl_step c (c\<lparr>cv_closer := Removes, cv_accept := False\<rparr>)"
| remove: "cv_closer c = Removes \<Longrightarrow> ctl_step c (c\<lparr>cv_closer := Finished, cv_socket := False\<rparr>)"
| accept_fails: "cv_result c = None \<Longrightarrow> cv_accept c \<Longrightarrow> ctl_step c (Serve_return err c)"
| closed: "cv_result c = None \<Longrightarrow> \<not> cv_accept c \<Longrightarrow> ctl_step c (Serve_return err c)"

definition ctl_inv :: "'err CtlServer \<Rightarrow> bool" where
  "ctl_inv c \<longleftrightarrow> (cv_closer c = AwaitsContext \<longrightarrow> cv_socket c \<and> cv_accept c) \<and>
    (cv_closer c = Removes \<longrightarrow> cv_socket c \<and> \<not> cv_accept c \<and> cv_ctxDone c) \<and>
    (cv_closer c = Finished \<longrightarrow> \<not> cv_socket c \<and> \<not> cv_accept c) \<and>
    (cv_closer c = Finished \<longrightarrow> cv_ctxDone c \<or> (\<exists>err. cv_result c = Some (Some err))) \<and>
    (cv_result c = Some None \<longrightarrow> cv_ctxDone c)"

lemma ctl_step_inv: "ctl_step c c' \<Longrightarrow> ctl_inv c \<Longrightarrow> ctl_inv c'"
  by (induction rule: ctl_step.induct) (auto simp: ctl_inv_def Serve_return_def)

interpretation ctl_server: machine ctl_step ctl_inv
  by unfold_locales (rule ctl_step_inv)

lemma ctl_shuts_down:
  assumes "ctl_inv c" and "cv_ctxDone c"
  shows "\<exists>c'. ctl_step\<^sup>*\<^sup>* c c' \<and> cv_closer c' = Finished \<and> \<not> cv_socket c' \<and> cv_result c' \<noteq> None"
proof -
  have close: "\<exists>c'. ctl_step\<^sup>*\<^sup>* c c' \<and> cv_closer c' = Finished \<and> cv_ctxDone c'"
  proof (cases "cv_closer c")
    case AwaitsContext
    let ?a = "c\<lparr>cv_closer := Removes, cv_accept := False\<rparr>"
    let ?b = "?a\<lparr>cv_closer := Finished, cv_socket := False\<rparr>"
    have "ctl_step c ?a" by (rule ctl_step.close [OF AwaitsContext assms(2)])
    moreover have "ctl_step ?a ?b" by (rule ctl_step.remove) simp
    ultimately have "ctl_step\<^sup>*\<^sup>* c ?b" by (meson converse_rtranclp_into_rtranclp rtranclp.rtrancl_refl)
    then show ?thesis using assms(2) by (intro exI [of _ ?b]) simp
  next
    case Removes
    let ?b = "c\<lparr>cv_closer := Finished, cv_socket := False\<rparr>"
    have "ctl_step\<^sup>*\<^sup>* c ?b" using ctl_step.remove [OF Removes] by (rule r_into_rtranclp)
    then show ?thesis using assms(2) by (intro exI [of _ ?b]) simp
  next
    case Finished
    then show ?thesis using assms(2) by blast
  qed
  then obtain c1 where c1: "ctl_step\<^sup>*\<^sup>* c c1" "cv_closer c1 = Finished" "cv_ctxDone c1" by blast
  have inv: "ctl_inv c1" by (rule ctl_server.reachable_inv [OF c1(1) assms(1)])
  show ?thesis
  proof (cases "cv_result c1")
    case None
    then have "ctl_step c1 (Serve_return undefined c1)"
      using inv c1(2) by (intro ctl_step.closed) (simp_all add: ctl_inv_def)
    then have "ctl_step\<^sup>*\<^sup>* c (Serve_return undefined c1)" using c1(1) by (rule rtranclp.rtrancl_into_rtrancl [rotated])
    then show ?thesis using inv c1(2)
      by (intro exI [of _ "Serve_return undefined c1"]) (simp add: Serve_return_def ctl_inv_def)
  next
    case (Some r)
    then show ?thesis using inv c1 by (intro exI [of _ c1]) (simp add: ctl_inv_def)
  qed
qed

text \<open>
  The control socket lives as long as the daemon wants it. While nobody has cancelled the context the file
  is there and requests are accepted; \<open>Serve\<close> reports success only after cancellation; and from every
  reachable state in which the context is cancelled both goroutines can finish, with the file removed.
\<close>

theorem ctl_socket_lifetime:
  assumes "ctl_step\<^sup>*\<^sup>* (Serve_start None False) c"
  shows "(\<not> cv_ctxDone c \<longrightarrow> cv_socket c \<and> cv_accept c \<or> (\<exists>err. cv_result c = Some (Some err))) \<and>
    (cv_result c = Some None \<longrightarrow> cv_ctxDone c) \<and>
    (cv_ctxDone c \<longrightarrow> (\<exists>c'. ctl_step\<^sup>*\<^sup>* c c' \<and> cv_closer c' = Finished \<and> \<not> cv_socket c' \<and> cv_result c' \<noteq> None))"
proof -
  have "ctl_inv (Serve_start None False)" by (simp add: ctl_inv_def Serve_start_def)
  then have inv: "ctl_inv c" by (rule ctl_server.reachable_inv [OF assms])
  then have "\<not> cv_ctxDone c \<longrightarrow> cv_socket c \<and> cv_accept c \<or> (\<exists>err. cv_result c = Some (Some err))"
    by (cases "cv_closer c") (auto simp: ctl_inv_def)
  then show ?thesis using inv ctl_shuts_down [OF inv] by (auto simp: ctl_inv_def)
qed

section \<open>The status command\<close>

text \<open>
  \<open>runStatus\<close> over the answers \<open>Client.Status\<close> gets from the daemon, one per round; \<open>json\<close> is the text of a
  report as JSON (\<open>None\<close> when encoding fails). It gives what is printed and how it ends; with \<open>-watch\<close> it
  goes on as long as there are answers.
\<close>

datatype status_end = StatusOk | NoDaemon | EncodeFailed | StillWatching

definition clear_screen :: string where
  "clear_screen = [CHR 0x1B] @ ''[H'' @ [CHR 0x1B] @ ''[2J''"

fun runStatus :: "(Status \<Rightarrow> string option) \<Rightarrow> bool \<Rightarrow> bool \<Rightarrow> Status option list \<Rightarrow> string list \<times> status_end" where
  "runStatus json asJSON watch [] = ([], StillWatching)"
| "runStatus json asJSON watch (None # rs) = ([], NoDaemon)"
| "runStatus json asJSON watch (Some st # rs) =
    (if asJSON \<and> json st = None then ([], EncodeFailed)
     else let out = (if asJSON then [the (json st)] else (if watch then [clear_screen] else []) @ printStatus st)
          in if \<not> watch then (out, StatusOk)
             else case runStatus json asJSON watch rs of (rest, r) \<Rightarrow> (out @ rest, r))"

text \<open>Without \<open>-watch\<close> one answer settles it; with it every report up to the first failure is printed.\<close>

theorem runStatus_rounds:
  "runStatus json False False (r # rs) = (case r of None \<Rightarrow> ([], NoDaemon) | Some st \<Rightarrow> (printStatus st, StatusOk))"
  "runStatus json False True (map Some sts @ None # rs) = (concat (map (\<lambda>st. clear_screen # printStatus st) sts), NoDaemon)"
proof -
  show "runStatus json False False (r # rs) = (case r of None \<Rightarrow> ([], NoDaemon) | Some st \<Rightarrow> (printStatus st, StatusOk))"
    by (cases r) simp_all
  show "runStatus json False True (map Some sts @ None # rs) = (concat (map (\<lambda>st. clear_screen # printStatus st) sts), NoDaemon)"
    by (induction sts) simp_all
qed

end
