(* ===== verification/Spec2Isabelle.thy ===== *)
theory Spec2Isabelle
  imports Replay_Correct Buffer_Limits Pktbuf Services
begin

text \<open>
  \<^bold>\<open>A verification library for amane\<close>, the multipath tunnel under \<open>src/\<close> (Go). A client binds one
  UDP socket per network link and spreads the packets of a TUN device over them; a relay server
  puts them in order again and forwards them. Both ends run the same session code.

  \<^bold>\<open>The program and the theories that model it.\<close> Each theory translates one package or file; the
  definitions keep the names of the code (a suffix or prefix where HOL has the name already).

  \<^item> \<open>internal/wire\<close> (headers and payloads): \<open>Wire\<close>. The locale \<open>codec\<close> states what a serialiser and
    its parser promise each other; every message kind interprets it.
  \<^item> \<open>internal/replay\<close> and the duplicate filter of \<open>internal/reorder\<close>: both keep a bitmap ring over
    64-bit counters. \<open>Sliding_Window\<close> is the contract (locale \<open>sliding_window\<close>), \<open>Replay\<close> and
    \<open>Reorder_Correct\<close> interpret it on the code's two windows.
  \<^item> \<open>internal/reorder\<close>: \<open>Reorder\<close> (the buffer and its operations), \<open>Reorder_Correct\<close> (its
    properties), \<open>Resequencer\<close> (the abstract resequencer it implements).
  \<^item> \<open>internal/sched\<close>: \<open>Sched\<close>. \<open>internal/pmtud\<close>: \<open>Pmtud\<close>. \<open>internal/path\<close>: \<open>Path\<close>.
  \<^item> \<open>internal/fec\<close>: \<open>Fec\<close> (encoder), \<open>Fec_Decoder\<close> (decoder).
  \<^item> \<open>internal/keys\<close>: \<open>Keys\<close>. \<open>internal/noiseio\<close>: \<open>Noiseio\<close> (epochs, nonces, both sides of the handshake).
  \<^item> \<open>internal/pmtunotify\<close>: \<open>Pmtunotify\<close>. \<open>internal/config\<close>: \<open>Config\<close>. What the program uses of
    \<open>net/netip\<close>: \<open>Netip\<close>.
  \<^item> \<open>internal/engine/session.go\<close>: \<open>Session\<close> (sending, receiving, epochs, paths, the bodies of the
    periodic loops) and \<open>Session_Correct\<close> (what sending leaves alone).
  \<^item> \<open>internal/engine/server.go\<close>, \<open>client.go\<close>, \<open>engine.go\<close>: \<open>Engine\<close> (peer tables, handshakes,
    demultiplexing, links, control operations), \<open>Tunio\<close> (\<open>tunReader\<close>, \<open>tunWriter\<close>), \<open>Supervisor\<close>
    (\<open>clientSupervisor\<close>, \<open>runHandshake\<close>, \<open>handshakeOnce\<close>, \<open>linkManager\<close>), \<open>Startup\<close> (\<open>StartServer\<close>,
    \<open>StartClient\<close>, \<open>Stop\<close> with \<open>tundev\<close>, \<open>platform\<close> and the socket options of \<open>udp\<close>).
  \<^item> \<open>internal/pktbuf\<close> and the hand-over of its buffers: \<open>Pktbuf\<close>.
  \<^item> \<open>internal/platform/ifmonitor.go\<close>, \<open>udp.go\<close>, \<open>route_linux.go\<close>: \<open>Interfaces\<close>; the watchers
    \<open>ifmonitor_linux.go\<close> and \<open>ifmonitor_darwin.go\<close>: \<open>Watch\<close>.
  \<^item> \<open>internal/ctl\<close>, \<open>engine/status.go\<close>, \<open>engine/waninfo.go\<close>, \<open>internal/ipinfo\<close>: \<open>Control\<close> (one request,
    report or sweep) and \<open>Services\<close> (their loops and life times); \<open>cmd/amane\<close>: \<open>Commands\<close>, the loop of
    \<open>amane status\<close> in \<open>Services\<close>.

  \<open>Amane_Prelude\<close> holds the names of the machine integers, byte buffers, the encodings of
  \<open>encoding/binary\<close> and the locales \<open>machine\<close> and \<open>evolving_machine\<close>: a step relation with an
  invariant (and a preorder along which it moves), from which reachability facts follow once for
  the scheduler, the prober, paths, the decoder's table, both engines, the supervisor, the packet
  buffers, the lookups and the control socket. Further interfaces are locales where they are used:
  \<open>simulation\<close> (a component and its specification, \<open>Resequencer\<close>) and \<open>watcher\<close> (what \<open>linkManager\<close> relies on
  of the interface watchers, interpreted for both systems, \<open>Watch\<close>).

  \<^bold>\<open>How they interact.\<close> A packet from the TUN device goes through \<open>client_tun_packet\<close> or
  \<open>server_tun_packet\<close> to \<open>sendData\<close>: \<open>Assign\<close> chooses paths, \<open>Encoder_Add\<close> groups it for repair,
  \<open>seal_datagram\<close> draws a counter from the epoch and seals, \<open>transmit\<close> writes to the path's socket.
  A datagram goes through \<open>path_datagram\<close> or \<open>listen_datagram\<close> to the epoch its index names;
  \<open>handleDatagram\<close> opens it, checks the replay window, confirms a pending epoch, follows a roaming
  peer and dispatches; data ends in \<open>Push\<close> of the reorder buffer and from there in \<open>tunOut\<close>. The
  tables two components share are related by invariants: \<open>agrees\<close> (path objects and scheduler
  slots), \<open>epochs_ok\<close> and \<open>index_ok\<close> (epochs of a session and the server's index over all sessions),
  \<open>windows_sound\<close> (what a window has accepted).

  \<^bold>\<open>What is shown.\<close> End to end (\<open>Delivery\<close>): a packet that \<open>sendData\<close> sends is pushed by the other
  end as the same packet under the same number, and a bonded stream spread over paths and
  permuted on the way leaves complete and in order. Confidentiality depends on the libraries, but
  their use is right: both sides derive matching keys, no key sees a nonce twice, replayed
  datagrams (\<open>Replay_Correct\<close>) and replayed handshakes have no effect whatever happened in between, rekeying
  keeps the old keys for exactly the grace period (\<open>Epochs_Correct\<close>). The engines, in every interleaving of their loops
  (\<open>client_step\<close>, \<open>server_step\<close>, \<open>supervised\<close> are the step relations): data is scheduled only on paths that
  are up and admit its size (\<open>Path_Agreement\<close>), the server's index is exact (\<open>Epochs_Correct\<close>), an established client has an epoch to send
  with, failed handshakes are retried in bounded time, stopping ends, failed starts leave nothing
  open, every packet buffer has exactly one owner, no change of the interfaces goes unnoticed although
  events are dropped. Per component: the reorder buffer refines a
  resequencer on a map and accounts for every packet; the scheduler is fair to the weights; MTU
  discovery converges and never exceeds the path; repair recovers losses up to the parity; replies
  for oversized packets are well-formed and rate-limited; configuration that loads is in range; text
  forms and headers read back. Theorems that show a defect of the code are named in the findings of
  the manifest (replay window edge, duplicate window edge, repeated recovery, limiter that never
  reaps, unvalidated tuning, epochs that stay, buffer overruns (\<open>Buffer_Limits\<close>), a watcher that outlives \<open>stop\<close>).

  \<^bold>\<open>How the code is represented.\<close> A struct is a record, a tagged constant a datatype, a fixed-width
  integer a word; Go's \<open>int\<close> is \<open>int\<close>, with \<open>wrap_int64\<close> where a product can overflow; \<open>float64\<close> is
  \<open>real\<close>, so rounding is not modelled. Arrays indexed below their length are functions. A Go map is a
  map or an association list; where the code ranges over one, the order is a parameter. A run-time
  panic is \<open>None\<close>, an error is \<open>Inl\<close> of a datatype of the package. Callbacks of the reorder buffer are
  logs (\<open>b_emitted\<close>, \<open>b_released\<close>), writes to sockets are the log \<open>se_sent\<close>. Pointers to epochs are
  indices into the heap \<open>se_heap\<close> of the session, because epochs are shared between the tables and
  mutated in place. A mutex is the atomicity of the operation it guards; a goroutine is a step
  relation whose steps are the bodies of its loop, or, where it waits, a state machine with one phase
  per blocking point. The clock, random bytes and what the operating system answers are arguments.
  Libraries outside the repository are parameters with their documented laws as named
  hypotheses, instantiated by concrete functions in the witnesses: \<open>Crypto\<close> and \<open>Noise\<close> (\<open>aead_correct\<close>,
  \<open>noise_correct\<close>; instance \<open>plain_crypto\<close>, \<open>plain_noise\<close>), the Reed-Solomon codec (\<open>rs_recovers\<close>; instance
  \<open>xor_codec\<close>), the TOML and JSON decoders, the resolver, X25519.

  \<^bold>\<open>Bounds and termination.\<close> No definition uses fuel: every loop is structural recursion or has a
  termination proof (held packets, occupied slots, distance to a target, remaining random draws). Loops
  that draw random numbers consume a list of draws; \<open>allocRxID_terminates\<close> says when it suffices.
  Where a goroutine may run forever it is a step relation, and what holds of it is shown of every
  reachable state. Constants (ring sizes, capacities, timeouts) are those of the code.

  \<^bold>\<open>Not modelled\<close>, and why: the kernels' side of netlink, nftables, sockets and the TUN library (they
  answer the calls that \<open>Startup\<close> logs); HTTP, JSON, TLS, the unix socket, flag parsing and signals (the
  standard library); log output; the raw memory behind buffers beyond bounds and ownership; real
  concurrency inside an operation without a lock (atomic counters are read and written whole).
\<close>

end
